(* ===== verification/Uth_Prelude.thy ===== *)
theory Uth_Prelude
  imports Main "HOL-Library.Word" "HOL-Library.Sublist"
begin

unbundle bit_operations_syntax

text \<open>
  The prelude of the development: the machine types of the C sources, the result type of every
  modelled function, its sequencing operator with the rewriting and inversion rules the component
  proofs use, and the generic lemmas on words and lists that more than one component needs.
\<close>

section \<open>Machine types\<close>

text \<open>
  A pointer is a 64-bit word, as the cast to \<open>uintptr_t\<close> in \<open>uth_create\<close> makes it, and
  \<open>NULL\<close> is the zero word. An \<open>unsigned int\<close> (thread ids, tickets, table sizes) is a 32-bit
  word, whose addition wraps. A signal mask is represented by the one bit the sources use:
  whether \<open>SIGALRM\<close> is blocked.
\<close>

type_synonym u32 = "32 word"
type_synonym u64 = "64 word"
type_synonym ptr = "64 word"
type_synonym val = "64 word"
type_synonym sigset = bool

abbreviation NULL :: ptr where
  "NULL \<equiv> 0"

abbreviation UTH_TID_INVALID :: u32 where
  "UTH_TID_INVALID \<equiv> 0"

abbreviation UTH_STACK_DEFAULT :: u64 where
  "UTH_STACK_DEFAULT \<equiv> 512 * 1024"

definition INT_MAX :: int where
  "INT_MAX = 2 ^ 31 - 1"

section \<open>Results\<close>

text \<open>
  A C function either returns (\<open>Ok\<close>), stops the process or runs into undefined behaviour
  (\<open>Fault\<close>), or never returns (\<open>NoReturn\<close>, a loop over a cyclic list).
\<close>

datatype fault =
    NullDeref
  | UseAfterFree
  | BadObject
  | OutOfBounds
  | SignedOverflow
  | DivisionByZero
  | AssertFail string
  | ExitFailure string
  | Unreachable

datatype 'a res = Ok 'a | Fault fault | NoReturn

fun and_then :: "'a res \<Rightarrow> ('a \<Rightarrow> 'b res) \<Rightarrow> 'b res" where
  "and_then (Ok x) f = f x"
| "and_then (Fault e) f = Fault e"
| "and_then NoReturn f = NoReturn"

definition the_loop :: "'a res option \<Rightarrow> 'a res" where
  "the_loop r = (case r of None \<Rightarrow> NoReturn | Some x \<Rightarrow> x)"

named_theorems ok_iff \<open>when an expression returns normally\<close>
named_theorems uth_ok \<open>an operation returns normally, and in which state\<close>
named_theorems uth_frame \<open>parts of the state an operation leaves unchanged\<close>
named_theorems uth_erase \<open>how an operation changes the state without its links\<close>

lemma the_loop_simps [simp]:
  "the_loop None = NoReturn"
  "the_loop (Some x) = x"
  by (simp_all add: the_loop_def)

lemma and_then_eq_Ok [ok_iff]:
  "and_then r f = Ok y \<longleftrightarrow> (\<exists>x. r = Ok x \<and> f x = Ok y)"
  by (cases r) simp_all

lemma and_then_assoc: "and_then (and_then r f) g = and_then r (\<lambda>x. and_then (f x) g)"
  by (cases r) simp_all

lemma and_then_Ok_right [simp]: "and_then r Ok = r"
  by (cases r) simp_all

lemma and_then_cong [fundef_cong]:
  "\<lbrakk>r = r'; \<And>x. r' = Ok x \<Longrightarrow> f x = g x\<rbrakk> \<Longrightarrow> and_then r f = and_then r' g"
  by (cases r') simp_all

section \<open>Words\<close>

lemma unat_suc_word:
  fixes w :: "'a::len word"
  assumes "Suc (unat w) < 2 ^ LENGTH('a)"
  shows "unat (w + 1) = Suc (unat w)"
  using assms by (simp add: unat_word_ariths)

lemma unat_double_u32:
  fixes w :: u32
  assumes "unat w < 2 ^ 31"
  shows "unat (w * 2) = 2 * unat w"
  using assms by (simp add: unat_word_ariths)

lemma unat_ucast_u32 [simp]: "unat (ucast (w :: u32) :: u64) = unat w"
  by (simp add: unsigned_ucast_eq take_bit_nat_eq_self unsigned_less [THEN order_less_le_trans])

text \<open>Splitting a 64-bit word into its two 32-bit halves and joining them again.\<close>

definition hi_half :: "u64 \<Rightarrow> u32" where
  "hi_half p = ucast (drop_bit 32 p)"

definition lo_half :: "u64 \<Rightarrow> u32" where
  "lo_half p = ucast (p AND 0xFFFFFFFF)"

definition join_halves :: "u32 \<Rightarrow> u32 \<Rightarrow> u64" where
  "join_halves hi lo = push_bit 32 (ucast hi) OR ucast lo"

lemma mask32_eq: "(0xFFFFFFFF :: u64) = mask 32"
  by (simp add: mask_eq_exp_minus_1)

lemma join_halves_split: "join_halves (hi_half p) (lo_half p) = p"
proof (rule bit_word_eqI)
  fix n :: nat
  assume "n < LENGTH(64)"
  then show "bit (join_halves (hi_half p) (lo_half p)) n = bit p n"
    unfolding join_halves_def hi_half_def lo_half_def mask32_eq
    by (auto simp: bit_or_iff bit_push_bit_iff bit_ucast_iff bit_drop_bit_eq bit_and_iff bit_mask_iff)
qed

section \<open>Lists\<close>

lemma last_snoc_if [simp]: "(if xs @ [x] = [] then a else last (xs @ [x])) = x"
  by simp

lemma list_snoc_cases: "xs = [] \<or> (\<exists>ys y. xs = ys @ [y])"
  by (cases xs rule: rev_cases) auto

section \<open>Options\<close>

lemma map_option_Some: "map_option f x = map_option g y \<Longrightarrow> y = Some b \<Longrightarrow> \<exists>a. x = Some a"
  by (cases x) auto

declare prefix_order.refl [simp, intro]

end
