(* ===== verification/Uth_State.thy ===== *)
theory Uth_State
  imports Uth_Prelude
begin

text \<open>
  The data of the library: the structures of \<open>uthreads.h\<close> and \<open>uthreads_internal.h\<close>, the
  globals of \<open>thread.c\<close> and \<open>preempt.c\<close>, and the memory accesses that can fault.

  A saved \<open>ucontext_t\<close> keeps the signal mask, the stack description and the C call stack of the
  suspended thread. A thread is suspended by the \<open>swapcontext\<close> calls of the library and by the
  arrival of \<open>SIGALRM\<close> in user code or in one of the library functions that do not block it, so a call stack is the list
  of the library frames that are still active, innermost first; the empty list is user code. Each frame holds the locals that
  the function uses after it is resumed, among them the signal mask \<open>old\<close>.
\<close>

section \<open>Thread control blocks\<close>

datatype uth_state_t =
    UTH_STATE_READY
  | UTH_STATE_RUNNING
  | UTH_STATE_BLOCKED
  | UTH_STATE_ZOMBIE

datatype frame =
    F_trampoline u32 u32
  | F_create_ret ptr
  | F_yield sigset
  | F_exit
  | F_join u32 bool sigset
  | F_mutex_lock ptr sigset
  | F_spin_lock ptr
  | F_ticket_lock ptr u32 sigset
  | F_cond_wait ptr ptr sigset
  | F_cond_relock sigset
  | F_sem_wait ptr sigset
  | F_sched_entry
  | F_sched_swapped
  | F_count nat int
  | F_count_at nat int ptr
  | F_preempt_enable
  | F_preempt_disable

record ucontext_t =
  uc_sigmask :: sigset
  uc_ss_sp :: ptr
  uc_ss_size :: u64
  uc_link :: ptr
  uc_fpregs :: ptr
  uc_frames :: "frame list"

record uth_tcb_t =
  tcb_tid :: u32
  tcb_state :: uth_state_t
  tcb_ctx :: ucontext_t
  tcb_stack :: ptr
  tcb_stack_size :: u64
  tcb_fn :: ptr
  tcb_arg :: val
  tcb_retval :: val
  tcb_next :: ptr
  tcb_joiner :: ptr
  tcb_ticket :: u32

definition ucontext0 :: ucontext_t where
  "ucontext0 = \<lparr>uc_sigmask = False, uc_ss_sp = NULL, uc_ss_size = 0, uc_link = NULL,
     uc_fpregs = NULL, uc_frames = []\<rparr>"

definition tcb0 :: uth_tcb_t where
  "tcb0 = \<lparr>tcb_tid = 0, tcb_state = UTH_STATE_READY, tcb_ctx = ucontext0, tcb_stack = NULL,
     tcb_stack_size = 0, tcb_fn = NULL, tcb_arg = 0, tcb_retval = 0, tcb_next = NULL,
     tcb_joiner = NULL, tcb_ticket = 0\<rparr>"

section \<open>Synchronisation objects\<close>

record uth_mutex_t =
  mtx_locked :: int
  mtx_owner :: u32
  mtx_waiters :: ptr

record uth_spinlock_t =
  spin_flag :: bool

record uth_ticket_t =
  tk_next_ticket :: u32
  tk_now_serving :: u32
  tk_waiters :: ptr

record uth_cond_t =
  cv_waiters :: ptr

record uth_sem_t =
  sem_value :: int
  sem_waiters :: ptr

definition UTH_MUTEX_INITIALIZER :: uth_mutex_t where
  "UTH_MUTEX_INITIALIZER = \<lparr>mtx_locked = 0, mtx_owner = UTH_TID_INVALID, mtx_waiters = NULL\<rparr>"

definition UTH_SPINLOCK_INITIALIZER :: uth_spinlock_t where
  "UTH_SPINLOCK_INITIALIZER = \<lparr>spin_flag = False\<rparr>"

definition UTH_TICKET_INITIALIZER :: uth_ticket_t where
  "UTH_TICKET_INITIALIZER = \<lparr>tk_next_ticket = 0, tk_now_serving = 0, tk_waiters = NULL\<rparr>"

definition UTH_COND_INITIALIZER :: uth_cond_t where
  "UTH_COND_INITIALIZER = \<lparr>cv_waiters = NULL\<rparr>"

section \<open>The state of the process\<close>

text \<open>
  \<open>heap\<close> holds the TCBs that are allocated; the other maps hold the client's synchronisation
  objects by address; \<open>stacks\<close> the regions obtained from \<open>mmap\<close>. \<open>sigmask\<close> is the mask of the
  process. \<open>uth_run\<close> keeps its local \<open>bootstrap\<close> context and its static flag \<open>returned\<close> here,
  and \<open>sigalrm_handler\<close> and \<open>itimer_usec\<close> are what \<open>sigaction\<close> and \<open>setitimer\<close> have set.
\<close>

record sys =
  heap :: "ptr \<Rightarrow> uth_tcb_t option"
  mutexes :: "ptr \<Rightarrow> uth_mutex_t option"
  spins :: "ptr \<Rightarrow> uth_spinlock_t option"
  tickets :: "ptr \<Rightarrow> uth_ticket_t option"
  conds :: "ptr \<Rightarrow> uth_cond_t option"
  sems :: "ptr \<Rightarrow> uth_sem_t option"
  stacks :: "ptr \<Rightarrow> u64 option"
  uth_current :: ptr
  uth_sched_ctx :: ucontext_t
  rq_head :: ptr
  rq_tail :: ptr
  tcb_table :: "ptr list"
  tcb_capacity :: u32
  tcb_count :: u32
  next_tid :: u32
  sigmask :: sigset
  run_bootstrap :: ucontext_t
  run_returned :: bool
  alt_stack_mem :: ptr
  preempt_enabled :: bool
  sigalrm_handler :: bool
  itimer_usec :: u64

definition sys0 :: sys where
  "sys0 = \<lparr>heap = (\<lambda>_. None), mutexes = (\<lambda>_. None), spins = (\<lambda>_. None), tickets = (\<lambda>_. None),
     conds = (\<lambda>_. None), sems = (\<lambda>_. None), stacks = (\<lambda>_. None),
     uth_current = NULL, uth_sched_ctx = ucontext0, rq_head = NULL, rq_tail = NULL,
     tcb_table = [], tcb_capacity = 0, tcb_count = 0, next_tid = 1,
     sigmask = False, run_bootstrap = ucontext0, run_returned = False,
     alt_stack_mem = NULL, preempt_enabled = False, sigalrm_handler = False, itimer_usec = 0\<rparr>"

section \<open>Memory accesses\<close>

definition get_tcb :: "ptr \<Rightarrow> sys \<Rightarrow> uth_tcb_t res" where
  "get_tcb x s = (if x = NULL then Fault NullDeref
     else case heap s x of None \<Rightarrow> Fault UseAfterFree | Some t \<Rightarrow> Ok t)"

definition upd_tcb :: "ptr \<Rightarrow> (uth_tcb_t \<Rightarrow> uth_tcb_t) \<Rightarrow> sys \<Rightarrow> sys" where
  "upd_tcb x f s = s\<lparr>heap := (heap s)(x := map_option f (heap s x))\<rparr>"

definition modify_tcb :: "ptr \<Rightarrow> (uth_tcb_t \<Rightarrow> uth_tcb_t) \<Rightarrow> sys \<Rightarrow> sys res" where
  "modify_tcb x f s = and_then (get_tcb x s) (\<lambda>t. Ok (upd_tcb x f s))"

definition get_mutex :: "ptr \<Rightarrow> sys \<Rightarrow> uth_mutex_t res" where
  "get_mutex m s = (case mutexes s m of None \<Rightarrow> Fault BadObject | Some x \<Rightarrow> Ok x)"

definition set_mutex :: "ptr \<Rightarrow> uth_mutex_t \<Rightarrow> sys \<Rightarrow> sys" where
  "set_mutex m x s = s\<lparr>mutexes := (mutexes s)(m \<mapsto> x)\<rparr>"

definition get_spin :: "ptr \<Rightarrow> sys \<Rightarrow> uth_spinlock_t res" where
  "get_spin m s = (case spins s m of None \<Rightarrow> Fault BadObject | Some x \<Rightarrow> Ok x)"

definition set_spin :: "ptr \<Rightarrow> uth_spinlock_t \<Rightarrow> sys \<Rightarrow> sys" where
  "set_spin m x s = s\<lparr>spins := (spins s)(m \<mapsto> x)\<rparr>"

definition get_ticket :: "ptr \<Rightarrow> sys \<Rightarrow> uth_ticket_t res" where
  "get_ticket m s = (case tickets s m of None \<Rightarrow> Fault BadObject | Some x \<Rightarrow> Ok x)"

definition set_ticket :: "ptr \<Rightarrow> uth_ticket_t \<Rightarrow> sys \<Rightarrow> sys" where
  "set_ticket m x s = s\<lparr>tickets := (tickets s)(m \<mapsto> x)\<rparr>"

definition get_cond :: "ptr \<Rightarrow> sys \<Rightarrow> uth_cond_t res" where
  "get_cond m s = (case conds s m of None \<Rightarrow> Fault BadObject | Some x \<Rightarrow> Ok x)"

definition set_cond :: "ptr \<Rightarrow> uth_cond_t \<Rightarrow> sys \<Rightarrow> sys" where
  "set_cond m x s = s\<lparr>conds := (conds s)(m \<mapsto> x)\<rparr>"

definition get_sem :: "ptr \<Rightarrow> sys \<Rightarrow> uth_sem_t res" where
  "get_sem m s = (case sems s m of None \<Rightarrow> Fault BadObject | Some x \<Rightarrow> Ok x)"

definition set_sem :: "ptr \<Rightarrow> uth_sem_t \<Rightarrow> sys \<Rightarrow> sys" where
  "set_sem m x s = s\<lparr>sems := (sems s)(m \<mapsto> x)\<rparr>"

lemmas get_object_defs = get_mutex_def get_spin_def get_ticket_def get_cond_def get_sem_def
lemmas set_object_defs = set_mutex_def set_spin_def set_ticket_def set_cond_def set_sem_def

lemma get_tcb_eq_Ok [ok_iff]: "get_tcb x s = Ok t \<longleftrightarrow> x \<noteq> NULL \<and> heap s x = Some t"
  by (simp add: get_tcb_def split: option.splits)

lemma get_object_eq_Ok [ok_iff]:
  "get_mutex m s = Ok x \<longleftrightarrow> mutexes s m = Some x"
  "get_spin m s = Ok y \<longleftrightarrow> spins s m = Some y"
  "get_ticket m s = Ok z \<longleftrightarrow> tickets s m = Some z"
  "get_cond m s = Ok v \<longleftrightarrow> conds s m = Some v"
  "get_sem m s = Ok w \<longleftrightarrow> sems s m = Some w"
  by (simp_all add: get_object_defs split: option.splits)

lemma modify_tcb_eq_Ok [ok_iff]:
  "modify_tcb x f s = Ok s' \<longleftrightarrow> x \<noteq> NULL \<and> heap s x \<noteq> None \<and> s' = upd_tcb x f s"
  by (auto simp: modify_tcb_def ok_iff)

lemma heap_upd_tcb: "heap (upd_tcb x f s) y = (if y = x then map_option f (heap s x) else heap s y)"
  by (simp add: upd_tcb_def)

lemma upd_tcb_simps [simp]:
  "mutexes (upd_tcb x f s) = mutexes s" "spins (upd_tcb x f s) = spins s"
  "tickets (upd_tcb x f s) = tickets s" "conds (upd_tcb x f s) = conds s"
  "sems (upd_tcb x f s) = sems s" "stacks (upd_tcb x f s) = stacks s"
  "uth_current (upd_tcb x f s) = uth_current s" "uth_sched_ctx (upd_tcb x f s) = uth_sched_ctx s"
  "rq_head (upd_tcb x f s) = rq_head s" "rq_tail (upd_tcb x f s) = rq_tail s"
  "tcb_table (upd_tcb x f s) = tcb_table s" "tcb_capacity (upd_tcb x f s) = tcb_capacity s"
  "tcb_count (upd_tcb x f s) = tcb_count s" "next_tid (upd_tcb x f s) = next_tid s"
  "sigmask (upd_tcb x f s) = sigmask s" "run_bootstrap (upd_tcb x f s) = run_bootstrap s"
  "run_returned (upd_tcb x f s) = run_returned s" "alt_stack_mem (upd_tcb x f s) = alt_stack_mem s"
  "preempt_enabled (upd_tcb x f s) = preempt_enabled s"
  "sigalrm_handler (upd_tcb x f s) = sigalrm_handler s" "itimer_usec (upd_tcb x f s) = itimer_usec s"
  by (simp_all add: upd_tcb_def)

lemma get_tcb_ok [simp]: "\<lbrakk>heap s x = Some t; x \<noteq> NULL\<rbrakk> \<Longrightarrow> get_tcb x s = Ok t"
  by (simp add: ok_iff)

lemma modify_tcb_ok [simp]:
  "\<lbrakk>heap s x = Some t; x \<noteq> NULL\<rbrakk> \<Longrightarrow> modify_tcb x f s = Ok (upd_tcb x f s)"
  by (simp add: ok_iff)

lemma get_object_ok [simp]:
  "mutexes s m = Some x \<Longrightarrow> get_mutex m s = Ok x"
  "spins s m = Some y \<Longrightarrow> get_spin m s = Ok y"
  "tickets s m = Some z \<Longrightarrow> get_ticket m s = Ok z"
  "conds s m = Some v \<Longrightarrow> get_cond m s = Ok v"
  "sems s m = Some w \<Longrightarrow> get_sem m s = Ok w"
  by (simp_all add: ok_iff)

section \<open>Pointers to TCB pointers\<close>

text \<open>
  A \<open>uth_tcb_t **\<close> of the sources points to the head or the tail of the run queue, to the
  \<open>waiters\<close> field of a synchronisation object, or to the \<open>next\<close> field of a TCB.
\<close>

datatype tcb_pp =
    RqHead
  | RqTail
  | MutexWaiters ptr
  | TicketWaiters ptr
  | CondWaiters ptr
  | SemWaiters ptr
  | NextOf ptr

fun load_pp :: "tcb_pp \<Rightarrow> sys \<Rightarrow> ptr res" where
  "load_pp RqHead s = Ok (rq_head s)"
| "load_pp RqTail s = Ok (rq_tail s)"
| "load_pp (MutexWaiters m) s = and_then (get_mutex m s) (\<lambda>x. Ok (mtx_waiters x))"
| "load_pp (TicketWaiters m) s = and_then (get_ticket m s) (\<lambda>x. Ok (tk_waiters x))"
| "load_pp (CondWaiters m) s = and_then (get_cond m s) (\<lambda>x. Ok (cv_waiters x))"
| "load_pp (SemWaiters m) s = and_then (get_sem m s) (\<lambda>x. Ok (sem_waiters x))"
| "load_pp (NextOf t) s = and_then (get_tcb t s) (\<lambda>x. Ok (tcb_next x))"

fun store_pp :: "tcb_pp \<Rightarrow> ptr \<Rightarrow> sys \<Rightarrow> sys res" where
  "store_pp RqHead v s = Ok (s\<lparr>rq_head := v\<rparr>)"
| "store_pp RqTail v s = Ok (s\<lparr>rq_tail := v\<rparr>)"
| "store_pp (MutexWaiters m) v s =
     and_then (get_mutex m s) (\<lambda>x. Ok (set_mutex m (x\<lparr>mtx_waiters := v\<rparr>) s))"
| "store_pp (TicketWaiters m) v s =
     and_then (get_ticket m s) (\<lambda>x. Ok (set_ticket m (x\<lparr>tk_waiters := v\<rparr>) s))"
| "store_pp (CondWaiters m) v s =
     and_then (get_cond m s) (\<lambda>x. Ok (set_cond m (x\<lparr>cv_waiters := v\<rparr>) s))"
| "store_pp (SemWaiters m) v s =
     and_then (get_sem m s) (\<lambda>x. Ok (set_sem m (x\<lparr>sem_waiters := v\<rparr>) s))"
| "store_pp (NextOf t) v s = modify_tcb t (\<lambda>x. x\<lparr>tcb_next := v\<rparr>) s"

declare load_pp.simps [simp del] store_pp.simps [simp del]

lemmas pp_simps = load_pp.simps store_pp.simps

lemma load_rq [simp]: "load_pp RqHead s = Ok (rq_head s)" "load_pp RqTail s = Ok (rq_tail s)"
  by (simp_all add: pp_simps)

lemma store_pp_ok: "load_pp p s = Ok u \<Longrightarrow> \<exists>s'. store_pp p v s = Ok s'"
  by (cases p) (auto simp: pp_simps ok_iff)

lemma load_store_pp:
  "store_pp p v s = Ok s' \<Longrightarrow> load_pp q s' = (if q = p then Ok v else load_pp q s)"
  by (cases p; cases q) (auto simp: pp_simps ok_iff set_object_defs get_object_defs get_tcb_def heap_upd_tcb)

section \<open>The state without its links\<close>

text \<open>
  \<open>erase\<close> clears every link: the queue heads and the \<open>next\<close> fields. A store through a
  \<open>uth_tcb_t **\<close> does not change it, so all that the queue operations may change besides the
  queues is seen on the erased state.
\<close>

definition erase :: "sys \<Rightarrow> sys" where
  "erase s = s\<lparr>heap := (\<lambda>x. map_option (\<lambda>t. t\<lparr>tcb_next := NULL\<rparr>) (heap s x)),
     mutexes := (\<lambda>x. map_option (\<lambda>t. t\<lparr>mtx_waiters := NULL\<rparr>) (mutexes s x)),
     tickets := (\<lambda>x. map_option (\<lambda>t. t\<lparr>tk_waiters := NULL\<rparr>) (tickets s x)),
     conds := (\<lambda>x. map_option (\<lambda>t. t\<lparr>cv_waiters := NULL\<rparr>) (conds s x)),
     sems := (\<lambda>x. map_option (\<lambda>t. t\<lparr>sem_waiters := NULL\<rparr>) (sems s x)),
     rq_head := NULL, rq_tail := NULL\<rparr>"

lemma erase_store_pp [uth_erase]: "store_pp p v s = Ok s' \<Longrightarrow> erase s' = erase s"
  by (cases p) (auto simp: pp_simps ok_iff erase_def set_object_defs upd_tcb_def fun_eq_iff)

lemma erase_simps [simp]:
  "spins (erase s) = spins s" "stacks (erase s) = stacks s"
  "uth_current (erase s) = uth_current s" "uth_sched_ctx (erase s) = uth_sched_ctx s"
  "tcb_table (erase s) = tcb_table s" "tcb_capacity (erase s) = tcb_capacity s"
  "tcb_count (erase s) = tcb_count s" "next_tid (erase s) = next_tid s"
  "sigmask (erase s) = sigmask s" "run_bootstrap (erase s) = run_bootstrap s"
  "run_returned (erase s) = run_returned s" "alt_stack_mem (erase s) = alt_stack_mem s"
  "preempt_enabled (erase s) = preempt_enabled s"
  "sigalrm_handler (erase s) = sigalrm_handler s" "itimer_usec (erase s) = itimer_usec s"
  by (simp_all add: erase_def)

lemma erase_maps:
  "heap (erase s) x = map_option (\<lambda>t. t\<lparr>tcb_next := NULL\<rparr>) (heap s x)"
  "mutexes (erase s) m = map_option (\<lambda>t. t\<lparr>mtx_waiters := NULL\<rparr>) (mutexes s m)"
  "tickets (erase s) m = map_option (\<lambda>t. t\<lparr>tk_waiters := NULL\<rparr>) (tickets s m)"
  "conds (erase s) m = map_option (\<lambda>t. t\<lparr>cv_waiters := NULL\<rparr>) (conds s m)"
  "sems (erase s) m = map_option (\<lambda>t. t\<lparr>sem_waiters := NULL\<rparr>) (sems s m)"
  by (simp_all add: erase_def)

lemma erase_eqD:
  assumes "erase s' = erase s"
  shows "map_option (\<lambda>t. t\<lparr>tcb_next := NULL\<rparr>) (heap s' x) = map_option (\<lambda>t. t\<lparr>tcb_next := NULL\<rparr>) (heap s x)"
    "map_option (\<lambda>t. t\<lparr>mtx_waiters := NULL\<rparr>) (mutexes s' m) = map_option (\<lambda>t. t\<lparr>mtx_waiters := NULL\<rparr>) (mutexes s m)"
    "map_option (\<lambda>t. t\<lparr>tk_waiters := NULL\<rparr>) (tickets s' m) = map_option (\<lambda>t. t\<lparr>tk_waiters := NULL\<rparr>) (tickets s m)"
    "map_option (\<lambda>t. t\<lparr>cv_waiters := NULL\<rparr>) (conds s' m) = map_option (\<lambda>t. t\<lparr>cv_waiters := NULL\<rparr>) (conds s m)"
    "map_option (\<lambda>t. t\<lparr>sem_waiters := NULL\<rparr>) (sems s' m) = map_option (\<lambda>t. t\<lparr>sem_waiters := NULL\<rparr>) (sems s m)"
  using assms erase_maps [of s', symmetric] erase_maps [of s, symmetric] by simp_all

lemma erase_upd_tcb [simp]:
  "(\<And>t. f (t\<lparr>tcb_next := NULL\<rparr>) = (f t)\<lparr>tcb_next := NULL\<rparr>) \<Longrightarrow>
     erase (upd_tcb x f s) = upd_tcb x f (erase s)"
  by (simp add: erase_def upd_tcb_def fun_eq_iff option.map_comp o_def)

lemma load_upd_tcb [simp]:
  "(\<And>t. tcb_next (f t) = tcb_next t) \<Longrightarrow> load_pp p (upd_tcb x f s) = load_pp p s"
  by (cases p) (auto simp: pp_simps get_tcb_def get_object_defs heap_upd_tcb split: option.splits)

text \<open>Updates of the other parts of the state do not touch the links.\<close>

lemma load_global [simp]:
  "load_pp p (s\<lparr>stacks := v0\<rparr>) = load_pp p s"
  "load_pp p (s\<lparr>uth_current := v1\<rparr>) = load_pp p s"
  "load_pp p (s\<lparr>uth_sched_ctx := v2\<rparr>) = load_pp p s"
  "load_pp p (s\<lparr>tcb_table := v3\<rparr>) = load_pp p s"
  "load_pp p (s\<lparr>tcb_capacity := v4\<rparr>) = load_pp p s"
  "load_pp p (s\<lparr>tcb_count := v5\<rparr>) = load_pp p s"
  "load_pp p (s\<lparr>next_tid := v6\<rparr>) = load_pp p s"
  "load_pp p (s\<lparr>sigmask := v7\<rparr>) = load_pp p s"
  "load_pp p (s\<lparr>run_bootstrap := v8\<rparr>) = load_pp p s"
  "load_pp p (s\<lparr>run_returned := v9\<rparr>) = load_pp p s"
  "load_pp p (s\<lparr>alt_stack_mem := v10\<rparr>) = load_pp p s"
  "load_pp p (s\<lparr>preempt_enabled := v11\<rparr>) = load_pp p s"
  "load_pp p (s\<lparr>sigalrm_handler := v12\<rparr>) = load_pp p s"
  "load_pp p (s\<lparr>itimer_usec := v13\<rparr>) = load_pp p s"
  "load_pp p (s\<lparr>spins := w\<rparr>) = load_pp p s"
  by (cases p; simp add: pp_simps get_tcb_def get_object_defs)+

lemma erase_global [simp]:
  "erase (s\<lparr>stacks := v0\<rparr>) = (erase s)\<lparr>stacks := v0\<rparr>"
  "erase (s\<lparr>uth_current := v1\<rparr>) = (erase s)\<lparr>uth_current := v1\<rparr>"
  "erase (s\<lparr>uth_sched_ctx := v2\<rparr>) = (erase s)\<lparr>uth_sched_ctx := v2\<rparr>"
  "erase (s\<lparr>tcb_table := v3\<rparr>) = (erase s)\<lparr>tcb_table := v3\<rparr>"
  "erase (s\<lparr>tcb_capacity := v4\<rparr>) = (erase s)\<lparr>tcb_capacity := v4\<rparr>"
  "erase (s\<lparr>tcb_count := v5\<rparr>) = (erase s)\<lparr>tcb_count := v5\<rparr>"
  "erase (s\<lparr>next_tid := v6\<rparr>) = (erase s)\<lparr>next_tid := v6\<rparr>"
  "erase (s\<lparr>sigmask := v7\<rparr>) = (erase s)\<lparr>sigmask := v7\<rparr>"
  "erase (s\<lparr>run_bootstrap := v8\<rparr>) = (erase s)\<lparr>run_bootstrap := v8\<rparr>"
  "erase (s\<lparr>run_returned := v9\<rparr>) = (erase s)\<lparr>run_returned := v9\<rparr>"
  "erase (s\<lparr>alt_stack_mem := v10\<rparr>) = (erase s)\<lparr>alt_stack_mem := v10\<rparr>"
  "erase (s\<lparr>preempt_enabled := v11\<rparr>) = (erase s)\<lparr>preempt_enabled := v11\<rparr>"
  "erase (s\<lparr>sigalrm_handler := v12\<rparr>) = (erase s)\<lparr>sigalrm_handler := v12\<rparr>"
  "erase (s\<lparr>itimer_usec := v13\<rparr>) = (erase s)\<lparr>itimer_usec := v13\<rparr>"
  "erase (s\<lparr>spins := v14\<rparr>) = (erase s)\<lparr>spins := v14\<rparr>"
  by (simp_all add: erase_def)

lemma load_set_object [simp]:
  "load_pp p (set_spin m v s) = load_pp p s"
  "\<lbrakk>mutexes s m = Some x; mtx_waiters y = mtx_waiters x\<rbrakk> \<Longrightarrow> load_pp p (set_mutex m y s) = load_pp p s"
  "\<lbrakk>tickets s m = Some x'; tk_waiters y' = tk_waiters x'\<rbrakk> \<Longrightarrow> load_pp p (set_ticket m y' s) = load_pp p s"
  "\<lbrakk>sems s m = Some z; sem_waiters w = sem_waiters z\<rbrakk> \<Longrightarrow> load_pp p (set_sem m w s) = load_pp p s"
  by (cases p; simp add: pp_simps get_tcb_def get_object_defs set_object_defs)+

lemma erase_set_object [simp]:
  "erase (set_spin m v s) = set_spin m v (erase s)"
  "erase (set_mutex m x s) = set_mutex m (x\<lparr>mtx_waiters := NULL\<rparr>) (erase s)"
  "erase (set_ticket m y s) = set_ticket m (y\<lparr>tk_waiters := NULL\<rparr>) (erase s)"
  "erase (set_cond m z s) = set_cond m (z\<lparr>cv_waiters := NULL\<rparr>) (erase s)"
  "erase (set_sem m w s) = set_sem m (w\<lparr>sem_waiters := NULL\<rparr>) (erase s)"
  by (simp_all add: erase_def set_object_defs fun_eq_iff)

lemma heap_set_object [simp]:
  "heap (set_mutex m a s) = heap s" "heap (set_spin m b s) = heap s" "heap (set_ticket m c s) = heap s"
  "heap (set_cond m d s) = heap s" "heap (set_sem m e s) = heap s"
  by (simp_all add: set_object_defs)

lemma uth_current_set_object [simp]:
  "uth_current (set_mutex m a s) = uth_current s" "uth_current (set_spin m b s) = uth_current s" "uth_current (set_ticket m c s) = uth_current s"
  "uth_current (set_cond m d s) = uth_current s" "uth_current (set_sem m e s) = uth_current s"
  by (simp_all add: set_object_defs)

lemma uth_sched_ctx_set_object [simp]:
  "uth_sched_ctx (set_mutex m a s) = uth_sched_ctx s" "uth_sched_ctx (set_spin m b s) = uth_sched_ctx s" "uth_sched_ctx (set_ticket m c s) = uth_sched_ctx s"
  "uth_sched_ctx (set_cond m d s) = uth_sched_ctx s" "uth_sched_ctx (set_sem m e s) = uth_sched_ctx s"
  by (simp_all add: set_object_defs)

lemma tcb_table_set_object [simp]:
  "tcb_table (set_mutex m a s) = tcb_table s" "tcb_table (set_spin m b s) = tcb_table s" "tcb_table (set_ticket m c s) = tcb_table s"
  "tcb_table (set_cond m d s) = tcb_table s" "tcb_table (set_sem m e s) = tcb_table s"
  by (simp_all add: set_object_defs)

lemma tcb_capacity_set_object [simp]:
  "tcb_capacity (set_mutex m a s) = tcb_capacity s" "tcb_capacity (set_spin m b s) = tcb_capacity s" "tcb_capacity (set_ticket m c s) = tcb_capacity s"
  "tcb_capacity (set_cond m d s) = tcb_capacity s" "tcb_capacity (set_sem m e s) = tcb_capacity s"
  by (simp_all add: set_object_defs)

lemma tcb_count_set_object [simp]:
  "tcb_count (set_mutex m a s) = tcb_count s" "tcb_count (set_spin m b s) = tcb_count s" "tcb_count (set_ticket m c s) = tcb_count s"
  "tcb_count (set_cond m d s) = tcb_count s" "tcb_count (set_sem m e s) = tcb_count s"
  by (simp_all add: set_object_defs)

lemma next_tid_set_object [simp]:
  "next_tid (set_mutex m a s) = next_tid s" "next_tid (set_spin m b s) = next_tid s" "next_tid (set_ticket m c s) = next_tid s"
  "next_tid (set_cond m d s) = next_tid s" "next_tid (set_sem m e s) = next_tid s"
  by (simp_all add: set_object_defs)

lemma sigmask_set_object [simp]:
  "sigmask (set_mutex m a s) = sigmask s" "sigmask (set_spin m b s) = sigmask s" "sigmask (set_ticket m c s) = sigmask s"
  "sigmask (set_cond m d s) = sigmask s" "sigmask (set_sem m e s) = sigmask s"
  by (simp_all add: set_object_defs)

lemma sigalrm_handler_set_object [simp]:
  "sigalrm_handler (set_mutex m a s) = sigalrm_handler s" "sigalrm_handler (set_spin m b s) = sigalrm_handler s" "sigalrm_handler (set_ticket m c s) = sigalrm_handler s"
  "sigalrm_handler (set_cond m d s) = sigalrm_handler s" "sigalrm_handler (set_sem m e s) = sigalrm_handler s"
  by (simp_all add: set_object_defs)

lemma itimer_usec_set_object [simp]:
  "itimer_usec (set_mutex m a s) = itimer_usec s" "itimer_usec (set_spin m b s) = itimer_usec s" "itimer_usec (set_ticket m c s) = itimer_usec s"
  "itimer_usec (set_cond m d s) = itimer_usec s" "itimer_usec (set_sem m e s) = itimer_usec s"
  by (simp_all add: set_object_defs)

lemma run_bootstrap_set_object [simp]:
  "run_bootstrap (set_mutex m a s) = run_bootstrap s" "run_bootstrap (set_spin m b s) = run_bootstrap s" "run_bootstrap (set_ticket m c s) = run_bootstrap s"
  "run_bootstrap (set_cond m d s) = run_bootstrap s" "run_bootstrap (set_sem m e s) = run_bootstrap s"
  by (simp_all add: set_object_defs)

lemma run_returned_set_object [simp]:
  "run_returned (set_mutex m a s) = run_returned s" "run_returned (set_spin m b s) = run_returned s" "run_returned (set_ticket m c s) = run_returned s"
  "run_returned (set_cond m d s) = run_returned s" "run_returned (set_sem m e s) = run_returned s"
  by (simp_all add: set_object_defs)

lemma objects_set_object [simp]:
  "mutexes (set_mutex m a s) = (mutexes s)(m \<mapsto> a)" "spins (set_spin m b s) = (spins s)(m \<mapsto> b)"
  "tickets (set_ticket m c s) = (tickets s)(m \<mapsto> c)" "conds (set_cond m d s) = (conds s)(m \<mapsto> d)"
  "sems (set_sem m e s) = (sems s)(m \<mapsto> e)"
  "tickets (set_mutex m a s) = tickets s" "conds (set_mutex m a s) = conds s" "sems (set_mutex m a s) = sems s"
  "mutexes (set_ticket m c s) = mutexes s" "conds (set_ticket m c s) = conds s" "sems (set_ticket m c s) = sems s"
  "mutexes (set_cond m d s) = mutexes s" "tickets (set_cond m d s) = tickets s" "sems (set_cond m d s) = sems s"
  "mutexes (set_sem m e s) = mutexes s" "tickets (set_sem m e s) = tickets s" "conds (set_sem m e s) = conds s"
  "mutexes (set_spin m b s) = mutexes s" "tickets (set_spin m b s) = tickets s" "conds (set_spin m b s) = conds s"
  "sems (set_spin m b s) = sems s" "spins (set_mutex m a s) = spins s" "spins (set_ticket m c s) = spins s"
  "spins (set_cond m d s) = spins s" "spins (set_sem m e s) = spins s"
  by (simp_all add: set_object_defs)

lemma erase_fields:
  assumes "erase s' = a"
  shows "spins s' = spins a"
    "stacks s' = stacks a"
    "uth_current s' = uth_current a"
    "uth_sched_ctx s' = uth_sched_ctx a"
    "tcb_table s' = tcb_table a"
    "tcb_capacity s' = tcb_capacity a"
    "tcb_count s' = tcb_count a"
    "next_tid s' = next_tid a"
    "sigmask s' = sigmask a"
    "run_bootstrap s' = run_bootstrap a"
    "run_returned s' = run_returned a"
    "alt_stack_mem s' = alt_stack_mem a"
    "preempt_enabled s' = preempt_enabled a"
    "sigalrm_handler s' = sigalrm_handler a"
    "itimer_usec s' = itimer_usec a"
  using assms by auto

lemma sigmask_same: "sigmask s = b \<Longrightarrow> s\<lparr>sigmask := b\<rparr> = s"
  by (cases s) simp

lemma heap_upd_exists: "heap s x = Some t \<Longrightarrow> \<exists>t'. heap (upd_tcb y f s) x = Some t'"
  by (auto simp: heap_upd_tcb)

lemma upd_tcb_upd_tcb: "upd_tcb x f (upd_tcb x g s) = upd_tcb x (\<lambda>t. f (g t)) s"
  by (simp add: upd_tcb_def option.map_comp o_def)

lemma upd_tcb_commute: "x \<noteq> y \<Longrightarrow> upd_tcb x f (upd_tcb y g s) = upd_tcb y g (upd_tcb x f s)"
  by (simp add: upd_tcb_def fun_upd_twist)

lemma upd_tcb_global [simp]:
  "upd_tcb x f (s\<lparr>sigmask := b\<rparr>) = (upd_tcb x f s)\<lparr>sigmask := b\<rparr>"
  "upd_tcb x f (s\<lparr>uth_current := c\<rparr>) = (upd_tcb x f s)\<lparr>uth_current := c\<rparr>"
  by (simp_all add: upd_tcb_def)

end
