(* ===== verification/Uth_Queue.thy ===== *)
theory Uth_Queue
  imports Uth_State
begin

text \<open>
  The intrusive queues of \<open>thread.c\<close>: \<open>queue_push\<close>, \<open>queue_pop\<close>, \<open>uth_enqueue\<close>, the append loop
  of \<open>uth_block\<close>, \<open>uth_wake_one\<close> and \<open>uth_wake_all\<close>, translated on the pointer structure, and
  the proof that they implement operations on lists of TCB addresses. \<open>shape s rq wq\<close> relates the
  pointers of \<open>s\<close> to the run queue \<open>rq\<close> and the wait queues \<open>wq\<close>; it contains the rule of
  \<open>uthreads_internal.h\<close> that a TCB is in at most one queue at a time.
\<close>

section \<open>The operations\<close>

definition queue_push :: "tcb_pp \<Rightarrow> tcb_pp \<Rightarrow> ptr \<Rightarrow> sys \<Rightarrow> sys res" where
  "queue_push head tail t s =
     and_then (store_pp (NextOf t) NULL s) (\<lambda>s.
     and_then (load_pp tail s) (\<lambda>tl.
     and_then (if tl \<noteq> NULL then store_pp (NextOf tl) t s else store_pp head t s) (\<lambda>s.
     store_pp tail t s)))"

definition queue_pop :: "tcb_pp \<Rightarrow> tcb_pp \<Rightarrow> sys \<Rightarrow> (ptr \<times> sys) res" where
  "queue_pop head tail s =
     and_then (load_pp head s) (\<lambda>t.
     if t = NULL then Ok (NULL, s)
     else
       and_then (load_pp (NextOf t) s) (\<lambda>n.
       and_then (store_pp head n s) (\<lambda>s.
       and_then (load_pp head s) (\<lambda>h.
       and_then (if h = NULL then store_pp tail NULL s else Ok s) (\<lambda>s.
       and_then (store_pp (NextOf t) NULL s) (\<lambda>s.
       Ok (t, s)))))))"

definition uth_enqueue :: "ptr \<Rightarrow> sys \<Rightarrow> sys res" where
  "uth_enqueue t s =
     and_then (modify_tcb t (\<lambda>x. x\<lparr>tcb_state := UTH_STATE_READY\<rparr>) s) (\<lambda>s.
     queue_push RqHead RqTail t s)"

text \<open>The loop \<open>while (*p) p = &(*p)->next;\<close> of \<open>uth_block\<close>: it ends at the cell that holds NULL.\<close>

partial_function (option) find_end :: "tcb_pp \<Rightarrow> sys \<Rightarrow> tcb_pp res option" where
  "find_end p s =
     (case load_pp p s of
        Ok v \<Rightarrow> if v = NULL then Some (Ok p) else find_end (NextOf v) s
      | Fault e \<Rightarrow> Some (Fault e)
      | NoReturn \<Rightarrow> Some NoReturn)"

definition wait_append :: "tcb_pp \<Rightarrow> ptr \<Rightarrow> sys \<Rightarrow> sys res" where
  "wait_append queue t s =
     and_then (store_pp (NextOf t) NULL s) (\<lambda>s.
     and_then (the_loop (find_end queue s)) (\<lambda>p.
     store_pp p t s))"

definition uth_wake_one :: "tcb_pp \<Rightarrow> sys \<Rightarrow> (ptr \<times> sys) res" where
  "uth_wake_one queue s =
     and_then (load_pp queue s) (\<lambda>t.
     if t = NULL then Ok (NULL, s)
     else
       and_then (load_pp (NextOf t) s) (\<lambda>n.
       and_then (store_pp queue n s) (\<lambda>s.
       and_then (store_pp (NextOf t) NULL s) (\<lambda>s.
       and_then (uth_enqueue t s) (\<lambda>s.
       Ok (t, s))))))"

partial_function (option) wake_all_loop :: "tcb_pp \<Rightarrow> sys \<Rightarrow> sys res option" where
  "wake_all_loop queue s =
     (case uth_wake_one queue s of
        Ok (t, s') \<Rightarrow> if t = NULL then Some (Ok s') else wake_all_loop queue s'
      | Fault e \<Rightarrow> Some (Fault e)
      | NoReturn \<Rightarrow> Some NoReturn)"

definition uth_wake_all :: "tcb_pp \<Rightarrow> sys \<Rightarrow> sys res" where
  "uth_wake_all queue s = the_loop (wake_all_loop queue s)"

section \<open>Chains of cells\<close>

text \<open>\<open>chain s p xs\<close>: following the links from the cell \<open>p\<close> visits the TCBs \<open>xs\<close> and ends at NULL.\<close>

primrec chain :: "sys \<Rightarrow> tcb_pp \<Rightarrow> ptr list \<Rightarrow> bool" where
  "chain s p [] \<longleftrightarrow> load_pp p s = Ok NULL"
| "chain s p (x # xs) \<longleftrightarrow> load_pp p s = Ok x \<and> x \<noteq> NULL \<and> chain s (NextOf x) xs"

definition cells :: "tcb_pp \<Rightarrow> ptr list \<Rightarrow> tcb_pp set" where
  "cells p xs = insert p (NextOf ` set xs)"

fun cell_after :: "tcb_pp \<Rightarrow> ptr list \<Rightarrow> tcb_pp" where
  "cell_after p [] = p"
| "cell_after p (x # xs) = cell_after (NextOf x) xs"

lemma cell_after_snoc [simp]: "cell_after p (xs @ [x]) = NextOf x"
  by (induction xs arbitrary: p) simp_all

lemma cell_after_cases: "cell_after p xs = p \<and> xs = [] \<or> (\<exists>x \<in> set xs. cell_after p xs = NextOf x)"
  by (induction xs arbitrary: p) auto

lemma cell_after_in_cells: "cell_after p xs \<in> cells p xs"
  using cell_after_cases [of p xs] by (auto simp: cells_def)

lemma chain_cong:
  "(\<And>c. c \<in> cells p xs \<Longrightarrow> load_pp c s' = load_pp c s) \<Longrightarrow> chain s' p xs = chain s p xs"
  by (induction xs arbitrary: p) (simp_all add: cells_def)

lemma chain_unique: "chain s p xs \<Longrightarrow> chain s p ys \<Longrightarrow> xs = ys"
proof (induction xs arbitrary: p ys)
  case Nil
  then show ?case by (cases ys) auto
next
  case (Cons x xs)
  then show ?case by (cases ys) auto
qed

primrec seg :: "sys \<Rightarrow> tcb_pp \<Rightarrow> ptr list \<Rightarrow> bool" where
  "seg s p [] \<longleftrightarrow> True"
| "seg s p (x # xs) \<longleftrightarrow> load_pp p s = Ok x \<and> x \<noteq> NULL \<and> seg s (NextOf x) xs"

lemma chain_append: "chain s p (xs @ ys) \<longleftrightarrow> seg s p xs \<and> chain s (cell_after p xs) ys"
  by (induction xs arbitrary: p) auto

lemma seg_append: "seg s p (xs @ ys) \<longleftrightarrow> seg s p xs \<and> seg s (cell_after p xs) ys"
  by (induction xs arbitrary: p) auto

lemma chain_end: "chain s p xs \<Longrightarrow> load_pp (cell_after p xs) s = Ok NULL"
  using chain_append [of s p xs "[]"] by simp

lemma chain_not_NULL: "chain s p xs \<Longrightarrow> x \<in> set xs \<Longrightarrow> x \<noteq> NULL"
  by (induction xs arbitrary: p) auto

lemma chain_distinct:
  assumes "chain s p xs"
  shows "distinct xs"
proof (rule ccontr)
  assume "\<not> distinct xs"
  then obtain as x bs cs where xs: "xs = as @ [x] @ bs @ [x] @ cs"
    using not_distinct_decomp by blast
  have "chain s p ((as @ [x]) @ bs @ [x] @ cs)" and "chain s p ((as @ [x] @ bs @ [x]) @ cs)"
    using assms xs by simp_all
  then have "chain s (cell_after p (as @ [x])) (bs @ [x] @ cs)"
    and "chain s (cell_after p ((as @ [x] @ bs) @ [x])) cs"
    unfolding chain_append by simp_all
  then have "bs @ [x] @ cs = cs"
    by (auto dest: chain_unique simp del: append_assoc)
  then show False by (metis append_Cons append_Nil append_self_conv2 list.simps(3) append_assoc)
qed

lemma chain_heap: "chain s p xs \<Longrightarrow> x \<in> set xs \<Longrightarrow> \<exists>t. heap s x = Some t"
proof (induction xs arbitrary: p)
  case (Cons y ys)
  have "\<exists>t. heap s y = Some t"
    using Cons.prems(1) by (cases ys) (auto simp: pp_simps ok_iff)
  with Cons show ?case by auto
qed simp

text \<open>A store outside the cells of a chain keeps it.\<close>

lemma chain_store_other:
  "store_pp c v s = Ok s' \<Longrightarrow> c \<notin> cells p xs \<Longrightarrow> chain s' p xs = chain s p xs"
  by (rule chain_cong) (auto simp: load_store_pp)

lemma find_end_chain: "chain s p xs \<Longrightarrow> find_end p s = Some (Ok (cell_after p xs))"
  by (induction xs arbitrary: p) (subst find_end.simps, simp)+

lemma seg_store_other:
  "store_pp c v s = Ok s' \<Longrightarrow> (\<And>i. i < length xs \<Longrightarrow> c \<noteq> cell_after p (take i xs)) \<Longrightarrow>
     seg s' p xs = seg s p xs"
proof (induction xs arbitrary: p)
  case (Cons x xs)
  have "c \<noteq> cell_after (NextOf x) (take i xs)" if "i < length xs" for i
    using Cons.prems(2) [of "Suc i"] that by simp
  with Cons.IH [OF Cons.prems(1)] Cons.prems(2) [of 0] show ?case
    by (simp add: load_store_pp [OF Cons.prems(1)])
qed simp

lemma cell_after_inj:
  assumes "distinct xs" and "p \<notin> NextOf ` set xs" and "i < length xs"
  shows "cell_after p (take i xs) \<noteq> cell_after p xs"
proof -
  obtain ys y where xs: "xs = ys @ [y]"
    using assms(3) by (cases xs rule: rev_cases) auto
  show ?thesis
    using cell_after_cases [of p "take i ys"] assms set_take_subset [of i ys]
    by (auto simp: xs)
qed

text \<open>Writing a TCB into the end cell of a chain appends it.\<close>

lemma chain_store_end:
  assumes ch: "chain s p xs" and p: "p \<notin> NextOf ` set xs"
    and t: "load_pp (NextOf t) s = Ok NULL" "t \<noteq> NULL" "t \<notin> set xs" "p \<noteq> NextOf t"
    and st: "store_pp (cell_after p xs) t s = Ok s'"
  shows "chain s' p (xs @ [t])"
proof -
  have "seg s p xs"
    using ch chain_append [of s p xs "[]"] by simp
  moreover have "seg s' p xs = seg s p xs"
    using cell_after_inj [OF chain_distinct [OF ch] p] by (intro seg_store_other [OF st]) metis
  moreover have "cell_after p xs \<noteq> NextOf t"
    using cell_after_cases [of p xs] t by auto
  ultimately show ?thesis
    using t(1,2) by (simp add: chain_append load_store_pp [OF st])
qed

section \<open>The run queue and the wait queues\<close>

fun is_wait :: "tcb_pp \<Rightarrow> bool" where
  "is_wait (MutexWaiters m) = True"
| "is_wait (TicketWaiters m) = True"
| "is_wait (CondWaiters m) = True"
| "is_wait (SemWaiters m) = True"
| "is_wait _ = False"

definition list_tail :: "ptr list \<Rightarrow> ptr" where
  "list_tail xs = (if xs = [] then NULL else last xs)"

definition mapped :: "tcb_pp \<Rightarrow> sys \<Rightarrow> bool" where
  "mapped q s \<longleftrightarrow> (\<exists>v. load_pp q s = Ok v)"

definition wchain :: "sys \<Rightarrow> tcb_pp \<Rightarrow> ptr list \<Rightarrow> bool" where
  "wchain s q xs \<longleftrightarrow> (if is_wait q \<and> mapped q s then chain s q xs else xs = [])"

definition shape :: "sys \<Rightarrow> ptr list \<Rightarrow> (tcb_pp \<Rightarrow> ptr list) \<Rightarrow> bool" where
  "shape s rq wq \<longleftrightarrow>
     chain s RqHead rq \<and> rq_tail s = list_tail rq \<and> (\<forall>q. wchain s q (wq q)) \<and>
     (\<forall>q. set rq \<inter> set (wq q) = {}) \<and> (\<forall>q q'. q \<noteq> q' \<longrightarrow> set (wq q) \<inter> set (wq q') = {})"

definition unqueued :: "ptr \<Rightarrow> ptr list \<Rightarrow> (tcb_pp \<Rightarrow> ptr list) \<Rightarrow> bool" where
  "unqueued x rq wq \<longleftrightarrow> x \<notin> set rq \<and> (\<forall>q. x \<notin> set (wq q))"

lemma list_tail_simps [simp]:
  "list_tail [] = NULL" "list_tail (xs @ [x]) = x"
  by (simp_all add: list_tail_def)

lemma not_wait_simps [simp]:
  "is_wait q \<Longrightarrow> q \<noteq> RqHead" "is_wait q \<Longrightarrow> q \<noteq> RqTail" "is_wait q \<Longrightarrow> q \<noteq> NextOf x"
  by auto

lemma wchain_chain: "\<lbrakk>wchain s q xs; is_wait q; mapped q s\<rbrakk> \<Longrightarrow> chain s q xs"
  by (simp add: wchain_def)

lemma wchain_nonempty: "wchain s q xs \<Longrightarrow> xs \<noteq> [] \<Longrightarrow> is_wait q \<and> chain s q xs"
  by (auto simp: wchain_def split: if_splits)

lemma wchain_cong:
  assumes "\<And>c. c \<in> cells q xs \<Longrightarrow> load_pp c s' = load_pp c s"
  shows "wchain s' q xs = wchain s q xs"
  using assms chain_cong [of q xs s' s] by (auto simp: wchain_def mapped_def cells_def)

lemma shapeD:
  assumes "shape s rq wq"
  shows "chain s RqHead rq" "rq_tail s = list_tail rq" "wchain s q (wq q)"
    "x \<in> set rq \<Longrightarrow> x \<notin> set (wq q)" "x \<in> set (wq q) \<Longrightarrow> x \<in> set (wq q') \<Longrightarrow> q = q'"
  using assms unfolding shape_def by blast+


subsection \<open>Each operation implements a list operation\<close>

lemma store_next_ok: "\<lbrakk>x \<noteq> NULL; heap s x = Some t\<rbrakk> \<Longrightarrow> \<exists>s'. store_pp (NextOf x) v s = Ok s'"
  by (simp add: pp_simps)

lemma wchains_keep:
  assumes "\<forall>q. wchain s q (wq q)" and "\<And>c. c \<notin> M \<Longrightarrow> load_pp c s' = load_pp c s"
    and "\<And>q. is_wait q \<Longrightarrow> q \<notin> M" and "\<And>q y. y \<in> set (wq q) \<Longrightarrow> NextOf y \<notin> M"
  shows "\<forall>q. wchain s' q (wq q)"
proof
  fix q
  show "wchain s' q (wq q)"
  proof (cases "is_wait q")
    case True
    then have "wchain s' q (wq q) = wchain s q (wq q)"
      using assms(2-4) by (intro wchain_cong) (auto simp: cells_def)
    with assms(1) show ?thesis by simp
  next
    case False
    with assms(1) show ?thesis by (simp add: wchain_def)
  qed
qed

lemma cell_after_wait_free:
  assumes "\<And>q. set rq \<inter> set (wq q) = {}"
  shows "is_wait q \<Longrightarrow> q \<noteq> cell_after RqHead rq" "y \<in> set (wq q) \<Longrightarrow> NextOf y \<noteq> cell_after RqHead rq"
  using cell_after_cases [of RqHead rq] assms [of q] by auto

lemma queue_push_shape [uth_ok]:
  assumes sh: "shape s rq wq" and x: "x \<noteq> NULL" "heap s x = Some t" and un: "unqueued x rq wq"
  shows "\<exists>s'. queue_push RqHead RqTail x s = Ok s' \<and> shape s' (rq @ [x]) wq \<and> erase s' = erase s"
proof -
  obtain s1 where s1: "store_pp (NextOf x) NULL s = Ok s1"
    using store_next_ok [OF x] by blast
  note ld1 = load_store_pp [OF s1]
  have ch1: "chain s1 RqHead rq"
    using shapeD(1) [OF sh] un chain_store_other [OF s1] by (auto simp: cells_def unqueued_def)
  obtain s2 where s2: "store_pp (cell_after RqHead rq) x s1 = Ok s2"
    using store_pp_ok [OF chain_end [OF ch1]] by blast
  note ld2 = load_store_pp [OF s2]
  define s3 where "s3 = s2\<lparr>rq_tail := x\<rparr>"
  have s3: "store_pp RqTail x s2 = Ok s3" by (simp add: s3_def pp_simps)
  note ld3 = load_store_pp [OF s3]
  have tl: "load_pp RqTail s1 = Ok (list_tail rq)"
    using shapeD(2) [OF sh] ld1 [of RqTail] by simp
  have op: "queue_push RqHead RqTail x s = Ok s3"
  proof (cases rq rule: rev_cases)
    case Nil
    with s1 s2 s3 tl show ?thesis by (simp add: queue_push_def)
  next
    case (snoc ys y)
    with ch1 have "y \<noteq> NULL" using chain_not_NULL by fastforce
    with s1 s2 s3 tl snoc show ?thesis by (simp add: queue_push_def)
  qed
  have "chain s2 RqHead (rq @ [x])"
    using un x ld1 [of "NextOf x"] by (intro chain_store_end [OF ch1 _ _ _ _ _ s2]) (auto simp: unqueued_def)
  then have ch3: "chain s3 RqHead (rq @ [x])"
    using chain_store_other [OF s3] by (auto simp: cells_def)
  have "\<forall>q. wchain s3 q (wq q)"
  proof (rule wchains_keep [of s _ "{NextOf x, cell_after RqHead rq, RqTail}"])
    show "\<forall>q. wchain s q (wq q)" using shapeD(3) [OF sh] by blast
    show "load_pp c s3 = load_pp c s" if "c \<notin> {NextOf x, cell_after RqHead rq, RqTail}" for c
      using that by (simp add: ld1 ld2 ld3)
    show "q \<notin> {NextOf x, cell_after RqHead rq, RqTail}" if "is_wait q" for q
      using that cell_after_wait_free(1) [of rq wq q] sh by (auto simp: shape_def)
    show "NextOf y \<notin> {NextOf x, cell_after RqHead rq, RqTail}" if "y \<in> set (wq q)" for q y
      using that cell_after_wait_free(2) [of rq wq y q] sh un by (auto simp: shape_def unqueued_def)
  qed
  moreover have "rq_tail s3 = list_tail (rq @ [x])" by (simp add: s3_def)
  ultimately have "shape s3 (rq @ [x]) wq"
    using sh un ch3 unfolding shape_def unqueued_def by simp
  moreover have "erase s3 = erase s"
    using s1 s2 s3 by (auto dest!: erase_store_pp)
  ultimately show ?thesis using op by blast
qed

text \<open>Changes of the state that no cell sees keep the queues.\<close>

lemma shape_cong: "(\<And>p. load_pp p s' = load_pp p s) \<Longrightarrow> shape s' rq wq = shape s rq wq"
proof -
  assume *: "\<And>p. load_pp p s' = load_pp p s"
  have "chain s' p xs = chain s p xs" for p xs using * by (intro chain_cong)
  moreover have "rq_tail s' = rq_tail s" using * [of RqTail] by simp
  ultimately show ?thesis by (simp add: shape_def wchain_def mapped_def *)
qed

lemma shape_upd_tcb [simp]:
  "(\<And>t. tcb_next (f t) = tcb_next t) \<Longrightarrow> shape (upd_tcb x f s) rq wq = shape s rq wq"
  by (rule shape_cong) simp

lemma unqueued_shape:
  assumes "shape s rq wq" and "heap s x = Some t"
    and "tcb_state t = UTH_STATE_RUNNING \<or> tcb_state t = UTH_STATE_ZOMBIE"
    and "\<forall>y \<in> set rq. map_option tcb_state (heap s y) = Some UTH_STATE_READY"
    and "\<forall>q. \<forall>y \<in> set (wq q). map_option tcb_state (heap s y) = Some UTH_STATE_BLOCKED"
  shows "unqueued x rq wq"
  using assms by (fastforce simp: unqueued_def)

abbreviation set_state :: "ptr \<Rightarrow> uth_state_t \<Rightarrow> sys \<Rightarrow> sys" where
  "set_state x st \<equiv> upd_tcb x (\<lambda>t. t\<lparr>tcb_state := st\<rparr>)"

lemma uth_enqueue_shape [uth_ok]:
  assumes "shape s rq wq" and "x \<noteq> NULL" and "heap s x = Some t" and "unqueued x rq wq"
  shows "\<exists>s'. uth_enqueue x s = Ok s' \<and> shape s' (rq @ [x]) wq \<and>
     erase s' = set_state x UTH_STATE_READY (erase s)"
proof -
  have "shape (set_state x UTH_STATE_READY s) rq wq"
    and "heap (set_state x UTH_STATE_READY s) x = Some (t\<lparr>tcb_state := UTH_STATE_READY\<rparr>)"
    using assms by (simp_all add: heap_upd_tcb)
  then obtain s' where "queue_push RqHead RqTail x (set_state x UTH_STATE_READY s) = Ok s' \<and>
      shape s' (rq @ [x]) wq \<and> erase s' = erase (set_state x UTH_STATE_READY s)"
    using queue_push_shape assms by blast
  with assms show ?thesis by (simp add: uth_enqueue_def)
qed

lemma chain_move_head:
  assumes "load_pp c s' = load_pp p s" "\<And>y. y \<in> set ys \<Longrightarrow> load_pp (NextOf y) s' = load_pp (NextOf y) s"
  shows "chain s' c ys = chain s p ys"
proof (cases ys)
  case (Cons y zs)
  then have "chain s' (NextOf y) zs = chain s (NextOf y) zs"
    using assms(2) by (intro chain_cong) (auto simp: cells_def)
  with Cons assms(1) show ?thesis by simp
qed (simp add: assms(1))

lemma chain_unlink:
  assumes ch: "chain s p (xs @ x # ys)" and p: "\<forall>y. p \<noteq> NextOf y"
    and s1: "store_pp (cell_after p xs) n s = Ok s1" and n: "load_pp (NextOf x) s = Ok n"
    and s2: "store_pp (NextOf x) v s1 = Ok s2"
  shows "chain s2 p (xs @ ys)"
proof -
  have d: "distinct (xs @ x # ys)" by (rule chain_distinct [OF ch])
  have cell: "cell_after p xs \<noteq> NextOf x" "y \<in> set ys \<Longrightarrow> NextOf y \<noteq> cell_after p xs" for y
    using cell_after_cases [of p xs] p d by auto
  have neq: "cell_after p (take i xs) \<noteq> cell_after p xs" "cell_after p (take i xs) \<noteq> NextOf x"
    if "i < length xs" for i
    using cell_after_inj [of xs p i] that d p cell_after_cases [of p "take i xs"] set_take_subset [of i xs]
    by auto
  have "seg s p xs" and tl: "chain s (NextOf x) ys"
    using ch by (simp_all add: chain_append)
  moreover have "seg s1 p xs = seg s p xs"
    using neq(1) by (intro seg_store_other [OF s1]) metis
  moreover have "seg s2 p xs = seg s1 p xs"
    using neq(2) by (intro seg_store_other [OF s2]) metis
  moreover have "chain s2 (cell_after p xs) ys = chain s (NextOf x) ys"
    using cell(1) d n by (intro chain_move_head)
      (auto simp: cell(2) load_store_pp [OF s1] load_store_pp [OF s2])
  ultimately show ?thesis by (simp add: chain_append)
qed

lemma queue_pop_shape [uth_ok]:
  assumes sh: "shape s (x # rq) wq"
  shows "\<exists>s'. queue_pop RqHead RqTail s = Ok (x, s') \<and> shape s' rq wq \<and> erase s' = erase s"
proof -
  have ch: "chain s RqHead ([] @ x # rq)" and x: "x \<noteq> NULL" and hd: "rq_head s = x"
    using shapeD(1) [OF sh] by simp_all
  have d: "distinct (x # rq)"
    using chain_distinct [OF ch] by simp
  obtain n where n: "load_pp (NextOf x) s = Ok n" and nn: "n = NULL \<longleftrightarrow> rq = []"
    using ch by (cases rq) auto
  define s1 where "s1 = s\<lparr>rq_head := n\<rparr>"
  have s1: "store_pp RqHead n s = Ok s1" by (simp add: s1_def pp_simps)
  define s2 where "s2 = (if n = NULL then s1\<lparr>rq_tail := NULL\<rparr> else s1)"
  have s2: "(if n = NULL then store_pp RqTail NULL s1 else Ok s1) = Ok s2"
    by (simp add: s2_def pp_simps)
  note ld1 = load_store_pp [OF s1]
  have ld2: "load_pp c s2 = load_pp c s1" if "c \<noteq> RqTail" for c
    using that load_store_pp [of RqTail NULL s1 s2 c] by (simp add: s2_def pp_simps)
  have "load_pp (NextOf x) s2 = Ok n" using n by (simp add: ld1 ld2)
  then obtain s3 where s3: "store_pp (NextOf x) NULL s2 = Ok s3"
    using store_pp_ok by blast
  note ld3 = load_store_pp [OF s3]
  have op: "queue_pop RqHead RqTail s = Ok (x, s3)"
  proof -
    have "rq_head s1 = n" by (simp add: s1_def)
    with n s1 s2 s3 x hd show ?thesis by (simp add: queue_pop_def)
  qed
  have "rq_head s2 = n" by (simp add: s2_def s1_def)
  then have "chain s3 RqHead rq = chain s (NextOf x) rq"
    using d n by (intro chain_move_head) (auto simp: ld1 ld2 ld3)
  then have ch3: "chain s3 RqHead rq" using ch by simp
  have "\<forall>q. wchain s3 q (wq q)"
  proof (rule wchains_keep [of s _ "{RqHead, RqTail, NextOf x}"])
    show "\<forall>q. wchain s q (wq q)" using shapeD(3) [OF sh] by blast
    show "load_pp c s3 = load_pp c s" if "c \<notin> {RqHead, RqTail, NextOf x}" for c
      using that by (simp add: ld1 ld2 ld3)
    show "NextOf y \<notin> {RqHead, RqTail, NextOf x}" if "y \<in> set (wq q)" for q y
      using that shapeD(4) [OF sh, of x q] by auto
  qed auto
  moreover have "rq_tail s3 = list_tail rq"
    using ld3 [of RqTail] shapeD(2) [OF sh] nn by (cases "n = NULL") (simp_all add: s2_def s1_def list_tail_def)
  ultimately have "shape s3 rq wq"
    using sh ch3 unfolding shape_def by simp
  moreover have "erase s3 = erase s"
    using s1 s2 s3 by (auto dest!: erase_store_pp split: if_splits)
  ultimately show ?thesis using op by blast
qed

lemma queue_pop_empty [uth_ok]: "shape s [] wq \<Longrightarrow> queue_pop RqHead RqTail s = Ok (NULL, s)"
  by (simp add: shape_def queue_pop_def)

text \<open>Changing one wait queue, when no other queue shares a changed cell.\<close>

lemma shape_change_wait:
  assumes sh: "shape s rq wq" and q: "is_wait q" and ch: "chain s' q xs"
    and ld: "\<And>c. c \<noteq> q \<Longrightarrow> c \<notin> NextOf ` Y \<Longrightarrow> load_pp c s' = load_pp c s"
    and Y: "set rq \<inter> Y = {}" "\<And>q'. q' \<noteq> q \<Longrightarrow> set (wq q') \<inter> Y = {}"
    and xs: "set xs \<subseteq> Y"
  shows "shape s' rq (wq(q := xs))"
proof -
  have "chain s' RqHead rq = chain s RqHead rq"
    using Y(1) q by (intro chain_cong ld) (auto simp: cells_def)
  moreover have "rq_tail s' = rq_tail s"
    using ld [of RqTail] q by (cases q) auto
  moreover have "wchain s' q' (wq q')" if "q' \<noteq> q" for q'
  proof -
    have "wchain s' q' (wq q') = wchain s q' (wq q')"
    proof (cases "is_wait q'")
      case True
      then show ?thesis
        using that Y(2) [OF that] q by (intro wchain_cong ld) (auto simp: cells_def)
    qed (simp add: wchain_def)
    then show ?thesis using shapeD(3) [OF sh] by simp
  qed
  moreover have "wchain s' q xs"
    using ch q by (cases xs) (auto simp: wchain_def mapped_def)
  moreover have "set rq \<inter> set xs = {}" using xs Y(1) by blast
  moreover have "set xs \<inter> set (wq q') = {}" if "q' \<noteq> q" for q' using xs Y(2) [OF that] by blast
  ultimately show ?thesis
    using sh unfolding shape_def by (auto simp: Int_commute)
qed

lemma wait_sets_disjoint:
  assumes "shape s rq wq"
  shows "set rq \<inter> set (wq q) = {}" "q' \<noteq> q \<Longrightarrow> set (wq q') \<inter> set (wq q) = {}"
  using assms unfolding shape_def by blast+

lemma wait_append_shape [uth_ok]:
  assumes sh: "shape s rq wq" and q: "is_wait q" "mapped q s"
    and x: "x \<noteq> NULL" "heap s x = Some t" and un: "unqueued x rq wq"
  shows "\<exists>s'. wait_append q x s = Ok s' \<and> shape s' rq (wq(q := wq q @ [x])) \<and> erase s' = erase s"
proof -
  have nq: "q \<noteq> NextOf y" for y using q(1) by auto
  obtain s1 where s1: "store_pp (NextOf x) NULL s = Ok s1"
    using store_next_ok [OF x] by blast
  note ld1 = load_store_pp [OF s1]
  have "chain s q (wq q)"
    using wchain_chain [OF shapeD(3) [OF sh] q] .
  then have ch1: "chain s1 q (wq q)"
    using un nq chain_store_other [OF s1, of q "wq q"]
    by (auto simp: cells_def unqueued_def dest: sym [of "NextOf x"])
  obtain s2 where s2: "store_pp (cell_after q (wq q)) x s1 = Ok s2"
    using store_pp_ok [OF chain_end [OF ch1]] by blast
  note ld2 = load_store_pp [OF s2]
  have op: "wait_append q x s = Ok s2"
    using s1 s2 by (simp add: wait_append_def find_end_chain [OF ch1])
  have ch2: "chain s2 q (wq q @ [x])"
    using un x nq ld1 [of "NextOf x"]
    by (intro chain_store_end [OF ch1 _ _ _ _ _ s2]) (auto simp: unqueued_def)
  have "shape s2 rq (wq(q := wq q @ [x]))"
    using un cell_after_cases [of q "wq q"] wait_sets_disjoint [OF sh]
    by (intro shape_change_wait [OF sh q(1) ch2, where Y = "insert x (set (wq q))"])
      (auto simp: ld1 ld2 unqueued_def)
  moreover have "erase s2 = erase s"
    using s1 s2 by (auto dest!: erase_store_pp)
  ultimately show ?thesis using op by blast
qed

lemma unlink_shape:
  assumes sh: "shape s rq wq" and wq: "wq q = xs @ x # ys"
  shows "\<exists>n s1 s2. load_pp (cell_after q xs) s = Ok x \<and> load_pp (NextOf x) s = Ok n \<and>
     store_pp (cell_after q xs) n s = Ok s1 \<and> store_pp (NextOf x) NULL s1 = Ok s2 \<and>
     shape s2 rq (wq(q := xs @ ys)) \<and> erase s2 = erase s \<and> unqueued x rq (wq(q := xs @ ys))"
proof -
  have w: "is_wait q" and ch: "chain s q (xs @ x # ys)"
    using wchain_nonempty [OF shapeD(3) [OF sh, of q]] wq by simp_all
  have nq: "\<forall>y. q \<noteq> NextOf y" using w by auto
  have ldx: "load_pp (cell_after q xs) s = Ok x" and tl: "chain s (NextOf x) ys"
    using ch by (simp_all add: chain_append)
  obtain n where n: "load_pp (NextOf x) s = Ok n"
    using tl by (cases ys) auto
  obtain s1 where s1: "store_pp (cell_after q xs) n s = Ok s1"
    using store_pp_ok [OF ldx] by blast
  have cx: "cell_after q xs \<noteq> NextOf x"
    using cell_after_cases [of q xs] nq chain_distinct [OF ch] by auto
  then have "load_pp (NextOf x) s1 = Ok n"
    using n by (simp add: load_store_pp [OF s1])
  then obtain s2 where s2: "store_pp (NextOf x) NULL s1 = Ok s2"
    using store_pp_ok by blast
  have ch2: "chain s2 q (xs @ ys)"
    by (rule chain_unlink [OF ch nq s1 n s2])
  have "shape s2 rq (wq(q := xs @ ys))"
    using cell_after_cases [of q xs] wait_sets_disjoint(2) [OF sh, of _ q]
      wait_sets_disjoint(1) [OF sh, of q] wq
    by (intro shape_change_wait [OF sh w ch2, where Y = "set (wq q)"])
      (auto simp: load_store_pp [OF s1] load_store_pp [OF s2])
  moreover have "erase s2 = erase s"
    using s1 s2 by (auto dest!: erase_store_pp)
  moreover have "unqueued x rq (wq(q := xs @ ys))"
    using shapeD(4,5) [OF sh, of x q] wq chain_distinct [OF ch]
    unfolding unqueued_def by (auto dest: shapeD(4) [OF sh] shapeD(5) [OF sh])
  ultimately show ?thesis using ldx n s1 s2 by blast
qed

lemma erase_heap_exists: "erase s' = erase s \<Longrightarrow> heap s x = Some t \<Longrightarrow> \<exists>t'. heap s' x = Some t'"
  using erase_eqD(1) [of s' s x] by auto

lemma shape_wait_heap: "shape s rq wq \<Longrightarrow> x \<in> set (wq q) \<Longrightarrow> x \<noteq> NULL \<and> (\<exists>t. heap s x = Some t)"
  using shapeD(3) [of s rq wq q] wchain_nonempty [of s q "wq q"] chain_heap [of s q "wq q" x]
    chain_not_NULL [of s q "wq q" x] by force

lemma shape_rq_heap: "shape s rq wq \<Longrightarrow> x \<in> set rq \<Longrightarrow> x \<noteq> NULL \<and> (\<exists>t. heap s x = Some t)"
  using shapeD(1) [of s rq wq] chain_heap [of s RqHead rq x] chain_not_NULL [of s RqHead rq x] by blast

lemma unlink_enqueue_shape:
  assumes sh: "shape s rq wq" and wq: "wq q = xs @ x # ys"
  shows "\<exists>n s1 s2 s3. load_pp (cell_after q xs) s = Ok x \<and> load_pp (NextOf x) s = Ok n \<and>
     store_pp (cell_after q xs) n s = Ok s1 \<and> store_pp (NextOf x) NULL s1 = Ok s2 \<and>
     uth_enqueue x s2 = Ok s3 \<and> shape s3 (rq @ [x]) (wq(q := xs @ ys)) \<and>
     erase s3 = set_state x UTH_STATE_READY (erase s)"
proof -
  obtain n s1 s2 where ul: "load_pp (cell_after q xs) s = Ok x" "load_pp (NextOf x) s = Ok n"
      "store_pp (cell_after q xs) n s = Ok s1" "store_pp (NextOf x) NULL s1 = Ok s2"
      "shape s2 rq (wq(q := xs @ ys))" "erase s2 = erase s" "unqueued x rq (wq(q := xs @ ys))"
    using unlink_shape [of s rq wq q xs x ys, OF assms] by blast
  have "x \<noteq> NULL" and "\<exists>t. heap s2 x = Some t"
    using shape_wait_heap [OF sh, of x q] wq erase_heap_exists [OF ul(6)] by auto
  then obtain s3 where "uth_enqueue x s2 = Ok s3" "shape s3 (rq @ [x]) (wq(q := xs @ ys))"
      "erase s3 = set_state x UTH_STATE_READY (erase s2)"
    using uth_enqueue_shape [OF ul(5)] ul(7) by blast
  with ul show ?thesis by auto
qed

lemma uth_wake_one_shape [uth_ok]:
  assumes sh: "shape s rq wq" and wq: "wq q = x # xs"
  shows "\<exists>s'. uth_wake_one q s = Ok (x, s') \<and> shape s' (rq @ [x]) (wq(q := xs)) \<and>
     erase s' = set_state x UTH_STATE_READY (erase s)"
proof -
  obtain n s1 s2 s3 where "load_pp q s = Ok x" "load_pp (NextOf x) s = Ok n"
      "store_pp q n s = Ok s1" "store_pp (NextOf x) NULL s1 = Ok s2" "uth_enqueue x s2 = Ok s3"
      "shape s3 (rq @ [x]) (wq(q := xs))" "erase s3 = set_state x UTH_STATE_READY (erase s)"
    using unlink_enqueue_shape [OF sh, of q "[]" x xs] wq by auto
  moreover have "x \<noteq> NULL"
    using shape_wait_heap [OF sh, of x q] wq by simp
  ultimately show ?thesis by (simp add: uth_wake_one_def)
qed

lemma uth_wake_one_empty [uth_ok]:
  assumes "shape s rq wq" and "is_wait q" and "mapped q s" and "wq q = []"
  shows "uth_wake_one q s = Ok (NULL, s)"
  using wchain_chain [OF shapeD(3) [OF assms(1)] assms(2,3)] assms(4) by (simp add: uth_wake_one_def)

lemma mapped_erase [simp]: "mapped q (erase s) = mapped q s"
  by (cases q) (auto simp: mapped_def pp_simps ok_iff erase_maps)

lemma mapped_upd_tcb [simp]: "mapped q (upd_tcb x f s) = mapped q s"
  by (cases q) (auto simp: mapped_def pp_simps ok_iff heap_upd_tcb)

lemma wake_all_loop_shape:
  assumes "shape s rq wq" and "is_wait q" and "mapped q s" and "wq q = xs"
  shows "\<exists>s'. wake_all_loop q s = Some (Ok s') \<and> shape s' (rq @ xs) (wq(q := [])) \<and>
     erase s' = fold (\<lambda>x. set_state x UTH_STATE_READY) xs (erase s)"
  using assms
proof (induction xs arbitrary: s rq wq)
  case Nil
  then have "wq(q := []) = wq" by (simp add: fun_upd_idem)
  with Nil show ?case
    by (subst wake_all_loop.simps) (simp add: uth_wake_one_empty [OF Nil.prems])
next
  case (Cons x xs)
  obtain s1 where s1: "uth_wake_one q s = Ok (x, s1)" "shape s1 (rq @ [x]) (wq(q := xs))"
      "erase s1 = set_state x UTH_STATE_READY (erase s)"
    using uth_wake_one_shape [OF Cons.prems(1,4)] by blast
  have "mapped q (erase s1)" unfolding s1(3) using Cons.prems(3) by simp
  then have "mapped q s1" by simp
  then obtain s' where "wake_all_loop q s1 = Some (Ok s')"
      "shape s' ((rq @ [x]) @ xs) ((wq(q := xs))(q := []))"
      "erase s' = fold (\<lambda>x. set_state x UTH_STATE_READY) xs (erase s1)"
    using Cons.IH [OF s1(2) Cons.prems(2)] fun_upd_same [of wq q xs] by blast
  moreover have "x \<noteq> NULL"
    using shape_wait_heap [OF Cons.prems(1), of x q] Cons.prems(4) by simp
  ultimately show ?case
    by (subst wake_all_loop.simps) (simp add: s1(1,3))
qed

lemma uth_wake_all_shape [uth_ok]:
  assumes "shape s rq wq" and "is_wait q" and "mapped q s"
  shows "\<exists>s'. uth_wake_all q s = Ok s' \<and> shape s' (rq @ wq q) (wq(q := [])) \<and>
     erase s' = fold (\<lambda>x. set_state x UTH_STATE_READY) (wq q) (erase s)"
  using wake_all_loop_shape [OF assms refl] by (auto simp: uth_wake_all_def)

text \<open>The pointers determine the queues.\<close>

lemma shape_unique:
  assumes "shape s rq wq" and "shape s rq' wq'"
  shows "rq = rq'" and "wq = wq'"
proof -
  show "rq = rq'" using assms by (blast intro: chain_unique shapeD(1))
  show "wq = wq'"
  proof
    fix q
    show "wq q = wq' q"
      using shapeD(3) [OF assms(1), of q] shapeD(3) [OF assms(2), of q]
      by (auto simp: wchain_def dest: chain_unique split: if_splits)
  qed
qed

section \<open>The queue interface\<close>

text \<open>
  The contract that a first-in first-out queue of the library offers, whatever cells implement it:
  \<open>repr s xs\<close> says that the state \<open>s\<close> holds the elements \<open>xs\<close>, and \<open>adm x s\<close> that \<open>x\<close> may be
  put into it. It is interpreted below on the run queue and on every wait queue.
\<close>

primrec enq_all :: "('x \<Rightarrow> 's \<Rightarrow> 's res) \<Rightarrow> 'x list \<Rightarrow> 's \<Rightarrow> 's res" where
  "enq_all enq [] s = Ok s"
| "enq_all enq (x # xs) s = and_then (enq x s) (enq_all enq xs)"

primrec deq_n :: "('s \<Rightarrow> ('x \<times> 's) res) \<Rightarrow> nat \<Rightarrow> 's \<Rightarrow> ('x list \<times> 's) res" where
  "deq_n deq 0 s = Ok ([], s)"
| "deq_n deq (Suc n) s =
     and_then (deq s) (\<lambda>(x, s). and_then (deq_n deq n s) (\<lambda>(xs, s). Ok (x # xs, s)))"

locale fifo_queue =
  fixes repr :: "'s \<Rightarrow> 'x list \<Rightarrow> bool"
    and enq :: "'x \<Rightarrow> 's \<Rightarrow> 's res"
    and deq :: "'s \<Rightarrow> ('x \<times> 's) res"
    and adm :: "'x \<Rightarrow> 's \<Rightarrow> bool"
    and none :: 'x
  assumes enq_repr: "\<lbrakk>repr s xs; adm x s; x \<notin> set xs\<rbrakk> \<Longrightarrow>
      \<exists>s'. enq x s = Ok s' \<and> repr s' (xs @ [x]) \<and> (\<forall>y. adm y s \<longrightarrow> adm y s')"
    and deq_repr: "repr s (x # xs) \<Longrightarrow> \<exists>s'. deq s = Ok (x, s') \<and> repr s' xs"
    and deq_none: "repr s [] \<Longrightarrow> deq s = Ok (none, s)"
begin

lemma enq_all_repr:
  "\<lbrakk>repr s xs; distinct (xs @ ys); \<forall>y \<in> set ys. adm y s\<rbrakk> \<Longrightarrow>
     \<exists>s'. enq_all enq ys s = Ok s' \<and> repr s' (xs @ ys)"
proof (induction ys arbitrary: s xs)
  case (Cons y ys)
  obtain s1 where s1: "enq y s = Ok s1" "repr s1 (xs @ [y])" "\<forall>z. adm z s \<longrightarrow> adm z s1"
    using enq_repr [OF Cons.prems(1), of y] Cons.prems by auto
  show ?case
    using Cons.IH [OF s1(2)] Cons.prems s1 by simp
qed simp

lemma deq_n_repr: "repr s (xs @ ys) \<Longrightarrow> \<exists>s'. deq_n deq (length xs) s = Ok (xs, s') \<and> repr s' ys"
proof (induction xs arbitrary: s)
  case (Cons x xs)
  obtain s1 where s1: "deq s = Ok (x, s1)" "repr s1 (xs @ ys)"
    using deq_repr Cons.prems by fastforce
  with Cons.IH [OF s1(2)] show ?case by auto
qed simp

text \<open>First in, first out: the elements leave in the order in which they came.\<close>

lemma fifo_order:
  assumes "repr s xs" and "distinct (xs @ ys)" and "\<forall>y \<in> set ys. adm y s"
  shows "\<exists>s1 s2. enq_all enq ys s = Ok s1 \<and>
     deq_n deq (length xs + length ys) s1 = Ok (xs @ ys, s2) \<and> deq s2 = Ok (none, s2)"
proof -
  obtain s1 where s1: "enq_all enq ys s = Ok s1" "repr s1 ((xs @ ys) @ [])"
    using enq_all_repr [OF assms] by auto
  with deq_n_repr [OF s1(2)] show ?thesis
    by (auto dest: deq_none)
qed

end

interpretation run_queue: fifo_queue
  "\<lambda>s xs. shape s xs wq" "queue_push RqHead RqTail" "queue_pop RqHead RqTail"
  "\<lambda>x s. x \<noteq> NULL \<and> heap s x \<noteq> None \<and> (\<forall>q. x \<notin> set (wq q))" NULL for wq
proof (unfold_locales, goal_cases)
  case (1 s xs x)
  then obtain s' where "queue_push RqHead RqTail x s = Ok s'" "shape s' (xs @ [x]) wq" "erase s' = erase s"
    using queue_push_shape [of s xs wq x] by (auto simp: unqueued_def)
  then show ?case using erase_heap_exists [of s' s] by fastforce
next
  case (2 s x xs)
  then show ?case using queue_pop_shape by blast
next
  case (3 s)
  then show ?case by (rule queue_pop_empty)
qed

definition wait_repr :: "tcb_pp \<Rightarrow> sys \<Rightarrow> ptr list \<Rightarrow> bool" where
  "wait_repr q s xs \<longleftrightarrow> is_wait q \<and> mapped q s \<and> (\<exists>rq wq. shape s rq wq \<and> wq q = xs)"

definition may_wait :: "tcb_pp \<Rightarrow> ptr \<Rightarrow> sys \<Rightarrow> bool" where
  "may_wait q x s \<longleftrightarrow> x \<noteq> NULL \<and> heap s x \<noteq> None \<and>
     (\<forall>rq wq. shape s rq wq \<longrightarrow> x \<notin> set rq \<and> (\<forall>q'. q' \<noteq> q \<longrightarrow> x \<notin> set (wq q')))"

lemma may_wait_shape:
  assumes "shape s rq wq"
  shows "may_wait q x s \<longleftrightarrow>
     x \<noteq> NULL \<and> heap s x \<noteq> None \<and> x \<notin> set rq \<and> (\<forall>q'. q' \<noteq> q \<longrightarrow> x \<notin> set (wq q'))"
  using assms shape_unique [OF assms] unfolding may_wait_def by metis

lemma wait_append_repr:
  assumes "wait_repr q s xs" and "may_wait q x s" and "x \<notin> set xs"
  shows "\<exists>s'. wait_append q x s = Ok s' \<and> wait_repr q s' (xs @ [x]) \<and> (\<forall>y. may_wait q y s \<longrightarrow> may_wait q y s')"
proof -
  obtain rq wq where sh: "shape s rq wq" and wq: "wq q = xs" and q: "is_wait q" "mapped q s"
    using assms(1) by (auto simp: wait_repr_def)
  have un: "unqueued x rq wq"
    using assms(2,3) wq by (auto simp: may_wait_shape [OF sh] unqueued_def)
  have x: "x \<noteq> NULL" "\<exists>t. heap s x = Some t"
    using assms(2) by (auto simp: may_wait_def)
  from x(2) obtain s' where s': "wait_append q x s = Ok s'" "shape s' rq (wq(q := xs @ [x]))" "erase s' = erase s"
    using wait_append_shape [OF sh q x(1) _ un] wq by blast
  have "mapped q s'" using q(2) mapped_erase [of q s'] s'(3) by simp
  then have "wait_repr q s' (xs @ [x])"
    unfolding wait_repr_def using s'(2) q fun_upd_same by metis
  moreover have "may_wait q y s'" if "may_wait q y s" for y
    using that erase_heap_exists [OF s'(3), of y] by (auto simp: may_wait_shape [OF sh] may_wait_shape [OF s'(2)])
  ultimately show ?thesis using s'(1) by blast
qed

lemma uth_wake_one_repr:
  assumes "wait_repr q s (x # xs)"
  shows "\<exists>s'. uth_wake_one q s = Ok (x, s') \<and> wait_repr q s' xs"
proof -
  obtain rq wq where sh: "shape s rq wq" and wq: "wq q = x # xs" and q: "is_wait q" "mapped q s"
    using assms by (auto simp: wait_repr_def)
  obtain s' where s': "uth_wake_one q s = Ok (x, s')" "shape s' (rq @ [x]) (wq(q := xs))"
      "erase s' = set_state x UTH_STATE_READY (erase s)"
    using uth_wake_one_shape [of s rq wq q, OF sh wq] by blast
  have "mapped q s'" using q(2) mapped_erase [of q s'] s'(3) by simp
  then have "wait_repr q s' xs"
    unfolding wait_repr_def using s'(2) q fun_upd_same by metis
  with s'(1) show ?thesis by blast
qed

interpretation wait_queue: fifo_queue "wait_repr q" "wait_append q" "uth_wake_one q" "may_wait q" NULL for q
proof (unfold_locales, goal_cases)
  case (1 s xs x)
  then show ?case by (rule wait_append_repr)
next
  case (2 s x xs)
  then show ?case by (rule uth_wake_one_repr)
next
  case (3 s)
  then show ?case using uth_wake_one_empty by (auto simp: wait_repr_def)
qed

end
