(* ===== verification/Uth_Table.thy ===== *)
theory Uth_Table
  imports Uth_Queue
begin

text \<open>
  The thread table of \<open>thread.c\<close>: \<open>tcb_alloc\<close> with its growth by doubling, \<open>tcb_find\<close>,
  \<open>tcb_free\<close> and the count of live threads in \<open>scheduler_loop\<close>.
  \<open>table_ok\<close> is the invariant of the table. It implies that thread ids are never reused and never
  wrap: the doubling of the 32-bit capacity stops the process before \<open>next_tid\<close> can overflow.
\<close>

section \<open>The operations\<close>

text \<open>What the operating system answers to \<open>mmap\<close>, \<open>realloc\<close> and \<open>calloc\<close> in one call of \<open>uth_create\<close>.\<close>

record os_env =
  env_mmap :: "ptr option"
  env_realloc :: bool
  env_calloc :: ptr

definition table_get :: "nat \<Rightarrow> sys \<Rightarrow> ptr res" where
  "table_get i s = (if i < length (tcb_table s) then Ok (tcb_table s ! i) else Fault OutOfBounds)"

definition table_set :: "nat \<Rightarrow> ptr \<Rightarrow> sys \<Rightarrow> sys res" where
  "table_set i x s =
     (if i < length (tcb_table s) then Ok (s\<lparr>tcb_table := (tcb_table s)[i := x]\<rparr>)
      else Fault OutOfBounds)"

definition tcb_grow :: "os_env \<Rightarrow> sys \<Rightarrow> sys res" where
  "tcb_grow env s =
     (if tcb_count s \<ge> tcb_capacity s then
        let newcap = (if tcb_capacity s \<noteq> 0 then tcb_capacity s * 2 else 64) in
        if \<not> env_realloc env then Fault (ExitFailure ''realloc tcb_table'')
        else if newcap < tcb_capacity s then Fault OutOfBounds
        else Ok (s\<lparr>tcb_table := tcb_table s @ replicate (unat newcap - unat (tcb_capacity s)) NULL,
                   tcb_capacity := newcap\<rparr>)
      else Ok s)"

definition tcb_alloc :: "os_env \<Rightarrow> sys \<Rightarrow> (ptr \<times> sys) res" where
  "tcb_alloc env s =
     and_then (tcb_grow env s) (\<lambda>s.
     let t = env_calloc env in
     if t = NULL then Fault (ExitFailure ''calloc tcb'')
     else
       let s = s\<lparr>heap := (heap s)(t \<mapsto> tcb0\<lparr>tcb_tid := next_tid s\<rparr>), next_tid := next_tid s + 1\<rparr> in
       and_then (table_set (unat (tcb_count s)) t s) (\<lambda>s.
       Ok (t, s\<lparr>tcb_count := tcb_count s + 1\<rparr>)))"

function tcb_find_from :: "u32 \<Rightarrow> nat \<Rightarrow> sys \<Rightarrow> ptr res" where
  "tcb_find_from tid i s =
     (if i < unat (tcb_count s) then
        and_then (table_get i s) (\<lambda>x.
        if x \<noteq> NULL then
          and_then (get_tcb x s) (\<lambda>t.
          if tcb_tid t = tid then Ok x else tcb_find_from tid (Suc i) s)
        else tcb_find_from tid (Suc i) s)
      else Ok NULL)"
  by pat_completeness auto
termination
  by (relation "measure (\<lambda>(tid, i, s). unat (tcb_count s) - i)") auto

definition tcb_find :: "u32 \<Rightarrow> sys \<Rightarrow> ptr res" where
  "tcb_find tid s = tcb_find_from tid 0 s"

function tcb_clear_from :: "ptr \<Rightarrow> nat \<Rightarrow> sys \<Rightarrow> sys res" where
  "tcb_clear_from t i s =
     (if i < unat (tcb_count s) then
        and_then (table_get i s) (\<lambda>x.
        if x = t then table_set i NULL s else tcb_clear_from t (Suc i) s)
      else Ok s)"
  by pat_completeness auto
termination
  by (relation "measure (\<lambda>(t, i, s). unat (tcb_count s) - i)") auto

definition tcb_free :: "ptr \<Rightarrow> sys \<Rightarrow> sys res" where
  "tcb_free t s =
     and_then (tcb_clear_from t 0 s) (\<lambda>s.
     and_then (get_tcb t s) (\<lambda>x.
     let s = (if tcb_stack x \<noteq> NULL then s\<lparr>stacks := (stacks s)(tcb_stack x := None)\<rparr> else s) in
     Ok (s\<lparr>heap := (heap s)(t := None)\<rparr>)))"

text \<open>
  The variable \<open>live\<close> of \<open>scheduler_loop\<close>, which is only compared with 0. It is a C \<open>int\<close> there; this count is not bounded, and differs from it only
  when \<open>2 ^ 31\<close> threads are alive, as many as the table can hold.
\<close>

function count_live_from :: "nat \<Rightarrow> int \<Rightarrow> sys \<Rightarrow> int res" where
  "count_live_from i n s =
     (if i < unat (tcb_count s) then
        and_then (table_get i s) (\<lambda>x.
        if x \<noteq> NULL then
          and_then (get_tcb x s) (\<lambda>t.
          count_live_from (Suc i) (if tcb_state t \<noteq> UTH_STATE_ZOMBIE then n + 1 else n) s)
        else count_live_from (Suc i) n s)
      else Ok n)"
  by pat_completeness auto
termination
  by (relation "measure (\<lambda>(i, n, s). unat (tcb_count s) - i)") auto

definition count_live :: "sys \<Rightarrow> int res" where
  "count_live s = count_live_from 0 0 s"

declare tcb_find_from.simps [simp del] tcb_clear_from.simps [simp del] count_live_from.simps [simp del]

section \<open>The invariant of the table\<close>

definition cap_ok :: "u32 \<Rightarrow> bool" where
  "cap_ok c \<longleftrightarrow> c = 0 \<or> (\<exists>k \<le> 25. unat c = 64 * 2 ^ k)"

definition slots_ok :: "sys \<Rightarrow> bool" where
  "slots_ok s \<longleftrightarrow> (\<forall>i < unat (tcb_count s). tcb_table s ! i \<noteq> NULL \<longrightarrow>
     (\<exists>t. heap s (tcb_table s ! i) = Some t \<and> unat (tcb_tid t) = Suc i))"

definition tids_ok :: "sys \<Rightarrow> bool" where
  "tids_ok s \<longleftrightarrow> (\<forall>x t. heap s x = Some t \<longrightarrow> x \<noteq> NULL \<and> tcb_tid t \<noteq> UTH_TID_INVALID \<and>
     unat (tcb_tid t) \<le> unat (tcb_count s) \<and> tcb_table s ! (unat (tcb_tid t) - 1) = x)"

definition table_ok :: "sys \<Rightarrow> bool" where
  "table_ok s \<longleftrightarrow> length (tcb_table s) = unat (tcb_capacity s) \<and>
     unat (tcb_count s) \<le> unat (tcb_capacity s) \<and> cap_ok (tcb_capacity s) \<and>
     unat (next_tid s) = Suc (unat (tcb_count s)) \<and> slots_ok s \<and> tids_ok s"

lemma table_okD:
  assumes "table_ok s"
  shows "length (tcb_table s) = unat (tcb_capacity s)" "unat (tcb_count s) \<le> unat (tcb_capacity s)"
    "cap_ok (tcb_capacity s)" "unat (next_tid s) = Suc (unat (tcb_count s))"
    "slots_ok s" "tids_ok s"
  using assms by (simp_all add: table_ok_def)

lemma tids_okD:
  assumes "tids_ok s" and "heap s x = Some t"
  shows "x \<noteq> NULL" "tcb_tid t \<noteq> UTH_TID_INVALID" "unat (tcb_tid t) \<le> unat (tcb_count s)"
    "tcb_table s ! (unat (tcb_tid t) - 1) = x" "0 < unat (tcb_tid t)"
  using assms by (auto simp: tids_ok_def unat_gt_0)

lemma slots_okD:
  "\<lbrakk>slots_ok s; i < unat (tcb_count s); tcb_table s ! i \<noteq> NULL\<rbrakk> \<Longrightarrow>
     \<exists>t. heap s (tcb_table s ! i) = Some t \<and> unat (tcb_tid t) = Suc i"
  by (simp add: slots_ok_def)

lemma tid_unique:
  assumes "table_ok s" and "heap s x = Some t" and "heap s y = Some u" and "tcb_tid t = tcb_tid u"
  shows "x = y"
  using tids_okD(4) [OF table_okD(6) [OF assms(1)] assms(2)]
    tids_okD(4) [OF table_okD(6) [OF assms(1)] assms(3)] assms(4) by simp

lemma cap_ok_bound: "cap_ok c \<Longrightarrow> unat c \<le> 2 ^ 31"
proof -
  assume "cap_ok c"
  then consider "c = 0" | k where "k \<le> 25" "unat c = 64 * 2 ^ k" by (auto simp: cap_ok_def)
  then show ?thesis
  proof cases
    case 2
    have "(2::nat) ^ k \<le> 2 ^ 25" using 2(1) by (intro power_increasing) auto
    with 2(2) show ?thesis by simp
  qed simp
qed

lemma cap_ok_double:
  assumes "cap_ok c" and "c \<noteq> 0" and "\<not> c * 2 < c"
  shows "unat (c * 2) = 2 * unat c" and "cap_ok (c * 2)"
proof -
  obtain k where k: "k \<le> 25" "unat c = 64 * 2 ^ k"
    using assms(1,2) by (auto simp: cap_ok_def)
  have "k \<noteq> 25"
  proof
    assume "k = 25"
    then have "unat c = 2147483648" using k by simp
    then have "c = 2147483648" by (simp add: word_unat_eq_iff)
    with assms(3) show False by simp
  qed
  with k(1) have k24: "k \<le> 24" by simp
  then have "(2::nat) ^ k \<le> 2 ^ 24" by (intro power_increasing) auto
  then have "unat c < 2 ^ 31" using k(2) by simp
  then show *: "unat (c * 2) = 2 * unat c" by (rule unat_double_u32)
  have "unat (c * 2) = 64 * 2 ^ Suc k" using * k(2) by simp
  then show "cap_ok (c * 2)" using k24 unfolding cap_ok_def by (intro disjI2 exI [of _ "Suc k"]) simp
qed

text \<open>The table invariant only reads the ids of the TCBs.\<close>

lemma slots_ok_cong:
  assumes "\<And>x. map_option tcb_tid (heap s' x) = map_option tcb_tid (heap s x)"
    and "tcb_table s' = tcb_table s" "tcb_count s' = tcb_count s"
  shows "slots_ok s' = slots_ok s"
proof -
  have "(\<exists>t. heap s' x = Some t \<and> P (tcb_tid t)) = (\<exists>t. heap s x = Some t \<and> P (tcb_tid t))" for x P
    using assms(1) [of x] by (cases "heap s x"; cases "heap s' x") auto
  note * = this [where P = "\<lambda>i. unat i = Suc j" for j]
  show ?thesis using assms(2,3) * by (simp add: slots_ok_def)
qed

lemma tids_ok_cong:
  assumes "\<And>x. map_option tcb_tid (heap s' x) = map_option tcb_tid (heap s x)"
    and "tcb_table s' = tcb_table s" "tcb_count s' = tcb_count s"
  shows "tids_ok s' = tids_ok s"
proof -
  have "(\<forall>t. heap s' x = Some t \<longrightarrow> P (tcb_tid t)) = (\<forall>t. heap s x = Some t \<longrightarrow> P (tcb_tid t))" for x P
    using assms(1) [of x] by (cases "heap s x"; cases "heap s' x") auto
  note * = this
  show ?thesis using assms(2,3) * [where P = "\<lambda>i. x \<noteq> NULL \<and> i \<noteq> 0 \<and>
     unat i \<le> unat (tcb_count s) \<and> tcb_table s ! (unat i - 1) = x" for x]
    by (simp add: tids_ok_def)
qed

lemma table_ok_cong:
  assumes "\<And>x. map_option tcb_tid (heap s' x) = map_option tcb_tid (heap s x)"
    and "tcb_table s' = tcb_table s" "tcb_capacity s' = tcb_capacity s"
    "tcb_count s' = tcb_count s" "next_tid s' = next_tid s"
  shows "table_ok s' = table_ok s"
  using assms slots_ok_cong [OF assms(1,2,4)] tids_ok_cong [OF assms(1,2,4)]
  by (simp add: table_ok_def)

lemma table_ok_erase [simp]: "table_ok (erase s) = table_ok s"
  by (rule table_ok_cong) (simp_all add: erase_maps option.map_comp o_def)

lemma table_ok_upd_tcb [simp]:
  "(\<And>t. tcb_tid (f t) = tcb_tid t) \<Longrightarrow> table_ok (upd_tcb x f s) = table_ok s"
  by (rule table_ok_cong) (simp_all add: heap_upd_tcb option.map_comp o_def)

section \<open>Allocation\<close>

lemma word_ge_unat: "(a::u32) \<ge> b \<longleftrightarrow> unat b \<le> unat a"
  by (simp add: word_le_nat_alt)

lemma grown_table_ok:
  assumes ok: "table_ok s" and c: "cap_ok c" "unat (tcb_capacity s) \<le> unat c"
  shows "table_ok (s\<lparr>tcb_table := tcb_table s @ replicate (unat c - unat (tcb_capacity s)) NULL,
     tcb_capacity := c\<rparr>)" (is "table_ok ?s")
proof -
  have "slots_ok ?s"
    using table_okD(1,2,5) [OF ok] by (auto simp: slots_ok_def nth_append)
  moreover have "tids_ok ?s"
    unfolding tids_ok_def
  proof (intro allI impI)
    fix x t assume "heap ?s x = Some t"
    then have "heap s x = Some t" by simp
    note D = tids_okD [OF table_okD(6) [OF ok] this]
    then have "unat (tcb_tid t) - 1 < length (tcb_table s)"
      using table_okD(1,2) [OF ok] by linarith
    with D show "x \<noteq> NULL \<and> tcb_tid t \<noteq> 0 \<and> unat (tcb_tid t) \<le> unat (tcb_count ?s) \<and>
        tcb_table ?s ! (unat (tcb_tid t) - 1) = x"
      by (simp add: nth_append)
  qed
  ultimately show ?thesis
    using c table_okD(1,2,4) [OF ok] unfolding table_ok_def by simp
qed

lemma newcap_ok:
  assumes ok: "cap_ok cap" and c: "c = (if cap \<noteq> 0 then cap * 2 else 64)" and nl: "\<not> c < cap"
  shows "cap_ok c" and "unat cap < unat c"
proof -
  have "cap_ok 64" unfolding cap_ok_def by (intro disjI2 exI [of _ 0]) simp
  then show "cap_ok c" using cap_ok_double(2) [OF ok] nl by (auto simp: c)
  show "unat cap < unat c"
    using cap_ok_double(1) [OF ok] nl by (cases "cap = 0") (auto simp: c unat_gt_0)
qed

lemma tcb_grow_ok:
  assumes ok: "table_ok s" and g: "tcb_grow env s = Ok s'"
  shows "table_ok s' \<and> unat (tcb_count s') < unat (tcb_capacity s') \<and>
     (\<exists>tb c. s' = s\<lparr>tcb_table := tb, tcb_capacity := c\<rparr>)"
proof (cases "tcb_count s \<ge> tcb_capacity s")
  case False
  then have "s' = s" using g by (simp add: tcb_grow_def)
  moreover have "s = s\<lparr>tcb_table := tcb_table s, tcb_capacity := tcb_capacity s\<rparr>" by simp
  ultimately show ?thesis using ok False by (metis linorder_not_le word_less_nat_alt)
next
  case True
  define c where "c = (if tcb_capacity s \<noteq> 0 then tcb_capacity s * 2 else 64)"
  have nl: "\<not> c < tcb_capacity s"
    and s': "s' = s\<lparr>tcb_table := tcb_table s @ replicate (unat c - unat (tcb_capacity s)) NULL, tcb_capacity := c\<rparr>"
    using g True by (auto simp: tcb_grow_def c_def Let_def split: if_splits)
  note c = newcap_ok [OF table_okD(3) [OF ok] c_def nl]
  have "table_ok s'"
    unfolding s' using c by (intro grown_table_ok [OF ok]) simp_all
  moreover have "unat (tcb_count s') < unat (tcb_capacity s')"
    using c(2) table_okD(2) [OF ok] by (simp add: s')
  ultimately show ?thesis using s' by blast
qed

text \<open>Putting a fresh TCB into the next free slot.\<close>

definition insert_tcb :: "ptr \<Rightarrow> sys \<Rightarrow> sys" where
  "insert_tcb t s = s\<lparr>heap := (heap s)(t \<mapsto> tcb0\<lparr>tcb_tid := next_tid s\<rparr>), next_tid := next_tid s + 1,
     tcb_table := (tcb_table s)[unat (tcb_count s) := t], tcb_count := tcb_count s + 1\<rparr>"

lemma counters_step:
  assumes "table_ok s" and "unat (tcb_count s) < unat (tcb_capacity s)"
  shows "unat (tcb_count s + 1) = Suc (unat (tcb_count s))" "unat (next_tid s + 1) = Suc (unat (next_tid s))"
proof -
  have "Suc (unat (tcb_count s)) \<le> 2 ^ 31"
    using assms(2) cap_ok_bound [OF table_okD(3) [OF assms(1)]] by simp
  then show "unat (tcb_count s + 1) = Suc (unat (tcb_count s))" "unat (next_tid s + 1) = Suc (unat (next_tid s))"
    using table_okD(4) [OF assms(1)] by (intro unat_suc_word; simp)+
qed

lemma insert_table_ok:
  assumes ok: "table_ok s" and lt: "unat (tcb_count s) < unat (tcb_capacity s)"
    and t: "t \<noteq> NULL" "heap s t = None"
  shows "table_ok (insert_tcb t s)"
proof -
  note D = table_okD [OF ok] and cnt = counters_step [OF ok lt]
  have tne: "tcb_table s ! i \<noteq> t" if "i < unat (tcb_count s)" for i
    using slots_okD [OF D(5) that] t by auto
  have "slots_ok (insert_tcb t s)"
    using D(1,4) lt slots_okD [OF D(5)] cnt(1) tne t(1)
    by (auto simp: insert_tcb_def slots_ok_def nth_list_update less_Suc_eq)
  moreover have "tids_ok (insert_tcb t s)"
    unfolding tids_ok_def
  proof (intro allI impI)
    fix x u assume u: "heap (insert_tcb t s) x = Some u"
    show "x \<noteq> NULL \<and> tcb_tid u \<noteq> 0 \<and> unat (tcb_tid u) \<le> unat (tcb_count (insert_tcb t s)) \<and>
        tcb_table (insert_tcb t s) ! (unat (tcb_tid u) - 1) = x"
    proof (cases "x = t")
      case True
      with u t(1) D(1,4) lt cnt(1) show ?thesis by (auto simp: insert_tcb_def)
    next
      case False
      then have "heap s x = Some u" using u by (simp add: insert_tcb_def)
      note E = tids_okD [OF D(6) this]
      then have "unat (tcb_tid u) - 1 < unat (tcb_count s)" by linarith
      with E show ?thesis using cnt(1) D(1) lt by (simp add: insert_tcb_def nth_list_update)
    qed
  qed
  ultimately show ?thesis
    using D(1-4) lt cnt unfolding table_ok_def by (simp add: insert_tcb_def)
qed

lemma tcb_alloc_ok:
  assumes ok: "table_ok s" and a: "tcb_alloc env s = Ok (t, s')" and fresh: "heap s (env_calloc env) = None"
  shows "t = env_calloc env \<and> t \<noteq> NULL \<and> table_ok s' \<and> unat (next_tid s') = Suc (unat (next_tid s)) \<and>
     (\<exists>tb c n. s' = s\<lparr>heap := (heap s)(t \<mapsto> tcb0\<lparr>tcb_tid := next_tid s\<rparr>), next_tid := next_tid s + 1,
       tcb_table := tb, tcb_capacity := c, tcb_count := n\<rparr>)"
proof -
  obtain s1 where s1: "tcb_grow env s = Ok s1" and t: "t = env_calloc env" "t \<noteq> NULL"
    and s': "s' = insert_tcb t s1"
    using a by (auto simp: tcb_alloc_def table_set_def Let_def ok_iff insert_tcb_def split: if_splits)
  obtain tb c where ok1: "table_ok s1" and lt: "unat (tcb_count s1) < unat (tcb_capacity s1)"
    and form: "s1 = s\<lparr>tcb_table := tb, tcb_capacity := c\<rparr>"
    using tcb_grow_ok [OF ok s1] by blast
  have "heap s1 t = None" using fresh t form by simp
  then have "table_ok s'" unfolding s' using t(2) by (intro insert_table_ok [OF ok1 lt])
  moreover have "unat (next_tid s') = Suc (unat (next_tid s))"
    using counters_step(2) [OF ok1 lt] by (simp add: s' insert_tcb_def form)
  moreover have "s' = s\<lparr>heap := (heap s)(t \<mapsto> tcb0\<lparr>tcb_tid := next_tid s\<rparr>), next_tid := next_tid s + 1,
       tcb_table := tb[unat (tcb_count s) := t], tcb_capacity := c, tcb_count := tcb_count s + 1\<rparr>"
    by (simp add: s' form insert_tcb_def)
  ultimately show ?thesis using t by blast
qed

lemma tcb_alloc_total:
  assumes ok: "table_ok s" and env: "env_realloc env" "env_calloc env \<noteq> NULL"
    and lt: "unat (tcb_count s) < 2 ^ 31"
  shows "\<exists>s'. tcb_alloc env s = Ok (env_calloc env, s')"
proof -
  have "\<exists>s'. tcb_grow env s = Ok s'"
  proof (cases "tcb_count s \<ge> tcb_capacity s \<and> tcb_capacity s \<noteq> 0")
    case True
    then have "unat (tcb_capacity s) < 2 ^ 31" using lt by (simp add: word_ge_unat)
    then have "\<not> tcb_capacity s * 2 < tcb_capacity s"
      using unat_double_u32 [of "tcb_capacity s"] by (simp add: word_less_nat_alt)
    with True env show ?thesis by (simp add: tcb_grow_def Let_def)
  next
    case False
    with env show ?thesis by (auto simp: tcb_grow_def Let_def)
  qed
  then obtain s1 where s1: "tcb_grow env s = Ok s1" by blast
  from tcb_grow_ok [OF ok s1] have "unat (tcb_count s1) < length (tcb_table s1)"
    using table_okD(1) [of s1] by simp
  with s1 env show ?thesis by (simp add: tcb_alloc_def table_set_def Let_def)
qed

section \<open>Lookup\<close>

lemma tcb_find_from_hit:
  assumes ok: "table_ok s" and x: "heap s x = Some t" "tcb_tid t = tid"
  shows "i < unat tid \<Longrightarrow> tcb_find_from tid i s = Ok x"
proof (induction "unat tid - i" arbitrary: i)
  case (Suc n)
  note D = table_okD [OF ok] and E = tids_okD [OF table_okD(6) [OF ok] x(1)]
  have len: "i < unat (tcb_count s)" "i < length (tcb_table s)"
    using Suc.prems E(3) D(1,2) x(2) by simp_all
  show ?case
  proof (cases "i = unat tid - 1")
    case True
    then have "tcb_table s ! i = x" using E(4) x(2) by simp
    with len E(1) x show ?thesis
      by (subst tcb_find_from.simps) (simp add: table_get_def)
  next
    case False
    then have rec: "tcb_find_from tid (Suc i) s = Ok x"
      using Suc by (intro Suc.hyps(1)) simp_all
    have "tcb_tid u \<noteq> tid" if "heap s (tcb_table s ! i) = Some u" "tcb_table s ! i \<noteq> NULL" for u
      using slots_okD [OF D(5) len(1)] that False by auto
    then show ?thesis
      using len rec slots_okD [OF D(5) len(1)]
      by (subst tcb_find_from.simps) (auto simp: table_get_def)
  qed
qed simp

lemma tcb_find_from_miss:
  assumes ok: "table_ok s" and no: "\<forall>x t. heap s x = Some t \<longrightarrow> tcb_tid t \<noteq> tid"
  shows "tcb_find_from tid i s = Ok NULL"
proof (induction "unat (tcb_count s) - i" arbitrary: i)
  case 0
  then show ?case by (subst tcb_find_from.simps) simp
next
  case (Suc n)
  then have "i < length (tcb_table s)" "i < unat (tcb_count s)"
    using table_okD(1,2) [OF ok] by simp_all
  moreover have "tcb_find_from tid (Suc i) s = Ok NULL" using Suc by simp
  ultimately show ?case
    using slots_okD [OF table_okD(5) [OF ok], of i] no
    by (subst tcb_find_from.simps) (auto simp: table_get_def)
qed

lemma tcb_find_hit [uth_ok]:
  "\<lbrakk>table_ok s; heap s x = Some t; tcb_tid t = tid\<rbrakk> \<Longrightarrow> tcb_find tid s = Ok x"
  unfolding tcb_find_def using tids_okD(5) [OF table_okD(6)] tcb_find_from_hit by metis

lemma tcb_find_miss [uth_ok]:
  "\<lbrakk>table_ok s; \<forall>x t. heap s x = Some t \<longrightarrow> tcb_tid t \<noteq> tid\<rbrakk> \<Longrightarrow> tcb_find tid s = Ok NULL"
  by (simp add: tcb_find_def tcb_find_from_miss)

lemma tcb_find_cases:
  assumes "table_ok s"
  obtains (hit) x t where "tcb_find tid s = Ok x" "x \<noteq> NULL" "heap s x = Some t" "tcb_tid t = tid"
    | (miss) "tcb_find tid s = Ok NULL" "\<forall>x t. heap s x = Some t \<longrightarrow> tcb_tid t \<noteq> tid"
  using tcb_find_hit [OF assms] tcb_find_miss [OF assms] tids_okD(1) [OF table_okD(6) [OF assms]] by metis

section \<open>Release\<close>

lemma tcb_clear_from_ok:
  assumes ok: "table_ok s" and x: "heap s x = Some t"
  shows "i < unat (tcb_tid t) \<Longrightarrow>
     tcb_clear_from x i s = Ok (s\<lparr>tcb_table := (tcb_table s)[unat (tcb_tid t) - 1 := NULL]\<rparr>)"
proof (induction "unat (tcb_tid t) - i" arbitrary: i)
  case (Suc n)
  note D = table_okD [OF ok] and E = tids_okD [OF table_okD(6) [OF ok] x]
  have len: "i < unat (tcb_count s)" "i < length (tcb_table s)"
    using Suc.prems E(3) D(1,2) by simp_all
  show ?case
  proof (cases "i = unat (tcb_tid t) - 1")
    case True
    with len E(4) show ?thesis
      by (subst tcb_clear_from.simps) (simp add: table_get_def table_set_def)
  next
    case False
    have "tcb_table s ! i \<noteq> x"
      using slots_okD [OF D(5) len(1)] x E(1,5) False by auto
    with len False Suc show ?thesis
      by (subst tcb_clear_from.simps) (simp add: table_get_def)
  qed
qed simp

definition remove_tcb :: "ptr \<Rightarrow> uth_tcb_t \<Rightarrow> sys \<Rightarrow> sys" where
  "remove_tcb x t s = s\<lparr>heap := (heap s)(x := None),
     tcb_table := (tcb_table s)[unat (tcb_tid t) - 1 := NULL],
     stacks := (if tcb_stack t \<noteq> NULL then (stacks s)(tcb_stack t := None) else stacks s)\<rparr>"

lemma tcb_free_ok [uth_ok]:
  assumes ok: "table_ok s" and x: "heap s x = Some t"
  shows "tcb_free x s = Ok (remove_tcb x t s)"
  using tcb_clear_from_ok [OF assms, of 0] tids_okD(1,5) [OF table_okD(6) [OF ok] x] x
  by (simp add: tcb_free_def remove_tcb_def)

lemma remove_table_ok:
  assumes ok: "table_ok s" and x: "heap s x = Some t"
  shows "table_ok (remove_tcb x t s)"
proof -
  note D = table_okD [OF ok] and E = tids_okD [OF table_okD(6) [OF ok] x]
  have "slots_ok (remove_tcb x t s)"
    unfolding slots_ok_def
  proof (intro allI impI)
    fix i
    assume i: "i < unat (tcb_count (remove_tcb x t s))" "tcb_table (remove_tcb x t s) ! i \<noteq> NULL"
    then have "i < unat (tcb_count s)" by (simp add: remove_tcb_def)
    then have "i < length (tcb_table s)" using D(1,2) by simp
    then have ne: "i \<noteq> unat (tcb_tid t) - 1" "tcb_table s ! i \<noteq> NULL"
      using i(2) by (cases "i = unat (tcb_tid t) - 1"; auto simp: remove_tcb_def)+
    then obtain u where u: "heap s (tcb_table s ! i) = Some u" "unat (tcb_tid u) = Suc i"
      using slots_okD [OF D(5) \<open>i < unat (tcb_count s)\<close>] by blast
    then have "tcb_table s ! i \<noteq> x" using x ne(1) by auto
    with u ne show "\<exists>u. heap (remove_tcb x t s) (tcb_table (remove_tcb x t s) ! i) = Some u \<and>
        unat (tcb_tid u) = Suc i"
      by (simp add: remove_tcb_def)
  qed
  moreover have "tids_ok (remove_tcb x t s)"
    unfolding tids_ok_def
  proof (intro allI impI)
    fix y u
    assume "heap (remove_tcb x t s) y = Some u"
    then have y: "y \<noteq> x" "heap s y = Some u" by (auto simp: remove_tcb_def split: if_splits)
    note F = tids_okD [OF D(6) y(2)]
    have "unat (tcb_tid u) - 1 \<noteq> unat (tcb_tid t) - 1"
      using E(4) F(4) y(1) by auto
    with F show "y \<noteq> NULL \<and> tcb_tid u \<noteq> 0 \<and> unat (tcb_tid u) \<le> unat (tcb_count (remove_tcb x t s)) \<and>
        tcb_table (remove_tcb x t s) ! (unat (tcb_tid u) - 1) = y"
      by (simp add: remove_tcb_def)
  qed
  ultimately show ?thesis
    using D(1-4) unfolding table_ok_def by (simp add: remove_tcb_def)
qed

section \<open>Counting the live threads\<close>

definition live_at :: "sys \<Rightarrow> ptr \<Rightarrow> bool" where
  "live_at s x \<longleftrightarrow> (case heap s x of None \<Rightarrow> False | Some t \<Rightarrow> tcb_state t \<noteq> UTH_STATE_ZOMBIE)"

lemma heap_in_table:
  assumes "table_ok s" and "heap s x = Some t"
  shows "x \<in> set (tcb_table s)"
proof -
  note E = tids_okD [OF table_okD(6) [OF assms(1)] assms(2)]
  then have "unat (tcb_tid t) - 1 < length (tcb_table s)"
    using table_okD(1,2) [OF assms(1)] by linarith
  then show ?thesis using E(4) nth_mem by metis
qed

lemma finite_live: "table_ok s \<Longrightarrow> finite {x. live_at s x \<and> P x}"
  by (rule finite_subset [of _ "set (tcb_table s)"])
    (auto simp: live_at_def heap_in_table split: option.splits)

lemma live_slot_step:
  assumes ok: "table_ok s" and i: "i < unat (tcb_count s)"
  defines "L \<equiv> \<lambda>i. {x. live_at s x \<and> (\<exists>t. heap s x = Some t \<and> i < unat (tcb_tid t))}"
  shows "L i = (if tcb_table s ! i \<noteq> NULL \<and> live_at s (tcb_table s ! i)
      then insert (tcb_table s ! i) (L (Suc i)) else L (Suc i))" and "tcb_table s ! i \<notin> L (Suc i)"
proof -
  note D = table_okD [OF ok]
  have idx: "tcb_table s ! i = x" if "heap s x = Some t" "unat (tcb_tid t) = Suc i" for x t
    using tids_okD(4) [OF D(6) that(1)] that(2) by simp
  have tid: "unat (tcb_tid t) = Suc i" if "heap s (tcb_table s ! i) = Some t" for t
    using slots_okD [OF D(5) i] tids_okD(1) [OF D(6) that] that by auto
  have nn: "tcb_table s ! i \<noteq> NULL" if "live_at s (tcb_table s ! i)"
    using that tids_okD(1) [OF D(6)] by (auto simp: live_at_def split: option.splits)
  have Li: "x \<in> L i \<longleftrightarrow> x \<in> L (Suc i) \<or> x = tcb_table s ! i \<and> live_at s x" for x
  proof -
    have "i < unat (tcb_tid t) \<longleftrightarrow> Suc i < unat (tcb_tid t) \<or> x = tcb_table s ! i" if "heap s x = Some t" for t
      using idx [OF that] tid [of t] that by (metis Suc_lessI lessI less_Suc_eq_le not_less_eq order_less_le)
    then show ?thesis by (auto simp: L_def live_at_def split: option.splits)
  qed
  then show "L i = (if tcb_table s ! i \<noteq> NULL \<and> live_at s (tcb_table s ! i)
      then insert (tcb_table s ! i) (L (Suc i)) else L (Suc i))"
    using nn by auto
  show "tcb_table s ! i \<notin> L (Suc i)" using tid by (auto simp: L_def)
qed

lemma count_live_from_ok:
  assumes ok: "table_ok s"
  shows "count_live_from i n s =
     Ok (n + int (card {x. live_at s x \<and> (\<exists>t. heap s x = Some t \<and> i < unat (tcb_tid t))}))"
    (is "_ = Ok (n + int (card (?L i)))")
proof (induction "unat (tcb_count s) - i" arbitrary: i n)
  case 0
  have "?L i = {}" using 0 tids_okD(3) [OF table_okD(6) [OF ok]] by fastforce
  with 0 show ?case by (subst count_live_from.simps) simp
next
  case (Suc k)
  note D = table_okD [OF ok]
  have len: "i < length (tcb_table s)" "i < unat (tcb_count s)" using Suc D(1,2) by simp_all
  have IH: "count_live_from (Suc i) m s = Ok (m + int (card (?L (Suc i))))" for m
    using Suc by (intro Suc.hyps(1)) simp
  have card: "card (?L i) = card (?L (Suc i)) +
      (if tcb_table s ! i \<noteq> NULL \<and> live_at s (tcb_table s ! i) then 1 else 0)"
    using live_slot_step [OF ok len(2)] finite_live [OF ok] by simp
  show ?case
  proof (cases "tcb_table s ! i = NULL")
    case False
    then obtain t where "heap s (tcb_table s ! i) = Some t" using slots_okD [OF D(5) len(2)] by blast
    then show ?thesis unfolding card using len False
      by (subst count_live_from.simps) (simp add: table_get_def live_at_def IH)
  next
    case True
    then show ?thesis unfolding card using len
      by (subst count_live_from.simps) (simp add: table_get_def IH)
  qed
qed

lemma count_live_ok [uth_ok]: "table_ok s \<Longrightarrow> count_live s = Ok (int (card {x. live_at s x}))"
proof -
  assume ok: "table_ok s"
  have "{x. live_at s x \<and> (\<exists>t. heap s x = Some t \<and> 0 < unat (tcb_tid t))} = {x. live_at s x}"
    using tids_okD(5) [OF table_okD(6) [OF ok]] by (fastforce simp: live_at_def split: option.splits)
  with count_live_from_ok [OF ok, of 0 0] show ?thesis by (simp add: count_live_def)
qed

lemma count_live_zero:
  assumes "table_ok s"
  shows "count_live s = Ok 0 \<longleftrightarrow> (\<forall>x t. heap s x = Some t \<longrightarrow> tcb_state t = UTH_STATE_ZOMBIE)"
  using finite_live [OF assms, of "\<lambda>_. True"]
  by (auto simp: count_live_ok [OF assms] live_at_def split: option.splits)

end
