(* ===== verification/Uth_Inv.thy ===== *)
theory Uth_Inv
  imports Uth_Table
begin

text \<open>
  The invariant of the scheduler and of the thread table, stated on the state without its links and
  on the lists that the links represent, and the effects that keep it: a change of one TCB with the
  queues that go with it, the creation and the release of a TCB, and changes it does not read.
\<close>

section \<open>Call stacks\<close>

fun waits_on :: "frame \<Rightarrow> tcb_pp option" where
  "waits_on (F_mutex_lock m old) = Some (MutexWaiters m)"
| "waits_on (F_ticket_lock p tk old) = Some (TicketWaiters p)"
| "waits_on (F_cond_wait c m old) = Some (CondWaiters c)"
| "waits_on (F_sem_wait p old) = Some (SemWaiters p)"
| "waits_on _ = None"

text \<open>
  \<open>caller_ok b k\<close>: \<open>k\<close> can be the rest of the call stack when a library function returns to it with
  the mask \<open>b\<close>. \<open>stack_ok b k\<close>: a thread can be in the call stack \<open>k\<close> with the mask \<open>b\<close>; all
  frames but those of the trampoline, of the spinlock and of the code that runs with the mask of the caller (\<open>open_frame\<close>) run with \<open>SIGALRM\<close> blocked.
\<close>

fun caller_ok :: "sigset \<Rightarrow> frame list \<Rightarrow> bool" where
  "caller_ok b [] = True"
| "caller_ok b [F_spin_lock p] = True"
| "caller_ok b [F_cond_relock old] = b"
| "caller_ok b _ = False"

fun stack_ok :: "sigset \<Rightarrow> frame list \<Rightarrow> bool" where
  "stack_ok b [] = True"
| "stack_ok b (F_trampoline hi lo # k) = (k = [])"
| "stack_ok b (F_create_ret t # k) = (k = [])"
| "stack_ok b (F_count i n # k) = (k = [])"
| "stack_ok b (F_count_at i n t # k) = (k = [])"
| "stack_ok b (F_preempt_enable # k) = (k = [])"
| "stack_ok b (F_preempt_disable # k) = (k = [])"
| "stack_ok b (F_spin_lock p # k) = (k = [])"
| "stack_ok b (F_cond_relock old # k) = (b \<and> k = [])"
| "stack_ok b (F_join tid want old # k) = (b \<and> k = [])"
| "stack_ok b (F_cond_wait c m old # k) = (b \<and> k = [])"
| "stack_ok b (F_yield old # k) = (b \<and> caller_ok old k)"
| "stack_ok b (F_mutex_lock m old # k) = (b \<and> caller_ok old k)"
| "stack_ok b (F_ticket_lock p tk old # k) = (b \<and> caller_ok old k)"
| "stack_ok b (F_sem_wait p old # k) = (b \<and> caller_ok old k)"
| "stack_ok b (F_exit # k) = False"
| "stack_ok b (F_sched_entry # k) = False"
| "stack_ok b (F_sched_swapped # k) = False"

text \<open>
  The code that runs with the mask of the caller: the last statement of \<open>uth_create\<close>, the loop of \<open>uth_active_count\<close>, and the ends of
  \<open>uth_preempt_enable\<close> and \<open>uth_preempt_disable\<close>.
\<close>

fun open_frame :: "frame \<Rightarrow> bool" where
  "open_frame (F_create_ret t) = True"
| "open_frame (F_count i n) = True"
| "open_frame (F_count_at i n t) = True"
| "open_frame F_preempt_enable = True"
| "open_frame F_preempt_disable = True"
| "open_frame _ = False"

fun creating :: "frame \<Rightarrow> bool" where
  "creating (F_create_ret t) = True"
| "creating _ = False"

lemma open_stack_ok [simp]: "open_frame f \<Longrightarrow> stack_ok b (f # k) = (k = [])"
  by (cases f) simp_all

lemma open_frameE:
  assumes "open_frame f"
  obtains t where "f = F_create_ret t" | i n where "f = F_count i n" | i n t where "f = F_count_at i n t" | "f = F_preempt_enable" | "f = F_preempt_disable"
  using assms by (cases f) auto

lemma caller_ok_cases:
  assumes "caller_ok b k"
  obtains "k = []" | p where "k = [F_spin_lock p]" | old where "k = [F_cond_relock old]" "b"
  using assms by (cases "(b, k)" rule: caller_ok.cases) auto

lemma caller_stack_ok: "caller_ok b k \<Longrightarrow> stack_ok b k"
  by (auto elim: caller_ok_cases)

text \<open>The mask that a frame leaves when it returns, and the mask in which user code continues when all frames have returned.\<close>

fun frame_mask :: "sigset \<Rightarrow> frame \<Rightarrow> sigset" where
  "frame_mask b (F_yield old) = old"
| "frame_mask b (F_join tid want old) = old"
| "frame_mask b (F_mutex_lock m old) = old"
| "frame_mask b (F_ticket_lock p tk old) = old"
| "frame_mask b (F_cond_wait c m old) = old"
| "frame_mask b (F_cond_relock old) = old"
| "frame_mask b (F_sem_wait p old) = old"
| "frame_mask b _ = b"

definition unwind :: "sigset \<Rightarrow> frame list \<Rightarrow> sigset" where
  "unwind = foldl frame_mask"

lemma unwind_simps [simp]: "unwind b [] = b" "unwind b (f # k) = unwind (frame_mask b f) k"
  by (simp_all add: unwind_def)

lemma open_frame_mask [simp]: "open_frame f \<Longrightarrow> frame_mask b f = b"
  by (cases f) simp_all

section \<open>The invariant\<close>

definition zombie_tid :: "sys \<Rightarrow> u32 \<Rightarrow> bool" where
  "zombie_tid a tid \<longleftrightarrow> (\<forall>y u. heap a y = Some u \<longrightarrow> tcb_tid u = tid \<longrightarrow> tcb_state u = UTH_STATE_ZOMBIE)"

definition ctx_ok :: "sys \<Rightarrow> bool \<Rightarrow> ptr \<Rightarrow> sigset \<Rightarrow> frame list \<Rightarrow> bool" where
  "ctx_ok a runnable x b k \<longleftrightarrow> stack_ok b k \<and>
     (\<forall>hi lo. k = [F_trampoline hi lo] \<longrightarrow> join_halves hi lo = x) \<and>
     (\<forall>tid want old. k = [F_join tid want old] \<longrightarrow>
        unat tid < unat (next_tid a) \<and> (runnable \<longrightarrow> zombie_tid a tid))"

definition joiner_ok :: "sys \<Rightarrow> uth_tcb_t \<Rightarrow> bool" where
  "joiner_ok a t \<longleftrightarrow> tcb_state t \<noteq> UTH_STATE_ZOMBIE \<and>
     (\<exists>u want old. heap a (tcb_joiner t) = Some u \<and> tcb_state u = UTH_STATE_BLOCKED \<and>
        uc_frames (tcb_ctx u) = [F_join (tcb_tid t) want old])"

definition tcb_inv :: "sys \<Rightarrow> ptr list \<Rightarrow> ptr \<Rightarrow> uth_tcb_t \<Rightarrow> bool" where
  "tcb_inv a rq x t \<longleftrightarrow>
     (tcb_state t = UTH_STATE_READY \<longleftrightarrow> x \<in> set rq) \<and>
     (tcb_state t = UTH_STATE_RUNNING \<longrightarrow> x = uth_current a) \<and>
     (tcb_state t = UTH_STATE_READY \<longrightarrow>
        ctx_ok a True x (uc_sigmask (tcb_ctx t)) (uc_frames (tcb_ctx t))) \<and>
     (tcb_state t = UTH_STATE_BLOCKED \<longrightarrow>
        ctx_ok a False x (uc_sigmask (tcb_ctx t)) (uc_frames (tcb_ctx t))) \<and>
     (tcb_joiner t \<noteq> NULL \<longrightarrow> joiner_ok a t)"

definition waiting_ok :: "uth_tcb_t \<Rightarrow> tcb_pp \<Rightarrow> bool" where
  "waiting_ok t q \<longleftrightarrow> tcb_state t = UTH_STATE_BLOCKED \<and>
     (\<exists>f k. uc_frames (tcb_ctx t) = f # k \<and> waits_on f = Some q)"

definition wait_inv :: "sys \<Rightarrow> (tcb_pp \<Rightarrow> ptr list) \<Rightarrow> bool" where
  "wait_inv a wq \<longleftrightarrow> (\<forall>q x. x \<in> set (wq q) \<longrightarrow> (\<exists>t. heap a x = Some t \<and> waiting_ok t q))"

definition sched_inv :: "sys \<Rightarrow> ptr list \<Rightarrow> (tcb_pp \<Rightarrow> ptr list) \<Rightarrow> bool" where
  "sched_inv a rq wq \<longleftrightarrow> table_ok a \<and> (\<forall>x t. heap a x = Some t \<longrightarrow> tcb_inv a rq x t) \<and> wait_inv a wq"

definition lib_inv :: "sys \<Rightarrow> ptr list \<Rightarrow> (tcb_pp \<Rightarrow> ptr list) \<Rightarrow> bool" where
  "lib_inv s rq wq \<longleftrightarrow> shape s rq wq \<and> sched_inv (erase s) rq wq"

lemma sched_invD:
  assumes "sched_inv a rq wq"
  shows "table_ok a" "heap a x = Some t \<Longrightarrow> tcb_inv a rq x t" "wait_inv a wq"
  using assms by (auto simp: sched_inv_def)

lemma lib_invD:
  assumes "lib_inv s rq wq"
  shows "shape s rq wq" "sched_inv (erase s) rq wq" "table_ok s"
  using assms sched_invD(1) [of "erase s" rq wq] by (auto simp: lib_inv_def)

lemma heap_erase: "heap s x = Some t \<Longrightarrow> heap (erase s) x = Some (t\<lparr>tcb_next := NULL\<rparr>)"
  by (simp add: erase_maps)

lemma wait_invE:
  assumes "wait_inv a wq" and "x \<in> set (wq q)"
  obtains t where "heap a x = Some t" "waiting_ok t q"
  using assms unfolding wait_inv_def by blast

lemma tcb_invD:
  assumes "tcb_inv a rq x t"
  shows "tcb_state t = UTH_STATE_READY \<longleftrightarrow> x \<in> set rq"
    "tcb_state t = UTH_STATE_RUNNING \<Longrightarrow> x = uth_current a"
    "tcb_state t = UTH_STATE_READY \<Longrightarrow> ctx_ok a True x (uc_sigmask (tcb_ctx t)) (uc_frames (tcb_ctx t))"
    "tcb_state t = UTH_STATE_BLOCKED \<Longrightarrow> ctx_ok a False x (uc_sigmask (tcb_ctx t)) (uc_frames (tcb_ctx t))"
    "tcb_joiner t \<noteq> NULL \<Longrightarrow> joiner_ok a t"
  using assms unfolding tcb_inv_def by blast+

lemma joinerE:
  assumes inv: "sched_inv a rq wq" and "heap a y = Some u" and "tcb_joiner u \<noteq> NULL"
  obtains v want old where "heap a (tcb_joiner u) = Some v" "tcb_state v = UTH_STATE_BLOCKED"
    "uc_frames (tcb_ctx v) = [F_join (tcb_tid u) want old]" "tcb_state u \<noteq> UTH_STATE_ZOMBIE"
  using tcb_invD(5) [OF sched_invD(2) [OF inv assms(2)] assms(3)] unfolding joiner_ok_def by blast

lemma sched_heap_not_NULL: "sched_inv a rq wq \<Longrightarrow> heap a x = Some t \<Longrightarrow> x \<noteq> NULL"
  using sched_invD(1) table_okD(6) tids_okD(1) by blast

text \<open>Only a thread that is blocked in \<open>uth_join\<close> is the joiner of another one.\<close>

lemma not_joined:
  assumes inv: "sched_inv a rq wq" and x: "heap a x = Some t"
    and st: "tcb_state t \<noteq> UTH_STATE_BLOCKED \<or> (\<forall>tid want old. uc_frames (tcb_ctx t) \<noteq> [F_join tid want old])"
    and y: "heap a y = Some u"
  shows "tcb_joiner u \<noteq> x"
proof
  assume j: "tcb_joiner u = x"
  with sched_heap_not_NULL [OF inv x] have "tcb_joiner u \<noteq> NULL" by simp
  from joinerE [OF inv y this] j x st show False by (metis option.inject)
qed

text \<open>A thread that is running, or that is the joiner of another one, is in no queue.\<close>

lemma queued_states:
  assumes inv: "sched_inv a rq wq" and x: "heap a x = Some t"
  shows "tcb_state t \<noteq> UTH_STATE_READY \<Longrightarrow> x \<notin> set rq"
    "x \<in> set (wq q) \<Longrightarrow> waiting_ok t q"
  using tcb_invD(1) [OF sched_invD(2) [OF inv x]] sched_invD(3) [OF inv] x
  by (fastforce simp: wait_inv_def)+

lemma sched_unqueued:
  assumes inv: "sched_inv a rq wq" and x: "heap a x = Some t"
    and "tcb_state t = UTH_STATE_RUNNING \<or> tcb_state t = UTH_STATE_ZOMBIE \<or>
      tcb_state t = UTH_STATE_BLOCKED \<and> uc_frames (tcb_ctx t) = [F_join tid want old]"
  shows "unqueued x rq wq"
  using assms(3) queued_states [OF inv x] by (auto simp: unqueued_def waiting_ok_def)

lemma running_unqueued:
  assumes "lib_inv s rq wq" and "heap s x = Some t"
    and "tcb_state t = UTH_STATE_RUNNING \<or> tcb_state t = UTH_STATE_ZOMBIE"
  shows "unqueued x rq wq"
  using sched_unqueued [OF lib_invD(2) [OF assms(1)] heap_erase [OF assms(2)]] assms(3) by auto

lemma joiner_unique:
  assumes inv: "sched_inv a rq wq" and u: "heap a y = Some u" and v: "heap a z = Some v"
    and eq: "tcb_joiner u = tcb_joiner v" and nz: "tcb_joiner u \<noteq> NULL"
  shows "y = z"
proof -
  from eq nz have nz': "tcb_joiner v \<noteq> NULL" by simp
  have "tcb_tid u = tcb_tid v"
    using joinerE [OF inv u nz] joinerE [OF inv v nz'] eq by (metis frame.inject(4) list.inject option.inject)
  with tid_unique [OF sched_invD(1) [OF inv]] u v show ?thesis by blast
qed

section \<open>Effects\<close>

text \<open>The invariant reads the TCBs, the table, the next thread id and the current thread only.\<close>

definition same_table :: "sys \<Rightarrow> sys \<Rightarrow> bool" where
  "same_table a' a \<longleftrightarrow> next_tid a' = next_tid a \<and> tcb_table a' = tcb_table a \<and>
     tcb_capacity a' = tcb_capacity a \<and> tcb_count a' = tcb_count a"

lemma sched_inv_cong:
  assumes h: "heap a' = heap a" "uth_current a' = uth_current a" and tb: "same_table a' a"
  shows "sched_inv a' rq wq = sched_inv a rq wq"
proof -
  have "table_ok a' = table_ok a" using assms by (intro table_ok_cong) (simp_all add: same_table_def)
  moreover have "tcb_inv a' rq x t = tcb_inv a rq x t" for x t
    using assms by (simp add: tcb_inv_def ctx_ok_def zombie_tid_def joiner_ok_def same_table_def)
  ultimately show ?thesis using assms by (simp add: sched_inv_def wait_inv_def)
qed

lemma ctx_ok_mono:
  "\<lbrakk>ctx_ok a r x b k; \<And>i. zombie_tid a i \<Longrightarrow> zombie_tid a' i; unat (next_tid a) \<le> unat (next_tid a')\<rbrakk> \<Longrightarrow>
     ctx_ok a' r x b k"
  by (fastforce simp: ctx_ok_def)

lemma ctx_ok_upd:
  assumes x: "heap a x = Some t" and h: "heap a' = (heap a)(x \<mapsto> t')" and tb: "same_table a' a"
    and t': "tcb_tid t' = tcb_tid t" "tcb_state t = UTH_STATE_ZOMBIE \<Longrightarrow> tcb_state t' = UTH_STATE_ZOMBIE"
    and c: "ctx_ok a r y b k"
  shows "ctx_ok a' r y b k"
proof -
  have "zombie_tid a' i" if "zombie_tid a i" for i
    using that x t' unfolding zombie_tid_def h by (metis fun_upd_apply option.inject)
  with c tb show ?thesis by (auto intro: ctx_ok_mono simp: same_table_def)
qed

text \<open>
  One TCB changes from \<open>t\<close> to \<open>t'\<close> and may move between queues. The premises are the local
  obligations of such a step.
\<close>

lemma sched_inv_upd:
  assumes inv: "sched_inv a rq wq" and x: "heap a x = Some t"
    and h: "heap a' = (heap a)(x \<mapsto> t')" and tb: "same_table a' a"
    and tid: "tcb_tid t' = tcb_tid t"
    and zombie: "tcb_state t = UTH_STATE_ZOMBIE \<Longrightarrow> tcb_state t' = UTH_STATE_ZOMBIE"
    and joined: "\<And>y u. heap a y = Some u \<Longrightarrow> y \<noteq> x \<Longrightarrow> tcb_joiner u = x \<Longrightarrow>
      tcb_state t' = tcb_state t \<and> tcb_ctx t' = tcb_ctx t"
    and rq: "\<And>y. y \<noteq> x \<Longrightarrow> y \<in> set rq' \<longleftrightarrow> y \<in> set rq"
    and wq: "\<And>q y. y \<in> set (wq' q) \<Longrightarrow> y \<in> set (wq q) \<and> y \<noteq> x \<or> y = x \<and> waiting_ok t' q"
    and cur: "\<And>y u. \<lbrakk>y \<noteq> x; heap a y = Some u; tcb_state u = UTH_STATE_RUNNING\<rbrakk> \<Longrightarrow> y = uth_current a'"
    and self: "tcb_inv a' rq' x t'"
  shows "sched_inv a' rq' wq'"
proof -
  have "table_ok a' = table_ok a"
    using x tid tb by (intro table_ok_cong) (auto simp: h same_table_def)
  with sched_invD(1) [OF inv] have ok: "table_ok a'" by simp
  note c = ctx_ok_upd [OF x h tb tid zombie]
  have "tcb_inv a' rq' y u" if y: "heap a' y = Some u" for y u
  proof (cases "y = x")
    case True
    with y h self show ?thesis by simp
  next
    case False
    with y have u: "heap a y = Some u" by (simp add: h)
    note I = sched_invD(2) [OF inv u]
    have "joiner_ok a' u" if nz: "tcb_joiner u \<noteq> NULL"
      using tcb_invD(5) [OF I nz] joined [OF u False] x
      by (cases "tcb_joiner u = x") (auto simp: joiner_ok_def h)
    with I c cur [OF False u] rq [OF False] show ?thesis by (auto simp: tcb_inv_def)
  qed
  moreover have "wait_inv a' wq'"
    unfolding wait_inv_def
  proof (intro allI impI)
    fix q y
    assume "y \<in> set (wq' q)"
    then show "\<exists>u. heap a' y = Some u \<and> waiting_ok u q"
      using wq [of y q] sched_invD(3) [OF inv] by (auto simp: h wait_inv_def)
  qed
  ultimately show ?thesis using ok by (auto simp: sched_inv_def)
qed


lemma keep_joiner:
  assumes inv: "sched_inv a rq wq" and x: "heap a x = Some t" and nb: "tcb_state t \<noteq> UTH_STATE_BLOCKED"
    and h: "heap a' = (heap a)(x \<mapsto> t')" and t': "tcb_joiner t' = tcb_joiner t" "tcb_tid t' = tcb_tid t"
      "tcb_state t' \<noteq> UTH_STATE_ZOMBIE" and nz: "tcb_joiner t' \<noteq> NULL"
  shows "joiner_ok a' t'"
proof -
  from nz t' have nz': "tcb_joiner t \<noteq> NULL" by simp
  have "tcb_joiner t \<noteq> x" using not_joined [OF inv x _ x] nb by blast
  with tcb_invD(5) [OF sched_invD(2) [OF inv x] nz'] t' show ?thesis by (simp add: joiner_ok_def h)
qed

text \<open>A change of fields that the invariant does not read.\<close>

lemma effect_inert:
  assumes inv: "sched_inv a rq wq" and x: "heap a x = Some t"
    and h: "heap a' = (heap a)(x \<mapsto> t')" and tb: "same_table a' a" and cur: "uth_current a' = uth_current a"
    and t': "tcb_tid t' = tcb_tid t" "tcb_state t' = tcb_state t" "tcb_ctx t' = tcb_ctx t"
      "tcb_joiner t' = tcb_joiner t"
  shows "sched_inv a' rq wq"
proof (rule sched_inv_upd [OF inv x h tb])
  note I = sched_invD(2) [OF inv x]
  have c: "ctx_ok a' r y b k" if "ctx_ok a r y b k" for r y b k
    using ctx_ok_upd [OF x h tb] t' that by simp
  have "joiner_ok a t \<Longrightarrow> joiner_ok a' t'" using x t' by (auto simp: joiner_ok_def h)
  with I c t' cur show "tcb_inv a' rq x t'" by (auto simp: tcb_inv_def)
  show "\<And>q y. y \<in> set (wq q) \<Longrightarrow> y \<in> set (wq q) \<and> y \<noteq> x \<or> y = x \<and> waiting_ok t' q"
    using queued_states(2) [OF inv x] t' by (auto simp: waiting_ok_def)
qed (use t' cur sched_invD(2) [OF inv] in \<open>auto simp: tcb_inv_def\<close>)

text \<open>The running thread blocks on the wait queue \<open>q\<close>.\<close>

lemma running_unique:
  "\<lbrakk>sched_inv a rq wq; heap a x = Some t; tcb_state t = UTH_STATE_RUNNING;
    heap a y = Some u; tcb_state u = UTH_STATE_RUNNING\<rbrakk> \<Longrightarrow> y = x"
  using sched_invD(2) tcb_invD(2) by metis

lemma effect_block:
  assumes inv: "sched_inv a rq wq" and x: "heap a x = Some t" and st: "tcb_state t = UTH_STATE_RUNNING"
    and h: "heap a' = (heap a)(x \<mapsto> t\<lparr>tcb_state := UTH_STATE_BLOCKED, tcb_ctx := c\<rparr>)" and tb: "same_table a' a"
    and c: "uc_frames c = f # k" "waits_on f = Some q" "stack_ok (uc_sigmask c) (f # k)"
  shows "sched_inv a' rq (wq(q := wq q @ [x]))"
proof (rule sched_inv_upd [OF inv x h tb])
  note un = sched_unqueued [OF inv x]
  show "tcb_inv a' rq x (t\<lparr>tcb_state := UTH_STATE_BLOCKED, tcb_ctx := c\<rparr>)"
    using keep_joiner [OF inv x _ h] un c st by (auto simp: tcb_inv_def ctx_ok_def unqueued_def)
  show "\<And>q' y. y \<in> set ((wq(q := wq q @ [x])) q') \<Longrightarrow> y \<in> set (wq q') \<and> y \<noteq> x \<or>
      y = x \<and> waiting_ok (t\<lparr>tcb_state := UTH_STATE_BLOCKED, tcb_ctx := c\<rparr>) q'"
    using un c st by (auto simp: unqueued_def waiting_ok_def split: if_splits)
qed (use st not_joined [OF inv x] running_unique [OF inv x st] in auto)

text \<open>The running thread blocks in \<open>uth_join\<close>, and then becomes the joiner of \<open>y\<close>, possibly of itself.\<close>

lemma effect_join_block:
  assumes inv: "sched_inv a rq wq" and x: "heap a x = Some t" and st: "tcb_state t = UTH_STATE_RUNNING"
    and h: "heap a' = (heap a)(x \<mapsto> t\<lparr>tcb_state := UTH_STATE_BLOCKED, tcb_ctx := c\<rparr>)" and tb: "same_table a' a"
    and c: "uc_frames c = [F_join tid want old]" "uc_sigmask c" "unat tid < unat (next_tid a)"
  shows "sched_inv a' rq wq"
proof (rule sched_inv_upd [OF inv x h tb])
  note un = sched_unqueued [OF inv x]
  show "tcb_inv a' rq x (t\<lparr>tcb_state := UTH_STATE_BLOCKED, tcb_ctx := c\<rparr>)"
    using keep_joiner [OF inv x _ h] un c st tb
    by (auto simp: tcb_inv_def ctx_ok_def unqueued_def same_table_def)
  show "\<And>q' y. y \<in> set (wq q') \<Longrightarrow> y \<in> set (wq q') \<and> y \<noteq> x \<or>
      y = x \<and> waiting_ok (t\<lparr>tcb_state := UTH_STATE_BLOCKED, tcb_ctx := c\<rparr>) q'"
    using un st by (auto simp: unqueued_def)
qed (use st not_joined [OF inv x] running_unique [OF inv x st] in auto)

lemma effect_set_joiner:
  assumes inv: "sched_inv a rq wq" and y: "heap a y = Some u" and st: "tcb_state u \<noteq> UTH_STATE_ZOMBIE"
    and h: "heap a' = (heap a)(y \<mapsto> u\<lparr>tcb_joiner := x\<rparr>)" and tb: "same_table a' a" and cur: "uth_current a' = uth_current a"
    and x: "heap a x = Some v" "tcb_state v = UTH_STATE_BLOCKED"
      "uc_frames (tcb_ctx v) = [F_join (tcb_tid u) want old]"
  shows "sched_inv a' rq wq"
proof (rule sched_inv_upd [OF inv y h tb])
  note I = sched_invD(2) [OF inv y]
  have c: "ctx_ok a' r y b k" if "ctx_ok a r y b k" for r y b k
    using ctx_ok_upd [OF y h tb] that by simp
  have "joiner_ok a' (u\<lparr>tcb_joiner := x\<rparr>)" using x y st by (auto simp: joiner_ok_def h)
  with I c cur show "tcb_inv a' rq y (u\<lparr>tcb_joiner := x\<rparr>)" by (auto simp: tcb_inv_def)
  show "\<And>q z. z \<in> set (wq q) \<Longrightarrow> z \<in> set (wq q) \<and> z \<noteq> y \<or> z = y \<and> waiting_ok (u\<lparr>tcb_joiner := x\<rparr>) q"
    using queued_states(2) [OF inv y] by (auto simp: waiting_ok_def)
qed (use st cur sched_invD(2) [OF inv] in \<open>auto simp: tcb_inv_def\<close>)

text \<open>The running thread gives up the processor and stays ready.\<close>

lemma effect_ready:
  assumes inv: "sched_inv a rq wq" and x: "heap a x = Some t" and st: "tcb_state t = UTH_STATE_RUNNING"
    and h: "heap a' = (heap a)(x \<mapsto> t\<lparr>tcb_state := UTH_STATE_READY, tcb_ctx := c\<rparr>)" and tb: "same_table a' a"
    and c: "ctx_ok a True x (uc_sigmask c) (uc_frames c)"
  shows "sched_inv a' (rq @ [x]) wq"
proof (rule sched_inv_upd [OF inv x h tb])
  note un = sched_unqueued [OF inv x]
  have "ctx_ok a' True x (uc_sigmask c) (uc_frames c)"
    using ctx_ok_upd [OF x h tb _ _ c] st by simp
  then show "tcb_inv a' (rq @ [x]) x (t\<lparr>tcb_state := UTH_STATE_READY, tcb_ctx := c\<rparr>)"
    using keep_joiner [OF inv x _ h] st by (auto simp: tcb_inv_def)
  show "\<And>q' y. y \<in> set (wq q') \<Longrightarrow> y \<in> set (wq q') \<and> y \<noteq> x \<or>
      y = x \<and> waiting_ok (t\<lparr>tcb_state := UTH_STATE_READY, tcb_ctx := c\<rparr>) q'"
    using un st by (auto simp: unqueued_def)
qed (use st not_joined [OF inv x] running_unique [OF inv x st] in auto)

text \<open>A blocked thread \<open>x\<close> of the wait queue \<open>q\<close> becomes ready.\<close>

lemma waiting_not_join: "waiting_ok t q \<Longrightarrow> uc_frames (tcb_ctx t) \<noteq> [F_join tid want old]"
  by (auto simp: waiting_ok_def)

lemma ctx_ok_runnable:
  "\<lbrakk>ctx_ok a False x b k; \<And>tid want old. k = [F_join tid want old] \<Longrightarrow> zombie_tid a tid\<rbrakk> \<Longrightarrow> ctx_ok a True x b k"
  by (auto simp: ctx_ok_def)

lemma effect_make_ready:
  assumes inv: "sched_inv a rq wq" and x: "heap a x = Some t" and st: "tcb_state t = UTH_STATE_BLOCKED"
    and h: "heap a' = (heap a)(x \<mapsto> t\<lparr>tcb_state := UTH_STATE_READY\<rparr>)" and tb: "same_table a' a"
    and cur: "uth_current a' = uth_current a"
    and nj: "\<And>y u. heap a y = Some u \<Longrightarrow> tcb_joiner u \<noteq> x"
    and z: "\<And>tid want old. uc_frames (tcb_ctx t) = [F_join tid want old] \<Longrightarrow> zombie_tid a tid"
    and wq: "\<And>q y. y \<in> set (wq' q) \<Longrightarrow> y \<in> set (wq q) \<and> y \<noteq> x"
  shows "sched_inv a' (rq @ [x]) wq'"
proof (rule sched_inv_upd [OF inv x h tb])
  note I = sched_invD(2) [OF inv x]
  have "ctx_ok a True x (uc_sigmask (tcb_ctx t)) (uc_frames (tcb_ctx t))"
    by (rule ctx_ok_runnable [OF tcb_invD(4) [OF I st]]) (rule z)
  then have "ctx_ok a' True x (uc_sigmask (tcb_ctx t)) (uc_frames (tcb_ctx t))"
    using ctx_ok_upd [OF x h tb] st by simp
  moreover have "joiner_ok a' (t\<lparr>tcb_state := UTH_STATE_READY\<rparr>)" if nz: "tcb_joiner t \<noteq> NULL"
    using tcb_invD(5) [OF I nz] nj [OF x] by (auto simp: joiner_ok_def h)
  ultimately show "tcb_inv a' (rq @ [x]) x (t\<lparr>tcb_state := UTH_STATE_READY\<rparr>)"
    using st by (auto simp: tcb_inv_def)
qed (use st nj wq cur sched_invD(2) [OF inv] in \<open>auto simp: tcb_inv_def\<close>)

lemma effect_wake:
  assumes inv: "sched_inv a rq wq" and q: "wq q = xs @ x # ys" "distinct (wq q)"
      "\<And>q'. q' \<noteq> q \<Longrightarrow> x \<notin> set (wq q')"
    and a': "a' = set_state x UTH_STATE_READY a"
  shows "sched_inv a' (rq @ [x]) (wq(q := xs @ ys))"
proof -
  obtain t where t: "heap a x = Some t" "waiting_ok t q"
    using wait_invE [OF sched_invD(3) [OF inv], of x q] q(1) by auto
  have nj: "tcb_joiner u \<noteq> x" if "heap a y = Some u" for y u
    using not_joined [OF inv t(1) _ that] waiting_not_join [OF t(2)] by blast
  have wq: "\<And>q' y. y \<in> set ((wq(q := xs @ ys)) q') \<Longrightarrow> y \<in> set (wq q') \<and> y \<noteq> x"
    using q by (auto split: if_splits)
  show ?thesis
  proof (rule effect_make_ready [OF inv t(1)])
    show "tcb_state t = UTH_STATE_BLOCKED" using t(2) by (simp add: waiting_ok_def)
    show "heap a' = (heap a)(x \<mapsto> t\<lparr>tcb_state := UTH_STATE_READY\<rparr>)"
      by (simp add: a' upd_tcb_def t(1))
  qed (use nj wq waiting_not_join [OF t(2)] in \<open>simp_all add: a' same_table_def\<close>)
qed

text \<open>The running thread exits, and then its joiner becomes ready.\<close>

lemma effect_exit:
  assumes inv: "sched_inv a rq wq" and x: "heap a x = Some t" and st: "tcb_state t = UTH_STATE_RUNNING"
    and h: "heap a' = (heap a)(x \<mapsto> t')" and tb: "same_table a' a"
    and t': "tcb_state t' = UTH_STATE_ZOMBIE" "tcb_tid t' = tcb_tid t" "tcb_joiner t' = NULL"
  shows "sched_inv a' rq wq"
proof (rule sched_inv_upd [OF inv x h tb])
  note un = sched_unqueued [OF inv x]
  show "tcb_inv a' rq x t'" using un st t' by (auto simp: tcb_inv_def unqueued_def)
  show "\<And>q' y. y \<in> set (wq q') \<Longrightarrow> y \<in> set (wq q') \<and> y \<noteq> x \<or> y = x \<and> waiting_ok t' q'"
    using un st by (auto simp: unqueued_def)
qed (use st t' not_joined [OF inv x] running_unique [OF inv x st] in auto)

lemma effect_exit_joiner:
  assumes inv: "sched_inv a rq wq" and x: "heap a x = Some t" and st: "tcb_state t = UTH_STATE_RUNNING"
    and j: "tcb_joiner t = j" "j \<noteq> NULL" and v: "heap a j = Some v"
    and h: "heap a' = (heap a)(x \<mapsto> t', j \<mapsto> v\<lparr>tcb_state := UTH_STATE_READY\<rparr>)"
    and tb: "same_table a' a" and cur: "uth_current a' = uth_current a"
    and t': "tcb_state t' = UTH_STATE_ZOMBIE" "tcb_tid t' = tcb_tid t" "tcb_joiner t' = NULL"
  shows "sched_inv a' (rq @ [j]) wq"
proof -
  define b where "b = a\<lparr>heap := (heap a)(x \<mapsto> t')\<rparr>"
  have b: "sched_inv b rq wq"
    using effect_exit [OF inv x st _ _ t', of b] by (simp add: b_def same_table_def)
  obtain want old where v': "tcb_state v = UTH_STATE_BLOCKED" "uc_frames (tcb_ctx v) = [F_join (tcb_tid t) want old]"
    using tcb_invD(5) [OF sched_invD(2) [OF inv x]] j v by (auto simp: joiner_ok_def)
  with st x v have jx: "j \<noteq> x" by auto
  have "zombie_tid b (tcb_tid t)"
    unfolding zombie_tid_def
  proof (intro allI impI)
    fix y u
    assume u: "heap b y = Some u" "tcb_tid u = tcb_tid t"
    with tid_unique [OF sched_invD(1) [OF b], of x t' y u] t' have "x = y" by (simp add: b_def)
    with u t' show "tcb_state u = UTH_STATE_ZOMBIE" by (simp add: b_def)
  qed
  moreover have "tcb_joiner u \<noteq> j" if u: "heap b y = Some u" for y u
  proof
    assume "tcb_joiner u = j"
    with u t' j have "y \<noteq> x" "heap a y = Some u" by (auto simp: b_def split: if_splits)
    with joiner_unique [OF inv _ x] \<open>tcb_joiner u = j\<close> j show False by auto
  qed
  moreover have un: "unqueued j rq wq" using sched_unqueued [OF inv v] v' by blast
  ultimately show ?thesis
    using v v' jx tb cur
    by (intro effect_make_ready [OF b]) (auto simp: b_def h same_table_def unqueued_def)
qed

text \<open>The scheduler takes the first ready thread.\<close>

lemma effect_run:
  assumes inv: "sched_inv a (x # rq) wq" and x: "heap a x = Some t" and d: "x \<notin> set rq"
    and h: "heap a' = (heap a)(x \<mapsto> t\<lparr>tcb_state := UTH_STATE_RUNNING\<rparr>)" and tb: "same_table a' a"
    and cur: "uth_current a' = x" and none: "\<And>y u. heap a y = Some u \<Longrightarrow> tcb_state u \<noteq> UTH_STATE_RUNNING"
  shows "sched_inv a' rq wq"
proof (rule sched_inv_upd [OF inv x h tb])
  have st: "tcb_state t = UTH_STATE_READY" using tcb_invD(1) [OF sched_invD(2) [OF inv x]] by simp
  then show "tcb_inv a' rq x (t\<lparr>tcb_state := UTH_STATE_RUNNING\<rparr>)"
    using keep_joiner [OF inv x _ h] d cur by (auto simp: tcb_inv_def)
  show "\<And>q' y. y \<in> set (wq q') \<Longrightarrow> y \<in> set (wq q') \<and> y \<noteq> x \<or>
      y = x \<and> waiting_ok (t\<lparr>tcb_state := UTH_STATE_RUNNING\<rparr>) q'"
    using queued_states(2) [OF inv x] st by (auto simp: waiting_ok_def)
  show "\<And>y u. heap a y = Some u \<Longrightarrow> y \<noteq> x \<Longrightarrow> tcb_joiner u = x \<Longrightarrow>
      tcb_state (t\<lparr>tcb_state := UTH_STATE_RUNNING\<rparr>) = tcb_state t \<and> tcb_ctx (t\<lparr>tcb_state := UTH_STATE_RUNNING\<rparr>) = tcb_ctx t"
    using not_joined [OF inv x] st by auto
  show "tcb_state t = UTH_STATE_ZOMBIE \<Longrightarrow> tcb_state (t\<lparr>tcb_state := UTH_STATE_RUNNING\<rparr>) = UTH_STATE_ZOMBIE"
    using st by simp
qed (use none in auto)

text \<open>A thread is created, and a zombie is released.\<close>

lemma effect_create:
  assumes inv: "sched_inv a rq wq" and x: "heap a x = None" and ok: "table_ok a'"
    and h: "heap a' = (heap a)(x \<mapsto> t)" and cur: "uth_current a' = uth_current a"
    and tid: "tcb_tid t = next_tid a" "unat (next_tid a') = Suc (unat (next_tid a))"
    and t: "tcb_state t = UTH_STATE_READY" "tcb_joiner t = NULL" "uc_frames (tcb_ctx t) = [F_trampoline (hi_half x) (lo_half x)]"
  shows "sched_inv a' (rq @ [x]) wq"
proof -
  have z: "zombie_tid a' i" if "zombie_tid a i" "unat i < unat (next_tid a)" for i
    using that tid unfolding zombie_tid_def h by (metis fun_upd_apply less_irrefl option.inject)
  have c: "ctx_ok a' r y b k" if "ctx_ok a r y b k" for r y b k
    using that z tid(2) unfolding ctx_ok_def by (metis less_SucI)
  have "tcb_inv a' (rq @ [x]) y u" if y: "heap a' y = Some u" for y u
  proof (cases "y = x")
    case True
    with y t show ?thesis by (auto simp: tcb_inv_def ctx_ok_def join_halves_split h)
  next
    case False
    with y have u: "heap a y = Some u" by (simp add: h)
    note I = sched_invD(2) [OF inv u]
    have "joiner_ok a' u" if nz: "tcb_joiner u \<noteq> NULL"
      using tcb_invD(5) [OF I nz] x by (auto simp: joiner_ok_def h)
    with I c cur False show ?thesis by (auto simp: tcb_inv_def)
  qed
  moreover have "wait_inv a' wq" using sched_invD(3) [OF inv] x by (fastforce simp: wait_inv_def h)
  ultimately show ?thesis using ok by (auto simp: sched_inv_def)
qed

lemma effect_free:
  assumes inv: "sched_inv a rq wq" and x: "heap a x = Some t" and st: "tcb_state t = UTH_STATE_ZOMBIE"
    and ok: "table_ok a'" and h: "heap a' = (heap a)(x := None)"
    and a': "uth_current a' = uth_current a" "next_tid a' = next_tid a"
  shows "sched_inv a' rq wq"
proof -
  have c: "ctx_ok a' r y b k" if "ctx_ok a r y b k" for r y b k
    using that by (rule ctx_ok_mono) (auto simp: zombie_tid_def h a')
  have "tcb_inv a' rq y u" if y: "heap a' y = Some u" for y u
  proof -
    from y have u: "heap a y = Some u" by (simp add: h split: if_splits)
    note I = sched_invD(2) [OF inv u]
    have "joiner_ok a' u" if nz: "tcb_joiner u \<noteq> NULL"
      using tcb_invD(5) [OF I nz] x st by (auto simp: joiner_ok_def h)
    with I c a' show ?thesis by (auto simp: tcb_inv_def)
  qed
  moreover have "wait_inv a' wq"
    using sched_invD(3) [OF inv] x st by (fastforce simp: wait_inv_def h waiting_ok_def)
  ultimately show ?thesis using ok by (auto simp: sched_inv_def)
qed

section \<open>The invariant of the linked state\<close>

definition lib_ok :: "sys \<Rightarrow> bool" where
  "lib_ok s \<longleftrightarrow> (\<exists>rq wq. lib_inv s rq wq)"

lemma lib_okI: "lib_inv s rq wq \<Longrightarrow> lib_ok s"
  unfolding lib_ok_def by blast

lemma lib_okE:
  assumes "lib_ok s"
  obtains rq wq where "lib_inv s rq wq"
  using assms unfolding lib_ok_def by blast

lemma lib_inv_frame:
  assumes "\<And>p. load_pp p s' = load_pp p s" and "heap s' = heap s" and "uth_current s' = uth_current s"
    and "same_table s' s"
  shows "lib_inv s' rq wq = lib_inv s rq wq"
proof -
  have "heap (erase s') = heap (erase s)" using assms(2) by (simp add: erase_def)
  then have "sched_inv (erase s') rq wq = sched_inv (erase s) rq wq"
    using assms(3,4) by (intro sched_inv_cong) (simp_all add: same_table_def)
  with shape_cong [OF assms(1)] show ?thesis by (simp add: lib_inv_def)
qed

lemma shape_global [simp]:
  "shape (s\<lparr>sigmask := b\<rparr>) rq wq = shape s rq wq" "shape (s\<lparr>uth_current := c\<rparr>) rq wq = shape s rq wq"
  "shape (s\<lparr>uth_sched_ctx := d\<rparr>) rq wq = shape s rq wq" "shape (s\<lparr>stacks := e\<rparr>) rq wq = shape s rq wq"
  by (rule shape_cong, simp)+

lemma lib_inv_global [simp]:
  "lib_inv (s\<lparr>sigmask := v0\<rparr>) rq wq = lib_inv s rq wq"
  "lib_inv (s\<lparr>stacks := v1\<rparr>) rq wq = lib_inv s rq wq"
  "lib_inv (s\<lparr>uth_sched_ctx := v2\<rparr>) rq wq = lib_inv s rq wq"
  "lib_inv (s\<lparr>run_bootstrap := v3\<rparr>) rq wq = lib_inv s rq wq"
  "lib_inv (s\<lparr>run_returned := v4\<rparr>) rq wq = lib_inv s rq wq"
  "lib_inv (s\<lparr>alt_stack_mem := v5\<rparr>) rq wq = lib_inv s rq wq"
  "lib_inv (s\<lparr>preempt_enabled := v6\<rparr>) rq wq = lib_inv s rq wq"
  "lib_inv (s\<lparr>sigalrm_handler := v7\<rparr>) rq wq = lib_inv s rq wq"
  "lib_inv (s\<lparr>itimer_usec := v8\<rparr>) rq wq = lib_inv s rq wq"
  by (intro lib_inv_frame; simp add: same_table_def)+

lemma lib_inv_set_object [simp]:
  "lib_inv (set_spin m v s) rq wq = lib_inv s rq wq"
  "\<lbrakk>mutexes s m = Some x; mtx_waiters y = mtx_waiters x\<rbrakk> \<Longrightarrow> lib_inv (set_mutex m y s) rq wq = lib_inv s rq wq"
  "\<lbrakk>tickets s m = Some x'; tk_waiters y' = tk_waiters x'\<rbrakk> \<Longrightarrow> lib_inv (set_ticket m y' s) rq wq = lib_inv s rq wq"
  "\<lbrakk>sems s m = Some z; sem_waiters w = sem_waiters z\<rbrakk> \<Longrightarrow> lib_inv (set_sem m w s) rq wq = lib_inv s rq wq"
  by (intro lib_inv_frame; simp add: same_table_def)+

lemma lib_ok_global [simp]:
  "lib_ok (s\<lparr>sigmask := b\<rparr>) = lib_ok s"
  "lib_ok (s\<lparr>stacks := v0\<rparr>) = lib_ok s"
  "lib_ok (s\<lparr>uth_sched_ctx := v1\<rparr>) = lib_ok s"
  "lib_ok (s\<lparr>run_bootstrap := v2\<rparr>) = lib_ok s"
  "lib_ok (s\<lparr>run_returned := v3\<rparr>) = lib_ok s"
  "lib_ok (s\<lparr>alt_stack_mem := v4\<rparr>) = lib_ok s"
  "lib_ok (s\<lparr>preempt_enabled := v5\<rparr>) = lib_ok s"
  "lib_ok (s\<lparr>sigalrm_handler := v6\<rparr>) = lib_ok s"
  "lib_ok (s\<lparr>itimer_usec := v7\<rparr>) = lib_ok s"
  by (simp_all add: lib_ok_def)

lemma mapped_global [simp]:
  "mapped q (s\<lparr>sigmask := b\<rparr>) = mapped q s"
  "mapped q (set_spin m v s) = mapped q s"
  "\<lbrakk>mutexes s m = Some x; mtx_waiters y = mtx_waiters x\<rbrakk> \<Longrightarrow> mapped q (set_mutex m y s) = mapped q s"
  "\<lbrakk>tickets s m = Some x'; tk_waiters y' = tk_waiters x'\<rbrakk> \<Longrightarrow> mapped q (set_ticket m y' s) = mapped q s"
  "\<lbrakk>sems s m = Some z; sem_waiters w = sem_waiters z\<rbrakk> \<Longrightarrow> mapped q (set_sem m w s) = mapped q s"
  by (simp_all add: mapped_def)

lemma lib_waitE:
  assumes "lib_inv s rq wq" and "x \<in> set (wq q)"
  obtains t f k where "heap s x = Some t" "tcb_state t = UTH_STATE_BLOCKED" "uc_frames (tcb_ctx t) = f # k" "waits_on f = Some q"
proof -
  obtain u where u: "heap (erase s) x = Some u" "waiting_ok u q"
    by (rule wait_invE [OF sched_invD(3) [OF lib_invD(2) [OF assms(1)]] assms(2)])
  then obtain t where t: "heap s x = Some t" "u = t\<lparr>tcb_next := NULL\<rparr>" by (auto simp: erase_maps)
  with u(2) that show thesis by (auto simp: waiting_ok_def)
qed

lemma lib_ready_iff: "\<lbrakk>lib_inv s rq wq; heap s x = Some t\<rbrakk> \<Longrightarrow> tcb_state t = UTH_STATE_READY \<longleftrightarrow> x \<in> set rq"
  using tcb_invD(1) [OF sched_invD(2) [OF lib_invD(2) heap_erase]] by fastforce

text \<open>The \<open>next\<close> field of a TCB in no queue does not matter.\<close>

lemma shape_off_queue:
  assumes sh: "shape s rq wq" and un: "unqueued x rq wq"
    and ld: "\<And>c. c \<noteq> NextOf x \<Longrightarrow> load_pp c s' = load_pp c s"
  shows "shape s' rq wq"
proof -
  have "chain s' RqHead rq"
    using shapeD(1) [OF sh] chain_cong [of RqHead rq s' s] ld un by (force simp: cells_def unqueued_def)
  moreover have "rq_tail s' = rq_tail s" using ld [of RqTail] by simp
  moreover have "wchain s' q (wq q)" for q
  proof (cases "is_wait q")
    case True
    with shapeD(3) [OF sh, of q] show ?thesis
      using wchain_cong [of q "wq q" s' s] ld un not_wait_simps(3) [OF True] by (force simp: cells_def unqueued_def)
  next
    case False
    with shapeD(3) [OF sh, of q] show ?thesis by (simp add: wchain_def)
  qed
  ultimately show ?thesis using sh by (simp add: shape_def)
qed

lemma fresh_unqueued: "\<lbrakk>shape s rq wq; heap s x = None\<rbrakk> \<Longrightarrow> unqueued x rq wq"
  using shape_rq_heap shape_wait_heap by (fastforce simp: unqueued_def)

lemma load_heap_upd:
  "c \<noteq> NextOf x \<Longrightarrow> load_pp c (s\<lparr>heap := (heap s)(x := v)\<rparr>) = load_pp c s"
  by (cases c) (simp_all add: pp_simps get_tcb_def get_object_defs)

lemma lib_inv_remove:
  assumes inv: "lib_inv s rq wq" and x: "heap s x = Some t" and st: "tcb_state t = UTH_STATE_ZOMBIE"
  shows "lib_inv (remove_tcb x t s) rq wq"
proof -
  have "shape (remove_tcb x t s) rq wq"
  proof (rule shape_off_queue [OF lib_invD(1) [OF inv]])
    show "unqueued x rq wq" using running_unqueued [OF inv x] st by simp
    show "load_pp c (remove_tcb x t s) = load_pp c s" if "c \<noteq> NextOf x" for c
      using load_heap_upd [OF that] by (simp add: remove_tcb_def)
  qed
  moreover have "table_ok (erase (remove_tcb x t s))"
    using remove_table_ok [OF lib_invD(3) [OF inv] x] by simp
  moreover have "heap (erase (remove_tcb x t s)) = (heap (erase s))(x := None)"
    by (simp add: remove_tcb_def erase_def fun_eq_iff)
  moreover have "uth_current (remove_tcb x t s) = uth_current s" "next_tid (remove_tcb x t s) = next_tid s"
    by (simp_all add: remove_tcb_def)
  ultimately show ?thesis
    using effect_free [OF lib_invD(2) [OF inv] heap_erase [OF x], of "erase (remove_tcb x t s)"] st
    by (simp add: lib_inv_def)
qed

text \<open>The initialisation of an object empties its wait queue.\<close>

lemma lib_inv_reset:
  assumes inv: "lib_inv s rq wq" and q: "is_wait q" "load_pp q s' = Ok NULL"
    and ld: "\<And>c. c \<noteq> q \<Longrightarrow> load_pp c s' = load_pp c s"
    and h: "heap s' = heap s" "uth_current s' = uth_current s" "same_table s' s"
  shows "lib_inv s' rq (wq(q := []))"
proof -
  have "shape s' rq (wq(q := []))"
    using shape_change_wait [OF lib_invD(1) [OF inv] q(1), of s' "[]" "{}"] q(2) ld by simp
  moreover have "sched_inv (erase s') rq wq"
  proof -
    have "heap (erase s') = heap (erase s)" using h(1) by (simp add: erase_def)
    with sched_inv_cong [of "erase s'" "erase s"] h(2,3) lib_invD(2) [OF inv] show ?thesis
      by (simp add: same_table_def)
  qed
  ultimately show ?thesis by (auto simp: lib_inv_def sched_inv_def wait_inv_def)
qed

lemma lib_inv_init:
  assumes inv: "lib_inv s rq wq"
  shows "mtx_waiters xm = NULL \<Longrightarrow> lib_inv (set_mutex m xm s) rq (wq(MutexWaiters m := []))"
    "tk_waiters xt = NULL \<Longrightarrow> lib_inv (set_ticket m xt s) rq (wq(TicketWaiters m := []))"
    "cv_waiters xc = NULL \<Longrightarrow> lib_inv (set_cond m xc s) rq (wq(CondWaiters m := []))"
    "sem_waiters xs = NULL \<Longrightarrow> lib_inv (set_sem m xs s) rq (wq(SemWaiters m := []))"
proof -
  have ld: "c \<noteq> MutexWaiters m \<Longrightarrow> load_pp c (set_mutex m xm s) = load_pp c s"
    "c \<noteq> TicketWaiters m \<Longrightarrow> load_pp c (set_ticket m xt s) = load_pp c s"
    "c \<noteq> CondWaiters m \<Longrightarrow> load_pp c (set_cond m xc s) = load_pp c s"
    "c \<noteq> SemWaiters m \<Longrightarrow> load_pp c (set_sem m xs s) = load_pp c s" for c
    by (cases c; simp add: pp_simps get_tcb_def get_object_defs set_object_defs)+
  show "mtx_waiters xm = NULL \<Longrightarrow> lib_inv (set_mutex m xm s) rq (wq(MutexWaiters m := []))"
    "tk_waiters xt = NULL \<Longrightarrow> lib_inv (set_ticket m xt s) rq (wq(TicketWaiters m := []))"
    "cv_waiters xc = NULL \<Longrightarrow> lib_inv (set_cond m xc s) rq (wq(CondWaiters m := []))"
    "sem_waiters xs = NULL \<Longrightarrow> lib_inv (set_sem m xs s) rq (wq(SemWaiters m := []))"
    by (rule lib_inv_reset [OF inv]; simp add: ld pp_simps same_table_def)+
qed

end
