(* ===== verification/Uth_Thread.thy ===== *)
theory Uth_Thread
  imports Uth_Inv
begin

text \<open>
  The scheduler and the thread life cycle of \<open>thread.c\<close>. A function that may reach
  \<open>swapcontext\<close> takes the frames \<open>k\<close> of its callers, saves them with its own frame in the TCB and
  ends with \<open>Switched\<close>; a separate definition gives the code that runs after the thread is resumed.
\<close>

section \<open>Control transfer and signal masks\<close>

text \<open>
  How a function gives control away: it returns, it has switched to the scheduler, it calls the
  thread function, or it is at a point where \<open>SIGALRM\<close> may be unblocked and the rest of its body, a frame, remains.
\<close>

datatype ret = RetVoid | RetTid u32 | RetInt int | RetJoin int "val option"

datatype ctl = Return ret | Switched | CallUser ptr val | Remains frame

definition uth_preempt_off :: "sys \<Rightarrow> sigset \<times> sys" where
  "uth_preempt_off s = (sigmask s, s\<lparr>sigmask := True\<rparr>)"

definition uth_preempt_restore :: "sigset \<Rightarrow> sys \<Rightarrow> sys" where
  "uth_preempt_restore old s = s\<lparr>sigmask := old\<rparr>"

text \<open>\<open>swapcontext(&t->ctx, &uth_sched_ctx)\<close>: the frames and the mask are saved, the scheduler's mask is loaded.\<close>

definition save_context :: "ptr \<Rightarrow> frame list \<Rightarrow> sigset \<Rightarrow> ucontext_t \<Rightarrow> ucontext_t" where
  "save_context t k m c = c\<lparr>uc_sigmask := m, uc_fpregs := t, uc_frames := k\<rparr>"

definition swap_to_sched :: "ptr \<Rightarrow> frame list \<Rightarrow> sys \<Rightarrow> (ctl \<times> sys) res" where
  "swap_to_sched t k s =
     and_then (modify_tcb t (\<lambda>x. x\<lparr>tcb_ctx := save_context t k (sigmask s) (tcb_ctx x)\<rparr>) s) (\<lambda>s.
     Ok (Switched, s\<lparr>sigmask := uc_sigmask (uth_sched_ctx s)\<rparr>))"

definition uth_block :: "tcb_pp \<Rightarrow> frame list \<Rightarrow> sys \<Rightarrow> (ctl \<times> sys) res" where
  "uth_block queue k s =
     (let t = uth_current s in
      and_then (modify_tcb t (\<lambda>x. x\<lparr>tcb_state := UTH_STATE_BLOCKED\<rparr>) s) (\<lambda>s.
      and_then (wait_append queue t s) (\<lambda>s.
      swap_to_sched t k s)))"

definition uth_block_noqueue :: "frame list \<Rightarrow> sys \<Rightarrow> (ctl \<times> sys) res" where
  "uth_block_noqueue k s =
     (let t = uth_current s in
      and_then (modify_tcb t (\<lambda>x. x\<lparr>tcb_state := UTH_STATE_BLOCKED\<rparr>) s) (\<lambda>s.
      swap_to_sched t k s))"

section \<open>The scheduler\<close>

datatype sched_ctl = SchedBreak | SchedContinue | SchedRun "frame list"

definition SCHED_STACK_SIZE :: u64 where
  "SCHED_STACK_SIZE = 64 * 1024"

text \<open>Entry of \<open>scheduler_loop\<close>, one round of its \<open>for (;;)\<close>, and the statement after \<open>swapcontext\<close>.\<close>

definition scheduler_entry :: "sys \<Rightarrow> sys" where
  "scheduler_entry s = s\<lparr>sigmask := True\<rparr>"

definition scheduler_round :: "sys \<Rightarrow> (sched_ctl \<times> sys) res" where
  "scheduler_round s =
     and_then (count_live s) (\<lambda>live.
     if live = 0 then Ok (SchedBreak, s)
     else
       and_then (queue_pop RqHead RqTail s) (\<lambda>(nxt, s).
       if nxt = NULL then Ok (SchedContinue, s)
       else
         and_then (get_tcb nxt s) (\<lambda>x.
         if tcb_state x \<noteq> UTH_STATE_READY then Fault (AssertFail ''next->state == UTH_STATE_READY'')
         else
           and_then (modify_tcb nxt (\<lambda>x. x\<lparr>tcb_state := UTH_STATE_RUNNING\<rparr>) s) (\<lambda>s.
           let s = s\<lparr>uth_current := nxt,
                     uth_sched_ctx := (uth_sched_ctx s)\<lparr>uc_sigmask := sigmask s, uc_frames := [F_sched_swapped]\<rparr>,
                     sigmask := uc_sigmask (tcb_ctx x)\<rparr> in
           Ok (SchedRun (uc_frames (tcb_ctx x)), s)))))"

definition scheduler_swapped :: "sys \<Rightarrow> sys" where
  "scheduler_swapped s = s\<lparr>uth_current := NULL\<rparr>"

text \<open>
  \<open>uth_run\<close>: \<open>bp\<close> and \<open>sp\<close> are the addresses of its local \<open>bootstrap\<close> and of \<open>sched_stack\<close>.
  \<open>uth_run_body\<close> is the code after \<open>getcontext(&bootstrap)\<close>, which is entered a second time
  through \<open>uc_link\<close> when \<open>scheduler_loop\<close> returns.
\<close>

datatype run_ctl = RunReturn | RunSchedule

definition uth_run_body :: "ptr \<Rightarrow> ptr \<Rightarrow> sys \<Rightarrow> run_ctl \<times> sys" where
  "uth_run_body bp sp s =
     (if run_returned s then (RunReturn, s)
      else (RunSchedule,
        s\<lparr>uth_sched_ctx := (uth_sched_ctx s)\<lparr>uc_sigmask := sigmask s, uc_ss_sp := sp,
              uc_ss_size := SCHED_STACK_SIZE, uc_link := bp, uc_frames := [F_sched_entry]\<rparr>,
          run_returned := True\<rparr>))"

definition uth_run :: "ptr \<Rightarrow> ptr \<Rightarrow> sys \<Rightarrow> run_ctl \<times> sys" where
  "uth_run bp sp s =
     uth_run_body bp sp (s\<lparr>run_returned := False,
       run_bootstrap := (run_bootstrap s)\<lparr>uc_sigmask := sigmask s\<rparr>\<rparr>)"

definition uth_run_linked :: "ptr \<Rightarrow> ptr \<Rightarrow> sys \<Rightarrow> run_ctl \<times> sys" where
  "uth_run_linked bp sp s = uth_run_body bp sp (s\<lparr>sigmask := uc_sigmask (run_bootstrap s)\<rparr>)"

section \<open>The thread interface\<close>

definition uth_init :: "sys \<Rightarrow> sys" where
  "uth_init s = s"

definition init_thread :: "ptr \<Rightarrow> val \<Rightarrow> ptr \<Rightarrow> u64 \<Rightarrow> ptr \<Rightarrow> uth_tcb_t \<Rightarrow> uth_tcb_t" where
  "init_thread fn arg stack stack_size t x =
     x\<lparr>tcb_fn := fn, tcb_arg := arg, tcb_stack := stack, tcb_stack_size := stack_size,
       tcb_state := UTH_STATE_READY, tcb_joiner := NULL, tcb_retval := 0,
       tcb_ctx := (tcb_ctx x)\<lparr>uc_ss_sp := stack, uc_ss_size := stack_size, uc_link := NULL,
         uc_fpregs := t, uc_sigmask := False, uc_frames := [F_trampoline (hi_half t) (lo_half t)]\<rparr>\<rparr>"

definition uth_create :: "ptr \<Rightarrow> val \<Rightarrow> u64 \<Rightarrow> os_env \<Rightarrow> sys \<Rightarrow> (ctl \<times> sys) res" where
  "uth_create fn arg stack_size env s =
     (let (old, s) = uth_preempt_off s;
          stack_size = (if stack_size = 0 then UTH_STACK_DEFAULT else stack_size) in
      case env_mmap env of
        None \<Rightarrow> Ok (Return (RetTid UTH_TID_INVALID), uth_preempt_restore old s)
      | Some stack \<Rightarrow>
          and_then (tcb_alloc env (s\<lparr>stacks := (stacks s)(stack \<mapsto> stack_size)\<rparr>)) (\<lambda>(t, s).
          and_then (modify_tcb t (init_thread fn arg stack stack_size t) s) (\<lambda>s.
          and_then (queue_push RqHead RqTail t s) (\<lambda>s.
          Ok (Remains (F_create_ret t), uth_preempt_restore old s)))))"

text \<open>The last statement, \<open>return t->tid\<close>: it reads the TCB after the mask is restored.\<close>

definition uth_create_ret :: "ptr \<Rightarrow> sys \<Rightarrow> (ctl \<times> sys) res" where
  "uth_create_ret t s = and_then (get_tcb t s) (\<lambda>x. Ok (Return (RetTid (tcb_tid x)), s))"

definition thread_trampoline :: "u32 \<Rightarrow> u32 \<Rightarrow> sys \<Rightarrow> (ctl \<times> sys) res" where
  "thread_trampoline hi lo s =
     and_then (get_tcb (join_halves hi lo) s) (\<lambda>t. Ok (CallUser (tcb_fn t) (tcb_arg t), s))"

definition uth_yield :: "frame list \<Rightarrow> sys \<Rightarrow> (ctl \<times> sys) res" where
  "uth_yield k s =
     (let (old, s) = uth_preempt_off s; t = uth_current s in
      if t = NULL then Ok (Return RetVoid, uth_preempt_restore old s)
      else
        and_then (modify_tcb t (\<lambda>x. x\<lparr>tcb_state := UTH_STATE_READY\<rparr>) s) (\<lambda>s.
        and_then (queue_push RqHead RqTail t s) (\<lambda>s.
        swap_to_sched t (F_yield old # k) s)))"

definition uth_yield_resumed :: "sigset \<Rightarrow> sys \<Rightarrow> (ctl \<times> sys) res" where
  "uth_yield_resumed old s = Ok (Return RetVoid, uth_preempt_restore old s)"

definition uth_exit :: "val \<Rightarrow> frame list \<Rightarrow> sys \<Rightarrow> (ctl \<times> sys) res" where
  "uth_exit retval k s =
     (let (old, s) = uth_preempt_off s; t = uth_current s in
      and_then (modify_tcb t (\<lambda>x. x\<lparr>tcb_retval := retval, tcb_state := UTH_STATE_ZOMBIE\<rparr>) s) (\<lambda>s.
      and_then (get_tcb t s) (\<lambda>x.
      and_then
        (if tcb_joiner x \<noteq> NULL then
           and_then (uth_enqueue (tcb_joiner x) s) (\<lambda>s.
           modify_tcb t (\<lambda>x. x\<lparr>tcb_joiner := NULL\<rparr>) s)
         else Ok s) (\<lambda>s.
      swap_to_sched t (F_exit # k) s))))"

definition uth_join_collect :: "ptr \<Rightarrow> bool \<Rightarrow> sigset \<Rightarrow> sys \<Rightarrow> (ctl \<times> sys) res" where
  "uth_join_collect target want old s =
     and_then (get_tcb target s) (\<lambda>x.
     let rv = (if want then Some (tcb_retval x) else None) in
     and_then (tcb_free target s) (\<lambda>s.
     Ok (Return (RetJoin 0 rv), uth_preempt_restore old s)))"

text \<open>\<open>want\<close> says whether the caller passed a non-NULL \<open>retval\<close>; the value stored through it is in the result.\<close>

definition uth_join :: "u32 \<Rightarrow> bool \<Rightarrow> frame list \<Rightarrow> sys \<Rightarrow> (ctl \<times> sys) res" where
  "uth_join tid want k s =
     (let (old, s) = uth_preempt_off s in
      and_then (tcb_find tid s) (\<lambda>target.
      if target = NULL then Ok (Return (RetJoin (- 1) None), uth_preempt_restore old s)
      else
        and_then (get_tcb target s) (\<lambda>x.
        if tcb_state x \<noteq> UTH_STATE_ZOMBIE then
          and_then (modify_tcb target (\<lambda>x. x\<lparr>tcb_joiner := uth_current s\<rparr>) s) (\<lambda>s.
          uth_block_noqueue (F_join tid want old # k) s)
        else uth_join_collect target want old s)))"

definition uth_join_resumed :: "u32 \<Rightarrow> bool \<Rightarrow> sigset \<Rightarrow> sys \<Rightarrow> (ctl \<times> sys) res" where
  "uth_join_resumed tid want old s =
     and_then (tcb_find tid s) (\<lambda>target.
     if target = NULL then Ok (Return (RetJoin (- 1) None), uth_preempt_restore old s)
     else uth_join_collect target want old s)"

definition uth_self :: "sys \<Rightarrow> u32 res" where
  "uth_self s =
     (if uth_current s \<noteq> NULL then and_then (get_tcb (uth_current s) s) (\<lambda>x. Ok (tcb_tid x))
      else Ok UTH_TID_INVALID)"

text \<open>
  \<open>uth_active_count\<close> does not block \<open>SIGALRM\<close>, so another thread may run between any two of its accesses to shared data. \<open>F_count i count\<close> is
  the head of its loop, \<open>F_count_at i count t\<close> the access to \<open>t->state\<close> after \<open>tcb_table[i]\<close> was read; \<open>count\<close> is a C \<open>int\<close>.
\<close>

definition uth_active_count :: "sys \<Rightarrow> (ctl \<times> sys) res" where
  "uth_active_count s = Ok (Remains (F_count 0 0), s)"

definition active_count_loop :: "nat \<Rightarrow> int \<Rightarrow> sys \<Rightarrow> (ctl \<times> sys) res" where
  "active_count_loop i count s =
     (if i < unat (tcb_count s) then
        and_then (table_get i s) (\<lambda>t.
        Ok (Remains (if t \<noteq> NULL then F_count_at i count t else F_count (Suc i) count), s))
      else Ok (Return (RetInt count), s))"

definition active_count_at :: "nat \<Rightarrow> int \<Rightarrow> ptr \<Rightarrow> sys \<Rightarrow> (ctl \<times> sys) res" where
  "active_count_at i count t s =
     and_then (get_tcb t s) (\<lambda>x.
     if tcb_state x = UTH_STATE_ZOMBIE then Ok (Remains (F_count (Suc i) count), s)
     else if count = INT_MAX then Fault SignedOverflow
     else Ok (Remains (F_count (Suc i) (count + 1)), s))"

section \<open>Switching to the scheduler\<close>

definition runs :: "sys \<Rightarrow> ptr \<Rightarrow> uth_tcb_t \<Rightarrow> bool" where
  "runs s x t \<longleftrightarrow> uth_current s = x \<and> heap s x = Some t \<and> tcb_state t = UTH_STATE_RUNNING"

definition no_running :: "sys \<Rightarrow> bool" where
  "no_running s \<longleftrightarrow> (\<forall>x t. heap s x = Some t \<longrightarrow> tcb_state t \<noteq> UTH_STATE_RUNNING)"

text \<open>The current thread after \<open>swapcontext\<close>: its new state and its saved context.\<close>

definition switched :: "uth_state_t \<Rightarrow> ptr \<Rightarrow> frame list \<Rightarrow> sys \<Rightarrow> sys" where
  "switched st x k s = (upd_tcb x (\<lambda>t. t\<lparr>tcb_state := st, tcb_ctx := save_context x k (sigmask s) (tcb_ctx t)\<rparr>) s)
     \<lparr>sigmask := uc_sigmask (uth_sched_ctx s)\<rparr>"

lemma lib_heap_not_NULL: "lib_inv s rq wq \<Longrightarrow> heap s x = Some t \<Longrightarrow> x \<noteq> NULL"
  using sched_heap_not_NULL [OF lib_invD(2)] heap_erase by blast

lemma runs_not_NULL: "lib_inv s rq wq \<Longrightarrow> runs s x t \<Longrightarrow> x \<noteq> NULL"
  using lib_heap_not_NULL by (auto simp: runs_def)

lemma runs_unqueued: "lib_inv s rq wq \<Longrightarrow> runs s x t \<Longrightarrow> unqueued x rq wq"
  using running_unqueued by (auto simp: runs_def)

lemma runs_global [simp]:
  "runs (s\<lparr>sigmask := b\<rparr>) x t = runs s x t" "runs (set_mutex m xm s) x t = runs s x t"
  "runs (set_ticket m xt s) x t = runs s x t" "runs (set_sem m xs s) x t = runs s x t"
  "runs (set_spin m xp s) x t = runs s x t"
  by (simp_all add: runs_def)

lemma no_running_erase: "no_running (erase s) = no_running s"
proof
  assume "no_running (erase s)"
  then show "no_running s" using heap_erase unfolding no_running_def by fastforce
qed (auto simp: no_running_def erase_maps)

lemma no_running_upd:
  assumes inv: "sched_inv a rq wq" and x: "heap a x = Some t" and st: "tcb_state t = UTH_STATE_RUNNING"
    and h: "heap a' = (heap a)(x \<mapsto> t')" and t': "tcb_state t' \<noteq> UTH_STATE_RUNNING"
  shows "no_running a'"
  using running_unique [OF inv x st] t' by (auto simp: no_running_def h)

lemma swap_to_sched_ok:
  "\<lbrakk>heap s x = Some t; x \<noteq> NULL\<rbrakk> \<Longrightarrow> swap_to_sched x k s =
     Ok (Switched, (upd_tcb x (\<lambda>t. t\<lparr>tcb_ctx := save_context x k (sigmask s) (tcb_ctx t)\<rparr>) s)
       \<lparr>sigmask := uc_sigmask (uth_sched_ctx s)\<rparr>)"
  by (simp add: swap_to_sched_def)

lemma swap_after:
  assumes sh: "shape s1 rq wq" and e: "erase s1 = set_state x st a" and x: "x \<noteq> NULL" "heap a x = Some t"
  shows "\<exists>s'. swap_to_sched x k s1 = Ok (Switched, s') \<and> shape s' rq wq \<and> erase s' = switched st x k a"
proof -
  have "heap (erase s1) x \<noteq> None" using x by (simp add: e heap_upd_tcb)
  then obtain t1 where t1: "heap s1 x = Some t1" by (auto simp: erase_maps)
  have f: "sigmask s1 = sigmask a" "uth_sched_ctx s1 = uth_sched_ctx a" using erase_fields [OF e] by simp_all
  let ?s = "(upd_tcb x (\<lambda>t. t\<lparr>tcb_ctx := save_context x k (sigmask a) (tcb_ctx t)\<rparr>) s1)
       \<lparr>sigmask := uc_sigmask (uth_sched_ctx a)\<rparr>"
  have "swap_to_sched x k s1 = Ok (Switched, ?s)" by (simp add: swap_to_sched_ok [OF t1 x(1)] f)
  moreover have "shape ?s rq wq" using sh by (subst shape_cong [of _ s1]) simp_all
  moreover have "erase ?s = switched st x k a" by (simp add: e switched_def upd_tcb_upd_tcb)
  ultimately show ?thesis by blast
qed

lemma heap_switched:
  "heap a x = Some t \<Longrightarrow> heap (switched st x k a) =
     (heap a)(x \<mapsto> t\<lparr>tcb_state := st, tcb_ctx := save_context x k (sigmask a) (tcb_ctx t)\<rparr>)"
  by (simp add: switched_def upd_tcb_def)

lemma runs_erase:
  assumes "runs s x t"
  shows "heap (erase s) x = Some (t\<lparr>tcb_next := NULL\<rparr>)" "tcb_state (t\<lparr>tcb_next := NULL\<rparr>) = UTH_STATE_RUNNING"
    "uth_current s = x" "heap s x = Some t"
  using assms heap_erase by (simp_all add: runs_def)

lemma no_running_switched:
  assumes inv: "lib_inv s rq wq" and r: "runs s x t" and e: "erase s' = switched st x k (erase s)"
    and st: "st \<noteq> UTH_STATE_RUNNING"
  shows "no_running s'"
  using no_running_upd [OF lib_invD(2) [OF inv] runs_erase(1,2) [OF r], OF heap_switched [OF runs_erase(1) [OF r]]] st
  by (simp add: no_running_erase [of s', symmetric] e)

lemma same_table_switched [simp]: "same_table (switched st x k a) a"
  by (simp add: switched_def same_table_def)

lemma save_context_simps [simp]:
  "uc_sigmask (save_context x k b c) = b" "uc_frames (save_context x k b c) = k"
  by (simp_all add: save_context_def)

lemma waits_on_is_wait: "waits_on f = Some q \<Longrightarrow> is_wait q"
  by (cases f) auto

lemma uth_block_ok:
  assumes inv: "lib_inv s rq wq" and r: "runs s x t" and q: "mapped q s" "waits_on f = Some q"
    and k: "stack_ok (sigmask s) (f # k)"
  shows "\<exists>s'. uth_block q (f # k) s = Ok (Switched, s') \<and> lib_inv s' rq (wq(q := wq q @ [x])) \<and>
     no_running s' \<and> erase s' = switched UTH_STATE_BLOCKED x (f # k) (erase s)"
proof -
  have x: "x \<noteq> NULL" "heap s x = Some t" "uth_current s = x" using runs_not_NULL [OF inv r] r by (simp_all add: runs_def)
  let ?s = "set_state x UTH_STATE_BLOCKED s"
  have "shape ?s rq wq" using lib_invD(1) [OF inv] by simp
  moreover have "heap ?s x = Some (t\<lparr>tcb_state := UTH_STATE_BLOCKED\<rparr>)" by (simp add: heap_upd_tcb x)
  ultimately obtain s1 where s1: "wait_append q x ?s = Ok s1" "shape s1 rq (wq(q := wq q @ [x]))" "erase s1 = erase ?s"
    using wait_append_shape [of ?s rq wq q x] waits_on_is_wait [OF q(2)] q(1) x runs_unqueued [OF inv r] by auto
  from s1(3) have "erase s1 = set_state x UTH_STATE_BLOCKED (erase s)" by simp
  from swap_after [OF s1(2) this x(1) heap_erase [OF x(2)]] obtain s' where s': "swap_to_sched x (f # k) s1 = Ok (Switched, s')"
      "shape s' rq (wq(q := wq q @ [x]))" "erase s' = switched UTH_STATE_BLOCKED x (f # k) (erase s)"
    by blast
  have "uth_block q (f # k) s = Ok (Switched, s')"
    using x s1(1) s'(1) by (simp add: uth_block_def)
  moreover have "lib_inv s' rq (wq(q := wq q @ [x]))"
    unfolding lib_inv_def s'(3)
    using effect_block [OF lib_invD(2) [OF inv] heap_erase [OF x(2)] _ heap_switched [OF heap_erase [OF x(2)]]] r q k s'(2)
    by (simp add: runs_def)
  ultimately show ?thesis using s'(3) no_running_switched [OF inv r s'(3)] by blast
qed

section \<open>Yield and exit\<close>

lemma uth_yield_outside: "uth_current s = NULL \<Longrightarrow> uth_yield k s = Ok (Return RetVoid, s)"
  by (simp add: uth_yield_def uth_preempt_off_def uth_preempt_restore_def)

lemma uth_yield_ok:
  assumes inv: "lib_inv s rq wq" and r: "runs s x t" and k: "caller_ok (sigmask s) k"
  shows "\<exists>s'. uth_yield k s = Ok (Switched, s') \<and> lib_inv s' (rq @ [x]) wq \<and> no_running s' \<and>
     erase s' = switched UTH_STATE_READY x (F_yield (sigmask s) # k) ((erase s)\<lparr>sigmask := True\<rparr>)"
proof -
  let ?s = "s\<lparr>sigmask := True\<rparr>"
  have inv0: "lib_inv ?s rq wq" and r0: "runs ?s x t" using inv r by simp_all
  have x: "x \<noteq> NULL" "heap ?s x = Some t" "uth_current s = x"
    using runs_not_NULL [OF inv r] r by (simp_all add: runs_def)
  obtain s1 where s1: "uth_enqueue x ?s = Ok s1" "shape s1 (rq @ [x]) wq" "erase s1 = set_state x UTH_STATE_READY (erase ?s)"
    using uth_enqueue_shape [OF lib_invD(1) [OF inv0] x(1,2) runs_unqueued [OF inv0 r0]] by blast
  from swap_after [OF s1(2,3) x(1) heap_erase [OF x(2)]] obtain s' where s': "swap_to_sched x (F_yield (sigmask s) # k) s1 = Ok (Switched, s')"
      "shape s' (rq @ [x]) wq" "erase s' = switched UTH_STATE_READY x (F_yield (sigmask s) # k) (erase ?s)"
    by blast
  have "uth_yield k s = Ok (Switched, s')"
    using x s1(1) s'(1)
    by (simp add: uth_yield_def uth_preempt_off_def uth_enqueue_def)
  moreover have "lib_inv s' (rq @ [x]) wq"
    unfolding lib_inv_def s'(3)
    using effect_ready [OF lib_invD(2) [OF inv0] runs_erase(1,2) [OF r0] heap_switched [OF runs_erase(1) [OF r0]]] k s'(2)
    by (simp add: ctx_ok_def)
  ultimately show ?thesis using s'(3) no_running_switched [OF inv0 r0 s'(3)] by auto
qed

text \<open>What \<open>uth_exit\<close> does to the current thread and to its joiner.\<close>

definition exited :: "val \<Rightarrow> ptr \<Rightarrow> ptr \<Rightarrow> frame list \<Rightarrow> sys \<Rightarrow> sys" where
  "exited v x j k a = switched UTH_STATE_ZOMBIE x k
     (upd_tcb x (\<lambda>t. t\<lparr>tcb_retval := v, tcb_joiner := NULL\<rparr>) (if j = NULL then a else set_state j UTH_STATE_READY a))"

lemma tcb_joiner_state: "t\<lparr>tcb_state := st, tcb_joiner := j\<rparr> = t\<lparr>tcb_joiner := j, tcb_state := st\<rparr>"
  by (cases t) simp

lemma exit_body_ok:
  assumes inv: "lib_inv s rq wq" and r: "runs s x t" and j: "tcb_joiner t = j"
  shows "\<exists>s'. and_then
        (if j \<noteq> NULL then
           and_then (uth_enqueue j (upd_tcb x (\<lambda>x. x\<lparr>tcb_retval := v, tcb_state := UTH_STATE_ZOMBIE\<rparr>) s)) (\<lambda>s.
           modify_tcb x (\<lambda>x. x\<lparr>tcb_joiner := NULL\<rparr>) s)
         else Ok (upd_tcb x (\<lambda>x. x\<lparr>tcb_retval := v, tcb_state := UTH_STATE_ZOMBIE\<rparr>) s)) (swap_to_sched x k) =
        Ok (Switched, s') \<and> shape s' (if j = NULL then rq else rq @ [j]) wq \<and> erase s' = exited v x j k (erase s)"
proof -
  let ?s = "upd_tcb x (\<lambda>x. x\<lparr>tcb_retval := v, tcb_state := UTH_STATE_ZOMBIE\<rparr>) s"
  let ?a = "upd_tcb x (\<lambda>t. t\<lparr>tcb_retval := v, tcb_joiner := NULL\<rparr>) (if j = NULL then erase s else set_state j UTH_STATE_READY (erase s))"
  have x: "x \<noteq> NULL" "heap s x = Some t" using runs_not_NULL [OF inv r] r by (simp_all add: runs_def)
  have sh: "shape ?s rq wq" using lib_invD(1) [OF inv] by simp
  have e: "erase ?s = set_state x UTH_STATE_ZOMBIE (upd_tcb x (\<lambda>t. t\<lparr>tcb_retval := v\<rparr>) (erase s))"
    by (simp add: upd_tcb_upd_tcb)
  obtain s1 where s1: "(if j \<noteq> NULL then and_then (uth_enqueue j ?s) (modify_tcb x (\<lambda>x. x\<lparr>tcb_joiner := NULL\<rparr>)) else Ok ?s) = Ok s1"
      "shape s1 (if j = NULL then rq else rq @ [j]) wq" "erase s1 = set_state x UTH_STATE_ZOMBIE ?a"
  proof (cases "j = NULL")
    case True
    with j have "t\<lparr>tcb_next := NULL, tcb_retval := v, tcb_joiner := NULL\<rparr> = t\<lparr>tcb_next := NULL, tcb_retval := v\<rparr>"
      by (cases t) simp
    then have "upd_tcb x (\<lambda>t. t\<lparr>tcb_retval := v, tcb_joiner := NULL\<rparr>) (erase s) = upd_tcb x (\<lambda>t. t\<lparr>tcb_retval := v\<rparr>) (erase s)"
      using x by (simp add: upd_tcb_def erase_maps)
    with True sh e that show ?thesis by simp
  next
    case False
    have nz: "tcb_joiner (t\<lparr>tcb_next := NULL\<rparr>) \<noteq> NULL" using j False by simp
    obtain w want old where "heap (erase s) (tcb_joiner (t\<lparr>tcb_next := NULL\<rparr>)) = Some w"
        and w: "tcb_state w = UTH_STATE_BLOCKED" "uc_frames (tcb_ctx w) = [F_join (tcb_tid (t\<lparr>tcb_next := NULL\<rparr>)) want old]"
      by (rule joinerE [OF lib_invD(2) [OF inv] heap_erase [OF x(2)] nz])
    with j have wj: "heap (erase s) j = Some w" by simp
    have un: "unqueued j rq wq" using sched_unqueued [OF lib_invD(2) [OF inv] wj] w by blast
    have jx: "j \<noteq> x" using w(1) wj runs_erase [OF r] by auto
    obtain w' where w': "heap ?s j = Some w'" using wj jx by (auto simp: heap_upd_tcb erase_maps)
    from uth_enqueue_shape [OF sh False w' un] obtain s2 where s2: "uth_enqueue j ?s = Ok s2"
        "shape s2 (rq @ [j]) wq" "erase s2 = set_state j UTH_STATE_READY (erase ?s)" by blast
    have "heap (erase s2) x \<noteq> None" using x jx by (simp add: s2(3) heap_upd_tcb erase_maps)
    then obtain t2 where "heap s2 x = Some t2" by (auto simp: erase_maps)
    with s2 x jx False e that [of "upd_tcb x (\<lambda>x. x\<lparr>tcb_joiner := NULL\<rparr>) s2"] show ?thesis
      by (simp add: upd_tcb_commute [of j x] upd_tcb_upd_tcb tcb_joiner_state)
  qed
  have "heap ?a x \<noteq> None" using x by (auto simp: heap_upd_tcb erase_maps)
  then obtain ta where ta: "heap ?a x = Some ta" by blast
  obtain s' where s': "swap_to_sched x k s1 = Ok (Switched, s')" "shape s' (if j = NULL then rq else rq @ [j]) wq"
      "erase s' = switched UTH_STATE_ZOMBIE x k ?a"
    using swap_after [OF s1(2,3) x(1) ta] by blast
  show ?thesis
    by (rule exI [of _ s']) (simp only: s1(1) s' and_then.simps exited_def simp_thms)
qed

lemma exited_inv:
  assumes inv: "sched_inv a rq wq" and x: "heap a x = Some t" and st: "tcb_state t = UTH_STATE_RUNNING"
    and j: "tcb_joiner t = j"
  shows "sched_inv (exited v x j k a) (if j = NULL then rq else rq @ [j]) wq" "no_running (exited v x j k a)"
proof -
  let ?t = "t\<lparr>tcb_retval := v, tcb_joiner := NULL, tcb_state := UTH_STATE_ZOMBIE,
     tcb_ctx := save_context x k (sigmask a) (tcb_ctx t)\<rparr>"
  have tb: "same_table (exited v x j k a) a" by (simp add: exited_def same_table_def switched_def)
  have cur: "uth_current (exited v x j k a) = uth_current a" by (simp add: exited_def switched_def)
  have "sched_inv (exited v x j k a) (if j = NULL then rq else rq @ [j]) wq \<and> no_running (exited v x j k a)"
  proof (cases "j = NULL")
    case True
    then have h: "heap (exited v x j k a) = (heap a)(x \<mapsto> ?t)"
      by (simp add: exited_def switched_def upd_tcb_def x)
    show ?thesis using effect_exit [OF inv x st h tb] no_running_upd [OF inv x st h] True by simp
  next
    case False
    with j have nz: "tcb_joiner t \<noteq> NULL" by simp
    obtain w where w: "heap a j = Some w" "tcb_state w = UTH_STATE_BLOCKED"
      using joinerE [OF inv x nz] j by metis
    with x st have jx: "j \<noteq> x" by auto
    have h: "heap (exited v x j k a) = (heap a)(x \<mapsto> ?t, j \<mapsto> w\<lparr>tcb_state := UTH_STATE_READY\<rparr>)"
      using False jx w x by (simp add: exited_def switched_def upd_tcb_def fun_upd_twist)
    have "no_running (exited v x j k a)"
      using running_unique [OF inv x st] by (auto simp: no_running_def h)
    with effect_exit_joiner [OF inv x st j False w(1) h tb cur] False show ?thesis by simp
  qed
  then show "sched_inv (exited v x j k a) (if j = NULL then rq else rq @ [j]) wq" "no_running (exited v x j k a)"
    by blast+
qed

lemma uth_exit_ok:
  assumes inv: "lib_inv s rq wq" and r: "runs s x t" and j: "tcb_joiner t = j"
  shows "\<exists>s'. uth_exit v k s = Ok (Switched, s') \<and> lib_inv s' (if j = NULL then rq else rq @ [j]) wq \<and>
     no_running s' \<and> erase s' = exited v x j (F_exit # k) ((erase s)\<lparr>sigmask := True\<rparr>)"
proof -
  let ?s = "s\<lparr>sigmask := True\<rparr>"
  have inv0: "lib_inv ?s rq wq" and r0: "runs ?s x t" using inv r by simp_all
  have x: "x \<noteq> NULL" "heap s x = Some t" "uth_current s = x"
    using runs_not_NULL [OF inv r] r by (simp_all add: runs_def)
  let ?z = "upd_tcb x (\<lambda>x. x\<lparr>tcb_retval := v, tcb_state := UTH_STATE_ZOMBIE\<rparr>) ?s"
  have "uth_exit v k s = and_then
        (if j \<noteq> NULL then and_then (uth_enqueue j ?z) (\<lambda>s. modify_tcb x (\<lambda>x. x\<lparr>tcb_joiner := NULL\<rparr>) s) else Ok ?z)
        (swap_to_sched x (F_exit # k))"
    using x j by (cases "j = NULL") (simp_all add: uth_exit_def uth_preempt_off_def heap_upd_tcb)
  with exit_body_ok [OF inv0 r0 j, of v "F_exit # k"] obtain s' where
    s': "uth_exit v k s = Ok (Switched, s')" "shape s' (if j = NULL then rq else rq @ [j]) wq"
      "erase s' = exited v x j (F_exit # k) (erase ?s)"
    by metis
  moreover have "lib_inv s' (if j = NULL then rq else rq @ [j]) wq" "no_running s'"
    using exited_inv [OF lib_invD(2) [OF inv0] runs_erase(1,2) [OF r0]] j s'(2)
    by (simp_all add: lib_inv_def s'(3) no_running_erase [of s', symmetric])
  ultimately show ?thesis by simp
qed

section \<open>Join\<close>

lemma uth_join_miss:
  assumes "table_ok s" and "\<forall>x t. heap s x = Some t \<longrightarrow> tcb_tid t \<noteq> tid"
  shows "uth_join tid want k s = Ok (Return (RetJoin (- 1) None), s)"
proof -
  have "tcb_find tid (s\<lparr>sigmask := True\<rparr>) = Ok NULL"
    using assms table_ok_cong [of "s\<lparr>sigmask := True\<rparr>" s] by (intro tcb_find_miss) simp_all
  then show ?thesis by (simp add: uth_join_def uth_preempt_off_def uth_preempt_restore_def)
qed

lemma table_ok_sigmask [simp]: "table_ok (s\<lparr>sigmask := b\<rparr>) = table_ok s"
  by (rule table_ok_cong) simp_all

lemma uth_join_collect_ok:
  assumes "table_ok s" and "heap s y = Some u"
  shows "uth_join_collect y want old s =
     Ok (Return (RetJoin 0 (if want then Some (tcb_retval u) else None)), (remove_tcb y u s)\<lparr>sigmask := old\<rparr>)"
  using tcb_free_ok [OF assms] tids_okD(1) [OF table_okD(6) [OF assms(1)] assms(2)] assms(2)
  by (simp add: uth_join_collect_def uth_preempt_restore_def)

lemma uth_join_zombie:
  assumes ok: "table_ok s" and y: "heap s y = Some u" "tcb_tid u = tid" and st: "tcb_state u = UTH_STATE_ZOMBIE"
  shows "uth_join tid want k s =
     Ok (Return (RetJoin 0 (if want then Some (tcb_retval u) else None)), remove_tcb y u s)"
proof -
  have "tcb_find tid (s\<lparr>sigmask := True\<rparr>) = Ok y" using ok y by (intro tcb_find_hit) simp_all
  moreover have "y \<noteq> NULL" using tids_okD(1) [OF table_okD(6) [OF ok] y(1)] .
  moreover have "(remove_tcb y u (s\<lparr>sigmask := True\<rparr>))\<lparr>sigmask := sigmask s\<rparr> = remove_tcb y u s"
    by (simp add: remove_tcb_def)
  ultimately show ?thesis
    using ok y st uth_join_collect_ok [of "s\<lparr>sigmask := True\<rparr>" y u want "sigmask s"]
    by (simp add: uth_join_def uth_preempt_off_def)
qed

lemma switched_joiner:
  "switched st x k (upd_tcb y (\<lambda>t. t\<lparr>tcb_joiner := j\<rparr>) a) = upd_tcb y (\<lambda>t. t\<lparr>tcb_joiner := j\<rparr>) (switched st x k a)"
proof (cases "y = x")
  case True
  have eq: "t\<lparr>tcb_joiner := j, tcb_state := st, tcb_ctx := c\<rparr> = t\<lparr>tcb_state := st, tcb_ctx := c, tcb_joiner := j\<rparr>" for t c
    by (cases t) simp
  from True show ?thesis by (simp add: switched_def upd_tcb_upd_tcb eq)
next
  case False
  then show ?thesis by (simp add: switched_def upd_tcb_commute)
qed

lemma join_block_inv:
  fixes want old :: bool
  assumes inv: "sched_inv a rq wq" and x: "heap a x = Some t" and st: "tcb_state t = UTH_STATE_RUNNING"
    and y: "heap a y = Some u" and yst: "tcb_state u \<noteq> UTH_STATE_ZOMBIE" and m: "sigmask a"
  defines "b \<equiv> switched UTH_STATE_BLOCKED x [F_join (tcb_tid u) want old] (upd_tcb y (\<lambda>t. t\<lparr>tcb_joiner := x\<rparr>) a)"
  shows "sched_inv b rq wq" "no_running b"
proof -
  let ?k = "[F_join (tcb_tid u) want old]"
  define c where "c = switched UTH_STATE_BLOCKED x ?k a"
  have "unat (tcb_tid u) < unat (next_tid a)"
    using table_okD(4,6) [OF sched_invD(1) [OF inv]] tids_okD(3) [OF _ y] by fastforce
  then have c: "sched_inv c rq wq"
    unfolding c_def using m by (intro effect_join_block [OF inv x st heap_switched [OF x]]) simp_all
  have hx: "heap c x = Some (t\<lparr>tcb_state := UTH_STATE_BLOCKED, tcb_ctx := save_context x ?k (sigmask a) (tcb_ctx t)\<rparr>)"
    by (simp add: c_def heap_switched [OF x])
  obtain u' where u': "heap c y = Some u'" "tcb_tid u' = tcb_tid u" "tcb_state u' \<noteq> UTH_STATE_ZOMBIE"
    using y yst x by (cases "y = x") (auto simp: c_def heap_switched [OF x])
  have b: "b = upd_tcb y (\<lambda>t. t\<lparr>tcb_joiner := x\<rparr>) c" by (simp add: b_def c_def switched_joiner)
  show "sched_inv b rq wq"
    using u' hx by (intro effect_set_joiner [OF c u'(1,3), where x = x]) (auto simp: b upd_tcb_def same_table_def)
  have "no_running c" unfolding c_def by (rule no_running_upd [OF inv x st heap_switched [OF x]]) simp
  then show "no_running b" by (auto simp: b no_running_def heap_upd_tcb split: if_splits)
qed

text \<open>The current thread registers as the joiner of \<open>y\<close> and blocks.\<close>

lemma uth_join_block:
  assumes inv: "lib_inv s rq wq" and r: "runs s x t"
    and y: "heap s y = Some u" "tcb_tid u = tid" "tcb_state u \<noteq> UTH_STATE_ZOMBIE"
  shows "\<exists>s'. uth_join tid want [] s = Ok (Switched, s') \<and> lib_inv s' rq wq \<and> no_running s' \<and>
     erase s' = switched UTH_STATE_BLOCKED x [F_join tid want (sigmask s)]
       (upd_tcb y (\<lambda>t. t\<lparr>tcb_joiner := x\<rparr>) ((erase s)\<lparr>sigmask := True\<rparr>))"
proof -
  let ?s = "s\<lparr>sigmask := True\<rparr>" and ?k = "[F_join tid want (sigmask s)]"
  let ?j = "\<lambda>t. t\<lparr>tcb_joiner := x\<rparr>"
  have inv0: "lib_inv ?s rq wq" and r0: "runs ?s x t" using inv r by simp_all
  have x: "x \<noteq> NULL" "heap s x = Some t" "uth_current s = x"
    using runs_not_NULL [OF inv r] r by (simp_all add: runs_def)
  have yN: "y \<noteq> NULL" using lib_heap_not_NULL [OF inv y(1)] .
  have find: "tcb_find tid ?s = Ok y" using lib_invD(3) [OF inv] y by (intro tcb_find_hit) simp_all
  define s1 where "s1 = set_state x UTH_STATE_BLOCKED (upd_tcb y ?j ?s)"
  let ?a = "upd_tcb y ?j ((erase s)\<lparr>sigmask := True\<rparr>)"
  have sh: "shape s1 rq wq" using lib_invD(1) [OF inv0] by (simp add: s1_def)
  have e: "erase s1 = set_state x UTH_STATE_BLOCKED ?a" by (simp add: s1_def)
  obtain ta where ta: "heap ?a x = Some ta" using heap_upd_exists [OF runs_erase(1) [OF r0]] by auto
  obtain s' where s': "swap_to_sched x ?k s1 = Ok (Switched, s')" "shape s' rq wq" "erase s' = switched UTH_STATE_BLOCKED x ?k ?a"
    using swap_after [OF sh e x(1) ta] by blast
  obtain u' where u': "heap (upd_tcb y ?j s) x = Some u'" using heap_upd_exists [OF x(2)] by blast
  have "uth_join tid want [] s = Ok (Switched, s')"
    using find x y yN s'(1) u'
    by (simp add: uth_join_def uth_preempt_off_def uth_block_noqueue_def s1_def)
  moreover have "sched_inv (erase s') rq wq" "no_running (erase s')"
    using join_block_inv [OF lib_invD(2) [OF inv0] runs_erase(1,2) [OF r0], of y "u\<lparr>tcb_next := NULL\<rparr>" want "sigmask s"]
      heap_erase [OF y(1)] y s'(3) by simp_all
  then have "lib_inv s' rq wq" "no_running s'" using s'(2) by (simp_all add: lib_inv_def no_running_erase)
  ultimately show ?thesis using s'(3) by blast
qed

lemma uth_join_outside:
  assumes "table_ok s" and "uth_current s = NULL"
    and "heap s y = Some u" "tcb_tid u = tid" "tcb_state u \<noteq> UTH_STATE_ZOMBIE"
  shows "uth_join tid want k s = Fault NullDeref"
proof -
  have "tcb_find tid (s\<lparr>sigmask := True\<rparr>) = Ok y" using assms by (intro tcb_find_hit) simp_all
  moreover have "y \<noteq> NULL" using tids_okD(1) [OF table_okD(6)] assms(1,3) by blast
  ultimately show ?thesis
    using assms by (simp add: uth_join_def uth_preempt_off_def uth_block_noqueue_def modify_tcb_def get_tcb_def)
qed

lemma uth_join_resumed_cases:
  assumes ok: "table_ok s" and z: "zombie_tid s tid"
  obtains (gone) "uth_join_resumed tid want old s = Ok (Return (RetJoin (- 1) None), s\<lparr>sigmask := old\<rparr>)"
      "\<forall>x t. heap s x = Some t \<longrightarrow> tcb_tid t \<noteq> tid"
    | (collect) y u where "heap s y = Some u" "tcb_tid u = tid" "tcb_state u = UTH_STATE_ZOMBIE"
      "uth_join_resumed tid want old s =
         Ok (Return (RetJoin 0 (if want then Some (tcb_retval u) else None)), (remove_tcb y u s)\<lparr>sigmask := old\<rparr>)"
proof (cases rule: tcb_find_cases [OF ok, of tid])
  case (1 x t)
  with uth_join_collect_ok [OF ok 1(3)] have
    "uth_join_resumed tid want old s =
       Ok (Return (RetJoin 0 (if want then Some (tcb_retval t) else None)), (remove_tcb x t s)\<lparr>sigmask := old\<rparr>)"
    by (simp add: uth_join_resumed_def)
  with 1 z collect show ?thesis by (auto simp: zombie_tid_def)
next
  case 2
  with gone show ?thesis by (simp add: uth_join_resumed_def uth_preempt_restore_def)
qed

section \<open>Creation\<close>

text \<open>The TCB of a new thread: it starts in the trampoline, with \<open>SIGALRM\<close> unblocked.\<close>

definition new_tcb :: "ptr \<Rightarrow> val \<Rightarrow> ptr \<Rightarrow> u64 \<Rightarrow> ptr \<Rightarrow> u32 \<Rightarrow> uth_tcb_t" where
  "new_tcb fn arg stack ssize x tid = init_thread fn arg stack ssize x (tcb0\<lparr>tcb_tid := tid\<rparr>)"

lemma new_tcb_simps [simp]:
  "tcb_tid (new_tcb fn arg stack ssize x tid) = tid" "tcb_state (new_tcb fn arg stack ssize x tid) = UTH_STATE_READY"
  "tcb_joiner (new_tcb fn arg stack ssize x tid) = NULL" "tcb_next (new_tcb fn arg stack ssize x tid) = NULL"
  "tcb_fn (new_tcb fn arg stack ssize x tid) = fn" "tcb_arg (new_tcb fn arg stack ssize x tid) = arg"
  "uc_frames (tcb_ctx (new_tcb fn arg stack ssize x tid)) = [F_trampoline (hi_half x) (lo_half x)]"
  "uc_sigmask (tcb_ctx (new_tcb fn arg stack ssize x tid)) = False"
  by (simp_all add: new_tcb_def init_thread_def tcb0_def)

lemma tcb_alloc_shape:
  assumes inv: "lib_inv s rq wq" and a: "tcb_alloc env s = Ok (x, s')" and fresh: "heap s (env_calloc env) = None"
  shows "x \<noteq> NULL" "heap s x = None" "shape s' rq wq" "table_ok s'" "heap s' = (heap s)(x \<mapsto> tcb0\<lparr>tcb_tid := next_tid s\<rparr>)"
    "heap (erase s') = (heap (erase s))(x \<mapsto> tcb0\<lparr>tcb_tid := next_tid s\<rparr>)"
    "unat (next_tid s') = Suc (unat (next_tid s))" "uth_current s' = uth_current s" "sigmask s' = sigmask s"
    "uth_sched_ctx s' = uth_sched_ctx s" "run_bootstrap s' = run_bootstrap s" "run_returned s' = run_returned s"
proof -
  from tcb_alloc_ok [OF lib_invD(3) [OF inv] a fresh] obtain tb c n where
    x: "x = env_calloc env" "x \<noteq> NULL" "table_ok s'" "unat (next_tid s') = Suc (unat (next_tid s))"
    and s': "s' = s\<lparr>heap := (heap s)(x \<mapsto> tcb0\<lparr>tcb_tid := next_tid s\<rparr>), next_tid := next_tid s + 1,
       tcb_table := tb, tcb_capacity := c, tcb_count := n\<rparr>" by blast
  show "x \<noteq> NULL" "heap s x = None" "table_ok s'" "unat (next_tid s') = Suc (unat (next_tid s))"
    using x fresh by simp_all
  show "heap s' = (heap s)(x \<mapsto> tcb0\<lparr>tcb_tid := next_tid s\<rparr>)" "uth_current s' = uth_current s" "sigmask s' = sigmask s"
    "uth_sched_ctx s' = uth_sched_ctx s" "run_bootstrap s' = run_bootstrap s" "run_returned s' = run_returned s"
    by (simp_all add: s')
  show "shape s' rq wq"
  proof (rule shape_off_queue [OF lib_invD(1) [OF inv]])
    show "unqueued x rq wq" using fresh_unqueued [OF lib_invD(1) [OF inv]] fresh x(1) by simp
    show "load_pp d s' = load_pp d s" if "d \<noteq> NextOf x" for d
      using load_heap_upd [OF that] by (simp add: s')
  qed
  show "heap (erase s') = (heap (erase s))(x \<mapsto> tcb0\<lparr>tcb_tid := next_tid s\<rparr>)"
    by (simp add: s' erase_def fun_eq_iff tcb0_def)
qed

lemma uth_create_ok:
  assumes inv: "lib_inv s rq wq" and stk: "env_mmap env = Some stack" and fresh: "heap s (env_calloc env) = None"
    and a: "tcb_alloc env (s\<lparr>sigmask := True, stacks := (stacks s)(stack \<mapsto> if ssize = 0 then UTH_STACK_DEFAULT else ssize)\<rparr>) = Ok (x, s1)"
  shows "\<exists>s'. uth_create fn arg ssize env s = Ok (Remains (F_create_ret x), s') \<and> lib_inv s' (rq @ [x]) wq \<and>
     heap s x = None \<and> sigmask s' = sigmask s \<and> uth_current s' = uth_current s \<and> uth_sched_ctx s' = uth_sched_ctx s \<and>
     run_bootstrap s' = run_bootstrap s \<and> run_returned s' = run_returned s \<and>
     heap (erase s') = (heap (erase s))(x \<mapsto> new_tcb fn arg stack (if ssize = 0 then UTH_STACK_DEFAULT else ssize) x (next_tid s)) \<and>
     unat (next_tid s') = Suc (unat (next_tid s))"
proof -
  let ?sz = "if ssize = 0 then UTH_STACK_DEFAULT else ssize"
  let ?s = "s\<lparr>sigmask := True, stacks := (stacks s)(stack \<mapsto> ?sz)\<rparr>"
  have inv0: "lib_inv ?s rq wq" using inv by simp
  have "heap ?s (env_calloc env) = None" using fresh by simp
  note A = tcb_alloc_shape [OF inv0 a this]
  let ?f = "init_thread fn arg stack ?sz x"
  let ?t = "new_tcb fn arg stack ?sz x (next_tid s)"
  have nx: "tcb_next (?f t) = tcb_next t" "?f (t\<lparr>tcb_next := NULL\<rparr>) = (?f t)\<lparr>tcb_next := NULL\<rparr>"
    "tcb_tid (?f t) = tcb_tid t" for t
    by (cases t; simp add: init_thread_def)+
  have x1: "heap (upd_tcb x ?f s1) x = Some ?t" by (simp add: heap_upd_tcb A(5) new_tcb_def)
  have sh: "shape (upd_tcb x ?f s1) rq wq" using A(3) nx by simp
  have un: "unqueued x rq wq" using fresh_unqueued [OF lib_invD(1) [OF inv]] A(2) by simp
  from queue_push_shape [OF sh A(1) x1 un] obtain s2 where
    s2: "queue_push RqHead RqTail x (upd_tcb x ?f s1) = Ok s2" "shape s2 (rq @ [x]) wq" "erase s2 = upd_tcb x ?f (erase s1)"
    using nx by auto
  let ?s' = "s2\<lparr>sigmask := sigmask s\<rparr>"
  have "uth_create fn arg ssize env s = Ok (Remains (F_create_ret x), ?s')"
    using a s2(1) A(1,5) stk by (simp add: uth_create_def uth_preempt_off_def uth_preempt_restore_def)
  moreover have h: "heap (erase ?s') = (heap (erase s))(x \<mapsto> ?t)"
    using A(6) by (simp add: s2(3) upd_tcb_def new_tcb_def)
  moreover have f: "uth_current ?s' = uth_current s" "uth_sched_ctx ?s' = uth_sched_ctx s"
      "unat (next_tid ?s') = Suc (unat (next_tid s))"
      "run_bootstrap ?s' = run_bootstrap s" "run_returned ?s' = run_returned s"
    using erase_fields [OF s2(3)] A(7-12) by simp_all
  moreover have "lib_inv ?s' (rq @ [x]) wq"
  proof -
    have "table_ok (erase ?s')" using A(4) nx by (simp add: s2(3))
    then have "sched_inv (erase ?s') (rq @ [x]) wq"
      using f A(2) by (intro effect_create [OF lib_invD(2) [OF inv] _ _ h]) (simp_all add: erase_maps)
    with s2(2) show ?thesis by (simp add: lib_inv_def)
  qed
  ultimately show ?thesis using A(2) by auto
qed

section \<open>Scheduling\<close>

text \<open>\<open>uth_current\<close> is free to change while no thread runs.\<close>

lemma lib_inv_current:
  assumes "no_running s"
  shows "lib_inv (s\<lparr>uth_current := c\<rparr>) rq wq = lib_inv s rq wq"
proof -
  have nr: "no_running (erase s)" using assms by (simp add: no_running_erase)
  have t: "table_ok ((erase s)\<lparr>uth_current := c\<rparr>) = table_ok (erase s)" by (rule table_ok_cong) simp_all
  have "tcb_inv ((erase s)\<lparr>uth_current := c\<rparr>) rq x t = tcb_inv (erase s) rq x t" if "heap (erase s) x = Some t" for x t
    using that nr by (auto simp: no_running_def tcb_inv_def ctx_ok_def zombie_tid_def joiner_ok_def)
  then show ?thesis by (simp add: lib_inv_def sched_inv_def wait_inv_def t)
qed

lemma all_zombies_count:
  assumes "lib_inv s rq wq"
  shows "count_live s = Ok 0 \<longleftrightarrow> (\<forall>x t. heap s x = Some t \<longrightarrow> tcb_state t = UTH_STATE_ZOMBIE)"
  using count_live_zero [OF lib_invD(3) [OF assms]] .

lemma scheduler_break:
  assumes "lib_inv s rq wq" and "\<forall>x t. heap s x = Some t \<longrightarrow> tcb_state t = UTH_STATE_ZOMBIE"
  shows "scheduler_round s = Ok (SchedBreak, s)"
  using all_zombies_count [OF assms(1)] assms(2) by (simp add: scheduler_round_def)

lemma live_count_pos:
  assumes inv: "lib_inv s rq wq" and x: "heap s x = Some t" and st: "tcb_state t \<noteq> UTH_STATE_ZOMBIE"
  shows "\<exists>n. count_live s = Ok n \<and> n \<noteq> 0"
  using all_zombies_count [OF inv] count_live_ok [OF lib_invD(3) [OF inv]] x st by auto

lemma scheduler_idle:
  assumes inv: "lib_inv s [] wq" and "heap s x = Some t" "tcb_state t \<noteq> UTH_STATE_ZOMBIE"
  shows "scheduler_round s = Ok (SchedContinue, s)"
  using live_count_pos [OF assms] queue_pop_empty [OF lib_invD(1) [OF inv]] by (auto simp: scheduler_round_def)

text \<open>The state in which \<open>swapcontext\<close> resumes the thread \<open>x\<close>.\<close>

definition resumed :: "ptr \<Rightarrow> uth_tcb_t \<Rightarrow> sys \<Rightarrow> sys" where
  "resumed x t a = (set_state x UTH_STATE_RUNNING a)\<lparr>uth_current := x,
     uth_sched_ctx := (uth_sched_ctx a)\<lparr>uc_sigmask := sigmask a, uc_frames := [F_sched_swapped]\<rparr>,
     sigmask := uc_sigmask (tcb_ctx t)\<rparr>"

lemma scheduler_run:
  assumes inv: "lib_inv s (x # rq) wq" and none: "no_running s"
  shows "\<exists>t s'. heap s x = Some t \<and> tcb_state t = UTH_STATE_READY \<and>
     scheduler_round s = Ok (SchedRun (uc_frames (tcb_ctx t)), s') \<and> lib_inv s' rq wq \<and>
     (\<exists>t'. runs s' x t') \<and> erase s' = resumed x t (erase s) \<and>
     ctx_ok (erase s') True x (uc_sigmask (tcb_ctx t)) (uc_frames (tcb_ctx t))"
proof -
  obtain t where x: "x \<noteq> NULL" "heap s x = Some t" using shape_rq_heap [OF lib_invD(1) [OF inv], of x] by auto
  let ?t = "t\<lparr>tcb_next := NULL\<rparr>"
  note he = heap_erase [OF x(2)] and I = sched_invD(2) [OF lib_invD(2) [OF inv] heap_erase [OF x(2)]]
  have st: "tcb_state t = UTH_STATE_READY" using tcb_invD(1) [OF I] by simp
  obtain n where n: "count_live s = Ok n" "n \<noteq> 0" using live_count_pos [OF inv x(2)] st by auto
  obtain s1 where s1: "queue_pop RqHead RqTail s = Ok (x, s1)" "shape s1 rq wq" "erase s1 = erase s"
    using queue_pop_shape [OF lib_invD(1) [OF inv]] by blast
  obtain t1 where t1: "heap s1 x = Some t1" "t1\<lparr>tcb_next := NULL\<rparr> = ?t"
    using erase_eqD(1) [OF s1(3), of x] x by auto
  have eq: "tcb_state t1 = tcb_state t" "tcb_ctx t1 = tcb_ctx t"
    using arg_cong [OF t1(2), of tcb_state] arg_cong [OF t1(2), of tcb_ctx] by simp_all
  let ?s = "(set_state x UTH_STATE_RUNNING s1)\<lparr>uth_current := x,
     uth_sched_ctx := (uth_sched_ctx s1)\<lparr>uc_sigmask := sigmask s1, uc_frames := [F_sched_swapped]\<rparr>,
     sigmask := uc_sigmask (tcb_ctx t)\<rparr>"
  have "scheduler_round s = Ok (SchedRun (uc_frames (tcb_ctx t)), ?s)"
    using n s1(1) t1(1) x st eq by (simp add: scheduler_round_def Let_def)
  moreover have e: "erase ?s = resumed x t (erase s)"
    using erase_fields [OF s1(3)] by (simp add: resumed_def s1(3))
  moreover have hr: "heap (erase ?s) = (heap (erase s))(x \<mapsto> ?t\<lparr>tcb_state := UTH_STATE_RUNNING\<rparr>)"
    unfolding e by (simp add: resumed_def upd_tcb_def he)
  moreover have tb: "same_table (erase ?s) (erase s)"
    unfolding e by (simp add: resumed_def same_table_def)
  moreover have "sched_inv (erase ?s) rq wq"
  proof (rule effect_run [OF lib_invD(2) [OF inv] he _ hr tb])
    show "x \<notin> set rq" using chain_distinct [OF shapeD(1) [OF lib_invD(1) [OF inv]]] by simp
    show "tcb_state u \<noteq> UTH_STATE_RUNNING" if "heap (erase s) y = Some u" for y u
      using none that no_running_erase [of s] by (auto simp: no_running_def)
  qed simp
  moreover have "ctx_ok (erase ?s) True x (uc_sigmask (tcb_ctx t)) (uc_frames (tcb_ctx t))"
    using ctx_ok_upd [OF he hr tb _ _ tcb_invD(3) [OF I]] st by simp
  moreover have "runs ?s x (t1\<lparr>tcb_state := UTH_STATE_RUNNING\<rparr>)" by (simp add: runs_def heap_upd_tcb t1(1))
  moreover have "shape ?s rq wq" using s1(2) by simp
  ultimately show ?thesis using x st unfolding lib_inv_def by blast
qed

lemma scheduler_round_cases:
  assumes inv: "lib_inv s rq wq" and none: "no_running s"
  obtains (stop) "scheduler_round s = Ok (SchedBreak, s)" "\<forall>x t. heap s x = Some t \<longrightarrow> tcb_state t = UTH_STATE_ZOMBIE"
    | (spin) "scheduler_round s = Ok (SchedContinue, s)" "rq = []"
    | (pick) x rq' t s' t' where "rq = x # rq'" "heap s x = Some t" "tcb_state t = UTH_STATE_READY"
      "scheduler_round s = Ok (SchedRun (uc_frames (tcb_ctx t)), s')" "lib_inv s' rq' wq" "runs s' x t'"
      "erase s' = resumed x t (erase s)"
      "ctx_ok (erase s') True x (uc_sigmask (tcb_ctx t)) (uc_frames (tcb_ctx t))"
proof (cases rq)
  case Nil
  show ?thesis
  proof (cases "\<forall>x t. heap s x = Some t \<longrightarrow> tcb_state t = UTH_STATE_ZOMBIE")
    case True
    with stop scheduler_break [OF inv] show ?thesis by blast
  next
    case False
    with spin scheduler_idle inv Nil show ?thesis by blast
  qed
next
  case (Cons x rq')
  with scheduler_run [of s x rq' wq] inv none pick show ?thesis by blast
qed

lemma lib_inv_swapped: "no_running s \<Longrightarrow> lib_inv (scheduler_swapped s) rq wq = lib_inv s rq wq"
  by (simp add: scheduler_swapped_def lib_inv_current)

section \<open>Waking threads\<close>

text \<open>
  \<open>kept t t'\<close>: the thread of \<open>t\<close> is the thread of \<open>t'\<close>: it has the same id, function and argument; if it
  was ready or blocked it has at most been made ready, with the same saved context, and if it was a zombie it still is one.
  \<open>settled s s'\<close>: every thread of \<open>s'\<close> is kept from \<open>s\<close> or has a new id, and every ready or blocked
  thread of \<open>s\<close> is kept. \<open>stays s s'\<close>: the code that runs keeps the processor from \<open>s\<close> to \<open>s'\<close>.
\<close>

definition kept :: "uth_tcb_t \<Rightarrow> uth_tcb_t \<Rightarrow> bool" where
  "kept t t' \<longleftrightarrow> tcb_tid t' = tcb_tid t \<and> tcb_fn t' = tcb_fn t \<and> tcb_arg t' = tcb_arg t \<and>
     (tcb_state t = UTH_STATE_ZOMBIE \<longrightarrow> tcb_state t' = UTH_STATE_ZOMBIE \<and> tcb_retval t' = tcb_retval t) \<and>
     (tcb_joiner t \<noteq> NULL \<longrightarrow> tcb_joiner t' \<noteq> NULL \<or> tcb_state t' = UTH_STATE_ZOMBIE) \<and>
     (tcb_state t = UTH_STATE_READY \<or> tcb_state t = UTH_STATE_BLOCKED \<longrightarrow>
        tcb_ctx t' = tcb_ctx t \<and> (tcb_state t' = UTH_STATE_READY \<or> tcb_state t' = tcb_state t))"

definition settled :: "sys \<Rightarrow> sys \<Rightarrow> bool" where
  "settled s s' \<longleftrightarrow> next_tid s \<le> next_tid s' \<and>
     (\<forall>x t'. heap s' x = Some t' \<longrightarrow> next_tid s \<le> tcb_tid t' \<or> (\<exists>t. heap s x = Some t \<and> kept t t')) \<and>
     (\<forall>x t. heap s x = Some t \<longrightarrow> tcb_state t = UTH_STATE_READY \<or> tcb_state t = UTH_STATE_BLOCKED \<longrightarrow>
        (\<exists>t'. heap s' x = Some t' \<and> kept t t'))"

lemma kept_refl [simp]: "kept t t"
  by (simp add: kept_def)

lemma kept_trans: "kept t t1 \<Longrightarrow> kept t1 t2 \<Longrightarrow> kept t t2"
  unfolding kept_def by (elim conjE) (intro conjI impI; auto)

lemma kept_next [simp]: "kept (t\<lparr>tcb_next := a\<rparr>) t' = kept t t'" "kept t (t'\<lparr>tcb_next := b\<rparr>) = kept t t'"
  by (simp_all add: kept_def)

lemma settledD:
  assumes "settled s s'"
  shows "next_tid s \<le> next_tid s'"
    "heap s' x = Some t' \<Longrightarrow> next_tid s \<le> tcb_tid t' \<or> (\<exists>t. heap s x = Some t \<and> kept t t')"
    "\<lbrakk>heap s x = Some t; tcb_state t = UTH_STATE_READY \<or> tcb_state t = UTH_STATE_BLOCKED\<rbrakk> \<Longrightarrow> \<exists>t'. heap s' x = Some t' \<and> kept t t'"
  using assms unfolding settled_def by blast+

lemma settledE:
  assumes "settled s s'" and "heap s x = Some t" and "tcb_state t = UTH_STATE_READY \<or> tcb_state t = UTH_STATE_BLOCKED"
  obtains t' where "heap s' x = Some t'" "tcb_tid t' = tcb_tid t" "tcb_ctx t' = tcb_ctx t"
    "tcb_state t' = UTH_STATE_READY \<or> tcb_state t' = tcb_state t" "tcb_fn t' = tcb_fn t" "tcb_arg t' = tcb_arg t"
proof -
  from settledD(3) [OF assms] obtain t' where "heap s' x = Some t'" "kept t t'" by blast
  with assms(3) that show ?thesis by (simp add: kept_def)
qed

lemma settled_heap: "\<lbrakk>heap s' = heap s; next_tid s' = next_tid s\<rbrakk> \<Longrightarrow> settled s s'"
  by (auto simp: settled_def)

lemma settled_trans:
  assumes "settled s s1" and "settled s1 s2"
  shows "settled s s2"
  unfolding settled_def
proof (intro conjI allI impI)
  note n = settledD(1) [OF assms(1)] settledD(1) [OF assms(2)]
  then show "next_tid s \<le> next_tid s2" by (rule order_trans)
  fix x
  show "next_tid s \<le> tcb_tid t2 \<or> (\<exists>t. heap s x = Some t \<and> kept t t2)" if t2: "heap s2 x = Some t2" for t2
  proof (cases "next_tid s1 \<le> tcb_tid t2")
    case True
    with n(1) show ?thesis by (auto intro: order_trans)
  next
    case False
    then obtain t1 where t1: "heap s1 x = Some t1" "kept t1 t2" using settledD(2) [OF assms(2) t2] by blast
    then have "tcb_tid t2 = tcb_tid t1" by (simp add: kept_def)
    with settledD(2) [OF assms(1) t1(1)] kept_trans [OF _ t1(2)] show ?thesis by auto
  qed
  show "\<exists>t'. heap s2 x = Some t' \<and> kept t t'"
    if t: "heap s x = Some t" "tcb_state t = UTH_STATE_READY \<or> tcb_state t = UTH_STATE_BLOCKED" for t
  proof -
    obtain t1 where t1: "heap s1 x = Some t1" "kept t t1" using settledD(3) [OF assms(1) t] by blast
    then have "tcb_state t1 = UTH_STATE_READY \<or> tcb_state t1 = UTH_STATE_BLOCKED" using t(2) by (auto simp: kept_def)
    with settledD(3) [OF assms(2) t1(1)] kept_trans [OF t1(2)] show ?thesis by blast
  qed
qed

lemma heap_erase_iff: "heap (erase s) x = Some u \<longleftrightarrow> (\<exists>t. heap s x = Some t \<and> u = t\<lparr>tcb_next := NULL\<rparr>)"
  by (auto simp: erase_maps)

lemma settled_erase: "settled (erase s) (erase s') = settled s s'"
proof -
  have "(\<exists>t. heap (erase s) x = Some t \<and> P t) \<longleftrightarrow> (\<exists>t. heap s x = Some t \<and> P (t\<lparr>tcb_next := NULL\<rparr>))" for s x P
    by (auto simp: heap_erase_iff)
  moreover have "(\<forall>t. heap (erase s) x = Some t \<longrightarrow> P t) \<longleftrightarrow> (\<forall>t. heap s x = Some t \<longrightarrow> P (t\<lparr>tcb_next := NULL\<rparr>))" for s x P
    by (auto simp: heap_erase_iff)
  ultimately show ?thesis unfolding settled_def by simp
qed

lemma settled_sigmask [simp]:
  "settled s (s'\<lparr>sigmask := b\<rparr>) = settled s s'" "settled (s\<lparr>sigmask := b\<rparr>) s' = settled s s'"
  by (simp_all add: settled_def)

lemma settled_upd:
  assumes "\<And>t. heap a x = Some t \<Longrightarrow> kept t (f t)"
  shows "settled a (upd_tcb x f a)"
  using assms by (auto simp: settled_def heap_upd_tcb)

lemma settled_switched:
  assumes "heap a x = Some t" and "tcb_state t = UTH_STATE_RUNNING"
  shows "settled a (switched st x k a)"
proof -
  have "settled a (upd_tcb x (\<lambda>t. t\<lparr>tcb_state := st, tcb_ctx := save_context x k (sigmask a) (tcb_ctx t)\<rparr>) a)"
    using assms by (intro settled_upd) (simp add: kept_def)
  then show ?thesis by (simp add: settled_def switched_def)
qed

definition running :: "sys \<Rightarrow> ptr \<Rightarrow> bool" where
  "running s x \<longleftrightarrow> uth_current s = x \<and> map_option tcb_state (heap s x) = Some UTH_STATE_RUNNING"

definition stays :: "sys \<Rightarrow> sys \<Rightarrow> bool" where
  "stays s s' \<longleftrightarrow> uth_current s' = uth_current s \<and> uth_sched_ctx s' = uth_sched_ctx s \<and>
     run_bootstrap s' = run_bootstrap s \<and> run_returned s' = run_returned s \<and>
     (no_running s \<longrightarrow> no_running s') \<and> (\<forall>x. running s x \<longrightarrow> running s' x) \<and> settled s s'"

lemma running_runs: "running s x \<longleftrightarrow> (\<exists>t. runs s x t)"
  by (auto simp: running_def runs_def)

lemma running_erase: "running (erase s) x = running s x"
  by (simp add: running_def erase_maps option.map_comp o_def)

lemma stays_erase: "stays (erase s) (erase s') = stays s s'"
  by (simp add: stays_def running_erase no_running_erase settled_erase)

lemma stays_trans: "stays s s1 \<Longrightarrow> stays s1 s2 \<Longrightarrow> stays s s2"
  using settled_trans by (auto simp: stays_def)

lemma stays_heap:
  "\<lbrakk>heap s' = heap s; uth_current s' = uth_current s; uth_sched_ctx s' = uth_sched_ctx s;
    run_bootstrap s' = run_bootstrap s; run_returned s' = run_returned s; next_tid s' = next_tid s\<rbrakk> \<Longrightarrow> stays s s'"
  by (simp add: stays_def running_def no_running_def settled_heap)

lemma stays_wake:
  assumes "heap a w = Some t" and "tcb_state t = UTH_STATE_BLOCKED"
  shows "stays a (set_state w UTH_STATE_READY a)"
proof -
  have "settled a (set_state w UTH_STATE_READY a)" by (rule settled_upd) (use assms in \<open>simp add: kept_def\<close>)
  with assms show ?thesis by (auto simp: stays_def running_def no_running_def heap_upd_tcb)
qed

lemma wait_distinct: "shape s rq wq \<Longrightarrow> distinct (wq q)"
  using chain_distinct shapeD(3) [of s rq wq q] by (auto simp: wchain_def split: if_splits)

lemma lib_wake_at:
  assumes inv: "lib_inv s rq wq" and q: "wq q = xs @ x # ys"
    and s': "shape s' (rq @ [x]) (wq(q := xs @ ys))" "erase s' = set_state x UTH_STATE_READY (erase s)"
  shows "lib_inv s' (rq @ [x]) (wq(q := xs @ ys))" "stays s s'"
proof -
  note sh = lib_invD(1) [OF inv] and si = lib_invD(2) [OF inv]
  have "distinct (wq q)" by (rule wait_distinct [OF sh])
  moreover have "x \<notin> set (wq q')" if "q' \<noteq> q" for q' using shapeD(5) [OF sh, of x q' q] q that by auto
  ultimately show "lib_inv s' (rq @ [x]) (wq(q := xs @ ys))"
    using effect_wake [OF si q] s' by (simp add: lib_inv_def)
  obtain t where t: "heap (erase s) x = Some t" "waiting_ok t q"
    using wait_invE [OF sched_invD(3) [OF si], of x q] q by auto
  have "stays (erase s) (erase s')" unfolding s'(2) by (rule stays_wake [OF t(1)]) (use t(2) in \<open>simp add: waiting_ok_def\<close>)
  then show "stays s s'" by (simp add: stays_erase)
qed

lemma lib_wake_one:
  assumes inv: "lib_inv s rq wq" and q: "wq q = x # xs"
  shows "\<exists>s'. uth_wake_one q s = Ok (x, s') \<and> lib_inv s' (rq @ [x]) (wq(q := xs)) \<and> stays s s' \<and>
     erase s' = set_state x UTH_STATE_READY (erase s)"
  using uth_wake_one_shape [OF lib_invD(1) [OF inv] q] lib_wake_at [OF inv, of q "[]" x xs] q by fastforce

lemma lib_wake_none:
  "\<lbrakk>lib_inv s rq wq; is_wait q; mapped q s; wq q = []\<rbrakk> \<Longrightarrow> uth_wake_one q s = Ok (NULL, s)"
  using uth_wake_one_empty lib_invD(1) by blast

text \<open>Waking at most one thread, in the form the callers need.\<close>

lemma lib_wake_step:
  assumes inv: "lib_inv s rq wq" and q: "is_wait q" "mapped q s"
  shows "\<exists>w s'. uth_wake_one q s = Ok (w, s') \<and> lib_inv s' (rq @ take 1 (wq q)) (wq(q := tl (wq q))) \<and> stays s s' \<and>
     erase s' = (if wq q = [] then erase s else set_state (hd (wq q)) UTH_STATE_READY (erase s))"
proof (cases "wq q")
  case Nil
  then have "wq(q := tl (wq q)) = wq" by auto
  with Nil lib_wake_none [OF inv q Nil] inv show ?thesis by (simp add: stays_def settled_heap)
next
  case (Cons x xs)
  with lib_wake_one [OF inv Cons] show ?thesis by auto
qed

lemma wake_fold_inv:
  assumes "sched_inv a rq wq" and "wq q = xs" and "distinct xs" and "\<And>q' x. q' \<noteq> q \<Longrightarrow> x \<in> set xs \<Longrightarrow> x \<notin> set (wq q')"
  shows "sched_inv (fold (\<lambda>x. set_state x UTH_STATE_READY) xs a) (rq @ xs) (wq(q := [])) \<and>
     stays a (fold (\<lambda>x. set_state x UTH_STATE_READY) xs a)"
  using assms
proof (induction xs arbitrary: a rq wq)
  case Nil
  then have "wq(q := []) = wq" by auto
  with Nil show ?case by (simp add: stays_def settled_heap)
next
  case (Cons x xs)
  let ?a = "set_state x UTH_STATE_READY a"
  have inv: "sched_inv ?a (rq @ [x]) (wq(q := xs))"
    using effect_wake [OF Cons.prems(1), of q "[]" x xs] Cons.prems by simp
  obtain t where "heap a x = Some t" "waiting_ok t q"
    using wait_invE [OF sched_invD(3) [OF Cons.prems(1)], of x q] Cons.prems(2) by auto
  then have st: "stays a ?a" using stays_wake by (simp add: waiting_ok_def)
  have "sched_inv (fold (\<lambda>x. set_state x UTH_STATE_READY) xs ?a) ((rq @ [x]) @ xs) ((wq(q := xs))(q := [])) \<and>
     stays ?a (fold (\<lambda>x. set_state x UTH_STATE_READY) xs ?a)"
    using Cons.prems by (intro Cons.IH [OF inv]) auto
  then show ?case using stays_trans [OF st] by (simp del: fun_upd_apply)
qed

lemma lib_wake_all:
  assumes inv: "lib_inv s rq wq" and q: "is_wait q" "mapped q s"
  shows "\<exists>s'. uth_wake_all q s = Ok s' \<and> lib_inv s' (rq @ wq q) (wq(q := [])) \<and> stays s s' \<and>
     erase s' = fold (\<lambda>x. set_state x UTH_STATE_READY) (wq q) (erase s)"
proof -
  note sh = lib_invD(1) [OF inv]
  obtain s' where s': "uth_wake_all q s = Ok s'" "shape s' (rq @ wq q) (wq(q := []))"
      "erase s' = fold (\<lambda>x. set_state x UTH_STATE_READY) (wq q) (erase s)"
    using uth_wake_all_shape [OF sh q] by blast
  have "sched_inv (erase s') (rq @ wq q) (wq(q := [])) \<and> stays (erase s) (erase s')"
    unfolding s'(3) using wake_fold_inv [OF lib_invD(2) [OF inv] refl wait_distinct [OF sh], of q] shapeD(5) [OF sh] by blast
  then have "lib_inv s' (rq @ wq q) (wq(q := [])) \<and> stays s s'" using s'(2) by (simp add: lib_inv_def stays_erase)
  with s' show ?thesis by blast
qed

end
