(* ===== verification/Uth_Wait.thy ===== *)
theory Uth_Wait
  imports Uth_Thread
begin

text \<open>
  The interface between the scheduler and the synchronisation primitives: what every library call
  guarantees when it returns or switches away, and the contract of a waiting loop, of which the
  mutex, the ticket lock and the semaphore are instances.
\<close>

section \<open>The result of a library call\<close>

text \<open>
  \<open>lib_post s b c s'\<close>: the call that started in \<open>s\<close> ended with the control transfer \<open>c\<close> in \<open>s'\<close>.
  When it returns, the same code still runs and the signal mask is \<open>b\<close>, the mask of the caller;
  when it switches, no thread is running and the mask is that of the scheduler. In both cases threads were only added at the tail of the run queue.
\<close>

definition rq_grows :: "sys \<Rightarrow> sys \<Rightarrow> bool" where
  "rq_grows s s' \<longleftrightarrow> (\<forall>rq wq. lib_inv s rq wq \<longrightarrow> (\<exists>rq' wq'. lib_inv s' rq' wq' \<and> prefix rq rq'))"

lemma rq_growsI:
  assumes "lib_inv s rq wq" and "lib_inv s' rq' wq'" and "prefix rq rq'"
  shows "rq_grows s s'"
  unfolding rq_grows_def using assms shape_unique(1) [OF lib_invD(1) [OF assms(1)] lib_invD(1)] by blast

lemma rq_grows_trans: "\<lbrakk>rq_grows s s1; rq_grows s1 s'\<rbrakk> \<Longrightarrow> rq_grows s s'"
  unfolding rq_grows_def by (meson prefix_order.trans)

lemma rq_grows_simps [simp]:
  "rq_grows s s" "rq_grows (s\<lparr>sigmask := b\<rparr>) s' = rq_grows s s'" "rq_grows s (s'\<lparr>sigmask := b\<rparr>) = rq_grows s s'"
  by (auto simp: rq_grows_def)

definition lib_post :: "sys \<Rightarrow> sigset \<Rightarrow> ctl \<Rightarrow> sys \<Rightarrow> bool" where
  "lib_post s b c s' \<longleftrightarrow> lib_ok s' \<and> rq_grows s s' \<and> uth_sched_ctx s' = uth_sched_ctx s \<and>
     run_bootstrap s' = run_bootstrap s \<and> run_returned s' = run_returned s \<and> settled s s' \<and>
     (case c of
        Return r \<Rightarrow> stays s s' \<and> sigmask s' = b
      | Switched \<Rightarrow> uth_current s \<noteq> NULL \<and> no_running s' \<and> sigmask s' = uc_sigmask (uth_sched_ctx s)
      | CallUser fn arg \<Rightarrow> stays s s'
      | Remains f \<Rightarrow> stays s s' \<and> sigmask s' = b \<and> open_frame f)"

lemma lib_post_return:
  "\<lbrakk>lib_inv s rq wq; lib_inv s' rq' wq'; stays s s'; sigmask s' = b; prefix rq rq'\<rbrakk> \<Longrightarrow> lib_post s b (Return r) s'"
  using lib_okI rq_growsI by (auto simp: lib_post_def stays_def)

lemma lib_post_same: "\<lbrakk>lib_inv s rq wq; b = sigmask s\<rbrakk> \<Longrightarrow> lib_post s b (Return r) s"
  using lib_post_return [of s rq wq s rq wq] by (simp add: stays_def settled_heap)

lemma switched_fields:
  assumes "erase s' = switched st x k a"
  shows "sigmask s' = uc_sigmask (uth_sched_ctx a)" "uth_sched_ctx s' = uth_sched_ctx a"
    "uth_current s' = uth_current a" "run_bootstrap s' = run_bootstrap a" "run_returned s' = run_returned a"
  using erase_fields [OF assms] by (simp_all add: switched_def)

lemma switched_tcb:
  assumes e: "erase s' = switched st x k a" and x: "heap a x = Some t"
  obtains t' where "heap s' x = Some t'" "tcb_state t' = st" "uc_frames (tcb_ctx t') = k"
    "uc_sigmask (tcb_ctx t') = sigmask a" "tcb_tid t' = tcb_tid t" "tcb_retval t' = tcb_retval t" "tcb_joiner t' = tcb_joiner t"
    "tcb_ticket t' = tcb_ticket t"
proof -
  have "heap (erase s') x = Some (t\<lparr>tcb_state := st, tcb_ctx := save_context x k (sigmask a) (tcb_ctx t)\<rparr>)"
    by (simp add: e heap_switched [OF x])
  then obtain t' where t': "heap s' x = Some t'"
      "t'\<lparr>tcb_next := NULL\<rparr> = t\<lparr>tcb_state := st, tcb_ctx := save_context x k (sigmask a) (tcb_ctx t)\<rparr>"
    by (auto simp: erase_maps)
  note eq = arg_cong [OF t'(2), of tcb_state] arg_cong [OF t'(2), of tcb_ctx] arg_cong [OF t'(2), of tcb_tid]
    arg_cong [OF t'(2), of tcb_retval] arg_cong [OF t'(2), of tcb_joiner] arg_cong [OF t'(2), of tcb_ticket]
  show ?thesis by (rule that [OF t'(1)]) (use eq in simp_all)
qed

text \<open>\<open>parked k s s'\<close>: the thread that ran in \<open>s\<close> is suspended in \<open>s'\<close> with the frames \<open>k\<close>.\<close>

definition parked :: "frame list \<Rightarrow> sys \<Rightarrow> sys \<Rightarrow> bool" where
  "parked k s s' \<longleftrightarrow> (\<exists>t. heap s' (uth_current s) = Some t \<and> tcb_state t \<noteq> UTH_STATE_ZOMBIE \<and> uc_frames (tcb_ctx t) = k)"

lemma parked_sigmask [simp]: "parked k (s\<lparr>sigmask := b\<rparr>) s' = parked k s s'"
  by (simp add: parked_def)

lemma parked_switched:
  assumes e: "erase s' = switched st x k a" and x: "heap a x \<noteq> None" and st: "st \<noteq> UTH_STATE_ZOMBIE" "x = uth_current s"
  shows "parked k s s'"
proof -
  from x obtain t where "heap a x = Some t" by blast
  then show ?thesis by (rule switched_tcb [OF e]) (use st in \<open>auto simp: parked_def\<close>)
qed

lemma settled_switch:
  assumes e: "erase s' = switched st x k a" and x: "heap a x = Some t" "tcb_state t = UTH_STATE_RUNNING" and s: "settled (erase s) a"
  shows "settled s s'"
  using settled_trans [OF s settled_switched [OF x, of st k]] settled_erase [of s s'] by (simp add: e)

lemma runs_mask:
  assumes "runs s x t"
  shows "heap ((erase s)\<lparr>sigmask := b\<rparr>) x = Some (t\<lparr>tcb_next := NULL\<rparr>)" "settled (erase s) ((erase s)\<lparr>sigmask := b\<rparr>)"
  using runs_erase(1) [OF assms] by (simp_all add: settled_heap)

lemma lib_post_switched:
  "\<lbrakk>lib_inv s rq wq; lib_inv s' rq' wq'; no_running s'; erase s' = switched st x k a; uth_sched_ctx a = uth_sched_ctx s;
    run_bootstrap a = run_bootstrap s; run_returned a = run_returned s; settled s s'; uth_current s \<noteq> NULL; prefix rq rq'\<rbrakk> \<Longrightarrow> lib_post s b Switched s'"
  using switched_fields [of s' st x k a] lib_okI rq_growsI by (auto simp: lib_post_def)

text \<open>A call may start with a step that keeps the processor.\<close>

lemma lib_post_stays: "\<lbrakk>lib_post s1 b c s'; stays s s1; rq_grows s s1\<rbrakk> \<Longrightarrow> lib_post s b c s'"
  using settled_trans rq_grows_trans unfolding lib_post_def by (cases c) (auto simp: stays_def)

text \<open>Who can call the library: the current thread, or code outside of every thread.\<close>

definition caller :: "sys \<Rightarrow> bool" where
  "caller s \<longleftrightarrow> (if uth_current s = NULL then no_running s else running s (uth_current s))"

lemma caller_stays: "caller s \<Longrightarrow> stays s s' \<Longrightarrow> caller s'"
  by (auto simp: caller_def stays_def split: if_splits)

lemma caller_runs: "\<lbrakk>caller s; uth_current s \<noteq> NULL\<rbrakk> \<Longrightarrow> \<exists>t. runs s (uth_current s) t"
  by (simp add: caller_def running_runs)

lemma stays_sigmask [simp]: "stays s (s\<lparr>sigmask := b\<rparr>)" "stays s s'  \<Longrightarrow> stays s (s'\<lparr>sigmask := b\<rparr>)"
  by (auto simp: stays_def running_def no_running_def settled_def)

lemma stays_refl [simp]: "stays s s"
  by (simp add: stays_def settled_heap)

text \<open>\<open>uth_self\<close> does not fail for a caller.\<close>

definition self_tid :: "sys \<Rightarrow> u32" where
  "self_tid s = (if uth_current s = NULL then UTH_TID_INVALID
     else case heap s (uth_current s) of None \<Rightarrow> UTH_TID_INVALID | Some t \<Rightarrow> tcb_tid t)"

lemma uth_self_ok: "caller s \<Longrightarrow> uth_self s = Ok (self_tid s)"
  by (auto simp: uth_self_def self_tid_def caller_def running_def)

lemma self_tid_global [simp]:
  "self_tid (s\<lparr>sigmask := b\<rparr>) = self_tid s" "self_tid (set_mutex m x s) = self_tid s"
  by (simp_all add: self_tid_def)

lemma caller_global [simp]:
  "caller (s\<lparr>sigmask := b\<rparr>) = caller s" "caller (set_mutex m x s) = caller s"
  "caller (set_ticket m y s) = caller s" "caller (set_sem m z s) = caller s"
  by (simp_all add: caller_def running_def no_running_def)

lemma uth_block_outside: "uth_current s = NULL \<Longrightarrow> uth_block q k s = Fault NullDeref"
  by (simp add: uth_block_def modify_tcb_def get_tcb_def)

section \<open>The thread calls\<close>

lemma yield_post:
  assumes inv: "lib_inv s rq wq" and c: "caller s" and k: "caller_ok (sigmask s) k" and res: "uth_yield k s = Ok (c, s')"
  shows "lib_post s (sigmask s) c s'"
proof (cases "uth_current s = NULL")
  case True
  with res inv show ?thesis by (auto simp: uth_yield_outside intro: lib_post_same)
next
  case False
  from caller_runs [OF c False] obtain t where r: "runs s (uth_current s) t" by blast
  from uth_yield_ok [OF inv r k] res False show ?thesis
    by (auto intro!: lib_post_switched [OF inv] settled_switch [OF _ runs_mask(1) [OF r] _ runs_mask(2) [OF r]] runs_erase(2) [OF r])
qed

lemma uth_exit_outside: "uth_current s = NULL \<Longrightarrow> uth_exit v k s = Fault NullDeref"
  by (simp add: uth_exit_def uth_preempt_off_def modify_tcb_def get_tcb_def)

lemma exited_settled:
  assumes x: "heap a x = Some t" "tcb_state t = UTH_STATE_RUNNING"
    and j: "j \<noteq> NULL \<Longrightarrow> \<exists>u. heap a j = Some u \<and> tcb_state u = UTH_STATE_BLOCKED"
  shows "settled a (exited v x j k a)"
proof -
  let ?b = "if j = NULL then a else set_state j UTH_STATE_READY a"
  let ?c = "upd_tcb x (\<lambda>t. t\<lparr>tcb_retval := v, tcb_joiner := NULL\<rparr>) ?b"
  have b: "heap ?b x = Some t" using x j by (auto simp: heap_upd_tcb)
  have "settled a ?b" using j by (auto simp: settled_heap kept_def intro: settled_upd)
  moreover have "settled ?b (upd_tcb x (\<lambda>t. t\<lparr>tcb_retval := v, tcb_joiner := NULL, tcb_state := UTH_STATE_ZOMBIE,
      tcb_ctx := save_context x k (sigmask ?b) (tcb_ctx t)\<rparr>) ?b)"
    using b x by (intro settled_upd) (simp add: kept_def)
  then have "settled ?b (switched UTH_STATE_ZOMBIE x k ?c)" by (simp add: switched_def upd_tcb_upd_tcb)
  ultimately show ?thesis unfolding exited_def using settled_trans by blast
qed

lemma exit_post:
  assumes inv: "lib_inv s rq wq" and c: "caller s" and res: "uth_exit v k s = Ok (c, s')"
  shows "lib_post s b c s' \<and> c = Switched"
proof -
  have nz: "uth_current s \<noteq> NULL" using uth_exit_outside res by fastforce
  from caller_runs [OF c nz] obtain t where r: "runs s (uth_current s) t" by blast
  from uth_exit_ok [OF inv r refl, of v k] obtain s1 where s1: "uth_exit v k s = Ok (Switched, s1)"
      "lib_inv s1 (if tcb_joiner t = NULL then rq else rq @ [tcb_joiner t]) wq" "no_running s1"
      "erase s1 = exited v (uth_current s) (tcb_joiner t) (F_exit # k) ((erase s)\<lparr>sigmask := True\<rparr>)" by blast
  have "\<exists>u. heap ((erase s)\<lparr>sigmask := True\<rparr>) (tcb_joiner t) = Some u \<and> tcb_state u = UTH_STATE_BLOCKED" if "tcb_joiner t \<noteq> NULL"
    using joinerE [OF lib_invD(2) [OF inv] runs_erase(1) [OF r]] that by auto
  then have "settled (erase s) (erase s1)"
    unfolding s1(4) by (intro settled_trans [OF runs_mask(2) [OF r, of True]] exited_settled [OF runs_mask(1) [OF r] runs_erase(2) [OF r]])
  then have "settled s s1" by (simp add: settled_erase)
  then have "lib_post s b Switched s1"
    by (intro lib_post_switched [OF inv s1(2,3) s1(4) [unfolded exited_def]]) (use nz in simp_all)
  with s1(1) res show ?thesis by simp
qed

lemma remove_stays:
  assumes "heap s y = Some u" and "tcb_state u = UTH_STATE_ZOMBIE"
  shows "stays s (remove_tcb y u s)"
  using assms by (auto simp: stays_def remove_tcb_def no_running_def running_def settled_def)

lemma join_post:
  assumes inv: "lib_inv s rq wq" and c: "caller s" and res: "uth_join tid want [] s = Ok (c, s')"
  shows "lib_post s (sigmask s) c s'"
proof (cases rule: tcb_find_cases [OF lib_invD(3) [OF inv], of tid])
  case 2
  with uth_join_miss [OF lib_invD(3) [OF inv] 2(2)] res inv show ?thesis by (auto intro: lib_post_same)
next
  case (1 y u)
  show ?thesis
  proof (cases "tcb_state u = UTH_STATE_ZOMBIE")
    case True
    have "lib_post s (sigmask s) (Return r) (remove_tcb y u s)" for r
      using lib_inv_remove [OF inv 1(3) True] remove_stays [OF 1(3) True]
      by (rule lib_post_return [OF inv]) (simp_all add: remove_tcb_def)
    with uth_join_zombie [OF lib_invD(3) [OF inv] 1(3,4) True, of want "[]"] res show ?thesis by auto
  next
    case False
    have nz: "uth_current s \<noteq> NULL" using uth_join_outside [OF lib_invD(3) [OF inv] _ 1(3,4) False] res by fastforce
    from caller_runs [OF c nz] obtain t where r: "runs s (uth_current s) t" by blast
    from uth_join_block [OF inv r 1(3,4) False, of want] res obtain k where s': "c = Switched" "lib_inv s' rq wq" "no_running s'"
        "erase s' = switched UTH_STATE_BLOCKED (uth_current s) k (upd_tcb y (\<lambda>t. t\<lparr>tcb_joiner := uth_current s\<rparr>) ((erase s)\<lparr>sigmask := True\<rparr>))"
      by auto
    have "settled ((erase s)\<lparr>sigmask := True\<rparr>) (upd_tcb y (\<lambda>t. t\<lparr>tcb_joiner := uth_current s\<rparr>) ((erase s)\<lparr>sigmask := True\<rparr>))"
      by (rule settled_upd) (simp add: kept_def nz)
    note st = settled_trans [OF runs_mask(2) [OF r] this]
    have "settled s s'"
      by (rule settled_switch [OF s'(4) _ _ st, of "if uth_current s = y then t\<lparr>tcb_next := NULL, tcb_joiner := uth_current s\<rparr> else t\<lparr>tcb_next := NULL\<rparr>"])
        (use runs_mask(1) [OF r] runs_erase(2) [OF r] in \<open>auto simp: heap_upd_tcb\<close>)
    with s' nz show ?thesis by (auto intro!: lib_post_switched [OF inv])
  qed
qed

lemma zombie_tid_erase: "zombie_tid (erase s) tid = zombie_tid s tid"
proof -
  have "(\<exists>u. heap (erase s) y = Some u \<and> tcb_tid u = tid \<and> tcb_state u \<noteq> UTH_STATE_ZOMBIE) \<longleftrightarrow>
      (\<exists>u. heap s y = Some u \<and> tcb_tid u = tid \<and> tcb_state u \<noteq> UTH_STATE_ZOMBIE)" for y
    by (cases "heap s y") (simp_all add: erase_maps)
  then show ?thesis unfolding zombie_tid_def by blast
qed

lemma join_resumed_post:
  assumes inv: "lib_inv s rq wq" and z: "zombie_tid s tid" and res: "uth_join_resumed tid want old s = Ok (c, s')"
  shows "lib_post s old c s'"
proof (cases rule: uth_join_resumed_cases [OF lib_invD(3) [OF inv] z, of want old])
  case 1
  with res inv show ?thesis by (auto intro: lib_post_return [OF inv])
next
  case (2 y u)
  have "lib_post s old (Return r) ((remove_tcb y u s)\<lparr>sigmask := old\<rparr>)" for r
    using lib_inv_remove [OF inv 2(1,3)] remove_stays [OF 2(1,3)] by (intro lib_post_return [OF inv, of _ rq wq]) simp_all
  with 2 res show ?thesis by simp
qed

lemma create_effect:
  assumes inv: "lib_inv s rq wq" and fresh: "heap s (env_calloc env) = None"
    and res: "uth_create fn arg ssize env s = Ok (c, s')"
  obtains (fails) "env_mmap env = None" "c = Return (RetTid UTH_TID_INVALID)" "s' = s"
    | (adds) x stk sz where "c = Remains (F_create_ret x)" "lib_inv s' (rq @ [x]) wq" "heap s x = None" "sigmask s' = sigmask s"
      "uth_current s' = uth_current s" "uth_sched_ctx s' = uth_sched_ctx s" "run_bootstrap s' = run_bootstrap s" "run_returned s' = run_returned s"
      "heap (erase s') = (heap (erase s))(x \<mapsto> new_tcb fn arg stk sz x (next_tid s))" "unat (next_tid s') = Suc (unat (next_tid s))"
proof (cases "env_mmap env")
  case None
  with res fails show ?thesis by (auto simp: uth_create_def uth_preempt_off_def uth_preempt_restore_def)
next
  case (Some stack)
  let ?s = "s\<lparr>sigmask := True, stacks := (stacks s)(stack \<mapsto> if ssize = 0 then UTH_STACK_DEFAULT else ssize)\<rparr>"
  obtain x s1 where a: "tcb_alloc env ?s = Ok (x, s1)"
    using res Some by (auto simp: uth_create_def uth_preempt_off_def ok_iff Let_def)
  from uth_create_ok [OF inv Some fresh a, of fn arg] res adds show ?thesis by auto
qed

lemma create_post:
  assumes inv: "lib_inv s rq wq" and fresh: "heap s (env_calloc env) = None"
    and res: "uth_create fn arg ssize env s = Ok (c, s')"
  shows "lib_post s (sigmask s) c s'"
proof (cases rule: create_effect [OF assms])
  case 1
  with inv show ?thesis by (auto intro: lib_post_return [OF inv])
next
  case (2 x stk sz)
  have n: "next_tid s \<le> next_tid s'" using 2(10) by (simp add: word_le_nat_alt)
  have "stays (erase s) (erase s')"
    unfolding stays_def settled_def using 2 n by (auto simp: running_def no_running_def erase_maps)
  then have st: "stays s s'" by (simp add: stays_erase)
  then have "settled s s'" by (simp add: stays_def)
  with st 2 lib_okI [OF 2(2)] rq_growsI [OF inv 2(2)] show ?thesis by (auto simp: lib_post_def)
qed

section \<open>Waiting loops\<close>

text \<open>
  The contract of the loops of \<open>uth_mutex_lock\<close>, \<open>uth_ticket_lock\<close> and \<open>uth_sem_wait\<close>: when the
  resource is available it is taken and the mask \<open>old\<close> of the caller is restored; otherwise the
  thread prepares itself and blocks on \<open>q\<close>, with a frame that continues with the same loop.
\<close>

locale blocking_wait =
  fixes loop :: "sigset \<Rightarrow> frame list \<Rightarrow> sys \<Rightarrow> (ctl \<times> sys) res"
    and valid :: "sys \<Rightarrow> bool"
    and avail :: "sys \<Rightarrow> bool"
    and acquire :: "sys \<Rightarrow> sys"
    and prepare :: "sys \<Rightarrow> sys"
    and q :: tcb_pp
    and fr :: "sigset \<Rightarrow> frame"
  assumes frame_waits: "waits_on (fr old) = Some q"
    and frame_stack: "stack_ok b (fr old # k) = (b \<and> caller_ok old k)"
    and loop_invalid: "\<not> valid s \<Longrightarrow> loop old k s = Fault BadObject"
    and loop_avail: "\<lbrakk>caller s; valid s; avail s\<rbrakk> \<Longrightarrow> loop old k s = Ok (Return RetVoid, (acquire s)\<lparr>sigmask := old\<rparr>)"
    and acquire_inv: "\<lbrakk>lib_inv s rq wq; valid s; avail s\<rbrakk> \<Longrightarrow> lib_inv (acquire s) rq wq \<and> stays s (acquire s)"
    and loop_outside: "\<lbrakk>uth_current s = NULL; valid s; \<not> avail s\<rbrakk> \<Longrightarrow> loop old k s = Fault NullDeref"
    and loop_block: "\<lbrakk>lib_inv s rq wq; runs s x t; valid s; \<not> avail s\<rbrakk> \<Longrightarrow> loop old k s = uth_block q (fr old # k) (prepare s)"
    and prepare_inv: "\<lbrakk>lib_inv s rq wq; runs s x t; valid s; \<not> avail s\<rbrakk> \<Longrightarrow> lib_inv (prepare s) rq wq \<and> stays s (prepare s) \<and>
      sigmask (prepare s) = sigmask s \<and> mapped q (prepare s)"
begin

lemma waits:
  assumes inv: "lib_inv s rq wq" and r: "runs s x t" and v: "valid s" "\<not> avail s"
    and m: "sigmask s" and k: "caller_ok old k"
  shows "\<exists>s'. loop old k s = Ok (Switched, s') \<and> lib_inv s' rq (wq(q := wq q @ [x])) \<and> no_running s' \<and>
     erase s' = switched UTH_STATE_BLOCKED x (fr old # k) (erase (prepare s))"
proof -
  note P = prepare_inv [OF inv r v]
  have "running (prepare s) x" using P r running_runs by (auto simp: stays_def)
  then obtain t' where r': "runs (prepare s) x t'" by (auto simp: running_runs)
  have "stack_ok (sigmask (prepare s)) (fr old # k)" using P m k frame_stack by simp
  with uth_block_ok [of "prepare s" rq wq x t' q "fr old" k] P r' frame_waits loop_block [OF inv r v]
  show ?thesis by auto
qed

lemma post:
  assumes inv: "lib_inv s rq wq" and c: "caller s" and m: "sigmask s" and k: "caller_ok old k"
    and res: "loop old k s = Ok (c, s')"
  shows "lib_post s old c s' \<and> (c = Return RetVoid \<or> c = Switched)"
proof -
  have v: "valid s" using loop_invalid res by fastforce
  show ?thesis
  proof (cases "avail s")
    case True
    have "c = Return RetVoid" "s' = (acquire s)\<lparr>sigmask := old\<rparr>" using loop_avail [OF c v True] res by simp_all
    with acquire_inv [OF inv v True] show ?thesis by (auto intro: lib_post_return [OF inv])
  next
    case False
    have nz: "uth_current s \<noteq> NULL" using loop_outside [OF _ v False] res by fastforce
    from caller_runs [OF c nz] obtain t where r: "runs s (uth_current s) t" by blast
    note P = prepare_inv [OF inv r v False]
    then have "running (prepare s) (uth_current s)" using r running_runs by (auto simp: stays_def)
    then obtain t' where r': "runs (prepare s) (uth_current s) t'" by (auto simp: running_runs)
    obtain s1 where s1: "loop old k s = Ok (Switched, s1)" "lib_inv s1 rq (wq(q := wq q @ [uth_current s]))" "no_running s1"
        "erase s1 = switched UTH_STATE_BLOCKED (uth_current s) (fr old # k) (erase (prepare s))"
      using waits [OF inv r v False m k] by blast
    have "settled (erase s) (erase (prepare s))" using P by (simp add: settled_erase stays_def)
    with s1(4) have "settled s s1" by (rule settled_switch [OF _ runs_erase(1) [OF r'] runs_erase(2) [OF r']])
    with s1 res P nz show ?thesis by (auto intro!: lib_post_switched [OF inv s1(2-4)] simp: stays_def)
  qed
qed

lemma parks:
  assumes inv: "lib_inv s rq wq" and c: "caller s" and m: "sigmask s" and k: "caller_ok old k"
    and res: "loop old k s = Ok (Switched, s')"
  shows "parked (fr old # k) s s'"
proof -
  have v: "valid s" using loop_invalid res by fastforce
  have na: "\<not> avail s" using loop_avail [OF c v, of old k] res by auto
  have nz: "uth_current s \<noteq> NULL" using loop_outside [OF _ v na] res by fastforce
  from caller_runs [OF c nz] obtain t where r: "runs s (uth_current s) t" by blast
  note P = prepare_inv [OF inv r v na]
  then have "running (prepare s) (uth_current s)" using r running_runs by (auto simp: stays_def)
  then have "heap (erase (prepare s)) (uth_current s) \<noteq> None" by (auto simp: running_def erase_maps)
  with waits [OF inv r v na m k] res show ?thesis by (auto intro: parked_switched)
qed

lemma total:
  assumes inv: "lib_inv s rq wq" and r: "runs s x t" and m: "sigmask s" and k: "caller_ok old k" and v: "valid s"
  shows "\<exists>c s'. loop old k s = Ok (c, s')"
proof (cases "avail s")
  case True
  have "x \<noteq> NULL" by (rule runs_not_NULL [OF inv r])
  with r have "caller s" by (auto simp: caller_def running_def runs_def)
  from loop_avail [OF this v True] show ?thesis by blast
qed (use waits [OF inv r v _ m k] in blast)

end

end
