(* ===== verification/Uth_Mutex.thy ===== *)
theory Uth_Mutex
  imports Uth_Wait
begin

text \<open>
  \<open>mutex.c\<close>: the sleeping mutex, the spinlock and the ticket lock. The body of each waiting loop
  is a definition of its own, because a blocked thread continues with it after it is resumed.
\<close>

section \<open>Mutex\<close>

definition uth_mutex_init :: "ptr \<Rightarrow> sys \<Rightarrow> sys" where
  "uth_mutex_init m s = set_mutex m \<lparr>mtx_locked = 0, mtx_owner = UTH_TID_INVALID, mtx_waiters = NULL\<rparr> s"

definition mutex_lock_loop :: "ptr \<Rightarrow> sigset \<Rightarrow> frame list \<Rightarrow> sys \<Rightarrow> (ctl \<times> sys) res" where
  "mutex_lock_loop m old k s =
     and_then (get_mutex m s) (\<lambda>x.
     let s = set_mutex m (x\<lparr>mtx_locked := 1\<rparr>) s in
     if mtx_locked x \<noteq> 0 then uth_block (MutexWaiters m) (F_mutex_lock m old # k) s
     else
       and_then (uth_self s) (\<lambda>self.
       Ok (Return RetVoid,
         uth_preempt_restore old (set_mutex m (x\<lparr>mtx_locked := 1, mtx_owner := self\<rparr>) s))))"

definition uth_mutex_lock :: "ptr \<Rightarrow> frame list \<Rightarrow> sys \<Rightarrow> (ctl \<times> sys) res" where
  "uth_mutex_lock m k s = (let (old, s) = uth_preempt_off s in mutex_lock_loop m old k s)"

definition uth_mutex_unlock :: "ptr \<Rightarrow> sys \<Rightarrow> (ctl \<times> sys) res" where
  "uth_mutex_unlock m s =
     (let (old, s) = uth_preempt_off s in
      and_then (get_mutex m s) (\<lambda>x.
      and_then (uth_self s) (\<lambda>self.
      if mtx_owner x \<noteq> self then Fault (AssertFail ''unlock by non-owner'')
      else
        let s = set_mutex m (x\<lparr>mtx_owner := UTH_TID_INVALID, mtx_locked := 0\<rparr>) s in
        and_then (uth_wake_one (MutexWaiters m) s) (\<lambda>(w, s).
        Ok (Return RetVoid, uth_preempt_restore old s)))))"

definition uth_mutex_destroy :: "ptr \<Rightarrow> sys \<Rightarrow> (ctl \<times> sys) res" where
  "uth_mutex_destroy m s =
     and_then (get_mutex m s) (\<lambda>x.
     if mtx_waiters x = NULL then Ok (Return RetVoid, s) else Fault (AssertFail ''destroy with waiters''))"

section \<open>Spinlock\<close>

definition uth_spin_init :: "ptr \<Rightarrow> sys \<Rightarrow> sys" where
  "uth_spin_init p s = set_spin p \<lparr>spin_flag = False\<rparr> s"

text \<open>
  A failed \<open>atomic_flag_test_and_set\<close> calls \<open>uth_yield\<close>. Inside a thread that switches away; outside
  of any thread it returns at once and the loop tries again.
\<close>

partial_function (option) spin_lock_loop :: "ptr \<Rightarrow> frame list \<Rightarrow> sys \<Rightarrow> (ctl \<times> sys) res option" where
  "spin_lock_loop p k s =
     (case get_spin p s of
        Ok x \<Rightarrow>
          if spin_flag x then
            (case uth_yield (F_spin_lock p # k) (set_spin p (x\<lparr>spin_flag := True\<rparr>) s) of
               Ok (c, s') \<Rightarrow> if c = Return RetVoid then spin_lock_loop p k s' else Some (Ok (c, s'))
             | Fault e \<Rightarrow> Some (Fault e)
             | NoReturn \<Rightarrow> Some NoReturn)
          else Some (Ok (Return RetVoid, set_spin p (x\<lparr>spin_flag := True\<rparr>) s))
      | Fault e \<Rightarrow> Some (Fault e)
      | NoReturn \<Rightarrow> Some NoReturn)"

definition uth_spin_lock :: "ptr \<Rightarrow> frame list \<Rightarrow> sys \<Rightarrow> (ctl \<times> sys) res" where
  "uth_spin_lock p k s = the_loop (spin_lock_loop p k s)"

definition uth_spin_unlock :: "ptr \<Rightarrow> sys \<Rightarrow> (ctl \<times> sys) res" where
  "uth_spin_unlock p s =
     and_then (get_spin p s) (\<lambda>x. Ok (Return RetVoid, set_spin p (x\<lparr>spin_flag := False\<rparr>) s))"

definition uth_spin_destroy :: "ptr \<Rightarrow> sys \<Rightarrow> sys" where
  "uth_spin_destroy p s = s"

section \<open>Ticket lock\<close>

definition uth_ticket_init :: "ptr \<Rightarrow> sys \<Rightarrow> sys" where
  "uth_ticket_init p s = set_ticket p \<lparr>tk_next_ticket = 0, tk_now_serving = 0, tk_waiters = NULL\<rparr> s"

definition ticket_lock_loop :: "ptr \<Rightarrow> u32 \<Rightarrow> sigset \<Rightarrow> frame list \<Rightarrow> sys \<Rightarrow> (ctl \<times> sys) res" where
  "ticket_lock_loop p my_ticket old k s =
     and_then (get_ticket p s) (\<lambda>x.
     if tk_now_serving x \<noteq> my_ticket then
       and_then (modify_tcb (uth_current s) (\<lambda>t. t\<lparr>tcb_ticket := my_ticket\<rparr>) s) (\<lambda>s.
       uth_block (TicketWaiters p) (F_ticket_lock p my_ticket old # k) s)
     else Ok (Return RetVoid, uth_preempt_restore old s))"

definition uth_ticket_lock :: "ptr \<Rightarrow> frame list \<Rightarrow> sys \<Rightarrow> (ctl \<times> sys) res" where
  "uth_ticket_lock p k s =
     (let (old, s) = uth_preempt_off s in
      and_then (get_ticket p s) (\<lambda>x.
      ticket_lock_loop p (tk_next_ticket x) old k
        (set_ticket p (x\<lparr>tk_next_ticket := tk_next_ticket x + 1\<rparr>) s)))"

text \<open>The walk of \<open>uth_ticket_unlock\<close> along the waiters; \<open>pp\<close> is the cell that holds the current one.\<close>

partial_function (option) ticket_walk :: "u32 \<Rightarrow> tcb_pp \<Rightarrow> sys \<Rightarrow> sys res option" where
  "ticket_walk nxt pp s =
     (case load_pp pp s of
        Ok w \<Rightarrow>
          if w = NULL then Some (Ok s)
          else
            (case get_tcb w s of
               Ok x \<Rightarrow>
                 if tcb_ticket x = nxt then
                   Some (and_then (load_pp (NextOf w) s) (\<lambda>n.
                         and_then (store_pp pp n s) (\<lambda>s.
                         and_then (store_pp (NextOf w) NULL s) (\<lambda>s.
                         uth_enqueue w s))))
                 else ticket_walk nxt (NextOf w) s
             | Fault e \<Rightarrow> Some (Fault e)
             | NoReturn \<Rightarrow> Some NoReturn)
      | Fault e \<Rightarrow> Some (Fault e)
      | NoReturn \<Rightarrow> Some NoReturn)"

definition uth_ticket_unlock :: "ptr \<Rightarrow> sys \<Rightarrow> (ctl \<times> sys) res" where
  "uth_ticket_unlock p s =
     (let (old, s) = uth_preempt_off s in
      and_then (get_ticket p s) (\<lambda>x.
      let nxt = tk_now_serving x + 1;
          s = set_ticket p (x\<lparr>tk_now_serving := nxt\<rparr>) s in
      and_then (the_loop (ticket_walk nxt (TicketWaiters p) s)) (\<lambda>s.
      Ok (Return RetVoid, uth_preempt_restore old s))))"

definition uth_ticket_destroy :: "ptr \<Rightarrow> sys \<Rightarrow> (ctl \<times> sys) res" where
  "uth_ticket_destroy p s =
     and_then (get_ticket p s) (\<lambda>x.
     if tk_waiters x = NULL then Ok (Return RetVoid, s) else Fault (AssertFail ''destroy with waiters''))"

section \<open>The mutex as a waiting loop\<close>

definition mutex_free :: "ptr \<Rightarrow> sys \<Rightarrow> bool" where
  "mutex_free m s \<longleftrightarrow> (\<exists>x. mutexes s m = Some x \<and> mtx_locked x = 0)"

definition mutex_take :: "ptr \<Rightarrow> sys \<Rightarrow> sys" where
  "mutex_take m s = (case mutexes s m of None \<Rightarrow> s
     | Some x \<Rightarrow> set_mutex m (x\<lparr>mtx_locked := 1, mtx_owner := self_tid s\<rparr>) s)"

definition mutex_mark :: "ptr \<Rightarrow> sys \<Rightarrow> sys" where
  "mutex_mark m s = (case mutexes s m of None \<Rightarrow> s | Some x \<Rightarrow> set_mutex m (x\<lparr>mtx_locked := 1\<rparr>) s)"

lemma set_mutex_twice [simp]: "set_mutex m x (set_mutex m y s) = set_mutex m x s"
  by (simp add: set_mutex_def)

lemma set_object_sigmask [simp]:
  "set_mutex m x (s\<lparr>sigmask := b\<rparr>) = (set_mutex m x s)\<lparr>sigmask := b\<rparr>"
  "set_ticket m y (s\<lparr>sigmask := b\<rparr>) = (set_ticket m y s)\<lparr>sigmask := b\<rparr>"
  "set_cond m u (s\<lparr>sigmask := b\<rparr>) = (set_cond m u s)\<lparr>sigmask := b\<rparr>"
  "set_sem m z (s\<lparr>sigmask := b\<rparr>) = (set_sem m z s)\<lparr>sigmask := b\<rparr>"
  by (simp_all add: set_object_defs)

lemma stays_set_object [simp]:
  "stays s (set_mutex m x s)" "stays s (set_ticket m y s)" "stays s (set_sem m z s)" "stays s (set_spin m w s)"
  "stays s (set_cond m v s)"
  by (rule stays_heap; simp)+

lemma mapped_waiters:
  "mapped (MutexWaiters m) s \<longleftrightarrow> mutexes s m \<noteq> None" "mapped (TicketWaiters m) s \<longleftrightarrow> tickets s m \<noteq> None"
  "mapped (CondWaiters m) s \<longleftrightarrow> conds s m \<noteq> None" "mapped (SemWaiters m) s \<longleftrightarrow> sems s m \<noteq> None"
  by (auto simp: mapped_def pp_simps ok_iff)

interpretation mutex_wait: blocking_wait "mutex_lock_loop m" "\<lambda>s. mutexes s m \<noteq> None" "mutex_free m"
  "mutex_take m" "mutex_mark m" "MutexWaiters m" "F_mutex_lock m" for m
proof unfold_locales
  fix s old k rq wq x t
  show "\<not> mutexes s m \<noteq> None \<Longrightarrow> mutex_lock_loop m old k s = Fault BadObject"
    by (simp add: mutex_lock_loop_def get_mutex_def)
  show "\<lbrakk>caller s; mutexes s m \<noteq> None; mutex_free m s\<rbrakk> \<Longrightarrow>
      mutex_lock_loop m old k s = Ok (Return RetVoid, (mutex_take m s)\<lparr>sigmask := old\<rparr>)"
    by (auto simp: mutex_lock_loop_def mutex_free_def mutex_take_def uth_self_ok uth_preempt_restore_def)
  show "\<lbrakk>lib_inv s rq wq; mutexes s m \<noteq> None; mutex_free m s\<rbrakk> \<Longrightarrow> lib_inv (mutex_take m s) rq wq \<and> stays s (mutex_take m s)"
    by (auto simp: mutex_take_def)
  show "\<lbrakk>uth_current s = NULL; mutexes s m \<noteq> None; \<not> mutex_free m s\<rbrakk> \<Longrightarrow> mutex_lock_loop m old k s = Fault NullDeref"
    by (auto simp: mutex_lock_loop_def mutex_free_def uth_block_outside)
  show "\<lbrakk>mutexes s m \<noteq> None; \<not> mutex_free m s\<rbrakk> \<Longrightarrow>
      mutex_lock_loop m old k s = uth_block (MutexWaiters m) (F_mutex_lock m old # k) (mutex_mark m s)"
    by (auto simp: mutex_lock_loop_def mutex_free_def mutex_mark_def)
  show "\<lbrakk>lib_inv s rq wq; mutexes s m \<noteq> None; \<not> mutex_free m s\<rbrakk> \<Longrightarrow> lib_inv (mutex_mark m s) rq wq \<and>
      stays s (mutex_mark m s) \<and> sigmask (mutex_mark m s) = sigmask s \<and> mapped (MutexWaiters m) (mutex_mark m s)"
    by (auto simp: mutex_mark_def mapped_waiters)
qed simp_all

lemma mutex_lock_post:
  assumes "lib_inv s rq wq" and "caller s" and "caller_ok (sigmask s) k" and "uth_mutex_lock m k s = Ok (c, s')"
  shows "lib_post s (sigmask s) c s' \<and> (c = Return RetVoid \<or> c = Switched)"
proof -
  have "mutex_lock_loop m (sigmask s) k (s\<lparr>sigmask := True\<rparr>) = Ok (c, s')"
    using assms(4) by (simp add: uth_mutex_lock_def uth_preempt_off_def)
  from mutex_wait.post [OF _ _ _ assms(3) this] assms(1,2) show ?thesis
    by (auto intro: lib_post_stays [of "s\<lparr>sigmask := True\<rparr>"])
qed

text \<open>Release: the owner is cleared and the first waiter, if any, becomes ready.\<close>

lemma mutex_unlock_ok:
  assumes inv: "lib_inv s rq wq" and c: "caller s" and x: "mutexes s m = Some x" and own: "mtx_owner x = self_tid s"
  defines "q \<equiv> MutexWaiters m"
  shows "\<exists>s'. uth_mutex_unlock m s = Ok (Return RetVoid, s') \<and> lib_inv s' (rq @ take 1 (wq q)) (wq(q := tl (wq q))) \<and>
     stays s s' \<and> sigmask s' = sigmask s \<and>
     erase s' = (let a = set_mutex m (x\<lparr>mtx_owner := UTH_TID_INVALID, mtx_locked := 0, mtx_waiters := NULL\<rparr>) (erase s) in
       if wq q = [] then a else set_state (hd (wq q)) UTH_STATE_READY a)"
proof -
  let ?s = "set_mutex m (x\<lparr>mtx_owner := UTH_TID_INVALID, mtx_locked := 0\<rparr>) (s\<lparr>sigmask := True\<rparr>)"
  have "lib_inv ?s rq wq" using inv x by simp
  then obtain w s1 where s1: "uth_wake_one q ?s = Ok (w, s1)" "lib_inv s1 (rq @ take 1 (wq q)) (wq(q := tl (wq q)))"
      "stays ?s s1" "erase s1 = (if wq q = [] then erase ?s else set_state (hd (wq q)) UTH_STATE_READY (erase ?s))"
    using lib_wake_step [of ?s rq wq q] by (auto simp: q_def mapped_waiters)
  have "stays s ?s" by (rule stays_heap) simp_all
  from stays_trans [OF this s1(3)] have st: "stays s s1" .
  have "uth_mutex_unlock m s = Ok (Return RetVoid, s1\<lparr>sigmask := sigmask s\<rparr>)"
    using x own c s1(1) uth_self_ok [of "s\<lparr>sigmask := True\<rparr>"]
    by (simp add: uth_mutex_unlock_def uth_preempt_off_def uth_preempt_restore_def q_def)
  moreover have "erase (s1\<lparr>sigmask := sigmask s\<rparr>) =
      (let a = set_mutex m (x\<lparr>mtx_owner := UTH_TID_INVALID, mtx_locked := 0, mtx_waiters := NULL\<rparr>) (erase s) in
       if wq q = [] then a else set_state (hd (wq q)) UTH_STATE_READY a)"
    by (simp add: s1(4) Let_def sigmask_same)
  ultimately show ?thesis using s1(2) st by auto
qed

lemma mutex_unlock_foreign:
  "\<lbrakk>caller s; mutexes s m = Some x; mtx_owner x \<noteq> self_tid s\<rbrakk> \<Longrightarrow>
     uth_mutex_unlock m s = Fault (AssertFail ''unlock by non-owner'')"
  using uth_self_ok [of "s\<lparr>sigmask := True\<rparr>"] by (simp add: uth_mutex_unlock_def uth_preempt_off_def)

lemma mutex_unlock_post:
  assumes inv: "lib_inv s rq wq" and c: "caller s" and u: "uth_mutex_unlock m s = Ok (c, s')"
  shows "lib_post s (sigmask s) c s' \<and> c = Return RetVoid \<and> lib_ok s' \<and> stays s s' \<and> sigmask s' = sigmask s"
proof -
  obtain x where x: "mutexes s m = Some x"
    using u by (auto simp: uth_mutex_unlock_def uth_preempt_off_def ok_iff)
  have own: "mtx_owner x = self_tid s" using mutex_unlock_foreign [OF c x] u by fastforce
  from mutex_unlock_ok [OF inv c x own] u lib_post_return [OF inv] lib_okI show ?thesis by fastforce
qed

section \<open>The spinlock\<close>

lemma spin_set_same: "spins s p = Some x \<Longrightarrow> set_spin p x s = s"
  by (simp add: set_spin_def fun_upd_idem)

lemma spin_lock_free:
  "\<lbrakk>spins s p = Some x; \<not> spin_flag x\<rbrakk> \<Longrightarrow>
     uth_spin_lock p k s = Ok (Return RetVoid, set_spin p (x\<lparr>spin_flag := True\<rparr>) s)"
  by (simp add: uth_spin_lock_def spin_lock_loop.simps)

lemma spin_lock_taken:
  assumes inv: "lib_inv s rq wq" and r: "runs s x t" and p: "spins s p = Some sp" "spin_flag sp"
  shows "\<exists>s'. uth_spin_lock p [] s = Ok (Switched, s') \<and> lib_inv s' (rq @ [x]) wq \<and> no_running s' \<and>
     erase s' = switched UTH_STATE_READY x [F_yield (sigmask s), F_spin_lock p] ((erase s)\<lparr>sigmask := True\<rparr>)"
proof -
  from p(2) have "sp\<lparr>spin_flag := True\<rparr> = sp" by (cases sp) simp
  with p(1) have same: "set_spin p (sp\<lparr>spin_flag := True\<rparr>) s = s" by (simp add: spin_set_same)
  from uth_yield_ok [OF inv r, of "[F_spin_lock p]"] show ?thesis
    using p same by (auto simp: uth_spin_lock_def spin_lock_loop.simps)
qed

text \<open>
  Outside of every thread \<open>uth_yield\<close> returns at once: a contended spinlock is then retried without
  end, because nothing can release it. The proof is by induction on the fixed point of the loop.
\<close>

lemma spin_lock_loop_outside:
  assumes "spin_lock_loop p k s = Some r"
  shows "\<not> (uth_current s = NULL \<and> (\<exists>x. spins s p = Some x \<and> spin_flag x))"
proof (rule spin_lock_loop.raw_induct [where P = "\<lambda>p k s r. \<not> (uth_current s = NULL \<and> (\<exists>x. spins s p = Some x \<and> spin_flag x))", OF _ assms])
  fix loop :: "ptr \<Rightarrow> frame list \<Rightarrow> sys \<Rightarrow> (ctl \<times> sys) res option" and p k s r
  assume IH: "\<And>p k s r. loop p k s = Some r \<Longrightarrow> \<not> (uth_current s = NULL \<and> (\<exists>x. spins s p = Some x \<and> spin_flag x))"
    and body: "(case get_spin p s of
        Ok x \<Rightarrow>
          if spin_flag x then
            (case uth_yield (F_spin_lock p # k) (set_spin p (x\<lparr>spin_flag := True\<rparr>) s) of
               Ok (c, s') \<Rightarrow> if c = Return RetVoid then loop p k s' else Some (Ok (c, s'))
             | Fault e \<Rightarrow> Some (Fault e)
             | NoReturn \<Rightarrow> Some NoReturn)
          else Some (Ok (Return RetVoid, set_spin p (x\<lparr>spin_flag := True\<rparr>) s))
      | Fault e \<Rightarrow> Some (Fault e)
      | NoReturn \<Rightarrow> Some NoReturn) = Some r"
  show "\<not> (uth_current s = NULL \<and> (\<exists>x. spins s p = Some x \<and> spin_flag x))"
  proof
    assume "uth_current s = NULL \<and> (\<exists>x. spins s p = Some x \<and> spin_flag x)"
    then obtain x where x: "uth_current s = NULL" "spins s p = Some x" "spin_flag x" by blast
    then have "x\<lparr>spin_flag := True\<rparr> = x" by (cases x) simp
    with x have "loop p k s = Some r"
      using body by (simp add: spin_set_same uth_yield_outside)
    from IH [OF this] x show False by blast
  qed
qed

lemma spin_lock_outside:
  "\<lbrakk>uth_current s = NULL; spins s p = Some x; spin_flag x\<rbrakk> \<Longrightarrow> uth_spin_lock p k s = NoReturn"
  using spin_lock_loop_outside [of p k s] by (cases "spin_lock_loop p k s") (auto simp: uth_spin_lock_def)

lemma spin_lock_post:
  assumes inv: "lib_inv s rq wq" and c: "caller s" and res: "uth_spin_lock p [] s = Ok (c, s')"
  shows "lib_post s (sigmask s) c s'"
proof -
  obtain x where x: "spins s p = Some x"
    using res by (cases "spins s p") (simp_all add: uth_spin_lock_def spin_lock_loop.simps get_spin_def)
  show ?thesis
  proof (cases "spin_flag x")
    case False
    have "lib_post s (sigmask s) (Return RetVoid) (set_spin p (x\<lparr>spin_flag := True\<rparr>) s)"
      using inv by (intro lib_post_return [OF inv, of _ rq wq]) simp_all
    with spin_lock_free [OF x False, of "[]"] res show ?thesis by simp
  next
    case True
    have nz: "uth_current s \<noteq> NULL" using spin_lock_outside [OF _ x True] res by fastforce
    from caller_runs [OF c nz] obtain t where r: "runs s (uth_current s) t" by blast
    from spin_lock_taken [OF inv r x True] res nz show ?thesis
      by (auto intro!: lib_post_switched [OF inv] settled_switch [OF _ runs_mask(1) [OF r] runs_erase(2) [OF r] runs_mask(2) [OF r]])
  qed
qed

section \<open>The ticket lock\<close>

definition ticket_turn :: "ptr \<Rightarrow> u32 \<Rightarrow> sys \<Rightarrow> bool" where
  "ticket_turn p tk s \<longleftrightarrow> (\<exists>x. tickets s p = Some x \<and> tk_now_serving x = tk)"

abbreviation keep_ticket :: "u32 \<Rightarrow> sys \<Rightarrow> sys" where
  "keep_ticket tk s \<equiv> upd_tcb (uth_current s) (\<lambda>t. t\<lparr>tcb_ticket := tk\<rparr>) s"

lemma keep_ticket_inv:
  assumes inv: "lib_inv s rq wq" and r: "runs s x t"
  shows "lib_inv (keep_ticket tk s) rq wq" "stays s (keep_ticket tk s)"
proof -
  note he = runs_erase [OF r]
  have "heap (erase (keep_ticket tk s)) = (heap (erase s))(x \<mapsto> t\<lparr>tcb_next := NULL, tcb_ticket := tk\<rparr>)"
    using he erase_upd_tcb [of "\<lambda>t. t\<lparr>tcb_ticket := tk\<rparr>" x s] by (simp add: upd_tcb_def [of x _ "erase s"])
  then have "sched_inv (erase (keep_ticket tk s)) rq wq"
    by (rule effect_inert [OF lib_invD(2) [OF inv] he(1)]) (simp_all add: same_table_def)
  with lib_invD(1) [OF inv] show "lib_inv (keep_ticket tk s) rq wq" by (simp add: lib_inv_def)
  have "settled s (keep_ticket tk s)" by (rule settled_upd) (simp add: kept_def)
  then show "stays s (keep_ticket tk s)"
    by (auto simp: stays_def running_def no_running_def heap_upd_tcb option.map_comp o_def)
qed

interpretation ticket_wait: blocking_wait "ticket_lock_loop p tk" "\<lambda>s. tickets s p \<noteq> None" "ticket_turn p tk"
  "\<lambda>s. s" "keep_ticket tk" "TicketWaiters p" "F_ticket_lock p tk" for p tk
proof unfold_locales
  fix s old k rq wq x t
  show "\<not> tickets s p \<noteq> None \<Longrightarrow> ticket_lock_loop p tk old k s = Fault BadObject"
    by (simp add: ticket_lock_loop_def get_ticket_def)
  show "\<lbrakk>tickets s p \<noteq> None; ticket_turn p tk s\<rbrakk> \<Longrightarrow>
      ticket_lock_loop p tk old k s = Ok (Return RetVoid, s\<lparr>sigmask := old\<rparr>)"
    by (auto simp: ticket_lock_loop_def ticket_turn_def uth_preempt_restore_def)
  show "\<lbrakk>uth_current s = NULL; tickets s p \<noteq> None; \<not> ticket_turn p tk s\<rbrakk> \<Longrightarrow> ticket_lock_loop p tk old k s = Fault NullDeref"
    by (auto simp: ticket_lock_loop_def ticket_turn_def modify_tcb_def get_tcb_def)
  show "\<lbrakk>lib_inv s rq wq; runs s x t; tickets s p \<noteq> None; \<not> ticket_turn p tk s\<rbrakk> \<Longrightarrow>
      ticket_lock_loop p tk old k s = uth_block (TicketWaiters p) (F_ticket_lock p tk old # k) (keep_ticket tk s)"
    using runs_not_NULL [of s rq wq x t] runs_erase [of s x t]
    by (auto simp: ticket_lock_loop_def ticket_turn_def)
  show "\<lbrakk>lib_inv s rq wq; runs s x t; tickets s p \<noteq> None; \<not> ticket_turn p tk s\<rbrakk> \<Longrightarrow> lib_inv (keep_ticket tk s) rq wq \<and>
      stays s (keep_ticket tk s) \<and> sigmask (keep_ticket tk s) = sigmask s \<and> mapped (TicketWaiters p) (keep_ticket tk s)"
    using keep_ticket_inv by (auto simp: mapped_waiters)
qed simp_all

lemma ticket_lock_post:
  assumes "lib_inv s rq wq" and "caller s" and "caller_ok (sigmask s) k" and res: "uth_ticket_lock p k s = Ok (c, s')"
  shows "lib_post s (sigmask s) c s'"
proof -
  obtain x where x: "tickets s p = Some x"
    using res by (auto simp: uth_ticket_lock_def uth_preempt_off_def ok_iff)
  let ?s = "set_ticket p (x\<lparr>tk_next_ticket := tk_next_ticket x + 1\<rparr>) (s\<lparr>sigmask := True\<rparr>)"
  have "ticket_lock_loop p (tk_next_ticket x) (sigmask s) k ?s = Ok (c, s')"
    using res x by (simp add: uth_ticket_lock_def uth_preempt_off_def)
  moreover have "rq_grows s ?s" by (rule rq_growsI [OF assms(1), of _ rq wq]) (use assms(1) x in simp_all)
  ultimately show ?thesis using ticket_wait.post [OF _ _ _ assms(3), of ?s rq wq p _ c s'] assms(1,2) x by (auto intro: lib_post_stays [of ?s])
qed

text \<open>The walk of the release skips the waiters that hold another ticket.\<close>

definition holds_ticket :: "sys \<Rightarrow> u32 \<Rightarrow> ptr \<Rightarrow> bool" where
  "holds_ticket s n x \<longleftrightarrow> (\<exists>t. heap s x = Some t \<and> tcb_ticket t = n)"

lemma ticket_walk_skip:
  "\<lbrakk>seg s p ys; \<forall>y \<in> set ys. heap s y \<noteq> None \<and> \<not> holds_ticket s n y\<rbrakk> \<Longrightarrow>
     ticket_walk n p s = ticket_walk n (cell_after p ys) s"
proof (induction ys arbitrary: p)
  case (Cons y ys)
  then obtain t where "heap s y = Some t" "tcb_ticket t \<noteq> n" by (auto simp: holds_ticket_def)
  moreover have "load_pp p s = Ok y" "y \<noteq> NULL" using Cons.prems by simp_all
  ultimately have "ticket_walk n p s = ticket_walk n (NextOf y) s" by (simp add: ticket_walk.simps [of n p])
  also have "\<dots> = ticket_walk n (cell_after (NextOf y) ys) s" using Cons by simp
  finally show ?case by simp
qed simp

lemma ticket_walk_none:
  assumes sh: "shape s rq wq" and q: "is_wait q" "mapped q s" and no: "\<forall>y \<in> set (wq q). \<not> holds_ticket s n y"
  shows "ticket_walk n q s = Some (Ok s)"
proof -
  have ch: "chain s q (wq q @ [])" using wchain_chain [OF shapeD(3) [OF sh] q] by simp
  then have "seg s q (wq q)" "load_pp (cell_after q (wq q)) s = Ok NULL" by (simp_all only: chain_append chain.simps)
  with ticket_walk_skip [of s q "wq q" n] no shape_wait_heap [OF sh] show ?thesis
    by (fastforce simp: ticket_walk.simps [of n "cell_after q (wq q)"])
qed

lemma ticket_walk_hit:
  assumes sh: "shape s rq wq" and wq: "wq q = xs @ x # ys" and no: "\<forall>y \<in> set xs. \<not> holds_ticket s n y"
    and x: "holds_ticket s n x"
  shows "\<exists>s'. ticket_walk n q s = Some (Ok s') \<and> shape s' (rq @ [x]) (wq(q := xs @ ys)) \<and>
     erase s' = set_state x UTH_STATE_READY (erase s)"
proof -
  obtain nx s1 s2 s3 where st: "load_pp (cell_after q xs) s = Ok x" "load_pp (NextOf x) s = Ok nx"
      "store_pp (cell_after q xs) nx s = Ok s1" "store_pp (NextOf x) NULL s1 = Ok s2" "uth_enqueue x s2 = Ok s3"
      "shape s3 (rq @ [x]) (wq(q := xs @ ys))" "erase s3 = set_state x UTH_STATE_READY (erase s)"
    using unlink_enqueue_shape [OF sh wq] by blast
  obtain t where t: "heap s x = Some t" "tcb_ticket t = n" using x by (auto simp: holds_ticket_def)
  have xN: "x \<noteq> NULL" using shape_wait_heap [OF sh, of x q] wq by simp
  have "chain s q (xs @ x # ys)" using wchain_nonempty [OF shapeD(3) [OF sh, of q]] wq by simp
  then have "seg s q xs" by (simp only: chain_append)
  then have "ticket_walk n q s = ticket_walk n (cell_after q xs) s"
    using no shape_wait_heap [OF sh, of _ q] wq by (intro ticket_walk_skip) auto
  also have "\<dots> = Some (Ok s3)"
    using st t xN by (simp add: ticket_walk.simps [of n "cell_after q xs"])
  finally show ?thesis using st(6,7) by blast
qed

lemma ticket_unlock_none:
  assumes inv: "lib_inv s rq wq" and x: "tickets s p = Some x"
    and no: "\<forall>y \<in> set (wq (TicketWaiters p)). \<not> holds_ticket s (tk_now_serving x + 1) y"
  shows "uth_ticket_unlock p s = Ok (Return RetVoid, set_ticket p (x\<lparr>tk_now_serving := tk_now_serving x + 1\<rparr>) s)"
proof -
  let ?s = "set_ticket p (x\<lparr>tk_now_serving := tk_now_serving x + 1\<rparr>) (s\<lparr>sigmask := True\<rparr>)"
  have "lib_inv ?s rq wq" using inv x by simp
  from ticket_walk_none [OF lib_invD(1) [OF this], of "TicketWaiters p" "tk_now_serving x + 1"] no
  have "ticket_walk (tk_now_serving x + 1) (TicketWaiters p) ?s = Some (Ok ?s)"
    by (simp add: holds_ticket_def mapped_waiters)
  with x show ?thesis
    by (simp add: uth_ticket_unlock_def uth_preempt_off_def uth_preempt_restore_def sigmask_same)
qed

lemma ticket_unlock_hit:
  assumes inv: "lib_inv s rq wq" and x: "tickets s p = Some x" and wq: "wq (TicketWaiters p) = ys @ w # zs"
    and no: "\<forall>y \<in> set ys. \<not> holds_ticket s (tk_now_serving x + 1) y" and w: "holds_ticket s (tk_now_serving x + 1) w"
  shows "\<exists>s'. uth_ticket_unlock p s = Ok (Return RetVoid, s') \<and> lib_inv s' (rq @ [w]) (wq(TicketWaiters p := ys @ zs)) \<and>
     stays s s' \<and> sigmask s' = sigmask s \<and>
     erase s' = set_state w UTH_STATE_READY
       (set_ticket p (x\<lparr>tk_now_serving := tk_now_serving x + 1, tk_waiters := NULL\<rparr>) (erase s))"
proof -
  let ?s = "set_ticket p (x\<lparr>tk_now_serving := tk_now_serving x + 1\<rparr>) (s\<lparr>sigmask := True\<rparr>)"
  have inv0: "lib_inv ?s rq wq" using inv x by simp
  have "\<forall>y \<in> set ys. \<not> holds_ticket ?s (tk_now_serving x + 1) y" "holds_ticket ?s (tk_now_serving x + 1) w"
    using no w by (simp_all add: holds_ticket_def)
  from ticket_walk_hit [OF lib_invD(1) [OF inv0] wq this] obtain s1 where
    s1: "ticket_walk (tk_now_serving x + 1) (TicketWaiters p) ?s = Some (Ok s1)"
      "shape s1 (rq @ [w]) (wq(TicketWaiters p := ys @ zs))" "erase s1 = set_state w UTH_STATE_READY (erase ?s)" by blast
  note L = lib_wake_at [OF inv0 wq s1(2,3)]
  have "stays s ?s" by (rule stays_heap) simp_all
  from stays_trans [OF this L(2)] have "stays s (s1\<lparr>sigmask := sigmask s\<rparr>)" by simp
  moreover have "uth_ticket_unlock p s = Ok (Return RetVoid, s1\<lparr>sigmask := sigmask s\<rparr>)"
    using x s1(1) by (simp add: uth_ticket_unlock_def uth_preempt_off_def uth_preempt_restore_def)
  moreover have "erase (s1\<lparr>sigmask := sigmask s\<rparr>) = set_state w UTH_STATE_READY
       (set_ticket p (x\<lparr>tk_now_serving := tk_now_serving x + 1, tk_waiters := NULL\<rparr>) (erase s))"
    by (simp add: s1(3) sigmask_same)
  ultimately show ?thesis using L(1) by auto
qed

lemma ticket_unlock_post:
  assumes inv: "lib_inv s rq wq" and res: "uth_ticket_unlock p s = Ok (c, s')"
  shows "lib_post s (sigmask s) c s'"
proof -
  obtain x where x: "tickets s p = Some x"
    using res by (auto simp: uth_ticket_unlock_def uth_preempt_off_def ok_iff)
  show ?thesis
  proof (cases "\<exists>y \<in> set (wq (TicketWaiters p)). holds_ticket s (tk_now_serving x + 1) y")
    case True
    from split_list_first_prop [OF this] ticket_unlock_hit [OF inv x] res show ?thesis
      by (fastforce intro: lib_post_return [OF inv])
  next
    case False
    with ticket_unlock_none [OF inv x] res have
      "c = Return RetVoid" "s' = set_ticket p (x\<lparr>tk_now_serving := tk_now_serving x + 1\<rparr>) s" by simp_all
    with inv x show ?thesis by (auto intro: lib_post_return [OF inv])
  qed
qed

section \<open>Lock and unlock\<close>

lemma mutex_lock_free:
  assumes "caller s" and "mutexes s m = Some x" and "mtx_locked x = 0"
  shows "uth_mutex_lock m k s = Ok (Return RetVoid, set_mutex m (x\<lparr>mtx_locked := 1, mtx_owner := self_tid s\<rparr>) s)"
proof -
  have "uth_mutex_lock m k s = Ok (Return RetVoid, (mutex_take m (s\<lparr>sigmask := True\<rparr>))\<lparr>sigmask := sigmask s\<rparr>)"
    using mutex_wait.loop_avail [of "s\<lparr>sigmask := True\<rparr>" m "sigmask s" k] assms
    by (simp add: uth_mutex_lock_def uth_preempt_off_def mutex_free_def)
  also have "(mutex_take m (s\<lparr>sigmask := True\<rparr>))\<lparr>sigmask := sigmask s\<rparr> = set_mutex m (x\<lparr>mtx_locked := 1, mtx_owner := self_tid s\<rparr>) s"
    using assms by (simp add: mutex_take_def sigmask_same)
  finally show ?thesis .
qed

lemma mutex_round:
  assumes c: "caller s" and m: "mutexes s m = Some \<lparr>mtx_locked = 0, mtx_owner = UTH_TID_INVALID, mtx_waiters = NULL\<rparr>"
  shows "uth_mutex_lock m k s = Ok (Return RetVoid, set_mutex m \<lparr>mtx_locked = 1, mtx_owner = self_tid s, mtx_waiters = NULL\<rparr> s)"
    "uth_mutex_unlock m (set_mutex m \<lparr>mtx_locked = 1, mtx_owner = self_tid s, mtx_waiters = NULL\<rparr> s) = Ok (Return RetVoid, s)"
proof -
  let ?s1 = "set_mutex m \<lparr>mtx_locked = 1, mtx_owner = self_tid s, mtx_waiters = NULL\<rparr> s"
  show "uth_mutex_lock m k s = Ok (Return RetVoid, ?s1)" using mutex_lock_free [OF c m] by simp
  have wk: "uth_wake_one (MutexWaiters m) (set_mutex m \<lparr>mtx_locked = 0, mtx_owner = UTH_TID_INVALID, mtx_waiters = NULL\<rparr> (s\<lparr>sigmask := True\<rparr>)) =
      Ok (NULL, set_mutex m \<lparr>mtx_locked = 0, mtx_owner = UTH_TID_INVALID, mtx_waiters = NULL\<rparr> (s\<lparr>sigmask := True\<rparr>))"
    by (simp add: uth_wake_one_def pp_simps)
  have same: "set_mutex m \<lparr>mtx_locked = 0, mtx_owner = UTH_TID_INVALID, mtx_waiters = NULL\<rparr> s = s"
    using m by (simp add: set_mutex_def fun_upd_idem)
  show "uth_mutex_unlock m ?s1 = Ok (Return RetVoid, s)"
    using c wk same uth_self_ok [of "?s1\<lparr>sigmask := True\<rparr>"]
    by (simp add: uth_mutex_unlock_def uth_preempt_off_def uth_preempt_restore_def sigmask_same)
qed

end
