(* ===== verification/Uth_Sync.thy ===== *)
theory Uth_Sync
  imports Uth_Mutex
begin

text \<open>\<open>sync.c\<close>: condition variables and counting semaphores.\<close>

section \<open>Condition variable\<close>

definition uth_cond_init :: "ptr \<Rightarrow> sys \<Rightarrow> sys" where
  "uth_cond_init c s = set_cond c \<lparr>cv_waiters = NULL\<rparr> s"

definition uth_cond_wait :: "ptr \<Rightarrow> ptr \<Rightarrow> frame list \<Rightarrow> sys \<Rightarrow> (ctl \<times> sys) res" where
  "uth_cond_wait c m k s =
     (let (old, s) = uth_preempt_off s in
      and_then (uth_mutex_unlock m s) (\<lambda>(r, s).
      uth_block (CondWaiters c) (F_cond_wait c m old # k) s))"

definition uth_cond_relocked :: "sigset \<Rightarrow> sys \<Rightarrow> (ctl \<times> sys) res" where
  "uth_cond_relocked old s = Ok (Return RetVoid, uth_preempt_restore old s)"

definition uth_cond_wait_resumed :: "ptr \<Rightarrow> sigset \<Rightarrow> frame list \<Rightarrow> sys \<Rightarrow> (ctl \<times> sys) res" where
  "uth_cond_wait_resumed m old k s =
     and_then (uth_mutex_lock m (F_cond_relock old # k) s) (\<lambda>(c, s).
     if c = Return RetVoid then uth_cond_relocked old s else Ok (c, s))"

definition uth_cond_signal :: "ptr \<Rightarrow> sys \<Rightarrow> (ctl \<times> sys) res" where
  "uth_cond_signal c s =
     (let (old, s) = uth_preempt_off s in
      and_then (uth_wake_one (CondWaiters c) s) (\<lambda>(w, s).
      Ok (Return RetVoid, uth_preempt_restore old s)))"

definition uth_cond_broadcast :: "ptr \<Rightarrow> sys \<Rightarrow> (ctl \<times> sys) res" where
  "uth_cond_broadcast c s =
     (let (old, s) = uth_preempt_off s in
      and_then (uth_wake_all (CondWaiters c) s) (\<lambda>s.
      Ok (Return RetVoid, uth_preempt_restore old s)))"

definition uth_cond_destroy :: "ptr \<Rightarrow> sys \<Rightarrow> (ctl \<times> sys) res" where
  "uth_cond_destroy c s =
     and_then (get_cond c s) (\<lambda>x.
     if cv_waiters x = NULL then Ok (Return RetVoid, s) else Fault (AssertFail ''cond_destroy with waiters''))"

section \<open>Semaphore\<close>

definition uth_sem_init :: "ptr \<Rightarrow> int \<Rightarrow> sys \<Rightarrow> (ctl \<times> sys) res" where
  "uth_sem_init p value s =
     (if value \<ge> 0 then Ok (Return RetVoid, set_sem p \<lparr>sem_value = value, sem_waiters = NULL\<rparr> s)
      else Fault (AssertFail ''semaphore value must be non-negative''))"

definition sem_wait_loop :: "ptr \<Rightarrow> sigset \<Rightarrow> frame list \<Rightarrow> sys \<Rightarrow> (ctl \<times> sys) res" where
  "sem_wait_loop p old k s =
     and_then (get_sem p s) (\<lambda>x.
     if sem_value x \<le> 0 then uth_block (SemWaiters p) (F_sem_wait p old # k) s
     else Ok (Return RetVoid, uth_preempt_restore old (set_sem p (x\<lparr>sem_value := sem_value x - 1\<rparr>) s)))"

definition uth_sem_wait :: "ptr \<Rightarrow> frame list \<Rightarrow> sys \<Rightarrow> (ctl \<times> sys) res" where
  "uth_sem_wait p k s = (let (old, s) = uth_preempt_off s in sem_wait_loop p old k s)"

definition uth_sem_post :: "ptr \<Rightarrow> sys \<Rightarrow> (ctl \<times> sys) res" where
  "uth_sem_post p s =
     (let (old, s) = uth_preempt_off s in
      and_then (get_sem p s) (\<lambda>x.
      if sem_value x = INT_MAX then Fault SignedOverflow
      else
        and_then (uth_wake_one (SemWaiters p) (set_sem p (x\<lparr>sem_value := sem_value x + 1\<rparr>) s)) (\<lambda>(w, s).
        Ok (Return RetVoid, uth_preempt_restore old s))))"

definition uth_sem_destroy :: "ptr \<Rightarrow> sys \<Rightarrow> (ctl \<times> sys) res" where
  "uth_sem_destroy p s =
     and_then (get_sem p s) (\<lambda>x.
     if sem_waiters x = NULL then Ok (Return RetVoid, s) else Fault (AssertFail ''sem_destroy with waiters''))"

section \<open>The condition variable\<close>

lemma uth_block_unmapped:
  assumes "is_wait q" and "\<not> mapped q s"
  shows "uth_block q k s \<noteq> Ok r"
proof
  assume "uth_block q k s = Ok r"
  then obtain s1 p where s1: "store_pp (NextOf (uth_current s)) NULL (set_state (uth_current s) UTH_STATE_BLOCKED s) = Ok s1"
      "the_loop (find_end q s1) = Ok p"
    by (auto simp: uth_block_def wait_append_def ok_iff Let_def)
  have "load_pp q s1 = load_pp q s" using load_store_pp [OF s1(1), of q] not_wait_simps(3) [OF assms(1)] by simp
  with s1(2) assms(2) show False
    by (cases "load_pp q s") (simp_all add: find_end.simps mapped_def)
qed

text \<open>
  \<open>uth_cond_wait\<close> releases the mutex and blocks in one step: the first waiter of the mutex becomes
  ready and the caller is at the end of the queue of the condition variable.
\<close>

lemma cond_wait_ok:
  assumes inv: "lib_inv s rq wq" and r: "runs s x t" and c: "conds s c \<noteq> None"
    and m: "mutexes s m = Some xm" "mtx_owner xm = self_tid s"
  defines "M \<equiv> MutexWaiters m" and "C \<equiv> CondWaiters c"
  shows "\<exists>s'. uth_cond_wait c m [] s = Ok (Switched, s') \<and>
     lib_inv s' (rq @ take 1 (wq M)) (wq(M := tl (wq M), C := wq C @ [x])) \<and> no_running s' \<and>
     uth_sched_ctx s' = uth_sched_ctx s \<and> sigmask s' = uc_sigmask (uth_sched_ctx s) \<and>
     mutexes (erase s') m = Some (xm\<lparr>mtx_owner := UTH_TID_INVALID, mtx_locked := 0, mtx_waiters := NULL\<rparr>)"
proof -
  let ?s = "s\<lparr>sigmask := True\<rparr>"
  have inv0: "lib_inv ?s rq wq" and r0: "runs ?s x t" using inv r by simp_all
  have "x \<noteq> NULL" by (rule runs_not_NULL [OF inv r])
  then have c0: "caller ?s" using r by (auto simp: caller_def running_def runs_def)
  obtain s1 where s1: "uth_mutex_unlock m ?s = Ok (Return RetVoid, s1)" "lib_inv s1 (rq @ take 1 (wq M)) (wq(M := tl (wq M)))"
      "stays ?s s1" "sigmask s1"
      "erase s1 = (let a = set_mutex m (xm\<lparr>mtx_owner := UTH_TID_INVALID, mtx_locked := 0, mtx_waiters := NULL\<rparr>) (erase ?s) in
       if wq M = [] then a else set_state (hd (wq M)) UTH_STATE_READY a)"
    using mutex_unlock_ok [OF inv0 c0, of m xm] m unfolding M_def by auto
  obtain t1 where r1: "runs s1 x t1" using s1(3) r0 running_runs by (metis stays_def)
  have e1: "conds (erase s1) c = conds (erase s) c" "uth_sched_ctx (erase s1) = uth_sched_ctx s"
      "mutexes (erase s1) m = Some (xm\<lparr>mtx_owner := UTH_TID_INVALID, mtx_locked := 0, mtx_waiters := NULL\<rparr>)"
    unfolding s1(5) by (simp_all add: Let_def)
  have "mapped C (erase s1)" using e1(1) c by (auto simp: C_def mapped_waiters erase_maps)
  then have "mapped C s1" by simp
  moreover have "stack_ok (sigmask s1) [F_cond_wait c m (sigmask s)]" using s1(4) by simp
  ultimately obtain s' where s': "uth_block C [F_cond_wait c m (sigmask s)] s1 = Ok (Switched, s')"
      "lib_inv s' (rq @ take 1 (wq M)) ((wq(M := tl (wq M)))(C := (wq(M := tl (wq M))) C @ [x]))" "no_running s'"
      "erase s' = switched UTH_STATE_BLOCKED x [F_cond_wait c m (sigmask s)] (erase s1)"
    using uth_block_ok [OF s1(2) r1, of C "F_cond_wait c m (sigmask s)" "[]"] by (auto simp: C_def)
  have "uth_cond_wait c m [] s = Ok (Switched, s')"
    using s1(1) s'(1) by (simp add: uth_cond_wait_def uth_preempt_off_def C_def)
  moreover have "mutexes (erase s') m = Some (xm\<lparr>mtx_owner := UTH_TID_INVALID, mtx_locked := 0, mtx_waiters := NULL\<rparr>)"
    unfolding s'(4) using e1(3) by (simp add: switched_def)
  ultimately show ?thesis using s'(2,3) switched_fields [OF s'(4)] e1(2) by (simp add: M_def C_def)
qed

lemma cond_wait_post:
  assumes inv: "lib_inv s rq wq" and c: "caller s" and res: "uth_cond_wait cv m [] s = Ok (c, s')"
  shows "lib_post s (sigmask s) c s'"
proof -
  let ?s = "s\<lparr>sigmask := True\<rparr>"
  have inv0: "lib_inv ?s rq wq" and c0: "caller ?s" using inv c by simp_all
  obtain r s1 where s1: "uth_mutex_unlock m ?s = Ok (r, s1)" "uth_block (CondWaiters cv) [F_cond_wait cv m (sigmask s)] s1 = Ok (c, s')"
    using res by (auto simp: uth_cond_wait_def uth_preempt_off_def ok_iff)
  from mutex_unlock_post [OF inv0 c0 s1(1)] inv0 obtain rq1 wq1 where inv1: "lib_inv s1 rq1 wq1" "prefix rq rq1" and st: "stays ?s s1" "sigmask s1"
    by (auto simp: lib_post_def rq_grows_def)
  have nz: "uth_current s1 \<noteq> NULL" using uth_block_outside s1(2) by fastforce
  from caller_runs [OF caller_stays [OF c0 st(1)] nz] obtain t where r: "runs s1 (uth_current s1) t" by blast
  have "mapped (CondWaiters cv) s1" using uth_block_unmapped [of "CondWaiters cv" s1] s1(2) by auto
  then obtain s2 where "uth_block (CondWaiters cv) [F_cond_wait cv m (sigmask s)] s1 = Ok (Switched, s2)"
      "lib_inv s2 rq1 (wq1(CondWaiters cv := wq1 (CondWaiters cv) @ [uth_current s1]))" "no_running s2"
      "erase s2 = switched UTH_STATE_BLOCKED (uth_current s1) [F_cond_wait cv m (sigmask s)] (erase s1)"
    using uth_block_ok [OF inv1(1) r, of "CondWaiters cv" "F_cond_wait cv m (sigmask s)" "[]"] st(2) by auto
  moreover have "settled (erase s) (erase s1)" using st(1) by (simp add: stays_def settled_erase)
  ultimately show ?thesis using s1(2) nz st(1) inv1(2) settled_switch [OF _ runs_erase(1,2) [OF r]]
    by (auto intro!: lib_post_switched [OF inv] simp: stays_def)
qed

lemma cond_wait_resumed_post:
  assumes inv: "lib_inv s rq wq" and c: "caller s" and m: "sigmask s"
    and res: "uth_cond_wait_resumed mx old [] s = Ok (c, s')"
  shows "lib_post s old c s'"
proof -
  obtain c1 s1 where s1: "uth_mutex_lock mx [F_cond_relock old] s = Ok (c1, s1)"
      "(if c1 = Return RetVoid then uth_cond_relocked old s1 else Ok (c1, s1)) = Ok (c, s')"
    using res by (auto simp: uth_cond_wait_resumed_def ok_iff)
  have "lib_post s (sigmask s) c1 s1 \<and> (c1 = Return RetVoid \<or> c1 = Switched)"
    using mutex_lock_post [OF inv c _ s1(1)] m by simp
  with s1(2) show ?thesis
    by (auto simp: lib_post_def uth_cond_relocked_def uth_preempt_restore_def)
qed

lemma cond_signal_ok:
  assumes inv: "lib_inv s rq wq" and c: "conds s c \<noteq> None"
  defines "C \<equiv> CondWaiters c"
  shows "\<exists>s'. uth_cond_signal c s = Ok (Return RetVoid, s') \<and> lib_inv s' (rq @ take 1 (wq C)) (wq(C := tl (wq C))) \<and>
     stays s s' \<and> sigmask s' = sigmask s \<and>
     erase s' = (if wq C = [] then erase s else set_state (hd (wq C)) UTH_STATE_READY (erase s))"
proof -
  let ?s = "s\<lparr>sigmask := True\<rparr>"
  obtain w s1 where s1: "uth_wake_one C ?s = Ok (w, s1)" "lib_inv s1 (rq @ take 1 (wq C)) (wq(C := tl (wq C)))"
      "stays ?s s1" "erase s1 = (if wq C = [] then erase ?s else set_state (hd (wq C)) UTH_STATE_READY (erase ?s))"
    using lib_wake_step [of ?s rq wq C] inv c unfolding C_def by (auto simp: mapped_waiters)
  have "stays s s1" using stays_trans [OF stays_sigmask(1) s1(3)] .
  moreover have "uth_cond_signal c s = Ok (Return RetVoid, s1\<lparr>sigmask := sigmask s\<rparr>)"
    using s1(1) by (simp add: uth_cond_signal_def uth_preempt_off_def uth_preempt_restore_def C_def)
  ultimately show ?thesis using s1(2,4) by (auto simp: sigmask_same)
qed

lemma cond_broadcast_ok:
  assumes inv: "lib_inv s rq wq" and c: "conds s c \<noteq> None"
  defines "C \<equiv> CondWaiters c"
  shows "\<exists>s'. uth_cond_broadcast c s = Ok (Return RetVoid, s') \<and> lib_inv s' (rq @ wq C) (wq(C := [])) \<and>
     stays s s' \<and> sigmask s' = sigmask s"
proof -
  let ?s = "s\<lparr>sigmask := True\<rparr>"
  obtain s1 where s1: "uth_wake_all C ?s = Ok s1" "lib_inv s1 (rq @ wq C) (wq(C := []))" "stays ?s s1"
    using lib_wake_all [of ?s rq wq C] inv c by (auto simp: C_def mapped_waiters)
  have "stays s s1" using stays_trans [OF stays_sigmask(1) s1(3)] .
  moreover have "uth_cond_broadcast c s = Ok (Return RetVoid, s1\<lparr>sigmask := sigmask s\<rparr>)"
    using s1(1) by (simp add: uth_cond_broadcast_def uth_preempt_off_def uth_preempt_restore_def C_def)
  ultimately show ?thesis using s1(2) by auto
qed

section \<open>The semaphore as a waiting loop\<close>

definition sem_avail :: "ptr \<Rightarrow> sys \<Rightarrow> bool" where
  "sem_avail p s \<longleftrightarrow> (\<exists>x. sems s p = Some x \<and> 0 < sem_value x)"

definition sem_take :: "ptr \<Rightarrow> sys \<Rightarrow> sys" where
  "sem_take p s = (case sems s p of None \<Rightarrow> s | Some x \<Rightarrow> set_sem p (x\<lparr>sem_value := sem_value x - 1\<rparr>) s)"

interpretation sem_wait: blocking_wait "sem_wait_loop p" "\<lambda>s. sems s p \<noteq> None" "sem_avail p"
  "sem_take p" "\<lambda>s. s" "SemWaiters p" "F_sem_wait p" for p
proof unfold_locales
  fix s old k rq wq x t
  show "\<not> sems s p \<noteq> None \<Longrightarrow> sem_wait_loop p old k s = Fault BadObject"
    by (simp add: sem_wait_loop_def get_sem_def)
  show "\<lbrakk>sems s p \<noteq> None; sem_avail p s\<rbrakk> \<Longrightarrow>
      sem_wait_loop p old k s = Ok (Return RetVoid, (sem_take p s)\<lparr>sigmask := old\<rparr>)"
    by (auto simp: sem_wait_loop_def sem_avail_def sem_take_def uth_preempt_restore_def)
  show "\<lbrakk>lib_inv s rq wq; sems s p \<noteq> None; sem_avail p s\<rbrakk> \<Longrightarrow> lib_inv (sem_take p s) rq wq \<and> stays s (sem_take p s)"
    by (auto simp: sem_take_def)
  show "\<lbrakk>uth_current s = NULL; sems s p \<noteq> None; \<not> sem_avail p s\<rbrakk> \<Longrightarrow> sem_wait_loop p old k s = Fault NullDeref"
    by (auto simp: sem_wait_loop_def sem_avail_def uth_block_outside)
  show "\<lbrakk>sems s p \<noteq> None; \<not> sem_avail p s\<rbrakk> \<Longrightarrow> sem_wait_loop p old k s = uth_block (SemWaiters p) (F_sem_wait p old # k) s"
    by (auto simp: sem_wait_loop_def sem_avail_def)
  show "\<lbrakk>lib_inv s rq wq; sems s p \<noteq> None\<rbrakk> \<Longrightarrow> lib_inv s rq wq \<and> stays s s \<and> sigmask s = sigmask s \<and> mapped (SemWaiters p) s"
    by (auto simp: mapped_waiters)
qed simp_all

lemma sem_wait_post:
  assumes "lib_inv s rq wq" and "caller s" and "caller_ok (sigmask s) k" and "uth_sem_wait p k s = Ok (c, s')"
  shows "lib_post s (sigmask s) c s'"
proof -
  have "sem_wait_loop p (sigmask s) k (s\<lparr>sigmask := True\<rparr>) = Ok (c, s')"
    using assms(4) by (simp add: uth_sem_wait_def uth_preempt_off_def)
  from sem_wait.post [OF _ _ _ assms(3) this] assms(1,2) show ?thesis
    by (auto intro: lib_post_stays [of "s\<lparr>sigmask := True\<rparr>"])
qed

lemma sem_post_ok:
  assumes inv: "lib_inv s rq wq" and x: "sems s p = Some x" and le: "sem_value x \<noteq> INT_MAX"
  defines "q \<equiv> SemWaiters p"
  shows "\<exists>s'. uth_sem_post p s = Ok (Return RetVoid, s') \<and> lib_inv s' (rq @ take 1 (wq q)) (wq(q := tl (wq q))) \<and>
     stays s s' \<and> sigmask s' = sigmask s \<and>
     erase s' = (let a = set_sem p (x\<lparr>sem_value := sem_value x + 1, sem_waiters := NULL\<rparr>) (erase s) in
       if wq q = [] then a else set_state (hd (wq q)) UTH_STATE_READY a)"
proof -
  let ?s = "set_sem p (x\<lparr>sem_value := sem_value x + 1\<rparr>) (s\<lparr>sigmask := True\<rparr>)"
  have "lib_inv ?s rq wq" using inv x by simp
  then obtain w s1 where s1: "uth_wake_one q ?s = Ok (w, s1)" "lib_inv s1 (rq @ take 1 (wq q)) (wq(q := tl (wq q)))"
      "stays ?s s1" "erase s1 = (if wq q = [] then erase ?s else set_state (hd (wq q)) UTH_STATE_READY (erase ?s))"
    using lib_wake_step [of ?s rq wq q] by (auto simp: q_def mapped_waiters)
  have "stays s ?s" by (rule stays_heap) simp_all
  from stays_trans [OF this s1(3)] have st: "stays s s1" .
  have "uth_sem_post p s = Ok (Return RetVoid, s1\<lparr>sigmask := sigmask s\<rparr>)"
    using x le s1(1) by (simp add: uth_sem_post_def uth_preempt_off_def uth_preempt_restore_def q_def)
  moreover have "erase (s1\<lparr>sigmask := sigmask s\<rparr>) =
      (let a = set_sem p (x\<lparr>sem_value := sem_value x + 1, sem_waiters := NULL\<rparr>) (erase s) in
       if wq q = [] then a else set_state (hd (wq q)) UTH_STATE_READY a)"
    by (simp add: s1(4) Let_def sigmask_same)
  ultimately show ?thesis using s1(2) st by auto
qed

lemma sem_post_post:
  assumes inv: "lib_inv s rq wq" and res: "uth_sem_post p s = Ok (c, s')"
  shows "lib_post s (sigmask s) c s'"
proof -
  obtain x where x: "sems s p = Some x" "sem_value x \<noteq> INT_MAX"
    using res by (auto simp: uth_sem_post_def uth_preempt_off_def ok_iff split: if_splits)
  from sem_post_ok [OF inv x] res show ?thesis by (auto intro: lib_post_return [OF inv])
qed

section \<open>Initialisation and release of the objects\<close>

lemma sync_init_post:
  assumes inv: "lib_inv s rq wq"
  shows "lib_post s (sigmask s) (Return r) (uth_mutex_init m s)" "lib_post s (sigmask s) (Return r) (uth_spin_init m s)"
    "lib_post s (sigmask s) (Return r) (uth_ticket_init m s)" "lib_post s (sigmask s) (Return r) (uth_cond_init m s)"
    "uth_sem_init m v s = Ok (c, s') \<Longrightarrow> lib_post s (sigmask s) c s'"
proof -
  show "lib_post s (sigmask s) (Return r) (uth_mutex_init m s)"
    unfolding uth_mutex_init_def by (rule lib_post_return [OF inv lib_inv_init(1) [OF inv]]) simp_all
  show "lib_post s (sigmask s) (Return r) (uth_spin_init m s)"
    using inv by (intro lib_post_return [OF inv, of _ rq wq]) (simp_all add: uth_spin_init_def)
  show "lib_post s (sigmask s) (Return r) (uth_ticket_init m s)"
    unfolding uth_ticket_init_def by (rule lib_post_return [OF inv lib_inv_init(2) [OF inv]]) simp_all
  show "lib_post s (sigmask s) (Return r) (uth_cond_init m s)"
    unfolding uth_cond_init_def by (rule lib_post_return [OF inv lib_inv_init(3) [OF inv]]) simp_all
  show "uth_sem_init m v s = Ok (c, s') \<Longrightarrow> lib_post s (sigmask s) c s'"
    using lib_post_return [OF inv lib_inv_init(4) [OF inv]] by (auto simp: uth_sem_init_def split: if_splits)
qed

lemma destroy_same:
  "uth_mutex_destroy m s = Ok (c, s') \<Longrightarrow> c = Return RetVoid \<and> s' = s"
  "uth_ticket_destroy m s = Ok (c, s') \<Longrightarrow> c = Return RetVoid \<and> s' = s"
  "uth_cond_destroy m s = Ok (c, s') \<Longrightarrow> c = Return RetVoid \<and> s' = s"
  "uth_sem_destroy m s = Ok (c, s') \<Longrightarrow> c = Return RetVoid \<and> s' = s"
  by (auto simp: uth_mutex_destroy_def uth_ticket_destroy_def uth_cond_destroy_def uth_sem_destroy_def ok_iff split: if_splits)

end
