(* ===== verification/Uth_Preempt.thy ===== *)
theory Uth_Preempt
  imports Uth_Sync
begin

text \<open>
  \<open>preempt.c\<close>: the \<open>SIGALRM\<close> handler and the control of the timer. \<open>setitimer\<close> is modelled by its
  documented contract: it refuses a \<open>tv_usec\<close> outside \<open>0 .. 999999\<close>, and a zero \<open>it_value\<close>
  disarms the timer.
\<close>

definition uth_preempt_handler :: "ucontext_t \<Rightarrow> sys \<Rightarrow> (ctl \<times> sys) res" where
  "uth_preempt_handler ucp s =
     (if uth_current s = NULL then Ok (Return RetVoid, s)
      else
        let t = uth_current s in
        and_then (modify_tcb t (\<lambda>x. x\<lparr>tcb_ctx := ucp\<lparr>uc_fpregs := t\<rparr>, tcb_state := UTH_STATE_READY\<rparr>) s) (\<lambda>s.
        and_then (uth_enqueue t s) (\<lambda>s.
        Ok (Switched, s\<lparr>uth_current := NULL, sigmask := uc_sigmask (uth_sched_ctx s)\<rparr>))))"

text \<open>What \<open>malloc\<close>, \<open>sigaltstack\<close> and \<open>sigaction\<close> answer in one call of \<open>uth_preempt_enable\<close>.\<close>

record preempt_env =
  env_malloc :: ptr
  env_sigaltstack :: bool
  env_sigaction :: bool

definition setitimer_ok :: "u64 \<Rightarrow> bool" where
  "setitimer_ok usec \<longleftrightarrow> unat usec \<le> 999999"

definition uth_preempt_enable :: "u32 \<Rightarrow> preempt_env \<Rightarrow> sys \<Rightarrow> (ctl \<times> sys) res" where
  "uth_preempt_enable interval_ms env s =
     (if preempt_enabled s then Ok (Return RetVoid, s)
      else if alt_stack_mem s = NULL \<and> env_malloc env = NULL then Fault (ExitFailure ''malloc alt stack'')
      else
        let s = (if alt_stack_mem s = NULL then s\<lparr>alt_stack_mem := env_malloc env\<rparr> else s) in
        if \<not> env_sigaltstack env then Fault (ExitFailure ''sigaltstack'')
        else if \<not> env_sigaction env then Fault (ExitFailure ''sigaction SIGALRM'')
        else
          let s = s\<lparr>sigalrm_handler := True\<rparr>;
              usec = ucast (interval_ms * 1000) in
          if \<not> setitimer_ok usec then Fault (ExitFailure ''setitimer'')
          else Ok (Remains F_preempt_enable, s\<lparr>itimer_usec := usec\<rparr>))"

text \<open>
  The timer runs before \<open>preempt_enabled\<close> is set, and it still runs when \<open>uth_preempt_disable\<close> has tested the flag; \<open>SIGALRM\<close> may
  arrive at both points.
\<close>

definition preempt_enable_end :: "sys \<Rightarrow> (ctl \<times> sys) res" where
  "preempt_enable_end s = Ok (Return RetVoid, s\<lparr>preempt_enabled := True\<rparr>)"

definition uth_preempt_disable :: "sys \<Rightarrow> (ctl \<times> sys) res" where
  "uth_preempt_disable s = Ok (if \<not> preempt_enabled s then Return RetVoid else Remains F_preempt_disable, s)"

definition preempt_disable_end :: "sys \<Rightarrow> (ctl \<times> sys) res" where
  "preempt_disable_end s = Ok (Return RetVoid, s\<lparr>itimer_usec := 0, sigalrm_handler := False, preempt_enabled := False\<rparr>)"

section \<open>Preemption of the running thread\<close>

lemma handler_idle: "uth_current s = NULL \<Longrightarrow> uth_preempt_handler ucp s = Ok (Return RetVoid, s)"
  by (simp add: uth_preempt_handler_def)

text \<open>The interrupted context is saved, the thread goes to the end of the run queue, and the scheduler runs.\<close>

definition preempted :: "ucontext_t \<Rightarrow> ptr \<Rightarrow> sys \<Rightarrow> sys" where
  "preempted ucp x a = (upd_tcb x (\<lambda>t. t\<lparr>tcb_state := UTH_STATE_READY, tcb_ctx := ucp\<lparr>uc_fpregs := x\<rparr>\<rparr>) a)
     \<lparr>uth_current := NULL, sigmask := uc_sigmask (uth_sched_ctx a)\<rparr>"

lemma handler_preempts:
  assumes inv: "lib_inv s rq wq" and r: "runs s x t" and k: "ctx_ok (erase s) True x (uc_sigmask ucp) (uc_frames ucp)"
  shows "\<exists>s'. uth_preempt_handler ucp s = Ok (Switched, s') \<and> lib_inv s' (rq @ [x]) wq \<and> no_running s' \<and>
     uth_current s' = NULL \<and> erase s' = preempted ucp x (erase s)"
proof -
  have x: "x \<noteq> NULL" "heap s x = Some t" "uth_current s = x" using runs_not_NULL [OF inv r] r by (simp_all add: runs_def)
  let ?f = "\<lambda>t. t\<lparr>tcb_ctx := ucp\<lparr>uc_fpregs := x\<rparr>, tcb_state := UTH_STATE_READY\<rparr>"
  let ?s = "upd_tcb x ?f s"
  have "shape ?s rq wq" using lib_invD(1) [OF inv] by simp
  then obtain s1 where s1: "uth_enqueue x ?s = Ok s1" "shape s1 (rq @ [x]) wq" "erase s1 = set_state x UTH_STATE_READY (erase ?s)"
    using uth_enqueue_shape [of ?s rq wq x] x runs_unqueued [OF inv r] by (auto simp: heap_upd_tcb)
  let ?s1 = "s1\<lparr>uth_current := NULL, sigmask := uc_sigmask (uth_sched_ctx s1)\<rparr>"
  have swap: "t\<lparr>tcb_ctx := c, tcb_state := st\<rparr> = t\<lparr>tcb_state := st, tcb_ctx := c\<rparr>" for t c st by (cases t) simp
  have ctx: "uth_sched_ctx s1 = uth_sched_ctx s" using erase_fields [OF s1(3)] by simp
  have e: "erase ?s1 = preempted ucp x (erase s)"
    by (simp add: s1(3) preempted_def upd_tcb_upd_tcb swap ctx)
  let ?a = "(upd_tcb x (\<lambda>t. t\<lparr>tcb_state := UTH_STATE_READY, tcb_ctx := ucp\<lparr>uc_fpregs := x\<rparr>\<rparr>) (erase s))"
  have h: "heap ?a = (heap (erase s))(x \<mapsto> t\<lparr>tcb_next := NULL, tcb_state := UTH_STATE_READY, tcb_ctx := ucp\<lparr>uc_fpregs := x\<rparr>\<rparr>)"
    using runs_erase(1) [OF r] by (simp add: upd_tcb_def)
  have "sched_inv ?a (rq @ [x]) wq"
    using effect_ready [OF lib_invD(2) [OF inv] runs_erase(1,2) [OF r] h] k by (simp add: same_table_def)
  moreover have "erase s1 = ?a" by (simp add: s1(3) upd_tcb_upd_tcb swap)
  moreover have nr: "no_running ?a" using no_running_upd [OF lib_invD(2) [OF inv] runs_erase(1,2) [OF r] h] by simp
  ultimately have inv1: "lib_inv s1 (rq @ [x]) wq" and nr1: "no_running s1"
    using s1(2) by (simp_all add: lib_inv_def no_running_erase [of s1, symmetric])
  have "lib_inv (s1\<lparr>uth_current := NULL\<rparr>) (rq @ [x]) wq" using inv1 by (simp add: lib_inv_current [OF nr1])
  then have "lib_inv ?s1 (rq @ [x]) wq" by simp
  moreover have "no_running ?s1" using nr1 by (simp add: no_running_def)
  moreover have "uth_preempt_handler ucp s = Ok (Switched, ?s1)"
    using x s1(1) by (simp add: uth_preempt_handler_def Let_def)
  ultimately show ?thesis using e by auto
qed

lemma preempted_settled:
  assumes r: "runs s x t" and e: "erase s' = preempted ucp x (erase s)"
  shows "settled s s'"
proof -
  have "settled (erase s) (erase s')"
    unfolding e using runs_erase(1,2) [OF r] by (auto simp: preempted_def settled_def heap_upd_tcb kept_def)
  then show ?thesis by (simp add: settled_erase)
qed

section \<open>The timer\<close>

lemma preempt_enable_cases:
  assumes "uth_preempt_enable ms env s = Ok (c, s')"
  shows "c = Return RetVoid \<and> s' = s \<or> c = Remains F_preempt_enable \<and> \<not> preempt_enabled s \<and> unat (ms * 1000) \<le> 999999 \<and>
     (\<exists>a. a \<noteq> NULL \<and> s' = s\<lparr>alt_stack_mem := a, sigalrm_handler := True, itimer_usec := ucast (ms * 1000)\<rparr>)"
proof (cases "preempt_enabled s")
  case False
  let ?a = "if alt_stack_mem s = NULL then env_malloc env else alt_stack_mem s"
  have "?a \<noteq> NULL" "c = Remains F_preempt_enable" "unat (ms * 1000) \<le> 999999"
    "s' = s\<lparr>alt_stack_mem := ?a, sigalrm_handler := True, itimer_usec := ucast (ms * 1000)\<rparr>"
    using assms False by (simp_all add: uth_preempt_enable_def setitimer_ok_def Let_def split: if_splits)
  with False show ?thesis by blast
qed (use assms in \<open>simp add: uth_preempt_enable_def\<close>)

text \<open>The end of a call that keeps the processor: it returns, or the rest of its body remains.\<close>

lemma lib_post_open:
  assumes "lib_inv s rq wq" and "lib_inv s' rq wq" and "stays s s'" and "sigmask s' = b" and "\<And>f. c = Remains f \<Longrightarrow> open_frame f"
    and "c \<noteq> Switched" and "\<And>fn arg. c \<noteq> CallUser fn arg"
  shows "lib_post s b c s'"
  using assms lib_post_return [OF assms(1,2,3,4)] by (cases c) (simp_all add: lib_post_def)

lemma preempt_end_post:
  assumes inv: "lib_inv s rq wq"
  shows "preempt_enable_end s = Ok (c, s') \<Longrightarrow> lib_post s (sigmask s) c s'" "preempt_disable_end s = Ok (c, s') \<Longrightarrow> lib_post s (sigmask s) c s'"
    "uth_preempt_disable s = Ok (c, s') \<Longrightarrow> lib_post s (sigmask s) c s'"
proof -
  have "lib_post s (sigmask s) c (s\<lparr>itimer_usec := a, sigalrm_handler := h, preempt_enabled := e\<rparr>)"
    if "c \<noteq> Switched" "\<And>fn arg. c \<noteq> CallUser fn arg" "\<And>f. c = Remains f \<Longrightarrow> open_frame f" for a h e
    by (rule lib_post_open [OF inv]) (use inv that in \<open>simp_all add: stays_heap\<close>)
  note this [where a = "itimer_usec s" and h = "sigalrm_handler s" and e = True] this [where a = 0 and h = False and e = False]
  then show "preempt_enable_end s = Ok (c, s') \<Longrightarrow> lib_post s (sigmask s) c s'" "preempt_disable_end s = Ok (c, s') \<Longrightarrow> lib_post s (sigmask s) c s'"
    by (auto simp: preempt_enable_end_def preempt_disable_end_def)
  show "lib_post s (sigmask s) c s'" if "uth_preempt_disable s = Ok (c, s')"
    using that inv by (intro lib_post_open [OF inv]) (auto simp: uth_preempt_disable_def split: if_splits)
qed

lemma preempt_enable_post:
  assumes inv: "lib_inv s rq wq" and res: "uth_preempt_enable ms env s = Ok (c, s')"
  shows "lib_post s (sigmask s) c s'"
proof -
  note E = preempt_enable_cases [OF res]
  have "lib_inv s' rq wq \<and> stays s s' \<and> sigmask s' = sigmask s"
  proof (cases "s' = s")
    case False
    with E obtain a b d where "s' = s\<lparr>alt_stack_mem := a, sigalrm_handler := b, itimer_usec := d\<rparr>" by blast
    with inv show ?thesis by (simp add: stays_heap)
  qed (use inv in simp)
  with E show ?thesis by (intro lib_post_open [OF inv]) auto
qed

section \<open>The count of active threads\<close>

lemma active_count_post:
  assumes inv: "lib_inv s rq wq"
  shows "uth_active_count s = Ok (c, s') \<Longrightarrow> lib_post s (sigmask s) c s'" "active_count_loop i n s = Ok (c, s') \<Longrightarrow> lib_post s (sigmask s) c s'"
    "active_count_at i n t s = Ok (c, s') \<Longrightarrow> lib_post s (sigmask s) c s'"
proof -
  have "lib_post s (sigmask s) c s'" if "s' = s \<and> c \<noteq> Switched \<and> (\<forall>fn arg. c \<noteq> CallUser fn arg) \<and> (\<forall>f. c = Remains f \<longrightarrow> open_frame f)"
    using that inv by (intro lib_post_open [OF inv]) auto
  then show "uth_active_count s = Ok (c, s') \<Longrightarrow> lib_post s (sigmask s) c s'" "active_count_loop i n s = Ok (c, s') \<Longrightarrow> lib_post s (sigmask s) c s'"
    "active_count_at i n t s = Ok (c, s') \<Longrightarrow> lib_post s (sigmask s) c s'"
    by (auto simp: uth_active_count_def active_count_loop_def active_count_at_def ok_iff split: if_splits)
qed

end
