(* ===== verification/Uth_Machine.thy ===== *)
theory Uth_Machine
  imports Uth_Preempt
begin

text \<open>
  The whole library as a transition system. A configuration says where control is and holds the
  state of the process. User code may make any call of \<open>uthreads.h\<close> at any time; a library function
  that was suspended continues with its frame; the scheduler runs its loop; and \<open>SIGALRM\<close> may
  arrive between any two steps where it is not blocked. The process may start with any signal mask. \<open>uth_self\<close>, and the initialisation and
  destruction of an object, run with the mask of the caller and are one step each.
\<close>

section \<open>The calls of the interface\<close>

datatype api =
    A_init | A_create ptr val u64 os_env | A_yield | A_exit val | A_join u32 bool | A_self | A_active_count
  | A_mutex_init ptr | A_mutex_lock ptr | A_mutex_unlock ptr | A_mutex_destroy ptr
  | A_spin_init ptr | A_spin_lock ptr | A_spin_unlock ptr | A_spin_destroy ptr
  | A_ticket_init ptr | A_ticket_lock ptr | A_ticket_unlock ptr | A_ticket_destroy ptr
  | A_cond_init ptr | A_cond_wait ptr ptr | A_cond_signal ptr | A_cond_broadcast ptr | A_cond_destroy ptr
  | A_sem_init ptr int | A_sem_wait ptr | A_sem_post ptr | A_sem_destroy ptr
  | A_preempt_enable u32 preempt_env | A_preempt_disable

fun api_call :: "api \<Rightarrow> sys \<Rightarrow> (ctl \<times> sys) res" where
  "api_call A_init s = Ok (Return RetVoid, uth_init s)"
| "api_call (A_create fn arg ssize env) s = uth_create fn arg ssize env s"
| "api_call A_yield s = uth_yield [] s"
| "api_call (A_exit v) s = uth_exit v [] s"
| "api_call (A_join tid want) s = uth_join tid want [] s"
| "api_call A_self s = and_then (uth_self s) (\<lambda>i. Ok (Return (RetTid i), s))"
| "api_call A_active_count s = uth_active_count s"
| "api_call (A_mutex_init m) s = Ok (Return RetVoid, uth_mutex_init m s)"
| "api_call (A_mutex_lock m) s = uth_mutex_lock m [] s"
| "api_call (A_mutex_unlock m) s = uth_mutex_unlock m s"
| "api_call (A_mutex_destroy m) s = uth_mutex_destroy m s"
| "api_call (A_spin_init p) s = Ok (Return RetVoid, uth_spin_init p s)"
| "api_call (A_spin_lock p) s = uth_spin_lock p [] s"
| "api_call (A_spin_unlock p) s = uth_spin_unlock p s"
| "api_call (A_spin_destroy p) s = Ok (Return RetVoid, uth_spin_destroy p s)"
| "api_call (A_ticket_init p) s = Ok (Return RetVoid, uth_ticket_init p s)"
| "api_call (A_ticket_lock p) s = uth_ticket_lock p [] s"
| "api_call (A_ticket_unlock p) s = uth_ticket_unlock p s"
| "api_call (A_ticket_destroy p) s = uth_ticket_destroy p s"
| "api_call (A_cond_init c) s = Ok (Return RetVoid, uth_cond_init c s)"
| "api_call (A_cond_wait c m) s = uth_cond_wait c m [] s"
| "api_call (A_cond_signal c) s = uth_cond_signal c s"
| "api_call (A_cond_broadcast c) s = uth_cond_broadcast c s"
| "api_call (A_cond_destroy c) s = uth_cond_destroy c s"
| "api_call (A_sem_init p v) s = uth_sem_init p v s"
| "api_call (A_sem_wait p) s = uth_sem_wait p [] s"
| "api_call (A_sem_post p) s = uth_sem_post p s"
| "api_call (A_sem_destroy p) s = uth_sem_destroy p s"
| "api_call (A_preempt_enable ms env) s = uth_preempt_enable ms env s"
| "api_call A_preempt_disable s = uth_preempt_disable s"

text \<open>\<open>calloc\<close> returns memory that is not in use, and the argument of \<open>uth_sem_init\<close> is a C \<open>int\<close>.\<close>

fun env_ok :: "api \<Rightarrow> sys \<Rightarrow> bool" where
  "env_ok (A_create fn arg ssize env) s = (heap s (env_calloc env) = None)"
| "env_ok (A_sem_init p v) s = (- INT_MAX - 1 \<le> v \<and> v \<le> INT_MAX)"
| "env_ok _ s = True"

section \<open>Suspended functions\<close>

fun resume_frame :: "frame \<Rightarrow> frame list \<Rightarrow> sys \<Rightarrow> (ctl \<times> sys) res" where
  "resume_frame (F_trampoline hi lo) k s = thread_trampoline hi lo s"
| "resume_frame (F_create_ret t) k s = uth_create_ret t s"
| "resume_frame (F_yield old) k s = uth_yield_resumed old s"
| "resume_frame F_exit k s = Fault Unreachable"
| "resume_frame (F_join tid want old) k s = uth_join_resumed tid want old s"
| "resume_frame (F_mutex_lock m old) k s = mutex_lock_loop m old k s"
| "resume_frame (F_spin_lock p) k s = uth_spin_lock p k s"
| "resume_frame (F_ticket_lock p tk old) k s = ticket_lock_loop p tk old k s"
| "resume_frame (F_cond_wait c m old) k s = uth_cond_wait_resumed m old k s"
| "resume_frame (F_cond_relock old) k s = uth_cond_relocked old s"
| "resume_frame (F_sem_wait p old) k s = sem_wait_loop p old k s"
| "resume_frame F_sched_entry k s = Fault Unreachable"
| "resume_frame F_sched_swapped k s = Fault Unreachable"
| "resume_frame (F_count i count) k s = active_count_loop i count s"
| "resume_frame (F_count_at i count t) k s = active_count_at i count t s"
| "resume_frame F_preempt_enable k s = preempt_enable_end s"
| "resume_frame F_preempt_disable k s = preempt_disable_end s"

section \<open>Steps\<close>

text \<open>
  \<open>User k\<close>: the current thread, or the code outside of every thread when \<open>uth_current\<close> is
  \<open>NULL\<close>, is in the library frames \<open>k\<close>, or in user code when \<open>k\<close> is empty. \<open>SchedEntry\<close>,
  \<open>SchedTop\<close> and \<open>SchedBack\<close>: the scheduler is at its entry, at the head of its loop, or just back
  from a thread.
\<close>

datatype loc = User "frame list" | SchedEntry | SchedTop | SchedBack

fun transfer :: "ctl \<Rightarrow> frame list \<Rightarrow> loc" where
  "transfer (Return r) k = User k"
| "transfer Switched k = SchedBack"
| "transfer (CallUser fn arg) k = User []"
| "transfer (Remains f) k = User (f # k)"

fun frames_at :: "loc \<Rightarrow> frame list" where
  "frames_at (User k) = k"
| "frames_at SchedEntry = [F_sched_entry]"
| "frames_at SchedTop = [F_sched_entry]"
| "frames_at SchedBack = [F_sched_swapped]"

definition tick_pending :: "sys \<Rightarrow> bool" where
  "tick_pending s \<longleftrightarrow> sigalrm_handler s \<and> itimer_usec s \<noteq> 0 \<and> \<not> sigmask s"

type_synonym config = "loc \<times> sys"

inductive step :: "config \<Rightarrow> config \<Rightarrow> bool" where
  do_call: "\<lbrakk>env_ok c s; api_call c s = Ok (d, s')\<rbrakk> \<Longrightarrow> step (User [], s) (transfer d [], s')"
| do_resume: "resume_frame f k s = Ok (d, s') \<Longrightarrow> step (User (f # k), s) (transfer d k, s')"
| do_run: "\<lbrakk>uth_current s = NULL; uth_run bp sp s = (RunSchedule, s')\<rbrakk> \<Longrightarrow> step (User [], s) (SchedEntry, s')"
| do_entry: "step (SchedEntry, s) (SchedTop, scheduler_entry s)"
| do_pick: "scheduler_round s = Ok (SchedRun k, s') \<Longrightarrow> step (SchedTop, s) (User k, s')"
| do_idle: "scheduler_round s = Ok (SchedContinue, s') \<Longrightarrow> step (SchedTop, s) (SchedTop, s')"
| do_finish: "\<lbrakk>scheduler_round s = Ok (SchedBreak, s1); uth_run_linked bp sp s1 = (RunReturn, s')\<rbrakk> \<Longrightarrow>
     step (SchedTop, s) (User [], s')"
| do_back: "step (SchedBack, s) (SchedTop, scheduler_swapped s)"
| do_tick: "\<lbrakk>tick_pending s; uc_sigmask ucp = sigmask s; uc_frames ucp = frames_at l;
     uth_preempt_handler ucp s = Ok (d, s')\<rbrakk> \<Longrightarrow> step (l, s) (if d = Switched then SchedBack else l, s')"

inductive reachable :: "config \<Rightarrow> bool" where
  start: "reachable (User [], sys0\<lparr>sigmask := b\<rparr>)"
| next_step: "\<lbrakk>reachable c; step c c'\<rbrakk> \<Longrightarrow> reachable c'"

text \<open>The process inherits its signal mask; \<open>sys0\<close> is the usual case, in which \<open>SIGALRM\<close> is not blocked.\<close>

lemma start_sys0: "reachable (User [], sys0)"
  using start [of False] by (simp add: sys0_def)

inductive_cases step_topE: "step (SchedTop, s) c"
inductive_cases step_backE: "step (SchedBack, s) c"

text \<open>An invariant of the transition system holds in every reachable configuration.\<close>

locale machine_invariant =
  fixes I :: "config \<Rightarrow> bool"
  assumes init: "I (User [], sys0\<lparr>sigmask := b\<rparr>)"
    and preserved: "\<lbrakk>I c; step c c'\<rbrakk> \<Longrightarrow> I c'"
begin

lemma reachable_inv: "reachable c \<Longrightarrow> I c"
  by (induction rule: reachable.induct) (auto intro: init preserved)

end

section \<open>The invariant of configurations\<close>

definition user_inv :: "frame list \<Rightarrow> sys \<Rightarrow> bool" where
  "user_inv k s \<longleftrightarrow> (if uth_current s = NULL then no_running s \<and> (k = [] \<or> (\<exists>f. open_frame f \<and> k = [f]))
     else running s (uth_current s) \<and> ctx_ok (erase s) True (uth_current s) (sigmask s) k \<and>
       uc_sigmask (uth_sched_ctx s) \<and> run_returned s)"

fun cfg_inv :: "config \<Rightarrow> bool" where
  "cfg_inv (User k, s) = (lib_ok s \<and> user_inv k s)"
| "cfg_inv (SchedEntry, s) = (lib_ok s \<and> no_running s \<and> uth_current s = NULL \<and> run_returned s)"
| "cfg_inv (SchedTop, s) = (lib_ok s \<and> no_running s \<and> uth_current s = NULL \<and> sigmask s \<and> run_returned s)"
| "cfg_inv (SchedBack, s) = (lib_ok s \<and> no_running s \<and> sigmask s \<and> run_returned s)"

lemma user_inv_caller: "user_inv k s \<Longrightarrow> caller s"
  by (simp add: user_inv_def caller_def split: if_splits)

lemma caller_ctx_ok: "caller_ok b k \<Longrightarrow> ctx_ok a r x b k"
  by (auto simp: ctx_ok_def elim: caller_ok_cases)

text \<open>A call that satisfies its contract leads to a configuration that satisfies the invariant.\<close>

lemma post_cfg_inv:
  assumes u: "user_inv k0 s" and p: "lib_post s b c s'" and k: "caller_ok b k" and m: "uth_current s = NULL \<Longrightarrow> k = []"
    and r: "k = [] \<or> c = Return RetVoid \<or> c = Switched"
  shows "cfg_inv (transfer c k, s')"
proof (cases c)
  case (Return r)
  with p have st: "lib_ok s'" "stays s s'" "sigmask s' = b" by (auto simp: lib_post_def)
  with u m caller_ctx_ok [OF k] Return show ?thesis by (auto simp: user_inv_def stays_def split: if_splits)
next
  case Switched
  with p u show ?thesis by (auto simp: lib_post_def user_inv_def split: if_splits)
next
  case (CallUser fn arg)
  with p u show ?thesis
    by (auto simp: lib_post_def user_inv_def stays_def ctx_ok_def split: if_splits)
next
  case (Remains f)
  with p have st: "lib_ok s'" "stays s s'" "sigmask s' = b" "open_frame f" by (auto simp: lib_post_def)
  with u r Remains show ?thesis by (auto simp: user_inv_def stays_def ctx_ok_def open_stack_ok split: if_splits)
qed

lemma api_call_post:
  assumes inv: "lib_inv s rq wq" and c: "caller s" and e: "env_ok a s" and res: "api_call a s = Ok (c, s')"
  shows "lib_post s (sigmask s) c s'"
proof (cases a)
  case A_init
  with res inv show ?thesis by (auto simp: uth_init_def intro: lib_post_same)
next
  case A_self
  with res inv show ?thesis by (auto simp: ok_iff intro: lib_post_same)
next
  case A_active_count
  with res active_count_post(1) [OF inv] show ?thesis by simp
next
  case (A_spin_unlock p)
  with res inv show ?thesis by (auto simp: ok_iff uth_spin_unlock_def intro: lib_post_return [OF inv])
next
  case (A_spin_destroy p)
  with res inv show ?thesis by (auto simp: uth_spin_destroy_def intro: lib_post_same)
next
  case (A_create fn arg ssize env)
  with create_post [OF inv] e res show ?thesis by simp
next
  case A_yield
  with yield_post [OF inv c, of "[]"] res show ?thesis by simp
next
  case (A_exit v)
  with exit_post [OF inv c, of v "[]"] res show ?thesis by simp
next
  case (A_join tid want)
  with join_post [OF inv c] res show ?thesis by simp
next
  case (A_mutex_init m)
  with sync_init_post(1) [OF inv] res show ?thesis by auto
next
  case (A_spin_init m)
  with sync_init_post(2) [OF inv] res show ?thesis by auto
next
  case (A_ticket_init m)
  with sync_init_post(3) [OF inv] res show ?thesis by auto
next
  case (A_cond_init m)
  with sync_init_post(4) [OF inv] res show ?thesis by auto
next
  case (A_sem_init m v)
  with sync_init_post(5) [OF inv] res show ?thesis by simp
next
  case (A_mutex_lock m)
  with mutex_lock_post [OF inv c, of "[]"] res show ?thesis by simp
next
  case (A_mutex_unlock m)
  with mutex_unlock_post [OF inv c] res show ?thesis by simp
next
  case (A_spin_lock p)
  with spin_lock_post [OF inv c] res show ?thesis by simp
next
  case (A_ticket_lock p)
  with ticket_lock_post [OF inv c, of "[]"] res show ?thesis by simp
next
  case (A_ticket_unlock p)
  with ticket_unlock_post [OF inv] res show ?thesis by simp
next
  case (A_cond_wait cv m)
  with cond_wait_post [OF inv c] res show ?thesis by simp
next
  case (A_sem_wait p)
  with sem_wait_post [OF inv c, of "[]"] res show ?thesis by simp
next
  case (A_sem_post p)
  with sem_post_post [OF inv] res show ?thesis by simp
next
  case (A_mutex_destroy m)
  with destroy_same(1) [of m s c s'] res inv show ?thesis by (auto intro: lib_post_same)
next
  case (A_ticket_destroy m)
  with destroy_same(2) [of m s c s'] res inv show ?thesis by (auto intro: lib_post_same)
next
  case (A_cond_destroy m)
  with destroy_same(3) [of m s c s'] res inv show ?thesis by (auto intro: lib_post_same)
next
  case (A_sem_destroy m)
  with destroy_same(4) [of m s c s'] res inv show ?thesis by (auto intro: lib_post_same)
next
  case (A_preempt_enable ms env)
  with preempt_enable_post [OF inv] res show ?thesis by simp
next
  case A_preempt_disable
  with preempt_end_post(3) [OF inv] res show ?thesis by simp
next
  case (A_cond_signal p)
  with res have "conds s p \<noteq> None"
    by (auto simp: uth_cond_signal_def uth_preempt_off_def uth_wake_one_def ok_iff pp_simps)
  from cond_signal_ok [OF inv this] A_cond_signal res show ?thesis by (auto intro: lib_post_return [OF inv])
next
  case (A_cond_broadcast p)
  with res have "conds s p \<noteq> None"
    by (cases "conds s p") (simp_all add: uth_cond_broadcast_def uth_preempt_off_def uth_wake_all_def wake_all_loop.simps
      uth_wake_one_def pp_simps get_cond_def)
  from cond_broadcast_ok [OF inv this] A_cond_broadcast res show ?thesis by (auto intro: lib_post_return [OF inv])
qed

text \<open>The same for a suspended function: its frame says which mask it restores.\<close>

lemma resume_yield_post: "lib_inv s rq wq \<Longrightarrow> lib_post s old (Return RetVoid) (uth_preempt_restore old s)"
  by (rule lib_post_return [of _ rq wq _ rq wq]) (simp_all add: uth_preempt_restore_def)

lemma open_post:
  assumes inv: "lib_inv s rq wq" and f: "open_frame f" and res: "resume_frame f k s = Ok (c, s')"
  shows "lib_post s (sigmask s) c s'"
  using f
proof (cases rule: open_frameE)
  case (1 t)
  with res obtain r where "c = Return r" "s' = s" by (auto simp: uth_create_ret_def ok_iff)
  with lib_post_same [OF inv refl] show ?thesis by simp
qed (use res active_count_post [OF inv] preempt_end_post [OF inv] in simp_all)

lemma resume_frame_post:
  assumes inv: "lib_inv s rq wq" and u: "user_inv (f # k) s" and res: "resume_frame f k s = Ok (c, s')"
  shows "lib_post s (frame_mask (sigmask s) f) c s' \<and> caller_ok (frame_mask (sigmask s) f) k \<and> (uth_current s = NULL \<longrightarrow> k = []) \<and>
     (k = [] \<or> c = Return RetVoid \<or> c = Switched)"
proof (cases "open_frame f")
  case True
  with u have k: "k = []" by (auto simp: user_inv_def ctx_ok_def open_stack_ok split: if_splits)
  from open_post [OF inv True] True res k show ?thesis by auto
next
  case closed: False
  with u have False: "uth_current s \<noteq> NULL" by (auto simp: user_inv_def split: if_splits)
  note c = user_inv_caller [OF u]
  have ctx: "ctx_ok (erase s) True (uth_current s) (sigmask s) (f # k)" using u False by (simp add: user_inv_def)
  then have st: "stack_ok (sigmask s) (f # k)" by (simp add: ctx_ok_def)
  show ?thesis
  proof (cases f)
    case (F_trampoline hi lo)
    with res st obtain fn arg where "c = CallUser fn arg" "s' = s" "k = []" by (auto simp: thread_trampoline_def ok_iff)
    with lib_okI [OF inv] show ?thesis by (auto simp: lib_post_def settled_heap)
  next
    case (F_yield old)
    with res st resume_yield_post [OF inv, of old] False show ?thesis by (auto simp: uth_yield_resumed_def)
  next
    case (F_join tid want old)
    with ctx have "k = []" "zombie_tid s tid" by (auto simp: ctx_ok_def zombie_tid_erase)
    with F_join res join_resumed_post [OF inv, of tid want old c s'] show ?thesis by auto
  next
    case (F_mutex_lock m old)
    with mutex_wait.post [OF inv c _ _ res [unfolded F_mutex_lock resume_frame.simps]] st False show ?thesis by auto
  next
    case (F_ticket_lock p tk old)
    with ticket_wait.post [OF inv c _ _ res [unfolded F_ticket_lock resume_frame.simps]] st False show ?thesis by auto
  next
    case (F_sem_wait p old)
    with sem_wait.post [OF inv c _ _ res [unfolded F_sem_wait resume_frame.simps]] st False show ?thesis by auto
  next
    case (F_spin_lock p)
    with st have "k = []" by simp
    with F_spin_lock res spin_lock_post [OF inv c, of p c s'] show ?thesis by auto
  next
    case (F_cond_wait cv m old)
    with st have "k = []" "sigmask s" by simp_all
    with F_cond_wait res cond_wait_resumed_post [OF inv c, of m old c s'] show ?thesis by auto
  next
    case (F_cond_relock old)
    with res st resume_yield_post [OF inv, of old] False show ?thesis by (auto simp: uth_cond_relocked_def)
  qed (use res closed in simp_all)
qed

lemma resume_frame_inv:
  assumes "lib_inv s rq wq" and u: "user_inv (f # k) s" and "resume_frame f k s = Ok (c, s')"
  shows "cfg_inv (transfer c k, s')"
  using resume_frame_post [OF assms] post_cfg_inv [OF u] by blast

lemma sys0_inv: "lib_inv sys0 [] (\<lambda>_. [])"
proof -
  have "wchain sys0 q []" for q
    by (cases q) (simp_all add: wchain_def mapped_waiters, simp_all add: sys0_def)
  moreover have "rq_head sys0 = NULL" "rq_tail sys0 = NULL" by (simp_all add: sys0_def)
  ultimately have "shape sys0 [] (\<lambda>_. [])" by (simp add: shape_def)
  moreover have "table_ok sys0"
    by (simp add: table_ok_def cap_ok_def slots_ok_def tids_ok_def sys0_def)
  moreover have "heap (erase sys0) x = None" for x by (simp add: erase_maps) (simp add: sys0_def)
  ultimately show ?thesis by (simp add: lib_inv_def sched_inv_def wait_inv_def)
qed

lemma tick_inv:
  assumes t: "tick_pending s" and ucp: "uc_sigmask ucp = sigmask s" "uc_frames ucp = frames_at l"
    and res: "uth_preempt_handler ucp s = Ok (d, s')" and I: "cfg_inv (l, s)"
  shows "cfg_inv (if d = Switched then SchedBack else l, s')"
proof (cases "uth_current s = NULL")
  case True
  with handler_idle [OF True] res I show ?thesis by auto
next
  case False
  obtain k where l: "l = User k" using I t False by (cases l) (simp_all add: tick_pending_def)
  with I obtain rq wq where inv: "lib_inv s rq wq" and u: "user_inv k s" by (auto elim: lib_okE)
  obtain x where r: "runs s (uth_current s) x" using caller_runs [OF user_inv_caller [OF u] False] by blast
  have "ctx_ok (erase s) True (uth_current s) (uc_sigmask ucp) (uc_frames ucp)"
    using u False ucp l by (simp add: user_inv_def)
  from handler_preempts [OF inv r this] res have p: "d = Switched" "lib_inv s' (rq @ [uth_current s]) wq" "no_running s'"
      "erase s' = preempted ucp (uth_current s) (erase s)" by auto
  have "sigmask s'" "run_returned s'"
    using erase_fields [OF p(4)] u False by (simp_all add: preempted_def user_inv_def)
  with p lib_okI show ?thesis by auto
qed

lemma pick_inv:
  assumes I: "cfg_inv (SchedTop, s)" and res: "scheduler_round s = Ok (c, s')"
  shows "c = SchedRun k \<Longrightarrow> cfg_inv (User k, s')" "c = SchedContinue \<Longrightarrow> s' = s" "c = SchedBreak \<Longrightarrow> s' = s"
proof -
  from I obtain rq wq where inv: "lib_inv s rq wq" and nr: "no_running s" and m: "sigmask s" "run_returned s"
    by (auto elim: lib_okE)
  show "c = SchedRun k \<Longrightarrow> cfg_inv (User k, s')"
  proof (cases rule: scheduler_round_cases [OF inv nr])
    case (3 x rq' t s1 t')
    assume "c = SchedRun k"
    with 3 res have k: "k = uc_frames (tcb_ctx t)" "s1 = s'" by simp_all
    have "x \<noteq> NULL" using runs_not_NULL [OF 3(5,6)] .
    moreover have "uth_current s' = x" "running s' x" using 3(6) k by (auto simp: runs_def running_runs)
    moreover have "sigmask s' = uc_sigmask (tcb_ctx t)" "uc_sigmask (uth_sched_ctx s')" "run_returned s'"
      using erase_fields [OF 3(7)] k m by (simp_all add: resumed_def)
    ultimately show ?thesis using 3(5,8) k lib_okI by (auto simp: user_inv_def)
  qed (use res in simp_all)
  show "c = SchedContinue \<Longrightarrow> s' = s" "c = SchedBreak \<Longrightarrow> s' = s"
    using res by (cases rule: scheduler_round_cases [OF inv nr]; simp)+
qed

lemma cfg_inv_step: "\<lbrakk>step c c'; cfg_inv c\<rbrakk> \<Longrightarrow> cfg_inv c'"
proof (induction rule: step.induct)
  case (do_call c s d s')
  then obtain rq wq where inv: "lib_inv s rq wq" and u: "user_inv [] s" by (auto elim: lib_okE)
  from post_cfg_inv [OF u api_call_post [OF inv user_inv_caller [OF u] do_call(1,2)], of "[]"] show ?case by simp
next
  case (do_resume f k s d s')
  then show ?case using resume_frame_inv by (auto elim: lib_okE)
next
  case (do_run s bp sp s')
  then show ?case
    by (auto simp: uth_run_def uth_run_body_def user_inv_def no_running_def)
next
  case (do_entry s)
  then show ?case by (simp add: scheduler_entry_def no_running_def)
next
  case (do_pick s k s')
  from pick_inv(1) [OF do_pick(2,1) refl] show ?case .
next
  case (do_idle s s')
  from pick_inv(2) [OF do_idle(2,1) refl] do_idle(2) show ?case by simp
next
  case (do_finish s s1 bp sp s')
  from pick_inv(3) [OF do_finish(3,1) refl] do_finish(2,3) show ?case
    by (auto simp: uth_run_linked_def uth_run_body_def user_inv_def no_running_def)
next
  case (do_back s)
  then show ?case by (auto simp: lib_ok_def lib_inv_swapped) (simp_all add: scheduler_swapped_def no_running_def)
next
  case (do_tick s ucp l d s')
  then show ?case using tick_inv by blast
qed

interpretation cfg: machine_invariant cfg_inv
  by unfold_locales (use sys0_inv lib_okI cfg_inv_step in \<open>auto simp: user_inv_def no_running_def\<close>, simp_all add: sys0_def)

end
