(* ===== verification/Uth_Demo.thy ===== *)
theory Uth_Demo
  imports Uth_Machine
begin

text \<open>
  A concrete state of the library with eight threads, on which the properties are instantiated:
  thread 1 runs and holds the mutex and the ticket lock, thread 2 is ready, threads 3 to 6 are
  blocked on the mutex, the condition variable, the semaphore and the ticket lock, thread 7 is a
  zombie, and thread 8 waits in \<open>uth_join\<close> for thread 1.
\<close>

abbreviation demo_mutex :: ptr where "demo_mutex \<equiv> 0x1000"
abbreviation demo_cond :: ptr where "demo_cond \<equiv> 0x2000"
abbreviation demo_sem :: ptr where "demo_sem \<equiv> 0x3000"
abbreviation demo_ticket :: ptr where "demo_ticket \<equiv> 0x4000"

definition demo_tcb :: "u32 \<Rightarrow> uth_state_t \<Rightarrow> frame list \<Rightarrow> uth_tcb_t" where
  "demo_tcb tid st k = tcb0\<lparr>tcb_tid := tid, tcb_state := st, tcb_fn := 0x77, tcb_arg := 5,
     tcb_ctx := ucontext0\<lparr>uc_sigmask := True, uc_frames := k\<rparr>\<rparr>"

definition demo_heap :: "ptr \<Rightarrow> uth_tcb_t option" where
  "demo_heap = (\<lambda>_. None)
    (0x100 \<mapsto> (demo_tcb 1 UTH_STATE_RUNNING [])\<lparr>tcb_joiner := 0x800\<rparr>,
     0x200 \<mapsto> demo_tcb 2 UTH_STATE_READY [F_yield False],
     0x300 \<mapsto> demo_tcb 3 UTH_STATE_BLOCKED [F_mutex_lock demo_mutex False],
     0x400 \<mapsto> demo_tcb 4 UTH_STATE_BLOCKED [F_cond_wait demo_cond demo_mutex False],
     0x500 \<mapsto> demo_tcb 5 UTH_STATE_BLOCKED [F_sem_wait demo_sem False],
     0x600 \<mapsto> (demo_tcb 6 UTH_STATE_BLOCKED [F_ticket_lock demo_ticket 1 False])\<lparr>tcb_ticket := 1\<rparr>,
     0x700 \<mapsto> (demo_tcb 7 UTH_STATE_ZOMBIE [F_exit])\<lparr>tcb_retval := 42\<rparr>,
     0x800 \<mapsto> demo_tcb 8 UTH_STATE_BLOCKED [F_join 1 True False])"

definition demo :: sys where
  "demo = sys0\<lparr>heap := demo_heap,
     mutexes := (\<lambda>_. None)(demo_mutex \<mapsto> \<lparr>mtx_locked = 1, mtx_owner = 1, mtx_waiters = 0x300\<rparr>),
     spins := (\<lambda>_. None)(0x5000 \<mapsto> \<lparr>spin_flag = True\<rparr>),
     tickets := (\<lambda>_. None)(demo_ticket \<mapsto> \<lparr>tk_next_ticket = 2, tk_now_serving = 0, tk_waiters = 0x600\<rparr>),
     conds := (\<lambda>_. None)(demo_cond \<mapsto> \<lparr>cv_waiters = 0x400\<rparr>),
     sems := (\<lambda>_. None)(demo_sem \<mapsto> \<lparr>sem_value = 0, sem_waiters = 0x500\<rparr>),
     uth_current := 0x100, rq_head := 0x200, rq_tail := 0x200,
     uth_sched_ctx := ucontext0\<lparr>uc_sigmask := True, uc_frames := [F_sched_swapped]\<rparr>,
     tcb_table := [0x100, 0x200, 0x300, 0x400, 0x500, 0x600, 0x700, 0x800] @ replicate 56 NULL,
     tcb_capacity := 64, tcb_count := 8, next_tid := 9, run_returned := True\<rparr>"

definition demo_wq :: "tcb_pp \<Rightarrow> ptr list" where
  "demo_wq = (\<lambda>_. [])(MutexWaiters demo_mutex := [0x300], CondWaiters demo_cond := [0x400],
     SemWaiters demo_sem := [0x500], TicketWaiters demo_ticket := [0x600])"

lemma demo_fields [simp]:
  "uth_current demo = 0x100" "sigmask demo = False" "rq_head demo = 0x200" "rq_tail demo = 0x200"
  "mutexes demo = (\<lambda>_. None)(demo_mutex \<mapsto> \<lparr>mtx_locked = 1, mtx_owner = 1, mtx_waiters = 0x300\<rparr>)"
  "tickets demo = (\<lambda>_. None)(demo_ticket \<mapsto> \<lparr>tk_next_ticket = 2, tk_now_serving = 0, tk_waiters = 0x600\<rparr>)"
  "conds demo = (\<lambda>_. None)(demo_cond \<mapsto> \<lparr>cv_waiters = 0x400\<rparr>)"
  "sems demo = (\<lambda>_. None)(demo_sem \<mapsto> \<lparr>sem_value = 0, sem_waiters = 0x500\<rparr>)"
  "spins demo = (\<lambda>_. None)(0x5000 \<mapsto> \<lparr>spin_flag = True\<rparr>)"
  "heap demo = demo_heap" "next_tid demo = 9" "tcb_count demo = 8" "tcb_capacity demo = 64"
  "run_returned demo" "uc_sigmask (uth_sched_ctx demo)" "preempt_enabled demo = False" "alt_stack_mem demo = NULL"
  by (simp_all add: demo_def sys0_def)

lemma demo_heap_eqs [simp]:
  "demo_heap 0x100 = Some ((demo_tcb 1 UTH_STATE_RUNNING [])\<lparr>tcb_joiner := 0x800\<rparr>)"
  "demo_heap 0x200 = Some (demo_tcb 2 UTH_STATE_READY [F_yield False])"
  "demo_heap 0x300 = Some (demo_tcb 3 UTH_STATE_BLOCKED [F_mutex_lock demo_mutex False])"
  "demo_heap 0x400 = Some (demo_tcb 4 UTH_STATE_BLOCKED [F_cond_wait demo_cond demo_mutex False])"
  "demo_heap 0x500 = Some (demo_tcb 5 UTH_STATE_BLOCKED [F_sem_wait demo_sem False])"
  "demo_heap 0x600 = Some ((demo_tcb 6 UTH_STATE_BLOCKED [F_ticket_lock demo_ticket 1 False])\<lparr>tcb_ticket := 1\<rparr>)"
  "demo_heap 0x700 = Some ((demo_tcb 7 UTH_STATE_ZOMBIE [F_exit])\<lparr>tcb_retval := 42\<rparr>)"
  "demo_heap 0x800 = Some (demo_tcb 8 UTH_STATE_BLOCKED [F_join 1 True False])"
  by (simp_all add: demo_heap_def)

lemma demo_tcb_simps [simp]:
  "tcb_tid (demo_tcb tid st k) = tid" "tcb_state (demo_tcb tid st k) = st" "tcb_joiner (demo_tcb tid st k) = NULL"
  "tcb_next (demo_tcb tid st k) = NULL" "uc_sigmask (tcb_ctx (demo_tcb tid st k)) = True" "uc_frames (tcb_ctx (demo_tcb tid st k)) = k"
  "tcb_retval (demo_tcb tid st k) = 0" "tcb_ticket (demo_tcb tid st k) = 0"
  by (simp_all add: demo_tcb_def tcb0_def ucontext0_def)

lemma demo_heap_cases:
  assumes "demo_heap x = Some t"
  shows "(x, t) \<in> {(0x100, (demo_tcb 1 UTH_STATE_RUNNING [])\<lparr>tcb_joiner := 0x800\<rparr>),
     (0x200, demo_tcb 2 UTH_STATE_READY [F_yield False]),
     (0x300, demo_tcb 3 UTH_STATE_BLOCKED [F_mutex_lock demo_mutex False]),
     (0x400, demo_tcb 4 UTH_STATE_BLOCKED [F_cond_wait demo_cond demo_mutex False]),
     (0x500, demo_tcb 5 UTH_STATE_BLOCKED [F_sem_wait demo_sem False]),
     (0x600, (demo_tcb 6 UTH_STATE_BLOCKED [F_ticket_lock demo_ticket 1 False])\<lparr>tcb_ticket := 1\<rparr>),
     (0x700, (demo_tcb 7 UTH_STATE_ZOMBIE [F_exit])\<lparr>tcb_retval := 42\<rparr>),
     (0x800, demo_tcb 8 UTH_STATE_BLOCKED [F_join 1 True False])}"
  using assms by (simp add: demo_heap_def split: if_splits)

lemma demo_table: "table_ok demo"
proof -
  have len: "length (tcb_table demo) = 64" by (simp add: demo_def)
  have tb: "tcb_table demo = [0x100, 0x200, 0x300, 0x400, 0x500, 0x600, 0x700, 0x800] @ replicate 56 NULL" by (simp add: demo_def)
  have "slots_ok demo" unfolding slots_ok_def
  proof (intro allI impI)
    fix i assume "i < unat (tcb_count demo)"
    then have "i \<in> {0, 1, 2, 3, 4, 5, 6, 7}" by auto
    then show "\<exists>t. heap demo (tcb_table demo ! i) = Some t \<and> unat (tcb_tid t) = Suc i"
      unfolding tb by auto
  qed
  moreover have "tids_ok demo" unfolding tids_ok_def tb
  proof (intro allI impI)
    fix x t assume "heap demo x = Some t"
    then have "demo_heap x = Some t" by simp
    from demo_heap_cases [OF this] show "x \<noteq> NULL \<and> tcb_tid t \<noteq> UTH_TID_INVALID \<and> unat (tcb_tid t) \<le> unat (tcb_count demo) \<and>
        ([0x100, 0x200, 0x300, 0x400, 0x500, 0x600, 0x700, 0x800] @ replicate 56 NULL) ! (unat (tcb_tid t) - 1) = x"
      by auto
  qed
  moreover have "cap_ok (64 :: u32)" unfolding cap_ok_def by (rule disjI2, rule exI [of _ 0]) simp
  ultimately show ?thesis by (simp add: table_ok_def len)
qed

lemma demo_shape: "shape demo [0x200] demo_wq"
proof -
  have "wchain demo q (demo_wq q)" for q
    by (cases q) (auto simp: wchain_def mapped_waiters demo_wq_def pp_simps)
  then show ?thesis by (auto simp: shape_def demo_wq_def pp_simps list_tail_def)
qed

lemma demo_sched: "sched_inv (erase demo) [0x200] demo_wq"
proof -
  have "tcb_inv (erase demo) [0x200] x t" if "heap (erase demo) x = Some t" for x t
  proof -
    from that obtain u where u: "demo_heap x = Some u" and t: "t = u\<lparr>tcb_next := NULL\<rparr>" by (auto simp: erase_maps)
    have "heap (erase demo) 0x800 = Some (demo_tcb 8 UTH_STATE_BLOCKED [F_join 1 True False]\<lparr>tcb_next := NULL\<rparr>)"
      by (simp add: erase_maps)
    with demo_heap_cases [OF u] t show ?thesis by (auto simp: tcb_inv_def ctx_ok_def joiner_ok_def)
  qed
  moreover have "wait_inv (erase demo) demo_wq"
    by (auto simp: wait_inv_def demo_wq_def erase_maps waiting_ok_def)
  ultimately show ?thesis using demo_table by (simp add: sched_inv_def)
qed

lemma demo_inv: "lib_inv demo [0x200] demo_wq"
  using demo_shape demo_sched by (simp add: lib_inv_def)

lemma demo_runs: "runs demo 0x100 ((demo_tcb 1 UTH_STATE_RUNNING [])\<lparr>tcb_joiner := 0x800\<rparr>)"
  by (simp add: runs_def)

lemma demo_caller: "caller demo"
  by (simp add: caller_def running_def)

lemma demo_wq_simps [simp]:
  "demo_wq (MutexWaiters demo_mutex) = [0x300]" "demo_wq (CondWaiters demo_cond) = [0x400]"
  "demo_wq (SemWaiters demo_sem) = [0x500]" "demo_wq (TicketWaiters demo_ticket) = [0x600]"
  by (simp_all add: demo_wq_def)

lemma demo_self [simp]: "self_tid demo = 1"
  by (simp add: self_tid_def)

text \<open>The state after thread 1 has created a ninth thread.\<close>

definition demo_env :: os_env where
  "demo_env = \<lparr>env_mmap = Some 0xA000, env_realloc = True, env_calloc = 0x900\<rparr>"

definition demo_created :: sys where
  "demo_created = (case uth_create 0x77 5 0 demo_env demo of Ok (c, s) \<Rightarrow> s | _ \<Rightarrow> demo)"

lemma demo_fresh: "heap demo (env_calloc demo_env) = None"
  by (simp add: demo_env_def demo_heap_def)

lemma demo_create: "uth_create 0x77 5 0 demo_env demo = Ok (Remains (F_create_ret 0x900), demo_created)"
proof -
  let ?s = "demo\<lparr>sigmask := True, stacks := (stacks demo)(0xA000 \<mapsto> if (0::u64) = 0 then UTH_STACK_DEFAULT else 0)\<rparr>"
  have "table_ok ?s = table_ok demo" by (rule table_ok_cong) simp_all
  with demo_table tcb_alloc_total [of ?s demo_env] obtain s1 where a: "tcb_alloc demo_env ?s = Ok (0x900, s1)"
    by (auto simp: demo_env_def)
  have "env_mmap demo_env = Some 0xA000" by (simp add: demo_env_def)
  from uth_create_ok [OF demo_inv this demo_fresh a, of "0x77" 5] show ?thesis by (auto simp: demo_created_def)
qed

section \<open>A run of the library\<close>

text \<open>
  The first steps of a program: code outside of every thread creates one thread and calls
  \<open>uth_run\<close>; the scheduler picks the thread, which starts in the trampoline.
\<close>

definition boot_created :: sys where
  "boot_created = (case uth_create 0x77 5 0 demo_env sys0 of Ok (c, s) \<Rightarrow> s | _ \<Rightarrow> sys0)"

definition boot_top :: sys where
  "boot_top = scheduler_entry (snd (uth_run 0x10 0x20 boot_created))"

definition boot_thread :: sys where
  "boot_thread = (case scheduler_round boot_top of Ok (c, s) \<Rightarrow> s | _ \<Rightarrow> sys0)"

lemma boot_create:
  "uth_create 0x77 5 0 demo_env sys0 = Ok (Remains (F_create_ret 0x900), boot_created)"
  "lib_inv boot_created [0x900] (\<lambda>_. [])" "uth_current boot_created = NULL" "no_running boot_created"
  "heap (erase boot_created) = (\<lambda>_. None)(0x900 \<mapsto> new_tcb 0x77 5 0xA000 UTH_STACK_DEFAULT 0x900 1)"
proof -
  let ?s = "sys0\<lparr>sigmask := True, stacks := (stacks sys0)(0xA000 \<mapsto> if (0::u64) = 0 then UTH_STACK_DEFAULT else 0)\<rparr>"
  have "table_ok ?s = table_ok sys0" by (rule table_ok_cong) simp_all
  with lib_invD(3) [OF sys0_inv] tcb_alloc_total [of ?s demo_env] obtain s1 where a: "tcb_alloc demo_env ?s = Ok (0x900, s1)"
    by (auto simp: demo_env_def) (auto simp: sys0_def)
  have f: "env_mmap demo_env = Some 0xA000" "heap sys0 (env_calloc demo_env) = None" by (simp_all add: demo_env_def sys0_def)
  from uth_create_ok [OF sys0_inv f a, of "0x77" 5] obtain s' where
    s': "uth_create 0x77 5 0 demo_env sys0 = Ok (Remains (F_create_ret 0x900), s')" "lib_inv s' ([] @ [0x900]) (\<lambda>_. [])"
      "uth_current s' = uth_current sys0"
      "heap (erase s') = (heap (erase sys0))(0x900 \<mapsto> new_tcb 0x77 5 0xA000 (if (0::u64) = 0 then UTH_STACK_DEFAULT else 0) 0x900 (next_tid sys0))"
    by blast
  then have eq: "s' = boot_created" by (simp add: boot_created_def)
  show "uth_create 0x77 5 0 demo_env sys0 = Ok (Remains (F_create_ret 0x900), boot_created)"
    "lib_inv boot_created [0x900] (\<lambda>_. [])" "uth_current boot_created = NULL"
    using s' eq by (simp_all add: sys0_def)
  have h: "heap (erase sys0) = (\<lambda>_. None)" by (rule ext) (simp add: erase_maps, simp add: sys0_def)
  then have "no_running (erase s')" by (auto simp: no_running_def s'(4))
  then show "no_running boot_created" using eq by (simp add: no_running_erase)
  show "heap (erase boot_created) = (\<lambda>_. None)(0x900 \<mapsto> new_tcb 0x77 5 0xA000 UTH_STACK_DEFAULT 0x900 1)"
    using s'(4) eq h by (simp add: sys0_def)
qed

lemma boot_ret_reachable: "reachable (User [], boot_created)"
proof -
  have "step (User [], sys0) (User [F_create_ret 0x900], boot_created)"
    using do_call [of "A_create 0x77 5 0 demo_env" sys0] boot_create(1) by (simp add: demo_env_def sys0_def)
  with start_sys0 have r: "reachable (User [F_create_ret 0x900], boot_created)" by (rule next_step)
  obtain t where t: "heap boot_created 0x900 = Some t" using shape_rq_heap [OF lib_invD(1) [OF boot_create(2)], of "0x900"] by auto
  have "step (User [F_create_ret 0x900], boot_created) (User [], boot_created)"
    using do_resume [of "F_create_ret 0x900" "[]" boot_created] t by (simp add: uth_create_ret_def)
  with r show ?thesis by (rule next_step)
qed

lemma boot_top_inv:
  "lib_inv boot_top [0x900] (\<lambda>_. [])" "no_running boot_top" "reachable (SchedTop, boot_top)"
proof -
  let ?s = "snd (uth_run 0x10 0x20 boot_created)"
  have run: "uth_run 0x10 0x20 boot_created = (RunSchedule, ?s)" by (simp add: uth_run_def uth_run_body_def)
  show "lib_inv boot_top [0x900] (\<lambda>_. [])" "no_running boot_top"
    using boot_create(2,4) by (simp_all add: boot_top_def scheduler_entry_def uth_run_def uth_run_body_def no_running_def)
  have "reachable (SchedEntry, ?s)" using boot_ret_reachable do_run [OF boot_create(3) run] by (rule next_step)
  then show "reachable (SchedTop, boot_top)" unfolding boot_top_def using do_entry by (rule next_step)
qed

lemma boot_thread_facts:
  "\<exists>t. runs boot_thread 0x900 t \<and> tcb_tid t = 1" "lib_inv boot_thread [] (\<lambda>_. [])" "sigmask boot_thread = False"
  "scheduler_round boot_top = Ok (SchedRun [F_trampoline (hi_half 0x900) (lo_half 0x900)], boot_thread)"
  "heap boot_thread x \<noteq> None \<longleftrightarrow> x = 0x900" "preempt_enabled boot_thread = False"
proof -
  obtain t s' t' where t: "heap boot_top 0x900 = Some t" "scheduler_round boot_top = Ok (SchedRun (uc_frames (tcb_ctx t)), s')"
      "lib_inv s' [] (\<lambda>_. [])" "runs s' 0x900 t'" "erase s' = resumed 0x900 t (erase boot_top)"
    using scheduler_run [OF boot_top_inv(1,2)] by blast
  have eq: "s' = boot_thread" using t(2) by (simp add: boot_thread_def)
  let ?n = "new_tcb 0x77 5 0xA000 UTH_STACK_DEFAULT 0x900 1"
  have top: "heap (erase boot_top) = (\<lambda>_. None)(0x900 \<mapsto> ?n)" "preempt_enabled boot_top = preempt_enabled boot_created"
    using boot_create(5) by (simp_all add: boot_top_def scheduler_entry_def uth_run_def uth_run_body_def)
  have tn: "t\<lparr>tcb_next := NULL\<rparr> = ?n" using heap_erase [OF t(1)] top(1) by simp
  have ctx: "tcb_ctx t = tcb_ctx ?n" using arg_cong [OF tn, of tcb_ctx] by simp
  have h: "heap (erase boot_thread) = (\<lambda>_. None)(0x900 \<mapsto> ?n\<lparr>tcb_state := UTH_STATE_RUNNING\<rparr>)"
    using t(5) eq top(1) by (simp add: resumed_def upd_tcb_def)
  have "tcb_tid t' = 1"
    using fun_cong [OF h, of "0x900"] t(4) eq by (auto simp: erase_maps runs_def dest: arg_cong [where f = tcb_tid])
  with t(4) eq show "\<exists>t. runs boot_thread 0x900 t \<and> tcb_tid t = 1" by auto
  show "lib_inv boot_thread [] (\<lambda>_. [])" using t(3) eq by simp
  show "sigmask boot_thread = False" using erase_fields [OF t(5)] ctx eq by (simp add: resumed_def)
  show "scheduler_round boot_top = Ok (SchedRun [F_trampoline (hi_half 0x900) (lo_half 0x900)], boot_thread)"
    using t(2) eq ctx by simp
  show "heap boot_thread x \<noteq> None \<longleftrightarrow> x = 0x900"
    using fun_cong [OF h, of x] by (cases "heap boot_thread x") (auto simp: erase_maps split: if_splits)
  have "preempt_enabled boot_created = False"
    by (simp add: boot_created_def uth_create_def uth_preempt_off_def uth_preempt_restore_def demo_env_def
      tcb_alloc_def tcb_grow_def table_set_def sys0_def Let_def queue_push_def pp_simps modify_tcb_def get_tcb_def upd_tcb_def)
  then show "preempt_enabled boot_thread = False" using erase_fields [OF t(5)] top(2) eq by (simp add: resumed_def)
qed

lemma boot_user_reachable:
  "reachable (User [F_trampoline (hi_half 0x900) (lo_half 0x900)], boot_thread)" "reachable (User [], boot_thread)"
proof -
  show r: "reachable (User [F_trampoline (hi_half 0x900) (lo_half 0x900)], boot_thread)"
    using boot_top_inv(3) do_pick [OF boot_thread_facts(4)] by (rule next_step)
  obtain t where "runs boot_thread 0x900 t" using boot_thread_facts(1) by blast
  then have "resume_frame (F_trampoline (hi_half 0x900) (lo_half 0x900)) [] boot_thread = Ok (CallUser (tcb_fn t) (tcb_arg t), boot_thread)"
    by (simp add: thread_trampoline_def join_halves_split runs_def)
  from do_resume [OF this] r show "reachable (User [], boot_thread)" by (auto intro: next_step)
qed

text \<open>The thread waits for itself: a deadlock.\<close>

definition boot_joined :: sys where
  "boot_joined = (case uth_join 1 False [] boot_thread of Ok (c, s) \<Rightarrow> s | _ \<Rightarrow> boot_thread)"

lemma boot_joined_reachable:
  "reachable (SchedTop, scheduler_swapped boot_joined)"
  "\<exists>t. heap (scheduler_swapped boot_joined) 0x900 = Some t \<and> tcb_state t = UTH_STATE_BLOCKED"
  "heap (scheduler_swapped boot_joined) y = Some u \<Longrightarrow> y = 0x900"
proof -
  obtain t where r: "runs boot_thread 0x900 t" and tid: "tcb_tid t = 1" using boot_thread_facts(1) by blast
  then have x: "heap boot_thread 0x900 = Some t" "tcb_state t \<noteq> UTH_STATE_ZOMBIE" by (simp_all add: runs_def)
  from uth_join_block [OF boot_thread_facts(2) r x(1) tid x(2), of False] obtain s' where
    s': "uth_join 1 False [] boot_thread = Ok (Switched, s')" "erase s' = switched UTH_STATE_BLOCKED 0x900 [F_join 1 False (sigmask boot_thread)]
       (upd_tcb 0x900 (\<lambda>t. t\<lparr>tcb_joiner := 0x900\<rparr>) ((erase boot_thread)\<lparr>sigmask := True\<rparr>))" by blast
  have eq: "s' = boot_joined" using s'(1) by (simp add: boot_joined_def)
  have "step (User [], boot_thread) (SchedBack, boot_joined)" using do_call [of "A_join 1 False" boot_thread] s'(1) eq by simp
  with boot_user_reachable(2) have "reachable (SchedBack, boot_joined)" by (rule next_step)
  then show "reachable (SchedTop, scheduler_swapped boot_joined)" using do_back by (rule next_step)
  obtain ta where ta: "heap (upd_tcb 0x900 (\<lambda>t. t\<lparr>tcb_joiner := 0x900\<rparr>) ((erase boot_thread)\<lparr>sigmask := True\<rparr>)) 0x900 = Some ta"
    using heap_upd_exists [OF runs_erase(1) [OF r]] by auto
  show "\<exists>t. heap (scheduler_swapped boot_joined) 0x900 = Some t \<and> tcb_state t = UTH_STATE_BLOCKED"
    by (rule switched_tcb [OF s'(2) ta]) (auto simp: eq scheduler_swapped_def)
  have "heap (erase boot_joined) y = None" if "y \<noteq> 0x900"
    using that boot_thread_facts(5) [of y] s'(2) eq by (simp add: switched_def heap_upd_tcb erase_maps)
  then show "heap (scheduler_swapped boot_joined) y = Some u \<Longrightarrow> y = 0x900"
    by (auto simp: erase_maps scheduler_swapped_def)
qed

text \<open>A program without threads: \<open>uth_run\<close> has nothing to do.\<close>

definition boot_empty :: sys where
  "boot_empty = scheduler_entry (snd (uth_run 0x10 0x20 sys0))"

lemma boot_empty_reachable: "reachable (SchedTop, boot_empty)" "heap boot_empty x = None"
proof -
  have run: "uth_run 0x10 0x20 sys0 = (RunSchedule, snd (uth_run 0x10 0x20 sys0))" by (simp add: uth_run_def uth_run_body_def)
  have "uth_current sys0 = NULL" by (simp add: sys0_def)
  from start_sys0 do_run [OF this run] have "reachable (SchedEntry, snd (uth_run 0x10 0x20 sys0))" by (rule next_step)
  then show "reachable (SchedTop, boot_empty)" unfolding boot_empty_def using do_entry by (rule next_step)
  show "heap boot_empty x = None" by (simp add: boot_empty_def scheduler_entry_def uth_run_def uth_run_body_def sys0_def)
qed

end
