(* ===== verification/Uth_Frame.thy ===== *)
theory Uth_Frame
  imports Uth_Machine
begin

text \<open>
  Which synchronisation objects a call may change, and that only \<open>uth_create\<close> draws a thread id. \<open>obj_at q s\<close> is the object whose waiters are the cell
  \<open>q\<close>, where the head of the run queue stands for the timer; \<open>objs_off F s\<close> are the next thread id and all objects but those of \<open>F\<close>. The functions that work on no wait queue leave
  all objects (\<open>objs\<close>) unchanged, the others leave \<open>objs_off F\<close> unchanged for the objects \<open>F\<close> they
  are called with, whatever the state.
\<close>

section \<open>Objects by their wait queue\<close>

datatype sync_object =
    ObjMutex "uth_mutex_t option"
  | ObjTicket "uth_ticket_t option"
  | ObjCond "uth_cond_t option"
  | ObjSem "uth_sem_t option"
  | ObjTimer bool
  | NoObj

fun obj_at :: "tcb_pp \<Rightarrow> sys \<Rightarrow> sync_object" where
  "obj_at (MutexWaiters m) s = ObjMutex (mutexes s m)"
| "obj_at (TicketWaiters m) s = ObjTicket (tickets s m)"
| "obj_at (CondWaiters m) s = ObjCond (conds s m)"
| "obj_at (SemWaiters m) s = ObjSem (sems s m)"
| "obj_at RqHead s = ObjTimer (sigalrm_handler s)"
| "obj_at _ s = NoObj"

definition objs_off :: "tcb_pp set \<Rightarrow> sys \<Rightarrow> (tcb_pp \<Rightarrow> sync_object) \<times> u32" where
  "objs_off F s = ((\<lambda>q. if q \<in> F then NoObj else obj_at q s), next_tid s)"

abbreviation objs :: "sys \<Rightarrow> (tcb_pp \<Rightarrow> sync_object) \<times> u32" where
  "objs s \<equiv> objs_off {} s"

lemma objs_offD:
  assumes "objs_off F s' = objs_off F s"
  shows "q \<notin> F \<Longrightarrow> obj_at q s' = obj_at q s" "next_tid s' = next_tid s"
  using assms by (auto simp: objs_off_def dest: fun_cong [of _ _ q])

lemma objs_offI: "(\<And>q. q \<notin> F \<Longrightarrow> obj_at q s' = obj_at q s) \<Longrightarrow> next_tid s' = next_tid s \<Longrightarrow> objs_off F s' = objs_off F s"
  by (auto simp: objs_off_def fun_eq_iff)

lemma objs_eqI: "(\<And>q. obj_at q s' = obj_at q s) \<Longrightarrow> next_tid s' = next_tid s \<Longrightarrow> objs s' = objs s"
  by (simp add: objs_off_def)

lemma objs_off_cong: "objs s' = objs s \<Longrightarrow> objs_off F s' = objs_off F s"
  by (auto simp: objs_off_def fun_eq_iff)

lemma objs_upd_tcb [simp]: "objs (upd_tcb x f s) = objs s"
proof (rule objs_eqI)
  show "obj_at q (upd_tcb x f s) = obj_at q s" for q by (cases q) simp_all
qed simp

lemma objs_global [simp]:
  "objs (s\<lparr>sigmask := a\<rparr>) = objs s" "objs (s\<lparr>uth_current := b\<rparr>) = objs s"
  "objs (s\<lparr>uth_sched_ctx := c\<rparr>) = objs s" "objs (s\<lparr>stacks := d\<rparr>) = objs s"
  "objs (s\<lparr>heap := e\<rparr>) = objs s"
  "objs (s\<lparr>tcb_table := g\<rparr>) = objs s" "objs (s\<lparr>tcb_count := h\<rparr>) = objs s"
  "objs (s\<lparr>tcb_capacity := i\<rparr>) = objs s" "objs (s\<lparr>run_bootstrap := j\<rparr>) = objs s"
  "objs (s\<lparr>run_returned := k\<rparr>) = objs s" "objs (s\<lparr>alt_stack_mem := l\<rparr>) = objs s"
  "objs (s\<lparr>preempt_enabled := m\<rparr>) = objs s"
  "objs (s\<lparr>itimer_usec := p\<rparr>) = objs s" "objs (s\<lparr>rq_head := r\<rparr>) = objs s"
  "objs (s\<lparr>rq_tail := t\<rparr>) = objs s" "objs (set_spin u v s) = objs s"
  by (rule objs_eqI, case_tac q; simp)+

lemma objs_off_global [simp]:
  "objs_off F (s\<lparr>sigmask := b\<rparr>) = objs_off F s" "objs_off F (upd_tcb x f s) = objs_off F s"
  by (rule objs_off_cong; simp)+

lemma objs_off_set [simp]:
  "MutexWaiters m \<in> F \<Longrightarrow> objs_off F (set_mutex m a s) = objs_off F s"
  "TicketWaiters m \<in> F \<Longrightarrow> objs_off F (set_ticket m b s) = objs_off F s"
  "CondWaiters m \<in> F \<Longrightarrow> objs_off F (set_cond m c s) = objs_off F s"
  "SemWaiters m \<in> F \<Longrightarrow> objs_off F (set_sem m d s) = objs_off F s"
  by (rule objs_offI, case_tac q; auto)+

section \<open>Functions that work on no wait queue\<close>

lemma objs_store: "store_pp p v s = Ok s' \<Longrightarrow> \<not> is_wait p \<Longrightarrow> objs s' = objs s"
  by (cases p) (auto simp: pp_simps ok_iff)

lemma objs_store_next [uth_frame]: "store_pp (NextOf x) v s = Ok s' \<Longrightarrow> objs s' = objs s"
  by (erule objs_store) simp

lemma objs_store_rq [uth_frame]:
  "store_pp RqHead v s = Ok s' \<Longrightarrow> objs s' = objs s" "store_pp RqTail v s = Ok s' \<Longrightarrow> objs s' = objs s"
  by (auto elim: objs_store)

lemma objs_queue_push [uth_frame]: "queue_push RqHead RqTail x s = Ok s' \<Longrightarrow> objs s' = objs s"
  by (auto simp: queue_push_def ok_iff split: if_splits dest!: uth_frame)

lemma objs_queue_pop [uth_frame]: "queue_pop RqHead RqTail s = Ok (x, s') \<Longrightarrow> objs s' = objs s"
  by (auto simp: queue_pop_def ok_iff split: if_splits dest!: uth_frame)

lemma objs_enqueue [uth_frame]: "uth_enqueue x s = Ok s' \<Longrightarrow> objs s' = objs s"
  by (auto simp: uth_enqueue_def ok_iff dest!: uth_frame)

lemma objs_swap [uth_frame]: "swap_to_sched x k s = Ok (c, s') \<Longrightarrow> objs s' = objs s"
  by (auto simp: swap_to_sched_def ok_iff)

lemma objs_block_noqueue [uth_frame]: "uth_block_noqueue k s = Ok (c, s') \<Longrightarrow> objs s' = objs s"
  by (auto simp: uth_block_noqueue_def Let_def ok_iff dest!: uth_frame)

lemma objs_table_set [uth_frame]: "table_set i v s = Ok s' \<Longrightarrow> objs s' = objs s"
  by (auto simp: table_set_def split: if_splits)

lemma objs_grow [uth_frame]: "tcb_grow env s = Ok s' \<Longrightarrow> objs s' = objs s"
  by (auto simp: tcb_grow_def Let_def split: if_splits)

lemma objs_clear [uth_frame]: "tcb_clear_from t i s = Ok s' \<Longrightarrow> objs s' = objs s"
  by (induction t i s rule: tcb_clear_from.induct)
    (subst (asm) tcb_clear_from.simps, auto simp: ok_iff split: if_splits dest!: uth_frame)

lemma objs_free [uth_frame]: "tcb_free t s = Ok s' \<Longrightarrow> objs s' = objs s"
  by (auto simp: tcb_free_def ok_iff Let_def dest!: uth_frame)

text \<open>Only \<open>uth_create\<close> takes a thread id.\<close>

lemma obj_at_next_tid [simp]: "obj_at q (s\<lparr>next_tid := i\<rparr>) = obj_at q s"
  by (cases q) simp_all

lemma objsD: "objs s' = objs s \<Longrightarrow> obj_at q s' = obj_at q s"
  by (drule objs_offD(1)) simp_all

lemmas obj_at_global [simp] = objs_global [THEN objsD]

lemma obj_at_alloc: "tcb_alloc env s = Ok (x, s') \<Longrightarrow> obj_at q s' = obj_at q s"
  by (auto simp: tcb_alloc_def Let_def ok_iff split: if_splits dest!: uth_frame dest!: objsD [of _ _ q])

lemma obj_at_create: "uth_create fn arg n env s = Ok (c, s') \<Longrightarrow> obj_at q s' = obj_at q s"
  by (auto simp: uth_create_def uth_preempt_off_def uth_preempt_restore_def Let_def ok_iff objsD [OF objs_upd_tcb]
      split: option.splits dest!: obj_at_alloc [of _ _ _ _ q] objs_queue_push [THEN objsD, of _ _ _ q])

lemma objs_yield [uth_frame]: "uth_yield k s = Ok (c, s') \<Longrightarrow> objs s' = objs s"
  by (auto simp: uth_yield_def uth_preempt_off_def uth_preempt_restore_def Let_def ok_iff split: if_splits dest!: uth_frame)

lemma objs_exit [uth_frame]: "uth_exit v k s = Ok (c, s') \<Longrightarrow> objs s' = objs s"
  by (auto simp: uth_exit_def uth_preempt_off_def Let_def ok_iff split: if_splits dest!: uth_frame)

lemma objs_collect [uth_frame]: "uth_join_collect t want old s = Ok (c, s') \<Longrightarrow> objs s' = objs s"
  by (auto simp: uth_join_collect_def uth_preempt_restore_def Let_def ok_iff dest!: uth_frame)

lemma objs_join [uth_frame]: "uth_join tid want k s = Ok (c, s') \<Longrightarrow> objs s' = objs s"
  by (auto simp: uth_join_def uth_preempt_off_def uth_preempt_restore_def Let_def ok_iff split: if_splits dest!: uth_frame)

lemma objs_join_resumed [uth_frame]: "uth_join_resumed tid want old s = Ok (c, s') \<Longrightarrow> objs s' = objs s"
  by (auto simp: uth_join_resumed_def uth_preempt_restore_def ok_iff split: if_splits dest!: uth_frame)

lemma objs_handler [uth_frame]: "uth_preempt_handler ucp s = Ok (c, s') \<Longrightarrow> objs s' = objs s"
  by (auto simp: uth_preempt_handler_def Let_def ok_iff split: if_splits dest!: uth_frame)

lemma objs_off_timer: "RqHead \<in> F \<Longrightarrow> objs_off F (s\<lparr>sigalrm_handler := n\<rparr>) = objs_off F s"
  by (rule objs_offI, case_tac q; auto)

lemma objs_preempt_enable [uth_frame]: "\<lbrakk>uth_preempt_enable ms env s = Ok (c, s'); RqHead \<in> F\<rbrakk> \<Longrightarrow> objs_off F s' = objs_off F s"
  by (auto simp: uth_preempt_enable_def Let_def objs_off_timer objs_global [THEN objs_off_cong] split: if_splits)

lemma objs_preempt_disable [uth_frame]: "uth_preempt_disable s = Ok (c, s') \<Longrightarrow> objs_off F s' = objs_off F s"
  by (auto simp: uth_preempt_disable_def)

lemma objs_preempt_ends [uth_frame]:
  "preempt_enable_end s = Ok (c, s') \<Longrightarrow> objs_off F s' = objs_off F s" "\<lbrakk>preempt_disable_end s = Ok (c, s'); RqHead \<in> F\<rbrakk> \<Longrightarrow> objs_off F s' = objs_off F s"
  by (auto simp: preempt_enable_end_def preempt_disable_end_def objs_off_timer objs_global [THEN objs_off_cong])

lemma same_active_count:
  "uth_active_count s = Ok (c, s') \<Longrightarrow> s' = s" "active_count_loop i n s = Ok (c, s') \<Longrightarrow> s' = s" "active_count_at i n t s = Ok (c, s') \<Longrightarrow> s' = s"
  by (auto simp: uth_active_count_def active_count_loop_def active_count_at_def ok_iff split: if_splits)

lemma objs_round [uth_frame]: "scheduler_round s = Ok (c, s') \<Longrightarrow> objs s' = objs s"
  by (auto simp: scheduler_round_def Let_def ok_iff split: if_splits dest!: uth_frame)

lemma objs_spin_lock [uth_frame]:
  assumes "uth_spin_lock p k s = Ok (c, s')"
  shows "objs s' = objs s"
proof -
  from assms have "spin_lock_loop p k s = Some (Ok (c, s'))"
    by (cases "spin_lock_loop p k s") (simp_all add: uth_spin_lock_def)
  then show ?thesis
  proof (rule spin_lock_loop.raw_induct [where P = "\<lambda>p k s r. \<forall>c s'. r = Ok (c, s') \<longrightarrow> objs s' = objs s", rule_format, rotated])
    fix f p k s r c s'
    assume IH: "\<And>p k s r c s'. \<lbrakk>f p k s = Some r; r = Ok (c, s')\<rbrakk> \<Longrightarrow> objs s' = objs s"
      and b: "(case get_spin p s of
        Ok x \<Rightarrow>
          if spin_flag x then
            (case uth_yield (F_spin_lock p # k) (set_spin p (x\<lparr>spin_flag := True\<rparr>) s) of
               Ok (c, s') \<Rightarrow> if c = Return RetVoid then f p k s' else Some (Ok (c, s'))
             | Fault e \<Rightarrow> Some (Fault e)
             | NoReturn \<Rightarrow> Some NoReturn)
          else Some (Ok (Return RetVoid, set_spin p (x\<lparr>spin_flag := True\<rparr>) s))
      | Fault e \<Rightarrow> Some (Fault e)
      | NoReturn \<Rightarrow> Some NoReturn) = Some r"
      and r: "r = Ok (c, s')"
    then show "objs s' = objs s"
      by (auto split: res.splits if_splits dest!: uth_frame IH)
  qed simp
qed

section \<open>Functions that work on a wait queue\<close>

lemma the_loop_Ok [ok_iff]: "the_loop r = Ok x \<longleftrightarrow> r = Some (Ok x)"
  by (cases r) simp_all

lemma frame_store:
  assumes "store_pp p v s = Ok s'" and "p \<in> F \<or> \<not> is_wait p"
  shows "objs_off F s' = objs_off F s"
  using assms by (cases p) (auto simp: pp_simps ok_iff intro: objs_off_cong)

lemma frame_find_end: "\<lbrakk>find_end p s = Some (Ok c); p \<in> F \<or> \<not> is_wait p\<rbrakk> \<Longrightarrow> c \<in> F \<or> \<not> is_wait c"
proof (rule find_end.raw_induct [where P = "\<lambda>p s r. p \<in> F \<or> \<not> is_wait p \<longrightarrow> (\<forall>c. r = Ok c \<longrightarrow> c \<in> F \<or> \<not> is_wait c)",
    THEN mp, THEN spec, THEN mp, rotated])
  fix f p s r
  assume IH: "\<And>p s r. f p s = Some r \<Longrightarrow> p \<in> F \<or> \<not> is_wait p \<longrightarrow> (\<forall>c. r = Ok c \<longrightarrow> c \<in> F \<or> \<not> is_wait c)"
    and b: "(case load_pp p s of Ok v \<Rightarrow> if v = NULL then Some (Ok p) else f (NextOf v) s | Fault e \<Rightarrow> Some (Fault e) | NoReturn \<Rightarrow> Some NoReturn) = Some r"
  show "p \<in> F \<or> \<not> is_wait p \<longrightarrow> (\<forall>c. r = Ok c \<longrightarrow> c \<in> F \<or> \<not> is_wait c)"
  proof (cases "\<exists>v. load_pp p s = Ok v \<and> v \<noteq> NULL")
    case True
    then obtain v where "f (NextOf v) s = Some r" using b by auto
    from IH [OF this] show ?thesis by simp
  qed (use b in \<open>auto split: res.splits if_splits\<close>)
qed simp_all

lemma frame_wait_append [uth_frame]: "\<lbrakk>wait_append q x s = Ok s'; q \<in> F\<rbrakk> \<Longrightarrow> objs_off F s' = objs_off F s"
  by (auto simp: wait_append_def ok_iff dest!: frame_find_end [of q _ _ F] frame_store [of _ _ _ _ F]
      objs_off_cong [OF objs_store_next, of _ _ _ _ F])

lemma frame_wake_one [uth_frame]: "\<lbrakk>uth_wake_one q s = Ok (w, s'); q \<in> F\<rbrakk> \<Longrightarrow> objs_off F s' = objs_off F s"
  by (auto simp: uth_wake_one_def ok_iff split: if_splits dest!: frame_store [of q _ _ _ F]
      objs_off_cong [OF objs_store_next, of _ _ _ _ F] objs_off_cong [OF objs_enqueue, of _ _ _ F])

lemma frame_block [uth_frame]: "\<lbrakk>uth_block q k s = Ok (c, s'); q \<in> F\<rbrakk> \<Longrightarrow> objs_off F s' = objs_off F s"
  by (auto simp: uth_block_def Let_def ok_iff dest!: frame_wait_append [of q _ _ _ F] objs_off_cong [OF objs_swap, of _ _ _ _ _ F])

lemma frame_wake_all [uth_frame]:
  assumes "uth_wake_all q s = Ok s'" and q: "q \<in> F"
  shows "objs_off F s' = objs_off F s"
proof -
  from assms(1) have "wake_all_loop q s = Some (Ok s')" by (simp add: uth_wake_all_def the_loop_Ok)
  then show ?thesis using q
  proof (rule wake_all_loop.raw_induct [where P = "\<lambda>q s r. q \<in> F \<longrightarrow> (\<forall>s'. r = Ok s' \<longrightarrow> objs_off F s' = objs_off F s)",
      THEN mp, THEN spec, THEN mp, rotated])
    fix f q s r
    assume IH: "\<And>q s r. f q s = Some r \<Longrightarrow> q \<in> F \<longrightarrow> (\<forall>s'. r = Ok s' \<longrightarrow> objs_off F s' = objs_off F s)"
      and b: "(case uth_wake_one q s of Ok (t, s') \<Rightarrow> if t = NULL then Some (Ok s') else f q s' | Fault e \<Rightarrow> Some (Fault e) | NoReturn \<Rightarrow> Some NoReturn) = Some r"
    show "q \<in> F \<longrightarrow> (\<forall>s'. r = Ok s' \<longrightarrow> objs_off F s' = objs_off F s)"
    proof (intro impI allI)
      fix s' assume q: "q \<in> F" and r: "r = Ok s'"
      from b r obtain t s1 where w: "uth_wake_one q s = Ok (t, s1)" by (auto split: res.splits)
      with b r have "s1 = s' \<or> f q s1 = Some r" by (auto split: if_splits)
      with frame_wake_one [OF w q] IH [of q s1 r] q r show "objs_off F s' = objs_off F s" by auto
    qed
  qed simp_all
qed

lemma frame_ticket_walk [uth_frame]:
  assumes "ticket_walk n p s = Some (Ok s')" and "p \<in> F \<or> \<not> is_wait p"
  shows "objs_off F s' = objs_off F s"
  using assms
proof (rule ticket_walk.raw_induct [where P = "\<lambda>n p s r. p \<in> F \<or> \<not> is_wait p \<longrightarrow> (\<forall>s'. r = Ok s' \<longrightarrow> objs_off F s' = objs_off F s)",
    THEN mp, THEN spec, THEN mp, rotated])
  fix f n p s r
  assume IH: "\<And>n p s r. f n p s = Some r \<Longrightarrow> p \<in> F \<or> \<not> is_wait p \<longrightarrow> (\<forall>s'. r = Ok s' \<longrightarrow> objs_off F s' = objs_off F s)"
    and b: "(case load_pp p s of
        Ok w \<Rightarrow>
          if w = NULL then Some (Ok s)
          else
            (case get_tcb w s of
               Ok x \<Rightarrow>
                 if tcb_ticket x = n then
                   Some (and_then (load_pp (NextOf w) s) (\<lambda>k.
                         and_then (store_pp p k s) (\<lambda>s.
                         and_then (store_pp (NextOf w) NULL s) (\<lambda>s.
                         uth_enqueue w s))))
                 else f n (NextOf w) s
             | Fault e \<Rightarrow> Some (Fault e)
             | NoReturn \<Rightarrow> Some NoReturn)
      | Fault e \<Rightarrow> Some (Fault e)
      | NoReturn \<Rightarrow> Some NoReturn) = Some r"
  show "p \<in> F \<or> \<not> is_wait p \<longrightarrow> (\<forall>s'. r = Ok s' \<longrightarrow> objs_off F s' = objs_off F s)"
  proof (intro impI allI)
    fix s' assume p: "p \<in> F \<or> \<not> is_wait p" and r: "r = Ok s'"
    from b r obtain w where w: "load_pp p s = Ok w" by (auto split: res.splits)
    show "objs_off F s' = objs_off F s"
    proof (cases "w = NULL")
      case False
      with b r w obtain x where x: "get_tcb w s = Ok x" by (auto split: res.splits)
      from b r w x False have "f n (NextOf w) s = Some r \<or> (\<exists>k s1 s2. store_pp p k s = Ok s1 \<and> store_pp (NextOf w) NULL s1 = Ok s2 \<and> uth_enqueue w s2 = Ok s')"
        by (auto simp: ok_iff split: if_splits)
      then show ?thesis
        using IH [of n "NextOf w" s r] r p by (auto dest!: frame_store [of _ _ _ _ F] objs_off_cong [OF objs_enqueue, of _ _ _ F])
    qed (use b r w in simp)
  qed
qed simp_all

section \<open>The synchronisation primitives\<close>

lemma frame_mutex_loop [uth_frame]:
  "\<lbrakk>mutex_lock_loop m old k s = Ok (c, s'); MutexWaiters m \<in> F\<rbrakk> \<Longrightarrow> objs_off F s' = objs_off F s"
  by (auto simp: mutex_lock_loop_def uth_preempt_restore_def Let_def ok_iff split: if_splits dest!: frame_block [of _ _ _ _ _ F])

lemma frame_mutex_lock [uth_frame]:
  "\<lbrakk>uth_mutex_lock m k s = Ok (c, s'); MutexWaiters m \<in> F\<rbrakk> \<Longrightarrow> objs_off F s' = objs_off F s"
  by (auto simp: uth_mutex_lock_def uth_preempt_off_def dest!: frame_mutex_loop [of _ _ _ _ _ _ F])

lemma frame_mutex_unlock [uth_frame]:
  "\<lbrakk>uth_mutex_unlock m s = Ok (c, s'); MutexWaiters m \<in> F\<rbrakk> \<Longrightarrow> objs_off F s' = objs_off F s"
  by (auto simp: uth_mutex_unlock_def uth_preempt_off_def uth_preempt_restore_def Let_def ok_iff split: if_splits
      dest!: frame_wake_one [of _ _ _ _ F])

lemma frame_ticket_loop [uth_frame]:
  "\<lbrakk>ticket_lock_loop p tk old k s = Ok (c, s'); TicketWaiters p \<in> F\<rbrakk> \<Longrightarrow> objs_off F s' = objs_off F s"
  by (auto simp: ticket_lock_loop_def uth_preempt_restore_def ok_iff split: if_splits dest!: frame_block [of _ _ _ _ _ F])

lemma frame_ticket_lock [uth_frame]:
  "\<lbrakk>uth_ticket_lock p k s = Ok (c, s'); TicketWaiters p \<in> F\<rbrakk> \<Longrightarrow> objs_off F s' = objs_off F s"
  by (auto simp: uth_ticket_lock_def uth_preempt_off_def ok_iff dest!: frame_ticket_loop [of _ _ _ _ _ _ _ F])

lemma frame_ticket_unlock [uth_frame]:
  "\<lbrakk>uth_ticket_unlock p s = Ok (c, s'); TicketWaiters p \<in> F\<rbrakk> \<Longrightarrow> objs_off F s' = objs_off F s"
  by (auto simp: uth_ticket_unlock_def uth_preempt_off_def uth_preempt_restore_def Let_def ok_iff
      dest!: frame_ticket_walk [of _ _ _ _ F])

lemma frame_cond_wait [uth_frame]:
  "\<lbrakk>uth_cond_wait cv m k s = Ok (c, s'); MutexWaiters m \<in> F; CondWaiters cv \<in> F\<rbrakk> \<Longrightarrow> objs_off F s' = objs_off F s"
  by (auto simp: uth_cond_wait_def uth_preempt_off_def ok_iff dest!: frame_mutex_unlock [of _ _ _ _ F] frame_block [of _ _ _ _ _ F])

lemma frame_cond_resumed [uth_frame]:
  "\<lbrakk>uth_cond_wait_resumed m old k s = Ok (c, s'); MutexWaiters m \<in> F\<rbrakk> \<Longrightarrow> objs_off F s' = objs_off F s"
  by (auto simp: uth_cond_wait_resumed_def uth_cond_relocked_def uth_preempt_restore_def ok_iff split: if_splits
      dest!: frame_mutex_lock [of _ _ _ _ _ F])

lemma frame_cond_wake [uth_frame]:
  "\<lbrakk>uth_cond_signal cv s = Ok (c, s'); CondWaiters cv \<in> F\<rbrakk> \<Longrightarrow> objs_off F s' = objs_off F s"
  "\<lbrakk>uth_cond_broadcast cv s = Ok (c, s'); CondWaiters cv \<in> F\<rbrakk> \<Longrightarrow> objs_off F s' = objs_off F s"
  by (auto simp: uth_cond_signal_def uth_cond_broadcast_def uth_preempt_off_def uth_preempt_restore_def ok_iff
      dest!: frame_wake_one [of _ _ _ _ F] frame_wake_all [of _ _ _ F])

lemma frame_sem_loop [uth_frame]:
  "\<lbrakk>sem_wait_loop p old k s = Ok (c, s'); SemWaiters p \<in> F\<rbrakk> \<Longrightarrow> objs_off F s' = objs_off F s"
  by (auto simp: sem_wait_loop_def uth_preempt_restore_def ok_iff split: if_splits dest!: frame_block [of _ _ _ _ _ F])

lemma frame_sem_wait [uth_frame]:
  "\<lbrakk>uth_sem_wait p k s = Ok (c, s'); SemWaiters p \<in> F\<rbrakk> \<Longrightarrow> objs_off F s' = objs_off F s"
  by (auto simp: uth_sem_wait_def uth_preempt_off_def dest!: frame_sem_loop [of _ _ _ _ _ _ F])

lemma frame_sem_post [uth_frame]:
  "\<lbrakk>uth_sem_post p s = Ok (c, s'); SemWaiters p \<in> F\<rbrakk> \<Longrightarrow> objs_off F s' = objs_off F s"
  by (auto simp: uth_sem_post_def uth_preempt_off_def uth_preempt_restore_def Let_def ok_iff split: if_splits
      dest!: frame_wake_one [of _ _ _ _ F])

section \<open>Calls and suspended functions\<close>

fun footprint :: "api \<Rightarrow> tcb_pp set" where
  "footprint (A_mutex_init m) = {MutexWaiters m}"
| "footprint (A_mutex_lock m) = {MutexWaiters m}"
| "footprint (A_mutex_unlock m) = {MutexWaiters m}"
| "footprint (A_ticket_init m) = {TicketWaiters m}"
| "footprint (A_ticket_lock m) = {TicketWaiters m}"
| "footprint (A_ticket_unlock m) = {TicketWaiters m}"
| "footprint (A_cond_init c) = {CondWaiters c}"
| "footprint (A_cond_wait c m) = {CondWaiters c, MutexWaiters m}"
| "footprint (A_cond_signal c) = {CondWaiters c}"
| "footprint (A_cond_broadcast c) = {CondWaiters c}"
| "footprint (A_sem_init p v) = {SemWaiters p}"
| "footprint (A_sem_wait p) = {SemWaiters p}"
| "footprint (A_sem_post p) = {SemWaiters p}"
| "footprint (A_preempt_enable ms env) = {RqHead}"
| "footprint _ = {}"

fun frame_footprint :: "frame \<Rightarrow> tcb_pp set" where
  "frame_footprint (F_mutex_lock m old) = {MutexWaiters m}"
| "frame_footprint (F_ticket_lock p tk old) = {TicketWaiters p}"
| "frame_footprint (F_cond_wait c m old) = {MutexWaiters m}"
| "frame_footprint (F_sem_wait p old) = {SemWaiters p}"
| "frame_footprint F_preempt_disable = {RqHead}"
| "frame_footprint _ = {}"

fun is_create :: "api \<Rightarrow> bool" where
  "is_create (A_create fn arg n env) = True"
| "is_create _ = False"

lemma call_frame:
  assumes "api_call a s = Ok (c, s')" and "\<not> is_create a"
  shows "objs_off (footprint a) s' = objs_off (footprint a) s"
  using assms
proof (cases a)
  case (A_sem_init p v)
  with assms show ?thesis by (auto simp: uth_sem_init_def split: if_splits)
qed (auto simp: uth_frame ok_iff uth_init_def uth_spin_init_def uth_spin_destroy_def
    uth_mutex_init_def uth_ticket_init_def uth_cond_init_def uth_spin_unlock_def dest!: destroy_same same_active_count)

lemma call_obj_at: "\<lbrakk>api_call a s = Ok (c, s'); q \<notin> footprint a\<rbrakk> \<Longrightarrow> obj_at q s' = obj_at q s"
  by (cases "is_create a") (auto simp: obj_at_create objs_offD(1) [OF call_frame] elim: is_create.elims)

lemma resume_frame_frame:
  assumes "resume_frame f k s = Ok (c, s')"
  shows "objs_off (frame_footprint f) s' = objs_off (frame_footprint f) s"
  using assms by (cases f) (auto simp: uth_frame ok_iff thread_trampoline_def uth_create_ret_def
    uth_yield_resumed_def uth_preempt_restore_def uth_cond_relocked_def dest!: same_active_count)

end
