(* ===== verification/Uth_Objects.thy ===== *)
theory Uth_Objects
  imports Uth_Frame
begin

text \<open>
  What every step of the library does to a mutex and to a semaphore: the state of a mutex agrees with
  its owner, only its owner releases it, and the value of a semaphore stays a non-negative \<open>int\<close>.
\<close>

section \<open>Steps that change an object\<close>

text \<open>An object only changes in a call that works on it or in a suspended call that continues with it.\<close>

lemma objs_run:
  "uth_run bp sp s = (r, s') \<Longrightarrow> objs s' = objs s" "uth_run_linked bp sp s = (r, s') \<Longrightarrow> objs s' = objs s"
  "objs (scheduler_entry s) = objs s" "objs (scheduler_swapped s) = objs s"
  by (auto simp: uth_run_def uth_run_linked_def uth_run_body_def scheduler_entry_def scheduler_swapped_def split: if_splits)

lemma step_object_cases:
  assumes "step (l, s) (l', s')"
  obtains (same) "obj_at q s' = obj_at q s"
    | (call) a d where "l = User []" "env_ok a s" "api_call a s = Ok (d, s')" "q \<in> footprint a"
    | (resume) f k d where "l = User (f # k)" "resume_frame f k s = Ok (d, s')" "q \<in> frame_footprint f"
  using assms
proof (cases rule: step.cases)
  case (do_call a d)
  with call call_obj_at same show ?thesis by blast
next
  case (do_resume f k d)
  with resume objs_offD(1) [OF resume_frame_frame] same show ?thesis by blast
next
  case (do_tick ucp d)
  with objsD [OF objs_handler] same show ?thesis by blast
next
  case (do_finish s1 bp sp)
  with objsD [OF objs_round [OF do_finish(3)], of q] objsD [OF objs_run(2) [OF do_finish(4)], of q] same show ?thesis by simp
qed (use same objsD [OF objs_round] objsD [OF objs_run(1)] objsD [OF objs_run(3)] objsD [OF objs_run(4)] in blast)+

section \<open>The mutex\<close>

lemma mutex_of_erase:
  "mutexes (erase s) m = Some y \<Longrightarrow> \<exists>x. mutexes s m = Some x \<and> mtx_locked x = mtx_locked y \<and> mtx_owner x = mtx_owner y"
  by (auto simp: erase_maps)

lemma mutex_loop_effect:
  assumes inv: "lib_inv s rq wq" and c: "caller s" and m: "sigmask s" and k: "caller_ok old k"
    and res: "mutex_lock_loop m old k s = Ok (c, s')"
  obtains (takes) x x' where "mutexes s m = Some x" "mutexes s' m = Some x'" "mtx_locked x' = 1"
      "mtx_locked x = 0" "mtx_owner x' = self_tid s" "c = Return RetVoid"
    | (waits) x x' where "mutexes s m = Some x" "mutexes s' m = Some x'" "mtx_locked x' = 1"
      "mtx_locked x \<noteq> 0" "mtx_owner x' = mtx_owner x" "c = Switched" "parked (F_mutex_lock m old # k) s s'"
proof -
  have v: "mutexes s m \<noteq> None" using mutex_wait.loop_invalid [of s m old k] res by auto
  then obtain x where x: "mutexes s m = Some x" by blast
  show ?thesis
  proof (cases "mutex_free m s")
    case True
    from mutex_wait.loop_avail [OF c v True, of old k] res x True show ?thesis
      by (intro takes [OF x]) (auto simp: mutex_take_def mutex_free_def)
  next
    case False
    have nz: "uth_current s \<noteq> NULL" using mutex_wait.loop_outside [OF _ v False, of old k] res by auto
    from caller_runs [OF c nz] obtain t where r: "runs s (uth_current s) t" by blast
    from mutex_wait.waits [OF inv r v False m k] res have
      e: "erase s' = switched UTH_STATE_BLOCKED (uth_current s) (F_mutex_lock m old # k) (erase (mutex_mark m s))" and d: "c = Switched" by auto
    have pk: "parked (F_mutex_lock m old # k) s s'" using mutex_wait.parks [OF inv c m k] res d by simp
    have "mutexes (erase s') m = Some (x\<lparr>mtx_locked := 1, mtx_waiters := NULL\<rparr>)"
      unfolding e by (simp add: switched_def mutex_mark_def x)
    from mutex_of_erase [OF this] False x d pk show ?thesis by (auto simp: mutex_free_def intro: waits [OF x])
  qed
qed

lemma mutex_lock_effect:
  assumes "lib_inv s rq wq" and "caller s" and "caller_ok (sigmask s) k" and "uth_mutex_lock m k s = Ok (c, s')"
  obtains (takes) x x' where "mutexes s m = Some x" "mutexes s' m = Some x'" "mtx_locked x' = 1"
      "mtx_locked x = 0" "mtx_owner x' = self_tid s" "c = Return RetVoid"
    | (waits) x x' where "mutexes s m = Some x" "mutexes s' m = Some x'" "mtx_locked x' = 1"
      "mtx_locked x \<noteq> 0" "mtx_owner x' = mtx_owner x" "c = Switched" "parked (F_mutex_lock m (sigmask s) # k) s s'"
proof -
  have "mutex_lock_loop m (sigmask s) k (s\<lparr>sigmask := True\<rparr>) = Ok (c, s')"
    using assms(4) by (simp add: uth_mutex_lock_def uth_preempt_off_def)
  with assms show thesis
    by (elim mutex_loop_effect [of "s\<lparr>sigmask := True\<rparr>" rq wq "sigmask s" k m c s', rotated 4]) (auto intro: takes waits)
qed

lemma mutex_unlock_effect:
  assumes inv: "lib_inv s rq wq" and c: "caller s" and res: "uth_mutex_unlock m s = Ok (c, s')"
  obtains x x' where "mutexes s m = Some x" "mtx_owner x = self_tid s" "mutexes s' m = Some x'"
    "mtx_locked x' = 0" "mtx_owner x' = UTH_TID_INVALID"
proof -
  obtain x where x: "mutexes s m = Some x" using res by (auto simp: uth_mutex_unlock_def uth_preempt_off_def ok_iff)
  have own: "mtx_owner x = self_tid s" using mutex_unlock_foreign [OF c x] res by fastforce
  from mutex_unlock_ok [OF inv c x own] res have
    "mutexes (erase s') m = Some (x\<lparr>mtx_owner := UTH_TID_INVALID, mtx_locked := 0, mtx_waiters := NULL\<rparr>)" by (auto simp: Let_def)
  from mutex_of_erase [OF this] x own show ?thesis by (auto intro: that [OF x])
qed

lemma cond_wait_effect:
  assumes inv: "lib_inv s rq wq" and c: "caller s" and res: "uth_cond_wait cv m [] s = Ok (c, s')"
  obtains x x' where "mutexes s m = Some x" "mtx_owner x = self_tid s" "mutexes s' m = Some x'"
    "mtx_locked x' = 0" "mtx_owner x' = UTH_TID_INVALID"
proof -
  let ?s = "s\<lparr>sigmask := True\<rparr>"
  obtain r s1 where s1: "uth_mutex_unlock m ?s = Ok (r, s1)"
      "uth_block (CondWaiters cv) [F_cond_wait cv m (sigmask s)] s1 = Ok (c, s')"
    using res by (auto simp: uth_cond_wait_def uth_preempt_off_def ok_iff)
  have "obj_at (MutexWaiters m) s' = obj_at (MutexWaiters m) s1"
    by (rule objs_offD(1) [OF frame_block [OF s1(2), of "{CondWaiters cv}"]]) simp_all
  with mutex_unlock_effect [OF _ _ s1(1)] inv c that show ?thesis by auto
qed

text \<open>
  A held mutex changes hands only when its owner releases it, with \<open>uth_mutex_unlock\<close> or inside
  \<open>uth_cond_wait\<close>, or when it is initialised again.
\<close>

definition held_by :: "ptr \<Rightarrow> u32 \<Rightarrow> sys \<Rightarrow> bool" where
  "held_by m i s \<longleftrightarrow> (\<exists>x. mutexes s m = Some x \<and> mtx_locked x \<noteq> 0 \<and> mtx_owner x = i)"

lemma held_by_same: "obj_at (MutexWaiters m) s' = obj_at (MutexWaiters m) s \<Longrightarrow> held_by m i s' = held_by m i s"
  by (simp add: held_by_def)

lemma resume_keeps_held:
  assumes inv: "lib_inv s rq wq" and u: "user_inv (f # k) s" and res: "resume_frame f k s = Ok (d, s')" and h: "held_by m i s"
  shows "held_by m i s'"
proof (cases "MutexWaiters m \<in> frame_footprint f")
  case False
  from held_by_same [OF objs_offD(1) [OF resume_frame_frame [OF res] False]] h show ?thesis by simp
next
  case True
  have st: "stack_ok (sigmask s) (f # k)"
    using u by (auto simp: user_inv_def ctx_ok_def split: if_splits)
  from True consider old where "f = F_mutex_lock m old" | cv old where "f = F_cond_wait cv m old" by (cases f) auto
  then show ?thesis
  proof cases
    case (1 old)
    with mutex_loop_effect [OF inv user_inv_caller [OF u], of old k m d s'] res st h show ?thesis by (force simp: held_by_def)
  next
    case (2 cv old)
    with st res obtain c s1 where s1: "uth_mutex_lock m [F_cond_relock old] s = Ok (c, s1)" "s' = s1 \<or> s' = s1\<lparr>sigmask := old\<rparr>" "sigmask s"
      by (auto simp: uth_cond_wait_resumed_def uth_cond_relocked_def uth_preempt_restore_def ok_iff split: if_splits)
    with mutex_lock_effect [OF inv user_inv_caller [OF u] _ s1(1)] h show ?thesis by (force simp: held_by_def)
  qed
qed

lemma call_releases:
  assumes inv: "lib_inv s rq wq" and c: "caller s" and res: "api_call a s = Ok (d, s')" and h: "held_by m i s" "\<not> held_by m i s'"
  shows "a = A_mutex_init m \<or> self_tid s = i \<and> (a = A_mutex_unlock m \<or> (\<exists>cv. a = A_cond_wait cv m))"
proof (cases "MutexWaiters m \<in> footprint a")
  case False
  from held_by_same [OF call_obj_at [OF res False]] h show ?thesis by simp
next
  case True
  then show ?thesis
  proof (cases a)
    case (A_mutex_lock n)
    with True mutex_lock_effect [OF inv c, of "[]" m d s'] res h show ?thesis by (force simp: held_by_def)
  next
    case (A_mutex_unlock n)
    with True mutex_unlock_effect [OF inv c, of m d s'] res h show ?thesis by (force simp: held_by_def)
  next
    case (A_cond_wait cv n)
    with True cond_wait_effect [OF inv c, of cv m d s'] res h show ?thesis by (force simp: held_by_def)
  qed auto
qed

section \<open>The semaphore\<close>

lemma sem_of_erase: "sems (erase s) p = Some y \<Longrightarrow> \<exists>x. sems s p = Some x \<and> sem_value x = sem_value y"
  by (auto simp: erase_maps)

lemma sem_loop_effect:
  assumes inv: "lib_inv s rq wq" and c: "caller s" and m: "sigmask s" and k: "caller_ok old k"
    and res: "sem_wait_loop p old k s = Ok (c, s')"
  obtains (waits) x x' where "sems s p = Some x" "sems s' p = Some x'" "sem_value x \<le> 0" "sem_value x' = sem_value x"
      "c = Switched" "parked (F_sem_wait p old # k) s s'"
    | (takes) x where "sems s p = Some x" "sems s' p = Some (x\<lparr>sem_value := sem_value x - 1\<rparr>)" "0 < sem_value x" "c = Return RetVoid"
proof -
  have v: "sems s p \<noteq> None" using sem_wait.loop_invalid [of s p old k] res by auto
  then obtain x where x: "sems s p = Some x" by blast
  show ?thesis
  proof (cases "sem_avail p s")
    case True
    from sem_wait.loop_avail [OF c v True, of old k] res x True show ?thesis
      by (intro takes [OF x]) (auto simp: sem_take_def sem_avail_def)
  next
    case False
    have nz: "uth_current s \<noteq> NULL" using sem_wait.loop_outside [OF _ v False, of old k] res by auto
    from caller_runs [OF c nz] obtain t where r: "runs s (uth_current s) t" by blast
    from sem_wait.waits [OF inv r v False m k] res have
      e: "erase s' = switched UTH_STATE_BLOCKED (uth_current s) (F_sem_wait p old # k) (erase s)" and d: "c = Switched" by auto
    have pk: "parked (F_sem_wait p old # k) s s'" using sem_wait.parks [OF inv c m k] res d by simp
    have "sems (erase s') p = Some (x\<lparr>sem_waiters := NULL\<rparr>)"
      unfolding e by (simp add: switched_def x erase_maps)
    from sem_of_erase [OF this] False x d pk show ?thesis by (auto simp: sem_avail_def intro: waits [OF x])
  qed
qed

lemma sem_wait_effect:
  assumes "lib_inv s rq wq" and "caller s" and "caller_ok (sigmask s) k" and "uth_sem_wait p k s = Ok (c, s')"
  obtains (waits) x x' where "sems s p = Some x" "sems s' p = Some x'" "sem_value x \<le> 0" "sem_value x' = sem_value x"
      "c = Switched" "parked (F_sem_wait p (sigmask s) # k) s s'"
    | (takes) x where "sems s p = Some x" "sems s' p = Some (x\<lparr>sem_value := sem_value x - 1\<rparr>)" "0 < sem_value x" "c = Return RetVoid"
proof -
  have "sem_wait_loop p (sigmask s) k (s\<lparr>sigmask := True\<rparr>) = Ok (c, s')"
    using assms(4) by (simp add: uth_sem_wait_def uth_preempt_off_def)
  with assms show thesis
    by (elim sem_loop_effect [of "s\<lparr>sigmask := True\<rparr>" rq wq "sigmask s" k p c s', rotated 4]) (auto intro: takes waits)
qed

lemma sem_post_effect:
  assumes inv: "lib_inv s rq wq" and res: "uth_sem_post p s = Ok (c, s')"
  obtains x x' where "sems s p = Some x" "sem_value x \<noteq> INT_MAX" "sems s' p = Some x'" "sem_value x' = sem_value x + 1"
    "lib_inv s' (rq @ take 1 (wq (SemWaiters p))) (wq(SemWaiters p := tl (wq (SemWaiters p))))" "settled s s'"
proof -
  obtain x where x: "sems s p = Some x" "sem_value x \<noteq> INT_MAX"
    using res by (auto simp: uth_sem_post_def uth_preempt_off_def ok_iff split: if_splits)
  from sem_post_ok [OF inv x] res have s': "lib_inv s' (rq @ take 1 (wq (SemWaiters p))) (wq(SemWaiters p := tl (wq (SemWaiters p))))" "settled s s'"
      "sems (erase s') p = Some (x\<lparr>sem_value := sem_value x + 1, sem_waiters := NULL\<rparr>)"
    by (auto simp: stays_def Let_def)
  from sem_of_erase [OF s'(3)] s'(1,2) show ?thesis by (auto intro: that [OF x])
qed

section \<open>Well-formed objects\<close>

fun obj_ok :: "sync_object \<Rightarrow> bool" where
  "obj_ok (ObjMutex (Some x)) = (mtx_locked x = 1 \<or> mtx_locked x = 0 \<and> mtx_owner x = UTH_TID_INVALID)"
| "obj_ok (ObjSem (Some x)) = (0 \<le> sem_value x \<and> sem_value x \<le> INT_MAX)"
| "obj_ok _ = True"

text \<open>
  Every step keeps the objects well-formed. Objects that no call has initialised are absent from the
  initial state, so this is an invariant of the library.
\<close>

lemma obj_ok_kind: "(\<And>m. q \<noteq> MutexWaiters m) \<Longrightarrow> (\<And>p. q \<noteq> SemWaiters p) \<Longrightarrow> obj_ok (obj_at q s)"
  by (cases q) auto

lemma call_obj_ok:
  assumes inv: "lib_inv s rq wq" and c: "caller s" and e: "env_ok a s" and res: "api_call a s = Ok (d, s')"
    and q: "q \<in> footprint a" and ok: "obj_ok (obj_at q s)"
  shows "obj_ok (obj_at q s')"
proof (cases a)
  case (A_mutex_init m)
  with q res show ?thesis by (auto simp: uth_mutex_init_def)
next
  case (A_mutex_lock m)
  with q mutex_lock_effect [OF inv c, of "[]" m d s'] res show ?thesis by force
next
  case (A_mutex_unlock m)
  with q mutex_unlock_effect [OF inv c, of m d s'] res show ?thesis by force
next
  case (A_cond_wait cv m)
  with q cond_wait_effect [OF inv c, of cv m d s'] res show ?thesis by (force intro: obj_ok_kind)
next
  case (A_sem_init p v)
  with q res e show ?thesis by (auto simp: uth_sem_init_def split: if_splits)
next
  case (A_sem_wait p)
  with q sem_wait_effect [OF inv c, of "[]" p d s'] res ok show ?thesis by force
next
  case (A_sem_post p)
  with q sem_post_effect [OF inv, of p d s'] res ok show ?thesis by force
qed (use q in \<open>auto intro: obj_ok_kind\<close>)

lemma resume_obj_ok:
  assumes inv: "lib_inv s rq wq" and u: "user_inv (f # k) s" and res: "resume_frame f k s = Ok (d, s')"
    and q: "q \<in> frame_footprint f" and ok: "obj_ok (obj_at q s)"
  shows "obj_ok (obj_at q s')"
proof -
  have st: "stack_ok (sigmask s) (f # k)"
    using u by (auto simp: user_inv_def ctx_ok_def split: if_splits)
  note c = user_inv_caller [OF u]
  show ?thesis
  proof (cases f)
    case (F_mutex_lock m old)
    then have "sigmask s" "caller_ok old k" "mutex_lock_loop m old k s = Ok (d, s')" "q = MutexWaiters m"
      using st res q by simp_all
    then show ?thesis by (auto elim: mutex_loop_effect [OF inv c])
  next
    case (F_cond_wait cv m old)
    with st res obtain c1 s1 where s1: "uth_mutex_lock m [F_cond_relock old] s = Ok (c1, s1)" "s' = s1 \<or> s' = s1\<lparr>sigmask := old\<rparr>" "sigmask s"
      by (auto simp: uth_cond_wait_resumed_def uth_cond_relocked_def uth_preempt_restore_def ok_iff split: if_splits)
    have "caller_ok (sigmask s) [F_cond_relock old]" using s1(3) by simp
    then obtain x where "mutexes s1 m = Some x" "mtx_locked x = 1" by (rule mutex_lock_effect [OF inv c _ s1(1)])
    with F_cond_wait q s1(2) show ?thesis by auto
  next
    case (F_sem_wait p old)
    then have "sigmask s" "caller_ok old k" "sem_wait_loop p old k s = Ok (d, s')" "q = SemWaiters p"
      using st res q by simp_all
    with ok show ?thesis by (auto elim: sem_loop_effect [OF inv c])
  qed (use q in \<open>auto intro: obj_ok_kind\<close>)
qed

definition objects_inv :: "config \<Rightarrow> bool" where
  "objects_inv c \<longleftrightarrow> cfg_inv c \<and> (\<forall>q. obj_ok (obj_at q (snd c)))"

lemma objects_step:
  assumes I: "objects_inv (l, s)" and st: "step (l, s) (l', s')"
  shows "obj_ok (obj_at q s')"
  using st
proof (cases rule: step_object_cases [of l s l' s' q])
  case same
  with I show ?thesis by (simp add: objects_inv_def)
next
  case (call a d)
  with I obtain rq wq where "lib_inv s rq wq" "user_inv [] s" by (auto simp: objects_inv_def elim: lib_okE)
  with call_obj_ok [OF _ user_inv_caller call(2-4)] I show ?thesis by (simp add: objects_inv_def)
next
  case (resume f k d)
  with I obtain rq wq where "lib_inv s rq wq" "user_inv (f # k) s" by (auto simp: objects_inv_def elim: lib_okE)
  with resume_obj_ok [OF _ _ resume(2,3)] I show ?thesis by (simp add: objects_inv_def)
qed

interpretation objects: machine_invariant objects_inv
proof
  fix b
  have "obj_ok (obj_at q (sys0\<lparr>sigmask := b\<rparr>))" for q by (cases q) (simp_all add: sys0_def)
  with cfg.init show "objects_inv (User [], sys0\<lparr>sigmask := b\<rparr>)" unfolding objects_inv_def by simp
next
  fix c c' assume I: "objects_inv c" and st: "step c c'"
  then have "cfg_inv c'" using cfg.preserved [of c c'] by (simp add: objects_inv_def)
  with objects_step [of "fst c" "snd c" "fst c'" "snd c'"] I st show "objects_inv c'" by (simp add: objects_inv_def)
qed

end
