(* ===== verification/Uth_Wakeup.thy ===== *)
theory Uth_Wakeup
  imports Uth_Objects
begin

text \<open>
  No wake-up is lost. A free mutex has one unit, a semaphore as many as its value. While threads wait
  on such an object, every unit has a taker: a thread that was woken and will retry the call.
  The invariant is proved for every step of the library, with the frame lemmas for the objects a
  step does not work on.
\<close>

section \<open>Units and takers\<close>

fun units :: "sync_object \<Rightarrow> int" where
  "units (ObjMutex (Some x)) = (if mtx_locked x = 0 then 1 else 0)"
| "units (ObjSem (Some x)) = sem_value x"
| "units _ = 0"

fun has_waiters :: "sync_object \<Rightarrow> bool" where
  "has_waiters (ObjMutex (Some x)) = (mtx_waiters x \<noteq> NULL)"
| "has_waiters (ObjTicket (Some x)) = (tk_waiters x \<noteq> NULL)"
| "has_waiters (ObjCond (Some x)) = (cv_waiters x \<noteq> NULL)"
| "has_waiters (ObjSem (Some x)) = (sem_waiters x \<noteq> NULL)"
| "has_waiters _ = False"

text \<open>The ready threads that retry a call on the object of \<open>q\<close>, and whether control is in such a thread.\<close>

definition retrying :: "tcb_pp \<Rightarrow> sys \<Rightarrow> ptr set" where
  "retrying q s = {y. \<exists>t f k. heap s y = Some t \<and> tcb_state t = UTH_STATE_READY \<and> uc_frames (tcb_ctx t) = f # k \<and> waits_on f = Some q}"

fun retries_at :: "tcb_pp \<Rightarrow> loc \<Rightarrow> nat" where
  "retries_at q (User (f # k)) = (if waits_on f = Some q then 1 else 0)"
| "retries_at q _ = 0"

definition takers :: "tcb_pp \<Rightarrow> config \<Rightarrow> int" where
  "takers q c = int (card (retrying q (snd c)) + retries_at q (fst c))"

definition wake_ok :: "tcb_pp \<Rightarrow> config \<Rightarrow> bool" where
  "wake_ok q c \<longleftrightarrow> (has_waiters (obj_at q (snd c)) \<longrightarrow> units (obj_at q (snd c)) \<le> takers q c)"

lemma units_bound: "units (obj_at (MutexWaiters m) s) \<le> 1"
  by (cases "mutexes s m") simp_all

lemma has_waiters_iff:
  assumes "lib_inv s rq wq"
  shows "has_waiters (obj_at q s) \<longleftrightarrow> wq q \<noteq> []"
proof -
  note W = shapeD(3) [OF lib_invD(1) [OF assms], of q]
  have "has_waiters (obj_at q s) \<longleftrightarrow> is_wait q \<and> (\<exists>x. load_pp q s = Ok x \<and> x \<noteq> NULL)"
    by (cases q; simp add: pp_simps get_object_defs split: option.split)
  also have "\<dots> \<longleftrightarrow> wq q \<noteq> []"
  proof
    assume "is_wait q \<and> (\<exists>x. load_pp q s = Ok x \<and> x \<noteq> NULL)"
    then obtain x where x: "is_wait q" "load_pp q s = Ok x" "x \<noteq> NULL" by blast
    then have "chain s q (wq q)" by (intro wchain_chain [OF W]) (simp_all add: mapped_def)
    with x show "wq q \<noteq> []" by (cases "wq q") auto
  next
    assume "wq q \<noteq> []"
    with wchain_nonempty [OF W] show "is_wait q \<and> (\<exists>x. load_pp q s = Ok x \<and> x \<noteq> NULL)" by (cases "wq q") auto
  qed
  finally show ?thesis .
qed

lemma retrying_mono: "settled s s' \<Longrightarrow> retrying q s \<subseteq> retrying q s'"
  unfolding retrying_def by (fastforce elim: settledE)

lemma finite_retrying: "lib_inv s rq wq \<Longrightarrow> finite (retrying q s)"
  using finite_live [OF lib_invD(3), of s rq wq "\<lambda>_. True"]
  by (rule finite_subset [rotated]) (auto simp: retrying_def live_at_def)

text \<open>The first waiter becomes a taker when it is woken.\<close>

lemma woken_retries:
  assumes inv: "lib_inv s rq wq" and w: "wq q = w # ws" and inv': "lib_inv s' (rq @ take 1 (wq q)) wq'" and st: "settled s s'"
  shows "w \<in> retrying q s'" "w \<notin> retrying q s"
proof -
  obtain t f k where t: "heap s w = Some t" "tcb_state t = UTH_STATE_BLOCKED" "uc_frames (tcb_ctx t) = f # k" "waits_on f = Some q"
    using lib_waitE [OF inv, of w q] w by auto
  from t(1,2) show "w \<notin> retrying q s" by (simp add: retrying_def)
  obtain t' where t': "heap s' w = Some t'" "tcb_ctx t' = tcb_ctx t" using t by (auto elim: settledE [OF st])
  with lib_ready_iff [OF inv'] w have "tcb_state t' = UTH_STATE_READY" by simp
  with t t' show "w \<in> retrying q s'" by (auto simp: retrying_def)
qed

lemma wake_adds_taker:
  assumes inv: "lib_inv s rq wq" and inv': "lib_inv s' (rq @ take 1 (wq q)) (wq(q := tl (wq q)))" and st: "settled s s'"
    and h: "has_waiters (obj_at q s')"
  shows "card (retrying q s) < card (retrying q s')" "has_waiters (obj_at q s)"
proof -
  from h has_waiters_iff [OF inv'] have "tl (wq q) \<noteq> []" by simp
  then obtain w ws where w: "wq q = w # ws" by (cases "wq q") auto
  with has_waiters_iff [OF inv] show "has_waiters (obj_at q s)" by simp
  have "retrying q s \<subset> retrying q s'" using retrying_mono [OF st] woken_retries [OF inv w inv' st] by blast
  then show "card (retrying q s) < card (retrying q s')" by (rule psubset_card_mono [OF finite_retrying [OF inv']])
qed

section \<open>The calls that work on units\<close>

lemma mutex_loop_units:
  assumes "lib_inv s rq wq" and "caller s" and "sigmask s" and "caller_ok old k" and "mutex_lock_loop m old k s = Ok (c, s')"
  shows "units (obj_at (MutexWaiters m) s') = 0"
  by (rule mutex_loop_effect [OF assms]) simp_all

lemma mutex_lock_units:
  assumes "lib_inv s rq wq" and "caller s" and "caller_ok (sigmask s) k" and "uth_mutex_lock m k s = Ok (c, s')"
  shows "units (obj_at (MutexWaiters m) s') = 0"
  by (rule mutex_lock_effect [OF assms]) simp_all

lemma mutex_unlock_takers:
  assumes inv: "lib_inv s rq wq" and c: "caller s" and res: "uth_mutex_unlock m s = Ok (c, s')"
    and h: "has_waiters (obj_at (MutexWaiters m) s')"
  shows "0 < card (retrying (MutexWaiters m) s')"
proof -
  obtain x where x: "mutexes s m = Some x" using res by (auto simp: uth_mutex_unlock_def uth_preempt_off_def ok_iff)
  have own: "mtx_owner x = self_tid s" using mutex_unlock_foreign [OF c x] res by fastforce
  from mutex_unlock_ok [OF inv c x own] res have
    "lib_inv s' (rq @ take 1 (wq (MutexWaiters m))) (wq(MutexWaiters m := tl (wq (MutexWaiters m))))" "settled s s'"
    by (auto simp: stays_def)
  from wake_adds_taker(1) [OF inv this h] show ?thesis by simp
qed

lemma sem_loop_units:
  assumes "lib_inv s rq wq" and "caller s" and "sigmask s" and "caller_ok old k" and "sem_wait_loop p old k s = Ok (c, s')"
  defines "q \<equiv> SemWaiters p"
  shows "units (obj_at q s') \<le> 0 \<or> units (obj_at q s') = units (obj_at q s) - 1 \<and> has_waiters (obj_at q s') = has_waiters (obj_at q s)"
  by (rule sem_loop_effect [OF assms(1-5)]) (simp_all add: q_def)

lemma sem_wait_units:
  assumes "lib_inv s rq wq" and "caller s" and "caller_ok (sigmask s) k" and "uth_sem_wait p k s = Ok (c, s')"
  defines "q \<equiv> SemWaiters p"
  shows "units (obj_at q s') \<le> 0 \<or> units (obj_at q s') = units (obj_at q s) - 1 \<and> has_waiters (obj_at q s') = has_waiters (obj_at q s)"
  by (rule sem_wait_effect [OF assms(1-4)]) (simp_all add: q_def)

lemma sem_post_units:
  assumes inv: "lib_inv s rq wq" and res: "uth_sem_post p s = Ok (c, s')"
  defines "q \<equiv> SemWaiters p"
  shows "units (obj_at q s') = units (obj_at q s) + 1"
    "has_waiters (obj_at q s') \<Longrightarrow> has_waiters (obj_at q s) \<and> card (retrying q s) < card (retrying q s')"
  by (rule sem_post_effect [OF inv res], simp add: q_def)
    (rule sem_post_effect [OF inv res], use wake_adds_taker [OF inv, of s' q] in \<open>simp add: q_def\<close>)

section \<open>Preservation\<close>

lemma wake_okI: "(has_waiters (obj_at q s) \<Longrightarrow> units (obj_at q s) \<le> int (card (retrying q s))) \<Longrightarrow> wake_ok q (l, s)"
  by (cases "has_waiters (obj_at q s)") (simp_all add: wake_ok_def takers_def)

lemma wake_ok_trivial: "units (obj_at q s) \<le> 0 \<Longrightarrow> wake_ok q (l, s)"
  by (rule wake_okI) simp

lemma wake_ok_settled:
  assumes w: "wake_ok q (l, s)" and st: "settled s s'" and l: "lib_ok s'" and u: "units (obj_at q s') \<le> units (obj_at q s) - int (retries_at q l)"
    and h: "has_waiters (obj_at q s') \<Longrightarrow> has_waiters (obj_at q s)"
  shows "wake_ok q (l', s')"
proof (rule wake_okI)
  assume "has_waiters (obj_at q s')"
  with w h have "units (obj_at q s) \<le> int (card (retrying q s) + retries_at q l)" by (simp add: wake_ok_def takers_def)
  moreover have "card (retrying q s) \<le> card (retrying q s')"
    using l finite_retrying by (auto elim: lib_okE intro: card_mono [OF _ retrying_mono [OF st]])
  ultimately show "units (obj_at q s') \<le> int (card (retrying q s'))" using u by simp
qed

lemma cond_block_settled:
  assumes inv: "lib_inv s rq wq" and c: "caller s" and m: "sigmask s"
    and res: "uth_block (CondWaiters cv) [F_cond_wait cv mx old] s = Ok (c, s')"
  shows "settled s s'"
proof -
  have nz: "uth_current s \<noteq> NULL" using uth_block_outside res by fastforce
  from caller_runs [OF c nz] obtain t where r: "runs s (uth_current s) t" by blast
  have "mapped (CondWaiters cv) s" using uth_block_unmapped [of "CondWaiters cv" s] res by auto
  from uth_block_ok [OF inv r this, of "F_cond_wait cv mx old" "[]"] m res
  have "erase s' = switched UTH_STATE_BLOCKED (uth_current s) [F_cond_wait cv mx old] (erase s)" by auto
  then show ?thesis by (rule settled_switch [OF _ runs_erase(1,2) [OF r] settled_heap [OF refl refl]])
qed

lemma cond_wait_takers:
  assumes inv: "lib_inv s rq wq" and c: "caller s" and res: "uth_cond_wait cv m [] s = Ok (c, s')"
    and h: "has_waiters (obj_at (MutexWaiters m) s')"
  shows "0 < card (retrying (MutexWaiters m) s')"
proof -
  let ?s = "s\<lparr>sigmask := True\<rparr>"
  have inv0: "lib_inv ?s rq wq" and c0: "caller ?s" using inv c by simp_all
  obtain r s1 where s1: "uth_mutex_unlock m ?s = Ok (r, s1)"
      "uth_block (CondWaiters cv) [F_cond_wait cv m (sigmask s)] s1 = Ok (c, s')"
    using res by (auto simp: uth_cond_wait_def uth_preempt_off_def ok_iff)
  from mutex_unlock_post [OF inv0 c0 s1(1)] obtain rq1 wq1 where inv1: "lib_inv s1 rq1 wq1" and st: "stays ?s s1" "sigmask s1"
    by (auto elim: lib_okE)
  note set1 = cond_block_settled [OF inv1 caller_stays [OF c0 st(1)] st(2) s1(2)]
  have "obj_at (MutexWaiters m) s' = obj_at (MutexWaiters m) s1"
    by (rule objs_offD(1) [OF frame_block [OF s1(2), of "{CondWaiters cv}"]]) simp_all
  with mutex_unlock_takers [OF inv0 c0 s1(1)] h have "0 < card (retrying (MutexWaiters m) s1)" by simp
  moreover have "lib_ok s'" using cond_wait_post [OF inv c res] by (simp add: lib_post_def)
  then obtain rq' wq' where "lib_inv s' rq' wq'" by (rule lib_okE)
  ultimately show ?thesis
    using card_mono [OF finite_retrying retrying_mono [OF set1]] by (metis less_le_trans)
qed

lemma call_wake:
  assumes inv: "lib_inv s rq wq" and c: "caller s" and e: "env_ok a s" and res: "api_call a s = Ok (c, s')" and w: "wake_ok q (User [], s)"
  shows "wake_ok q (l', s')"
proof -
  have P: "lib_ok s'" "settled s s'" using api_call_post [OF inv c e res] by (simp_all add: lib_post_def)
  show ?thesis
  proof (cases "q \<in> footprint a")
    case False
    from call_obj_at [OF res False] show ?thesis by (intro wake_ok_settled [OF w P(2,1)]) simp_all
  next
    case True
    then show ?thesis
    proof (cases a)
      case (A_mutex_init m)
      with True res show ?thesis by (auto simp: uth_mutex_init_def wake_ok_def)
    next
      case (A_mutex_lock m)
      with True res mutex_lock_units [OF inv c, of "[]"] show ?thesis by (auto intro: wake_ok_trivial)
    next
      case (A_mutex_unlock m)
      with True res mutex_unlock_takers [OF inv c, of m] units_bound [of m s'] show ?thesis by (auto intro!: wake_okI)
    next
      case (A_cond_wait cv m)
      with True consider "q = CondWaiters cv" | "q = MutexWaiters m" by auto
      then show ?thesis
        using A_cond_wait res cond_wait_takers [OF inv c, of cv m] units_bound [of m s']
        by cases (auto intro: wake_ok_trivial intro!: wake_okI)
    next
      case (A_sem_init p v)
      with True res show ?thesis by (auto simp: uth_sem_init_def wake_ok_def split: if_splits)
    next
      case (A_sem_wait p)
      with True have q: "q = SemWaiters p" by simp
      with A_sem_wait res sem_wait_units [OF inv c, of "[]" p] show ?thesis
        using wake_ok_settled [OF w P(2,1)] by (auto intro: wake_ok_trivial)
    next
      case (A_sem_post p)
      with True have q: "q = SemWaiters p" by simp
      from A_sem_post res sem_post_units [OF inv, of p] w show ?thesis
        by (auto intro!: wake_okI simp: q wake_ok_def takers_def)
    qed (auto intro: wake_ok_trivial)
  qed
qed

lemma resume_wake:
  assumes inv: "lib_inv s rq wq" and u: "user_inv (f # k) s" and res: "resume_frame f k s = Ok (c, s')" and w: "wake_ok q (User (f # k), s)"
  shows "wake_ok q (l', s')"
proof -
  have P: "lib_ok s'" "settled s s'" using resume_frame_post [OF inv u res] by (auto simp: lib_post_def)
  note c = user_inv_caller [OF u]
  have st: "stack_ok (sigmask s) (f # k)"
    using u by (auto simp: user_inv_def ctx_ok_def split: if_splits)
  show ?thesis
  proof (cases "q \<in> frame_footprint f")
    case False
    have obj: "obj_at q s' = obj_at q s" by (rule objs_offD(1) [OF resume_frame_frame [OF res] False])
    show ?thesis
    proof (cases "waits_on f = Some q")
      case True
      with False show ?thesis by (cases f) (auto intro: wake_ok_trivial)
    qed (use obj in \<open>auto intro!: wake_ok_settled [OF w P(2,1)]\<close>)
  next
    case True
    then show ?thesis
    proof (cases f)
      case (F_mutex_lock m old)
      with mutex_loop_units [OF inv c, of old k m] res st True show ?thesis by (auto intro: wake_ok_trivial)
    next
      case (F_cond_wait cv m old)
      with st res obtain d s1 where s1: "uth_mutex_lock m [F_cond_relock old] s = Ok (d, s1)" "s' = s1 \<or> s' = s1\<lparr>sigmask := old\<rparr>" "sigmask s"
        by (auto simp: uth_cond_wait_resumed_def uth_cond_relocked_def uth_preempt_restore_def ok_iff split: if_splits)
      with mutex_lock_units [OF inv c _ s1(1)] F_cond_wait True show ?thesis by (auto intro: wake_ok_trivial)
    next
      case (F_sem_wait p old)
      with True have q: "q = SemWaiters p" by simp
      with F_sem_wait res st sem_loop_units [OF inv c, of old k p] show ?thesis
        using wake_ok_settled [OF w P(2,1)] by (auto intro: wake_ok_trivial)
    qed (auto intro: wake_ok_trivial)
  qed
qed

lemma tick_wake:
  assumes t: "tick_pending s" and ucp: "uc_sigmask ucp = sigmask s" "uc_frames ucp = frames_at l"
    and res: "uth_preempt_handler ucp s = Ok (d, s')" and I: "cfg_inv (l, s)" and w: "wake_ok q (l, s)"
  shows "wake_ok q (if d = Switched then SchedBack else l, s')"
proof (cases "uth_current s = NULL")
  case True
  with handler_idle [OF True] res w show ?thesis by auto
next
  case False
  obtain k where l: "l = User k" using I t False by (cases l) (simp_all add: tick_pending_def)
  with I obtain rq wq where inv: "lib_inv s rq wq" and u: "user_inv k s" by (auto elim: lib_okE)
  obtain x where r: "runs s (uth_current s) x" using caller_runs [OF user_inv_caller [OF u] False] by blast
  have ctx: "ctx_ok (erase s) True (uth_current s) (uc_sigmask ucp) (uc_frames ucp)"
    using u False ucp l by (simp add: user_inv_def)
  with ucp t l have "stack_ok False k" by (simp add: ctx_ok_def tick_pending_def)
  then have none: "retries_at q l = 0" unfolding l by (cases "(False, k)" rule: stack_ok.cases) auto
  from handler_preempts [OF inv r ctx] res have p: "lib_inv s' (rq @ [uth_current s]) wq"
      "erase s' = preempted ucp (uth_current s) (erase s)" by auto
  have "settled s s'" by (rule preempted_settled [OF r p(2)])
  moreover have "obj_at q s' = obj_at q s" by (rule objsD [OF objs_handler [OF res]])
  ultimately show ?thesis using none lib_okI [OF p(1)] by (intro wake_ok_settled [OF w]) simp_all
qed

lemma pick_wake:
  assumes I: "cfg_inv (SchedTop, s)" and res: "scheduler_round s = Ok (SchedRun k, s')" and w: "wake_ok q (SchedTop, s)"
  shows "wake_ok q (User k, s')"
proof -
  from I obtain rq wq where inv: "lib_inv s rq wq" and nr: "no_running s" by (auto elim: lib_okE)
  have obj: "obj_at q s' = obj_at q s" by (rule objsD [OF objs_round [OF res]])
  show ?thesis
  proof (cases rule: scheduler_round_cases [OF inv nr])
    case (3 x rq' t s1 t')
    with res have k: "k = uc_frames (tcb_ctx t)" "s1 = s'" by simp_all
    have "heap (erase s') y = heap (erase s) y" if "y \<noteq> x" for y
      using 3(7) k that by (simp add: resumed_def heap_upd_tcb)
    then have same: "map_option (\<lambda>t. t\<lparr>tcb_next := NULL\<rparr>) (heap s' y) = map_option (\<lambda>t. t\<lparr>tcb_next := NULL\<rparr>) (heap s y)"
      if "y \<noteq> x" for y using that by (simp add: erase_maps)
    have sub: "retrying q s - {x} \<subseteq> retrying q s'"
    proof
      fix y assume "y \<in> retrying q s - {x}"
      then obtain u f j where u: "y \<noteq> x" "heap s y = Some u" "tcb_state u = UTH_STATE_READY" "uc_frames (tcb_ctx u) = f # j" "waits_on f = Some q"
        by (auto simp: retrying_def)
      with same [OF u(1)] obtain u' where u': "heap s' y = Some u'" "u'\<lparr>tcb_next := NULL\<rparr> = u\<lparr>tcb_next := NULL\<rparr>" by auto
      from arg_cong [OF u'(2), of tcb_state] arg_cong [OF u'(2), of tcb_ctx] have "tcb_state u' = tcb_state u" "tcb_ctx u' = tcb_ctx u" by simp_all
      with u u' show "y \<in> retrying q s'" by (auto simp: retrying_def)
    qed
    have "card (retrying q s) \<le> card (retrying q s') + retries_at q (User k)"
    proof (cases "x \<in> retrying q s")
      case True
      then have "retries_at q (User k) = 1" using 3(2) k by (auto simp: retrying_def)
      moreover have "card (retrying q s) = Suc (card (retrying q s - {x}))"
        using True finite_retrying [OF inv] by (intro card.remove)
      ultimately show ?thesis using card_mono [OF finite_retrying [OF 3(5)] sub [folded k(2)]] k by simp
    next
      case False
      then have "retrying q s - {x} = retrying q s" by simp
      with card_mono [OF finite_retrying [OF 3(5)] sub [folded k(2)]] k show ?thesis by simp
    qed
    moreover have "has_waiters (obj_at q s) \<longrightarrow> units (obj_at q s) \<le> int (card (retrying q s))"
      using w by (simp add: wake_ok_def takers_def)
    ultimately show ?thesis by (auto simp: wake_ok_def takers_def obj simp del: retries_at.simps)
  qed (use res in simp_all)
qed

definition wake_inv :: "config \<Rightarrow> bool" where
  "wake_inv c \<longleftrightarrow> cfg_inv c \<and> (\<forall>q. wake_ok q c)"

lemma wake_ok_same: "\<lbrakk>wake_ok q (l, s); objs s' = objs s; heap s' = heap s; retries_at q l = 0\<rbrakk> \<Longrightarrow> wake_ok q (l', s')"
  by (rule wake_okI) (simp add: wake_ok_def takers_def objsD [of s' s q] retrying_def)

lemma wake_step:
  assumes "step c c'" and "wake_inv c"
  shows "wake_ok q c'"
  using assms
proof (induction rule: step.induct)
  case (do_call c s d s')
  then obtain rq wq where inv: "lib_inv s rq wq" and u: "user_inv [] s" by (auto simp: wake_inv_def elim: lib_okE)
  from call_wake [OF inv user_inv_caller [OF u] do_call(1,2)] do_call(3) show ?case by (simp add: wake_inv_def)
next
  case (do_resume f k s d s')
  then show ?case using resume_wake by (fastforce simp: wake_inv_def elim: lib_okE)
next
  case (do_run s bp sp s')
  then show ?case by (auto simp: uth_run_def uth_run_body_def wake_inv_def intro: wake_ok_same)
next
  case (do_entry s)
  then show ?case by (auto simp: scheduler_entry_def wake_inv_def intro: wake_ok_same)
next
  case (do_pick s k s')
  then show ?case by (intro pick_wake [OF _ do_pick(1)]) (simp_all add: wake_inv_def)
next
  case (do_idle s s')
  with pick_inv(2) [OF _ do_idle(1) refl] show ?case by (simp add: wake_inv_def)
next
  case (do_finish s s1 bp sp s')
  with pick_inv(3) [OF _ do_finish(1) refl] show ?case
    by (auto simp: uth_run_linked_def uth_run_body_def wake_inv_def intro: wake_ok_same split: if_splits)
next
  case (do_back s)
  then show ?case by (auto simp: scheduler_swapped_def wake_inv_def intro: wake_ok_same)
next
  case (do_tick s ucp l d s')
  then show ?case using tick_wake by (simp add: wake_inv_def)
qed

interpretation wake: machine_invariant wake_inv
proof
  fix b
  let ?s = "sys0\<lparr>sigmask := b\<rparr>"
  have "obj_at q ?s = NoObj \<or> \<not> has_waiters (obj_at q ?s)" for q by (cases q) (simp_all add: sys0_def)
  then have "wake_ok q (User [], ?s)" for q by (metis has_waiters.simps(5) has_waiters.simps wake_okI)
  with cfg.init show "wake_inv (User [], ?s)" unfolding wake_inv_def by simp
next
  show "wake_inv c'" if "wake_inv c" "step c c'" for c c'
    unfolding wake_inv_def using that cfg.preserved [of c c'] wake_step [of c c'] by (simp add: wake_inv_def)
qed

end
