(* ===== verification/Uth_Client.thy ===== *)
theory Uth_Client
  imports Uth_Wakeup
begin

text \<open>
  Client programs of the library. A program is cut at its library calls: \<open>p_code\<close> gives for a program
  point the code up to the next call. A configuration of a running program is a configuration of
  the library, the position of every thread, by thread id (\<open>UTH_TID_INVALID\<close> is \<open>main\<close>), and the global
  variables of the program. Erasing the positions and globals gives a run of the library.
\<close>

section \<open>Programs\<close>

record os_choice =
  os_create :: os_env
  os_preempt :: preempt_env
  os_malloc :: "nat \<Rightarrow> ptr"

text \<open>
  What a piece of code does at its end: it goes on, it calls the library and continues at a point that \<open>p_ret\<close> refines
  with the result, it returns from the thread function or from \<open>main\<close>, or it calls \<open>uth_run\<close>. The code itself may fault.
\<close>

datatype ('p, 'g) act = Compute 'g 'p | Call api 'g 'p | Finish val 'g | RunSched 'g 'p

record ('p, 'g) prog =
  p_start :: "ptr \<Rightarrow> val \<Rightarrow> 'p"
  p_code :: "os_choice \<Rightarrow> 'p \<Rightarrow> 'g \<Rightarrow> ('p, 'g) act res"
  p_ret :: "'p \<Rightarrow> ret \<Rightarrow> 'p"

text \<open>
  The position of a thread: not created, created but not started, in its code, in a call whose effect is still to come,
  in a call that only has to return, in an \<open>uth_create\<close> that has made the thread with the given id, in \<open>uth_run\<close>, or ended.
\<close>

datatype 'p pos = Unborn | New ptr val | At 'p | Await api 'p | Done 'p | Made u32 'p | InRun 'p | Ended

fun issued :: "api \<Rightarrow> 'p \<Rightarrow> 'p pos" where
  "issued (A_mutex_lock m) p = Await (A_mutex_lock m) p"
| "issued (A_spin_lock m) p = Await (A_spin_lock m) p"
| "issued (A_ticket_lock m) p = Await (A_ticket_lock m) p"
| "issued (A_cond_wait c m) p = Await (A_cond_wait c m) p"
| "issued (A_sem_wait m) p = Await (A_sem_wait m) p"
| "issued (A_join tid want) p = Await (A_join tid want) p"
| "issued (A_exit v) p = Ended"
| "issued _ p = Done p"

text \<open>The position when a call returns \<open>r\<close>, when \<open>uth_cond_wait\<close> has its mutex again, and when \<open>uth_create\<close> has made a thread.\<close>

fun returned :: "('p, 'g) prog \<Rightarrow> ret \<Rightarrow> 'p pos \<Rightarrow> 'p pos" where
  "returned P r (Await a p) = At (p_ret P p r)"
| "returned P r (Done p) = At (p_ret P p r)"
| "returned P r (Made j p) = At (p_ret P p r)"
| "returned P r q = q"

fun relocked :: "'p pos \<Rightarrow> 'p pos" where
  "relocked (Await a p) = Done p"
| "relocked q = q"

fun made :: "u32 \<Rightarrow> 'p pos \<Rightarrow> 'p pos" where
  "made j (Done p) = Made j p"
| "made j q = q"

text \<open>The position after a library function gave control away with \<open>d\<close> and the frames \<open>k\<close> are left; \<open>j\<close> is the next thread id.\<close>

fun after :: "('p, 'g) prog \<Rightarrow> u32 \<Rightarrow> ctl \<Rightarrow> frame list \<Rightarrow> 'p pos \<Rightarrow> 'p pos" where
  "after P j (Return r) [] q = returned P r q"
| "after P j (Return r) (f # k) q = (case f of F_cond_relock old \<Rightarrow> relocked q | _ \<Rightarrow> q)"
| "after P j Switched k q = q"
| "after P j (CallUser fn arg) k q = At (p_start P fn arg)"
| "after P j (Remains f) k q = (if creating f then made j q else q)"

fun spawn :: "api \<Rightarrow> ctl \<Rightarrow> u32 \<Rightarrow> (u32 \<Rightarrow> 'p pos) \<Rightarrow> u32 \<Rightarrow> 'p pos" where
  "spawn (A_create fn arg n env) (Remains f) i ps = ps(i := New fn arg)"
| "spawn _ _ _ ps = ps"

section \<open>Steps of a program\<close>

type_synonym ('p, 'g) cconfig = "config \<times> (u32 \<Rightarrow> 'p pos) \<times> 'g"

inductive cstep :: "('p, 'g) prog \<Rightarrow> ('p, 'g) cconfig \<Rightarrow> ('p, 'g) cconfig \<Rightarrow> bool" for P where
  c_compute: "\<lbrakk>ps (self_tid s) = At p; p_code P e p g = Ok (Compute g' p')\<rbrakk> \<Longrightarrow>
     cstep P ((User [], s), ps, g) ((User [], s), ps(self_tid s := At p'), g')"
| c_call: "\<lbrakk>ps (self_tid s) = At p; p_code P e p g = Ok (Call a g' p'); env_ok a s; api_call a s = Ok (d, s')\<rbrakk> \<Longrightarrow>
     cstep P ((User [], s), ps, g)
       ((transfer d [], s'), spawn a d (next_tid s) (ps(self_tid s := after P (next_tid s) d [] (issued a p'))), g')"
| c_exit: "\<lbrakk>ps (self_tid s) = At p; p_code P e p g = Ok (Finish v g'); uth_current s \<noteq> NULL; api_call (A_exit v) s = Ok (d, s')\<rbrakk> \<Longrightarrow>
     cstep P ((User [], s), ps, g) ((transfer d [], s'), ps(self_tid s := Ended), g')"
| c_resume: "resume_frame f k s = Ok (d, s') \<Longrightarrow>
     cstep P ((User (f # k), s), ps, g) ((transfer d k, s'), ps(self_tid s := after P (next_tid s) d k (ps (self_tid s))), g)"
| c_run: "\<lbrakk>ps (self_tid s) = At p; p_code P e p g = Ok (RunSched g' p'); uth_current s = NULL; uth_run bp sp s = (RunSchedule, s')\<rbrakk> \<Longrightarrow>
     cstep P ((User [], s), ps, g) ((SchedEntry, s'), ps(self_tid s := InRun p'), g')"
| c_entry: "cstep P ((SchedEntry, s), ps, g) ((SchedTop, scheduler_entry s), ps, g)"
| c_pick: "scheduler_round s = Ok (SchedRun k, s') \<Longrightarrow> cstep P ((SchedTop, s), ps, g) ((User k, s'), ps, g)"
| c_idle: "scheduler_round s = Ok (SchedContinue, s') \<Longrightarrow> cstep P ((SchedTop, s), ps, g) ((SchedTop, s'), ps, g)"
| c_finish: "\<lbrakk>scheduler_round s = Ok (SchedBreak, s1); uth_run_linked bp sp s1 = (RunReturn, s'); ps UTH_TID_INVALID = InRun p\<rbrakk> \<Longrightarrow>
     cstep P ((SchedTop, s), ps, g) ((User [], s'), ps(UTH_TID_INVALID := At (p_ret P p RetVoid)), g)"
| c_back: "cstep P ((SchedBack, s), ps, g) ((SchedTop, scheduler_swapped s), ps, g)"
| c_tick: "\<lbrakk>tick_pending s; uc_sigmask ucp = sigmask s; uc_frames ucp = frames_at l; uth_preempt_handler ucp s = Ok (d, s')\<rbrakk> \<Longrightarrow>
     cstep P ((l, s), ps, g) ((if d = Switched then SchedBack else l, s'), ps, g)"

text \<open>A program starts in \<open>main\<close> at the point \<open>p0\<close> with the globals \<open>g0\<close>.\<close>

definition cinit :: "'p \<Rightarrow> 'g \<Rightarrow> ('p, 'g) cconfig" where
  "cinit p0 g0 = ((User [], sys0), (\<lambda>_. Unborn)(UTH_TID_INVALID := At p0), g0)"

inductive creachable :: "('p, 'g) prog \<Rightarrow> 'p \<Rightarrow> 'g \<Rightarrow> ('p, 'g) cconfig \<Rightarrow> bool" for P p0 g0 where
  c_start: "creachable P p0 g0 (cinit p0 g0)"
| c_next: "\<lbrakk>creachable P p0 g0 c; cstep P c c'\<rbrakk> \<Longrightarrow> creachable P p0 g0 c'"

text \<open>Every run of a program is a run of the library.\<close>

lemma cstep_step: "cstep P c c' \<Longrightarrow> step (fst c) (fst c') \<or> fst c' = fst c"
proof (induction rule: cstep.induct)
  case (c_exit ps s p e g v g' d s')
  then show ?case using do_call [of "A_exit v" s d s'] by simp
next
  case (c_tick s ucp l d s' ps g)
  then show ?case using do_tick [of s ucp l d s'] by simp
qed (auto intro: step.intros)

lemma creachable_reachable: "creachable P p0 g0 c \<Longrightarrow> reachable (fst c)"
proof (induction rule: creachable.induct)
  case c_start
  then show ?case by (simp add: cinit_def start_sys0)
next
  case (c_next c c')
  with cstep_step [OF c_next(2)] show ?case by (auto intro: next_step)
qed

section \<open>The abstract machine\<close>

text \<open>
  The intended semantics: threads interleave, a mutex has a holder, a semaphore has a value, and a call
  takes effect atomically. There are no queues, no scheduler, no contexts and no signals.
\<close>

record ('p, 'g) astate =
  a_pos :: "u32 \<Rightarrow> 'p pos"
  a_mtx :: "ptr \<rightharpoonup> u32 option"
  a_sem :: "ptr \<rightharpoonup> int"
  a_glob :: 'g

type_synonym objects = "(ptr \<rightharpoonup> u32 option) \<times> (ptr \<rightharpoonup> int)"

definition may_unlock :: "u32 \<Rightarrow> u32 option option \<Rightarrow> bool" where
  "may_unlock i h \<longleftrightarrow> h = Some (Some i) \<or> h = Some None \<and> i = UTH_TID_INVALID"

text \<open>What a call does when it is made, and what it does when it takes effect.\<close>

fun issue :: "u32 \<Rightarrow> api \<Rightarrow> objects \<Rightarrow> objects option" where
  "issue i (A_mutex_init m) (M, S) = Some (M(m \<mapsto> None), S)"
| "issue i (A_mutex_unlock m) (M, S) = (if may_unlock i (M m) then Some (M(m \<mapsto> None), S) else None)"
| "issue i (A_cond_wait c m) (M, S) = (if may_unlock i (M m) then Some (M(m \<mapsto> None), S) else None)"
| "issue i (A_sem_init p v) (M, S) = (if 0 \<le> v then Some (M, S(p \<mapsto> v)) else None)"
| "issue i (A_sem_post p) (M, S) = (case S p of None \<Rightarrow> None | Some v \<Rightarrow> Some (M, S(p \<mapsto> v + 1)))"
| "issue i _ x = Some x"

fun complete :: "u32 \<Rightarrow> api \<Rightarrow> objects \<Rightarrow> objects option" where
  "complete i (A_mutex_lock m) (M, S) = (if M m = Some None then Some (M(m \<mapsto> Some i), S) else None)"
| "complete i (A_cond_wait c m) (M, S) = (if M m = Some None then Some (M(m \<mapsto> Some i), S) else None)"
| "complete i (A_sem_wait p) (M, S) =
     (case S p of None \<Rightarrow> None | Some v \<Rightarrow> if 0 < v then Some (M, S(p \<mapsto> v - 1)) else None)"
| "complete i _ x = Some x"

text \<open>
  A program is cooperative if it never calls \<open>uth_preempt_enable\<close>. In such a program \<open>uth_create\<close> returns the id of the thread it made; under preemption it
  may read another id, when the new thread has ended and its memory is used again. \<open>uth_join\<close> returns once the thread has ended.
\<close>

fun is_preempt_enable :: "api \<Rightarrow> bool" where
  "is_preempt_enable (A_preempt_enable ms env) = True"
| "is_preempt_enable _ = False"

definition cooperative :: "('p, 'g) prog \<Rightarrow> bool" where
  "cooperative P \<longleftrightarrow> (\<forall>e p g a g' p'. p_code P e p g = Ok (Call a g' p') \<longrightarrow> \<not> is_preempt_enable a)"

definition finished :: "u32 \<Rightarrow> (u32 \<Rightarrow> 'p pos) \<Rightarrow> bool" where
  "finished tid ps \<longleftrightarrow> tid = UTH_TID_INVALID \<or> ps tid = Unborn \<or> ps tid = Ended"

fun join_ok :: "api \<Rightarrow> (u32 \<Rightarrow> 'p pos) \<Rightarrow> bool" where
  "join_ok (A_join tid want) ps = finished tid ps"
| "join_ok _ ps = True"

definition with_objects :: "objects \<Rightarrow> ('p, 'g) astate \<Rightarrow> ('p, 'g) astate" where
  "with_objects x A = A\<lparr>a_mtx := fst x, a_sem := snd x\<rparr>"

definition place :: "u32 \<Rightarrow> 'p pos \<Rightarrow> ('p, 'g) astate \<Rightarrow> ('p, 'g) astate" where
  "place i q A = A\<lparr>a_pos := (a_pos A)(i := q)\<rparr>"

inductive astep :: "('p, 'g) prog \<Rightarrow> ('p, 'g) astate \<Rightarrow> ('p, 'g) astate \<Rightarrow> bool" for P where
  a_compute: "\<lbrakk>a_pos A i = At p; p_code P e p (a_glob A) = Ok (Compute g' p')\<rbrakk> \<Longrightarrow> astep P A ((place i (At p') A)\<lparr>a_glob := g'\<rparr>)"
| a_issue: "\<lbrakk>a_pos A i = At p; p_code P e p (a_glob A) = Ok (Call a g' p'); \<not> is_create a; issue i a (a_mtx A, a_sem A) = Some x\<rbrakk> \<Longrightarrow>
     astep P A ((with_objects x (place i (issued a p') A))\<lparr>a_glob := g'\<rparr>)"
| a_create: "\<lbrakk>a_pos A i = At p; p_code P e p (a_glob A) = Ok (Call (A_create fn arg n env) g' p'); a_pos A j = Unborn\<rbrakk> \<Longrightarrow>
     astep P A ((place j (New fn arg) (place i (Made j p') A))\<lparr>a_glob := g'\<rparr>)"
| a_no_create: "\<lbrakk>a_pos A i = At p; p_code P e p (a_glob A) = Ok (Call (A_create fn arg n env) g' p')\<rbrakk> \<Longrightarrow>
     astep P A ((place i (At (p_ret P p' (RetTid UTH_TID_INVALID))) A)\<lparr>a_glob := g'\<rparr>)"
| a_created: "\<lbrakk>a_pos A i = Made j p; r \<noteq> UTH_TID_INVALID; cooperative P \<Longrightarrow> r = j\<rbrakk> \<Longrightarrow> astep P A (place i (At (p_ret P p (RetTid r))) A)"
| a_complete: "\<lbrakk>a_pos A i = Await a p; join_ok a (a_pos A); complete i a (a_mtx A, a_sem A) = Some x\<rbrakk> \<Longrightarrow> astep P A (with_objects x (place i (Done p) A))"
| a_return: "a_pos A i = Done p \<Longrightarrow> astep P A (place i (At (p_ret P p r)) A)"
| a_start: "a_pos A i = New fn arg \<Longrightarrow> astep P A (place i (At (p_start P fn arg)) A)"
| a_exit: "\<lbrakk>a_pos A i = At p; p_code P e p (a_glob A) = Ok (Finish v g'); i \<noteq> UTH_TID_INVALID\<rbrakk> \<Longrightarrow> astep P A ((place i Ended A)\<lparr>a_glob := g'\<rparr>)"
| a_run: "\<lbrakk>a_pos A UTH_TID_INVALID = At p; p_code P e p (a_glob A) = Ok (RunSched g' p')\<rbrakk> \<Longrightarrow>
     astep P A ((place UTH_TID_INVALID (InRun p') A)\<lparr>a_glob := g'\<rparr>)"
| a_run_return: "\<lbrakk>a_pos A UTH_TID_INVALID = InRun p; \<forall>i. i \<noteq> UTH_TID_INVALID \<longrightarrow> a_pos A i = Unborn \<or> a_pos A i = Ended\<rbrakk> \<Longrightarrow>
     astep P A (place UTH_TID_INVALID (At (p_ret P p RetVoid)) A)"

definition ainit :: "'p \<Rightarrow> 'g \<Rightarrow> ('p, 'g) astate" where
  "ainit p0 g0 = \<lparr>a_pos = (\<lambda>_. Unborn)(UTH_TID_INVALID := At p0), a_mtx = (\<lambda>_. None), a_sem = (\<lambda>_. None), a_glob = g0\<rparr>"

inductive areachable :: "('p, 'g) prog \<Rightarrow> 'p \<Rightarrow> 'g \<Rightarrow> ('p, 'g) astate \<Rightarrow> bool" for P p0 g0 where
  ar_start: "areachable P p0 g0 (ainit p0 g0)"
| ar_next: "\<lbrakk>areachable P p0 g0 A; astep P A A'\<rbrakk> \<Longrightarrow> areachable P p0 g0 A'"

section \<open>The abstraction\<close>

definition mtx_view :: "sys \<Rightarrow> ptr \<rightharpoonup> u32 option" where
  "mtx_view s m = map_option (\<lambda>x. if mtx_locked x = 0 then None else Some (mtx_owner x)) (mutexes s m)"

definition sem_view :: "sys \<Rightarrow> ptr \<rightharpoonup> int" where
  "sem_view s p = map_option sem_value (sems s p)"

fun abstr :: "('p, 'g) cconfig \<Rightarrow> ('p, 'g) astate" where
  "abstr ((l, s), ps, g) = \<lparr>a_pos = ps, a_mtx = mtx_view s, a_sem = sem_view s, a_glob = g\<rparr>"

end
