(* ===== verification/Uth_Refine.thy ===== *)
theory Uth_Refine
  imports Uth_Client
begin

text \<open>
  The library refines the abstract machine: every step of a program on the library is a sequence of abstract
  steps. The coupling invariant relates the saved frames of each thread with its position.
\<close>

section \<open>Frames and positions\<close>

fun pos_ok :: "ptr \<Rightarrow> val \<Rightarrow> frame list \<Rightarrow> 'p pos \<Rightarrow> bool" where
  "pos_ok fn arg [] q = (\<exists>p. q = At p)"
| "pos_ok fn arg (F_trampoline hi lo # k) q = (q = New fn arg)"
| "pos_ok fn arg (F_create_ret x # k) q = (\<exists>j p. q = Made j p)"
| "pos_ok fn arg (F_count i n # k) q = (\<exists>p. q = Done p)"
| "pos_ok fn arg (F_count_at i n x # k) q = (\<exists>p. q = Done p)"
| "pos_ok fn arg (F_preempt_enable # k) q = (\<exists>p. q = Done p)"
| "pos_ok fn arg (F_preempt_disable # k) q = (\<exists>p. q = Done p)"
| "pos_ok fn arg (F_yield old # k) q =
     (case k of F_spin_lock m # _ \<Rightarrow> (\<exists>p. q = Await (A_spin_lock m) p) | _ \<Rightarrow> (\<exists>p. q = Done p))"
| "pos_ok fn arg (F_join tid want old # k) q = (\<exists>p. q = Await (A_join tid want) p)"
| "pos_ok fn arg (F_mutex_lock m old # k) q =
     (if k = [] then \<exists>p. q = Await (A_mutex_lock m) p else (\<exists>c p old'. q = Await (A_cond_wait c m) p \<and> k = [F_cond_relock old']))"
| "pos_ok fn arg (F_spin_lock m # k) q = (\<exists>p. q = Await (A_spin_lock m) p)"
| "pos_ok fn arg (F_ticket_lock m tk old # k) q = (k = [] \<and> (\<exists>p. q = Await (A_ticket_lock m) p))"
| "pos_ok fn arg (F_cond_wait c m old # k) q = (\<exists>p. q = Await (A_cond_wait c m) p)"
| "pos_ok fn arg (F_cond_relock old # k) q = (\<exists>p. q = Done p)"
| "pos_ok fn arg (F_sem_wait m old # k) q = (k = [] \<and> (\<exists>p. q = Await (A_sem_wait m) p))"
| "pos_ok fn arg _ q = False"

lemma open_pos_ok: "\<lbrakk>open_frame f; \<not> creating f\<rbrakk> \<Longrightarrow> pos_ok fn arg (f # k) q = (\<exists>p. q = Done p)"
  by (cases f) simp_all

text \<open>The frames a thread is in: those of the configuration if it runs, the saved ones otherwise.\<close>

definition frames_of :: "loc \<Rightarrow> uth_tcb_t \<Rightarrow> frame list" where
  "frames_of l t = (if tcb_state t = UTH_STATE_RUNNING then frames_at l else uc_frames (tcb_ctx t))"

definition thread_ok :: "loc \<Rightarrow> (u32 \<Rightarrow> 'p pos) \<Rightarrow> uth_tcb_t \<Rightarrow> bool" where
  "thread_ok l ps t \<longleftrightarrow> (if tcb_state t = UTH_STATE_ZOMBIE then ps (tcb_tid t) = Ended
     else pos_ok (tcb_fn t) (tcb_arg t) (frames_of l t) (ps (tcb_tid t)))"

definition main_ok :: "loc \<Rightarrow> sys \<Rightarrow> (u32 \<Rightarrow> 'p pos) \<Rightarrow> bool" where
  "main_ok l s ps \<longleftrightarrow> (case l of User k \<Rightarrow> if uth_current s = NULL then pos_ok 0 0 k (ps UTH_TID_INVALID) else (\<exists>p. ps UTH_TID_INVALID = InRun p)
     | _ \<Rightarrow> (\<exists>p. ps UTH_TID_INVALID = InRun p))"

definition coupled :: "('p, 'g) cconfig \<Rightarrow> bool" where
  "coupled c \<longleftrightarrow> (case c of ((l, s), ps, g) \<Rightarrow> cfg_inv (l, s) \<and>
     (\<forall>x t. heap s x = Some t \<longrightarrow> thread_ok l ps t) \<and>
     (\<forall>i. next_tid s \<le> i \<longrightarrow> ps i = Unborn) \<and>
     (\<forall>i. i \<noteq> UTH_TID_INVALID \<longrightarrow> ps i \<noteq> Unborn \<longrightarrow> ps i \<noteq> Ended \<longrightarrow> (\<exists>x t. heap s x = Some t \<and> tcb_tid t = i)) \<and>
     main_ok l s ps)"

lemma coupledD:
  assumes "coupled ((l, s), ps, g)"
  shows "cfg_inv (l, s)" "heap s x = Some t \<Longrightarrow> thread_ok l ps t" "next_tid s \<le> i \<Longrightarrow> ps i = Unborn"
    "\<lbrakk>i \<noteq> UTH_TID_INVALID; ps i \<noteq> Unborn; ps i \<noteq> Ended\<rbrakk> \<Longrightarrow> \<exists>x t. heap s x = Some t \<and> tcb_tid t = i" "main_ok l s ps"
  using assms by (auto simp: coupled_def)

lemma coupledI:
  assumes "cfg_inv (l, s)" and "\<And>x t. heap s x = Some t \<Longrightarrow> thread_ok l ps t" and "\<And>i. next_tid s \<le> i \<Longrightarrow> ps i = Unborn"
    and "\<And>i. \<lbrakk>i \<noteq> UTH_TID_INVALID; ps i \<noteq> Unborn; ps i \<noteq> Ended\<rbrakk> \<Longrightarrow> \<exists>x t. heap s x = Some t \<and> tcb_tid t = i" and "main_ok l s ps"
  shows "coupled ((l, s), ps, g)"
  using assms by (auto simp: coupled_def)

section \<open>Suspended threads\<close>

text \<open>A call that gives the processor away leaves the thread in frames that match its position.\<close>

lemma yield_parks:
  assumes inv: "lib_inv s rq wq" and c: "caller s" and k: "caller_ok (sigmask s) k" and res: "uth_yield k s = Ok (Switched, s')"
  shows "parked (F_yield (sigmask s) # k) s s'"
proof -
  have nz: "uth_current s \<noteq> NULL" using uth_yield_outside res by fastforce
  from caller_runs [OF c nz] obtain t where r: "runs s (uth_current s) t" by blast
  from uth_yield_ok [OF inv r k] res have
    "erase s' = switched UTH_STATE_READY (uth_current s) (F_yield (sigmask s) # k) ((erase s)\<lparr>sigmask := True\<rparr>)" by auto
  then show ?thesis using runs_mask(1) [OF r] by (intro parked_switched) auto
qed

lemma join_parks:
  assumes inv: "lib_inv s rq wq" and c: "caller s" and res: "uth_join tid want [] s = Ok (Switched, s')"
  shows "parked [F_join tid want (sigmask s)] s s'"
proof (cases rule: tcb_find_cases [OF lib_invD(3) [OF inv], of tid])
  case 2
  with uth_join_miss [OF lib_invD(3) [OF inv] 2(2)] res show ?thesis by simp
next
  case (1 y u)
  have z: "tcb_state u \<noteq> UTH_STATE_ZOMBIE"
    using uth_join_zombie [OF lib_invD(3) [OF inv] 1(3,4), of want "[]"] res by auto
  have nz: "uth_current s \<noteq> NULL" using uth_join_outside [OF lib_invD(3) [OF inv] _ 1(3,4) z] res by fastforce
  from caller_runs [OF c nz] obtain t where r: "runs s (uth_current s) t" by blast
  from uth_join_block [OF inv r 1(3,4) z, of want] res have e: "erase s' = switched UTH_STATE_BLOCKED (uth_current s) [F_join tid want (sigmask s)]
      (upd_tcb y (\<lambda>t. t\<lparr>tcb_joiner := uth_current s\<rparr>) ((erase s)\<lparr>sigmask := True\<rparr>))" by auto
  show ?thesis using runs_mask(1) [OF r, of True] by (intro parked_switched [OF e]) (auto simp: heap_upd_tcb)
qed

lemma spin_parks:
  assumes inv: "lib_inv s rq wq" and c: "caller s" and res: "uth_spin_lock p [] s = Ok (Switched, s')"
  shows "parked [F_yield (sigmask s), F_spin_lock p] s s'"
proof -
  obtain x where x: "spins s p = Some x"
    using res by (cases "spins s p") (auto simp: uth_spin_lock_def spin_lock_loop.simps get_spin_def)
  have f: "spin_flag x" using spin_lock_free [OF x, of "[]"] res by fastforce
  have nz: "uth_current s \<noteq> NULL" using spin_lock_outside [OF _ x f] res by fastforce
  from caller_runs [OF c nz] obtain t where r: "runs s (uth_current s) t" by blast
  from spin_lock_taken [OF inv r x f] res have
    "erase s' = switched UTH_STATE_READY (uth_current s) [F_yield (sigmask s), F_spin_lock p] ((erase s)\<lparr>sigmask := True\<rparr>)" by auto
  then show ?thesis using runs_mask(1) [OF r] by (intro parked_switched) auto
qed

lemma cond_wait_parks:
  assumes inv: "lib_inv s rq wq" and c: "caller s" and res: "uth_cond_wait cv m [] s = Ok (d, s')"
  shows "d = Switched \<and> parked [F_cond_wait cv m (sigmask s)] s s'"
proof -
  let ?s = "s\<lparr>sigmask := True\<rparr>"
  have inv0: "lib_inv ?s rq wq" and c0: "caller ?s" using inv c by simp_all
  obtain r s1 where s1: "uth_mutex_unlock m ?s = Ok (r, s1)"
      "uth_block (CondWaiters cv) [F_cond_wait cv m (sigmask s)] s1 = Ok (d, s')"
    using res by (auto simp: uth_cond_wait_def uth_preempt_off_def ok_iff)
  from mutex_unlock_post [OF inv0 c0 s1(1)] obtain rq1 wq1 where inv1: "lib_inv s1 rq1 wq1" and st: "stays ?s s1" "sigmask s1"
    by (auto elim: lib_okE)
  have nz: "uth_current s1 \<noteq> NULL" using uth_block_outside s1(2) by fastforce
  from caller_runs [OF caller_stays [OF c0 st(1)] nz] obtain t where r: "runs s1 (uth_current s1) t" by blast
  have "mapped (CondWaiters cv) s1" using uth_block_unmapped [of "CondWaiters cv" s1] s1(2) by auto
  from uth_block_ok [OF inv1 r this, of "F_cond_wait cv m (sigmask s)" "[]"] st(2) s1(2)
  have e: "d = Switched" "erase s' = switched UTH_STATE_BLOCKED (uth_current s1) [F_cond_wait cv m (sigmask s)] (erase s1)" by auto
  from e(1) parked_switched [OF e(2), of s] runs_erase(1) [OF r] st(1) show ?thesis by (simp add: stays_def)
qed

lemma ticket_lock_parks:
  assumes "lib_inv s rq wq" and "caller s" and res: "uth_ticket_lock p [] s = Ok (Switched, s')"
  shows "\<exists>tk. parked [F_ticket_lock p tk (sigmask s)] s s'"
proof -
  obtain x where x: "tickets s p = Some x" using res by (auto simp: uth_ticket_lock_def uth_preempt_off_def ok_iff)
  let ?s = "set_ticket p (x\<lparr>tk_next_ticket := tk_next_ticket x + 1\<rparr>) (s\<lparr>sigmask := True\<rparr>)"
  have "ticket_lock_loop p (tk_next_ticket x) (sigmask s) [] ?s = Ok (Switched, s')"
    using res x by (simp add: uth_ticket_lock_def uth_preempt_off_def)
  from ticket_wait.parks [OF _ _ _ _ this, of rq wq] assms(1,2) x show ?thesis by (auto simp: parked_def)
qed

lemma exit_parks:
  assumes inv: "lib_inv s rq wq" and c: "caller s" and res: "uth_exit v k s = Ok (d, s')"
  shows "\<exists>t. heap s' (uth_current s) = Some t \<and> tcb_state t = UTH_STATE_ZOMBIE"
proof -
  have nz: "uth_current s \<noteq> NULL" using uth_exit_outside res by fastforce
  from caller_runs [OF c nz] obtain t where r: "runs s (uth_current s) t" by blast
  from uth_exit_ok [OF inv r refl, of v k] res have
    e: "erase s' = exited v (uth_current s) (tcb_joiner t) (F_exit # k) ((erase s)\<lparr>sigmask := True\<rparr>)" by auto
  let ?b = "upd_tcb (uth_current s) (\<lambda>t. t\<lparr>tcb_retval := v, tcb_joiner := NULL\<rparr>)
      (if tcb_joiner t = NULL then (erase s)\<lparr>sigmask := True\<rparr> else set_state (tcb_joiner t) UTH_STATE_READY ((erase s)\<lparr>sigmask := True\<rparr>))"
  have "heap ?b (uth_current s) \<noteq> None" using runs_mask(1) [OF r, of True] by (auto simp: heap_upd_tcb)
  then obtain u where u: "heap ?b (uth_current s) = Some u" by blast
  from e have "erase s' = switched UTH_STATE_ZOMBIE (uth_current s) (F_exit # k) ?b" by (simp add: exited_def)
  then show ?thesis by (rule switched_tcb [OF _ u]) blast
qed

lemma call_parks:
  assumes inv: "lib_inv s rq wq" and c: "caller s" and e: "env_ok a s" and res: "api_call a s = Ok (Switched, s')"
    and ne: "\<And>v. a \<noteq> A_exit v"
  shows "\<exists>k. parked k s s' \<and> pos_ok fn arg k (issued a p) \<and> (\<forall>b. unwind b k = sigmask s)"
proof (cases a)
  case A_yield
  with yield_parks [OF inv c, of "[]" s'] res show ?thesis by (auto intro!: exI [of _ "[F_yield (sigmask s)]"])
next
  case (A_join tid want)
  with join_parks [OF inv c, of tid want s'] res show ?thesis by (auto intro!: exI [of _ "[F_join tid want (sigmask s)]"])
next
  case (A_mutex_lock m)
  then have r: "uth_mutex_lock m [] s = Ok (Switched, s')" using res by simp
  have "parked [F_mutex_lock m (sigmask s)] s s'" by (rule mutex_lock_effect [OF inv c _ r]) simp_all
  with A_mutex_lock show ?thesis by (auto intro!: exI [of _ "[F_mutex_lock m (sigmask s)]"])
next
  case (A_spin_lock m)
  with spin_parks [OF inv c, of m s'] res show ?thesis by (auto intro!: exI [of _ "[F_yield (sigmask s), F_spin_lock m]"])
next
  case (A_ticket_lock m)
  with ticket_lock_parks [OF inv c, of m s'] res show ?thesis by fastforce
next
  case (A_cond_wait cv m)
  with cond_wait_parks [OF inv c, of cv m Switched s'] res show ?thesis by (auto intro!: exI [of _ "[F_cond_wait cv m (sigmask s)]"])
next
  case (A_sem_wait m)
  then have r: "uth_sem_wait m [] s = Ok (Switched, s')" using res by simp
  have "parked [F_sem_wait m (sigmask s)] s s'" by (rule sem_wait_effect [OF inv c _ r]) simp_all
  with A_sem_wait show ?thesis by (auto intro!: exI [of _ "[F_sem_wait m (sigmask s)]"])
next
  case (A_create fn' arg' n env)
  then have "heap s (env_calloc env) = None" "uth_create fn' arg' n env s = Ok (Switched, s')" using e res by simp_all
  then show ?thesis by (rule create_effect [OF inv]) simp_all
qed (use res ne in \<open>auto simp: ok_iff uth_mutex_unlock_def uth_mutex_destroy_def uth_spin_unlock_def uth_ticket_unlock_def
    uth_ticket_destroy_def uth_cond_signal_def uth_cond_broadcast_def uth_cond_destroy_def uth_sem_init_def uth_sem_post_def
    uth_sem_destroy_def uth_preempt_enable_def uth_preempt_disable_def uth_active_count_def Let_def split: if_splits prod.splits\<close>)

lemma resume_parks:
  assumes inv: "lib_inv s rq wq" and u: "user_inv (f # k) s" and res: "resume_frame f k s = Ok (Switched, s')"
  shows "\<exists>k'. parked k' s s' \<and> (pos_ok fn arg (f # k) q \<longrightarrow> pos_ok fn arg k' q) \<and> (\<forall>b. unwind b k' = unwind (sigmask s) (f # k))"
proof -
  have st: "stack_ok (sigmask s) (f # k)"
    using u by (auto simp: user_inv_def ctx_ok_def split: if_splits)
  note c = user_inv_caller [OF u]
  show ?thesis
  proof (cases f)
    case (F_mutex_lock m old)
    with mutex_wait.parks [OF inv c] st res show ?thesis by (auto intro!: exI [of _ "F_mutex_lock m old # k"])
  next
    case (F_ticket_lock m tk old)
    with ticket_wait.parks [OF inv c] st res show ?thesis by (auto intro!: exI [of _ "F_ticket_lock m tk old # k"])
  next
    case (F_sem_wait m old)
    with sem_wait.parks [OF inv c] st res show ?thesis by (auto intro!: exI [of _ "F_sem_wait m old # k"])
  next
    case (F_spin_lock m)
    with spin_parks [OF inv c, of m s'] st res show ?thesis by (auto intro!: exI [of _ "[F_yield (sigmask s), F_spin_lock m]"])
  next
    case (F_cond_wait cv m old)
    with st res have r: "uth_mutex_lock m [F_cond_relock old] s = Ok (Switched, s')" and m: "sigmask s"
      by (auto simp: uth_cond_wait_resumed_def uth_cond_relocked_def ok_iff split: if_splits)
    have "parked [F_mutex_lock m (sigmask s), F_cond_relock old] s s'"
      by (rule mutex_lock_effect [OF inv c _ r]) (use m in simp_all)
    with F_cond_wait st show ?thesis by (auto intro!: exI [of _ "[F_mutex_lock m (sigmask s), F_cond_relock old]"])
  qed (use res in \<open>auto simp: ok_iff thread_trampoline_def uth_create_ret_def uth_yield_resumed_def uth_join_resumed_def
      uth_join_collect_def uth_cond_relocked_def active_count_loop_def active_count_at_def preempt_enable_end_def preempt_disable_end_def Let_def
      split: if_splits\<close>)
qed

section \<open>The coupling is preserved\<close>

lemma tid_bounds:
  assumes "lib_inv s rq wq" and "heap s x = Some t"
  shows "tcb_tid t \<noteq> UTH_TID_INVALID" "tcb_tid t < next_tid s"
proof -
  note ok = lib_invD(3) [OF assms(1)]
  show "tcb_tid t \<noteq> UTH_TID_INVALID" "tcb_tid t < next_tid s"
    using tids_okD(2,3) [OF table_okD(6) [OF ok] assms(2)] table_okD(4) [OF ok] by (simp_all add: word_less_nat_alt)
qed

lemma next_tid_pos: "lib_inv s rq wq \<Longrightarrow> UTH_TID_INVALID < next_tid s"
  using table_okD(4) [OF lib_invD(3)] by (fastforce simp: word_less_nat_alt)

lemma self_of:
  assumes inv: "lib_inv s rq wq" and c: "caller s"
  shows "self_tid s < next_tid s" "uth_current s = NULL \<Longrightarrow> self_tid s = UTH_TID_INVALID"
    "heap s (uth_current s) = Some t \<Longrightarrow> self_tid s = tcb_tid t" "\<lbrakk>heap s x = Some t; x \<noteq> uth_current s\<rbrakk> \<Longrightarrow> tcb_tid t \<noteq> self_tid s"
    "uth_current s \<noteq> NULL \<Longrightarrow> self_tid s \<noteq> UTH_TID_INVALID"
proof -
  have n: "heap s NULL = None" using lib_heap_not_NULL [OF inv] by (cases "heap s NULL") auto
  show z: "uth_current s = NULL \<Longrightarrow> self_tid s = UTH_TID_INVALID" by (simp add: self_tid_def)
  show h: "heap s (uth_current s) = Some t \<Longrightarrow> self_tid s = tcb_tid t" for t using n by (auto simp: self_tid_def)
  show "uth_current s \<noteq> NULL \<Longrightarrow> self_tid s \<noteq> UTH_TID_INVALID"
    using c h tid_bounds(1) [OF inv] by (auto simp: caller_def running_def)
  show "self_tid s < next_tid s"
  proof (cases "uth_current s = NULL")
    case False
    with c obtain t where "heap s (uth_current s) = Some t" by (auto simp: caller_def running_def)
    with h tid_bounds [OF inv] show ?thesis by simp
  qed (use z next_tid_pos [OF inv] in simp)
  assume x: "heap s x = Some t" "x \<noteq> uth_current s"
  show "tcb_tid t \<noteq> self_tid s"
  proof (cases "uth_current s = NULL")
    case True
    with z tid_bounds(1) [OF inv x(1)] show ?thesis by simp
  next
    case False
    with c obtain u where u: "heap s (uth_current s) = Some u" by (auto simp: caller_def running_def)
    with h tid_unique [OF lib_invD(3) [OF inv] x(1) u] x(2) show ?thesis by auto
  qed
qed

lemma lib_running: "\<lbrakk>lib_inv s rq wq; heap s x = Some t; tcb_state t = UTH_STATE_RUNNING\<rbrakk> \<Longrightarrow> x = uth_current s"
  using tcb_invD(2) [OF sched_invD(2) [OF lib_invD(2) heap_erase]] by fastforce

lemma kept_thread_ok:
  assumes k: "kept t t'" and st: "tcb_state t \<noteq> UTH_STATE_RUNNING" and ok: "thread_ok l ps t" and ps: "ps' (tcb_tid t) = ps (tcb_tid t)"
  shows "thread_ok l' ps' t'"
proof (cases "tcb_state t")
  case UTH_STATE_ZOMBIE
  with k ok ps show ?thesis by (simp add: kept_def thread_ok_def)
qed (use k ok ps st in \<open>auto simp: kept_def thread_ok_def frames_of_def\<close>)

lemma coupled_update:
  assumes C: "coupled ((User k0, s), ps, g)" and I: "cfg_inv (l', s')" and st: "settled s s'"
    and cur: "uth_current s \<noteq> NULL \<Longrightarrow> \<exists>t'. heap s' (uth_current s) = Some t' \<and> tcb_tid t' = self_tid s \<and> thread_ok l' ps' t'"
    and main: "main_ok l' s' ps'"
    and same: "\<And>i. \<lbrakk>i \<noteq> self_tid s; i < next_tid s\<rbrakk> \<Longrightarrow> ps' i = ps i"
    and new: "\<And>y t'. \<lbrakk>heap s' y = Some t'; next_tid s \<le> tcb_tid t'\<rbrakk> \<Longrightarrow> thread_ok l' ps' t'"
    and unborn: "\<And>i. \<lbrakk>next_tid s \<le> i; ps' i \<noteq> Unborn\<rbrakk> \<Longrightarrow> i < next_tid s' \<and> (\<exists>y t'. heap s' y = Some t' \<and> tcb_tid t' = i)"
  shows "coupled ((l', s'), ps', g')"
proof (rule coupledI [OF I _ _ _ main])
  from coupledD(1) [OF C] obtain rq wq where inv: "lib_inv s rq wq" and u: "user_inv k0 s" by (auto elim: lib_okE)
  note self = self_of [OF inv user_inv_caller [OF u]]
  show "thread_ok l' ps' t'" if y: "heap s' y = Some t'" for y t'
  proof (cases "next_tid s \<le> tcb_tid t' \<or> y = uth_current s \<and> uth_current s \<noteq> NULL")
    case True
    with new cur y show ?thesis by auto
  next
    case False
    with settledD(2) [OF st y] obtain t where t: "heap s y = Some t" "kept t t'" by auto
    have ny: "y \<noteq> uth_current s" using False lib_heap_not_NULL [OF inv t(1)] by auto
    with lib_running [OF inv t(1)] have "tcb_state t \<noteq> UTH_STATE_RUNNING" by blast
    moreover have "ps' (tcb_tid t) = ps (tcb_tid t)" using same self(4) [OF t(1) ny] tid_bounds(2) [OF inv t(1)] by blast
    ultimately show ?thesis by (rule kept_thread_ok [OF t(2) _ coupledD(2) [OF C t(1)]])
  qed
  show "ps' i = Unborn" if "next_tid s' \<le> i" for i
    using unborn [of i] that settledD(1) [OF st] by fastforce
  show "\<exists>x t. heap s' x = Some t \<and> tcb_tid t = i" if i: "i \<noteq> UTH_TID_INVALID" "ps' i \<noteq> Unborn" "ps' i \<noteq> Ended" for i
  proof (cases "next_tid s \<le> i \<or> i = self_tid s")
    case True
    with unborn [of i] i cur self(2) show ?thesis by blast
  next
    case False
    then have e: "ps' i = ps i" using same [of i] by auto
    with coupledD(4) [OF C] i obtain x t where t: "heap s x = Some t" "tcb_tid t = i" by metis
    have "tcb_state t \<noteq> UTH_STATE_ZOMBIE" using coupledD(2) [OF C t(1)] t(2) e i(3) by (auto simp: thread_ok_def)
    moreover have "x \<noteq> uth_current s" using self(3) t False by auto
    then have "tcb_state t \<noteq> UTH_STATE_RUNNING" using lib_running [OF inv t(1)] by blast
    ultimately have "tcb_state t = UTH_STATE_READY \<or> tcb_state t = UTH_STATE_BLOCKED" by (cases "tcb_state t") auto
    with settledD(3) [OF st t(1)] t(2) show ?thesis by (auto simp: kept_def)
  qed
qed

text \<open>A step of the current thread that changes its own position only.\<close>

lemma coupled_self:
  assumes C: "coupled ((User k0, s), ps, g)" and P: "lib_post s b d s'" and I: "cfg_inv (transfer d k, s')" and n: "next_tid s' = next_tid s"
    and ret: "d \<noteq> Switched \<Longrightarrow> \<forall>fn arg. pos_ok fn arg (frames_at (transfer d k)) q'"
    and sw: "\<And>t. \<lbrakk>d = Switched; heap s (uth_current s) = Some t\<rbrakk> \<Longrightarrow>
      (\<exists>k'. parked k' s s' \<and> pos_ok (tcb_fn t) (tcb_arg t) k' q') \<or>
      q' = Ended \<and> (\<exists>t'. heap s' (uth_current s) = Some t' \<and> tcb_state t' = UTH_STATE_ZOMBIE)"
  shows "coupled ((transfer d k, s'), ps(self_tid s := q'), g')"
proof -
  from coupledD(1) [OF C] obtain rq wq where inv: "lib_inv s rq wq" and u: "user_inv k0 s" by (auto elim: lib_okE)
  note c = user_inv_caller [OF u]
  note self = self_of [OF inv c]
  have st: "settled s s'" using P by (simp add: lib_post_def)
  obtain rq' wq' where inv': "lib_inv s' rq' wq'" using P by (auto simp: lib_post_def elim: lib_okE)
  have go: "d \<noteq> Switched \<Longrightarrow> stays s s' \<and> (\<exists>k'. transfer d k = User k')"
    using P by (cases d) (auto simp: lib_post_def)
  have cur: "\<exists>t'. heap s' (uth_current s) = Some t' \<and> tcb_tid t' = self_tid s \<and> thread_ok (transfer d k) (ps(self_tid s := q')) t'"
    if nz: "uth_current s \<noteq> NULL"
  proof -
    from caller_runs [OF c nz] obtain t where t: "heap s (uth_current s) = Some t" "tcb_state t = UTH_STATE_RUNNING" by (auto simp: runs_def)
    have "\<exists>t'. heap s' (uth_current s) = Some t' \<and> (if tcb_state t' = UTH_STATE_ZOMBIE then q' = Ended
        else pos_ok (tcb_fn t) (tcb_arg t) (frames_of (transfer d k) t') q')"
    proof (cases "d = Switched")
      case True
      with P have "no_running s'" by (simp add: lib_post_def)
      then have "\<And>t'. heap s' (uth_current s) = Some t' \<Longrightarrow> frames_of (transfer d k) t' = uc_frames (tcb_ctx t')"
        by (auto simp: no_running_def frames_of_def)
      with sw [OF True t(1)] show ?thesis by (auto simp: parked_def)
    next
      case False
      with go t have "running s' (uth_current s)" by (auto simp: stays_def running_def)
      then obtain t' where "heap s' (uth_current s) = Some t'" "tcb_state t' = UTH_STATE_RUNNING" by (auto simp: running_def)
      with ret [OF False] show ?thesis by (auto simp: frames_of_def)
    qed
    then obtain t' where t': "heap s' (uth_current s) = Some t'" "if tcb_state t' = UTH_STATE_ZOMBIE then q' = Ended
        else pos_ok (tcb_fn t) (tcb_arg t) (frames_of (transfer d k) t') q'" by blast
    have "\<not> next_tid s \<le> tcb_tid t'" using tid_bounds(2) [OF inv' t'(1)] n by simp
    with settledD(2) [OF st t'(1)] t(1) have "kept t t'" by auto
    with t' self(3) [OF t(1)] show ?thesis by (auto simp: kept_def thread_ok_def)
  qed
  have main: "main_ok (transfer d k) s' (ps(self_tid s := q'))"
  proof (cases "uth_current s = NULL")
    case True
    with P have "d \<noteq> Switched" by (auto simp: lib_post_def)
    with go ret True self(2) show ?thesis by (auto simp: main_ok_def stays_def)
  next
    case False
    with coupledD(5) [OF C] have m: "\<exists>p. ps UTH_TID_INVALID = InRun p" by (simp add: main_ok_def)
    with self(5) False go show ?thesis by (cases "d = Switched") (auto simp: main_ok_def stays_def)
  qed
  show ?thesis
  proof (rule coupled_update [OF C I st cur main])
    show "\<lbrakk>heap s' y = Some t'; next_tid s \<le> tcb_tid t'\<rbrakk> \<Longrightarrow> thread_ok (transfer d k) (ps(self_tid s := q')) t'" for y t'
      using tid_bounds(2) [OF inv'] n by fastforce
    show "\<lbrakk>next_tid s \<le> i; (ps(self_tid s := q')) i \<noteq> Unborn\<rbrakk> \<Longrightarrow> i < next_tid s' \<and> (\<exists>y t'. heap s' y = Some t' \<and> tcb_tid t' = i)" for i
      using coupledD(3) [OF C, of i] self(1) by (auto split: if_splits)
  qed simp_all
qed

text \<open>How calls and suspended calls can end.\<close>

lemma call_ctl:
  assumes inv: "lib_inv s rq wq" and c: "caller s" and e: "env_ok a s" and res: "api_call a s = Ok (d, s')"
  obtains (switch) "d = Switched" | (ret) r where "d = Return r" "\<And>v. a \<noteq> A_exit v" | (create) x where "is_create a" "d = Remains (F_create_ret x)"
    | (remains) f where "d = Remains f" "open_frame f" "\<not> creating f" "a = A_active_count \<or> a = A_preempt_disable \<or> (\<exists>ms env. a = A_preempt_enable ms env)" "\<not> is_create a"
proof -
  have P: "lib_post s (sigmask s) d s'" by (rule api_call_post [OF inv c e res])
  show ?thesis
  proof (cases a)
    case (A_exit v)
    with exit_post [OF inv c, of v "[]" d s'] res switch show ?thesis by simp
  next
    case (A_create fn arg n env)
    then have "heap s (env_calloc env) = None" "uth_create fn arg n env s = Ok (d, s')" using e res by simp_all
    then show ?thesis by (rule create_effect [OF inv]) (use ret create A_create in auto)
  next
    case (A_mutex_lock m)
    with mutex_lock_post [OF inv c, of "[]" m d s'] res ret switch show ?thesis by auto
  next
    case (A_sem_wait m)
    then have "uth_sem_wait m [] s = Ok (d, s')" using res by simp
    then show ?thesis by (rule sem_wait_effect [OF inv c, of "[]", rotated]) (use ret switch A_sem_wait in auto)
  next
    case (A_ticket_lock m)
    have "d \<noteq> CallUser fn arg \<and> d \<noteq> Remains f" for fn arg f
      using res A_ticket_lock P by (cases d) (auto simp: uth_ticket_lock_def ticket_lock_loop_def uth_block_def swap_to_sched_def ok_iff Let_def uth_preempt_off_def split: if_splits)
    with ret switch A_ticket_lock show ?thesis by (cases d) auto
  next
    case (A_spin_lock m)
    show ?thesis
    proof (cases "spins s m")
      case None
      with A_spin_lock res show ?thesis by (simp add: uth_spin_lock_def spin_lock_loop.simps get_spin_def)
    next
      case (Some x)
      show ?thesis
      proof (cases "spin_flag x")
        case False
        with spin_lock_free [OF Some False, of "[]"] A_spin_lock res ret show ?thesis by auto
      next
        case True
        have nz: "uth_current s \<noteq> NULL" using spin_lock_outside [OF _ Some True] res A_spin_lock by fastforce
        from caller_runs [OF c nz] obtain t where r: "runs s (uth_current s) t" by blast
        from spin_lock_taken [OF inv r Some True] A_spin_lock res switch show ?thesis by auto
      qed
    qed
  next
    case (A_cond_wait cv m)
    with cond_wait_parks [OF inv c, of cv m d s'] res switch show ?thesis by simp
  qed (use res ret switch remains in \<open>auto simp: ok_iff uth_yield_def uth_join_def uth_join_collect_def uth_block_noqueue_def swap_to_sched_def
    uth_mutex_unlock_def uth_mutex_destroy_def uth_spin_unlock_def uth_ticket_unlock_def
    uth_ticket_destroy_def uth_cond_signal_def uth_cond_broadcast_def uth_cond_destroy_def uth_sem_init_def uth_sem_post_def
    uth_sem_destroy_def uth_preempt_enable_def uth_preempt_disable_def uth_active_count_def uth_preempt_off_def Let_def split: if_splits\<close>)
qed

lemma resume_ctl:
  assumes inv: "lib_inv s rq wq" and u: "user_inv (f # k) s" and res: "resume_frame f k s = Ok (d, s')"
  obtains (switch) "d = Switched" | (ret) r where "d = Return r" "\<And>hi lo. f \<noteq> F_trampoline hi lo"
    | (call) hi lo fn arg where "f = F_trampoline hi lo" "d = CallUser fn arg"
    | (remains) g where "d = Remains g" "open_frame g" "\<not> creating g" "\<exists>i n x. f = F_count i n \<or> f = F_count_at i n x" "s' = s" "k = []"
proof -
  have st: "stack_ok (sigmask s) (f # k)"
    using u by (auto simp: user_inv_def ctx_ok_def split: if_splits)
  note c = user_inv_caller [OF u]
  show ?thesis
  proof (cases f)
    case (F_mutex_lock m old)
    with mutex_wait.post [OF inv c, of old k m d s'] st res ret switch show ?thesis by auto
  next
    case (F_ticket_lock m tk old)
    with ticket_wait.post [OF inv c, of old k m tk d s'] st res ret switch show ?thesis by auto
  next
    case (F_sem_wait m old)
    with sem_wait.post [OF inv c, of old k m d s'] st res ret switch show ?thesis by auto
  next
    case (F_spin_lock m)
    with st have "k = []" by simp
    with F_spin_lock res show ?thesis
      using call_ctl [OF inv c, of "A_spin_lock m" d s'] ret switch by fastforce
  next
    case (F_cond_wait cv m old)
    with st res obtain c1 s1 where s1: "uth_mutex_lock m [F_cond_relock old] s = Ok (c1, s1)"
        "(if c1 = Return RetVoid then uth_cond_relocked old s1 else Ok (c1, s1)) = Ok (d, s')" "sigmask s"
      by (auto simp: uth_cond_wait_resumed_def ok_iff)
    with mutex_lock_post [OF inv c _ s1(1)] ret switch F_cond_wait show ?thesis
      by (auto simp: uth_cond_relocked_def)
  qed (use res ret call remains st in \<open>auto simp: ok_iff thread_trampoline_def uth_create_ret_def uth_yield_resumed_def uth_join_resumed_def
      uth_join_collect_def uth_cond_relocked_def active_count_loop_def active_count_at_def preempt_enable_end_def preempt_disable_end_def Let_def
      split: if_splits\<close>)
qed

lemma coupled_idle:
  assumes C: "coupled ((l, s), ps, g)" and nr: "no_running s" and h: "heap s' = heap s" "next_tid s' = next_tid s"
    and I: "cfg_inv (l', s')" and m: "main_ok l' s' ps'" and ps: "\<And>i. i \<noteq> UTH_TID_INVALID \<Longrightarrow> ps' i = ps i"
  shows "coupled ((l', s'), ps', g')"
proof (rule coupledI [OF I _ _ _ m])
  have "lib_ok s" using coupledD(1) [OF C] by (cases l) simp_all
  then obtain rq wq where inv: "lib_inv s rq wq" by (rule lib_okE)
  show "thread_ok l' ps' t" if "heap s' x = Some t" for x t
  proof -
    from that h have t: "heap s x = Some t" by simp
    with nr have "tcb_state t \<noteq> UTH_STATE_RUNNING" by (auto simp: no_running_def)
    then show ?thesis using coupledD(2) [OF C t] ps [OF tid_bounds(1) [OF inv t]] by (auto simp: thread_ok_def frames_of_def)
  qed
  show "ps' i = Unborn" if "next_tid s' \<le> i" for i
  proof -
    have "i \<noteq> UTH_TID_INVALID" using next_tid_pos [OF inv] that h(2) by auto
    with ps coupledD(3) [OF C, of i] that h(2) show ?thesis by simp
  qed
  show "\<exists>x t. heap s' x = Some t \<and> tcb_tid t = i" if "i \<noteq> UTH_TID_INVALID" "ps' i \<noteq> Unborn" "ps' i \<noteq> Ended" for i
    using coupledD(4) [OF C that(1)] that ps [OF that(1)] h by simp
qed

lemma is_createE:
  assumes "is_create a"
  obtains fn arg n env where "a = A_create fn arg n env"
  using assms by (cases a) auto

lemma create_call:
  assumes inv: "lib_inv s rq wq" and a: "is_create a" and e: "env_ok a s" and res: "api_call a s = Ok (d, s')"
  obtains (fails) r where "d = Return r" "s' = s"
    | (adds) fn arg n env x stk sz where "a = A_create fn arg n env" "d = Remains (F_create_ret x)" "heap s x = None" "uth_current s' = uth_current s"
      "heap (erase s') = (heap (erase s))(x \<mapsto> new_tcb fn arg stk sz x (next_tid s))" "unat (next_tid s') = Suc (unat (next_tid s))"
proof -
  from a obtain fn arg n env where a: "a = A_create fn arg n env" by (rule is_createE)
  with e res have "heap s (env_calloc env) = None" "uth_create fn arg n env s = Ok (d, s')" by simp_all
  then show ?thesis by (rule create_effect [OF inv]) (use a fails adds in blast)+
qed

lemma coupled_create:
  assumes C: "coupled ((User [], s), ps, g)" and e: "env_ok a s" and res: "api_call a s = Ok (d, s')"
    and a: "a = A_create fn arg n env" and d: "d = Remains (F_create_ret x)"
  shows "coupled ((transfer d [], s'), ps(self_tid s := Made (next_tid s) p, next_tid s := New fn arg), g')"
proof -
  from coupledD(1) [OF C] obtain rq wq where inv: "lib_inv s rq wq" and u: "user_inv [] s" by (auto elim: lib_okE)
  note c = user_inv_caller [OF u]
  note self = self_of [OF inv c]
  have P: "lib_post s (sigmask s) d s'" by (rule api_call_post [OF inv c e res])
  have I: "cfg_inv (transfer d [], s')" using post_cfg_inv [OF u P, of "[]"] by simp
  have st: "settled s s'" and go: "stays s s'" using P d by (simp_all add: lib_post_def)
  have "is_create a" using a by simp
  then obtain stk sz where x: "heap s x = None" "uth_current s' = uth_current s"
      "heap (erase s') = (heap (erase s))(x \<mapsto> new_tcb fn arg stk sz x (next_tid s))" "unat (next_tid s') = Suc (unat (next_tid s))"
    by (rule create_call [OF inv _ e res]) (use a d in auto)
  let ?ps = "ps(self_tid s := Made (next_tid s) p, next_tid s := New fn arg)"
  have l: "transfer d [] = User [F_create_ret x]" using d by simp
  have n: "next_tid s < next_tid s'" "i < next_tid s' \<Longrightarrow> i \<le> next_tid s" for i using x(4) by (simp_all add: word_less_nat_alt word_le_nat_alt)
  have new: "thread_ok l' ?ps t'" if t': "heap s' y = Some t'" "next_tid s \<le> tcb_tid t'" for y t' l'
  proof -
    have "heap (erase s') y = Some (t'\<lparr>tcb_next := NULL\<rparr>)" by (rule heap_erase [OF t'(1)])
    moreover have "heap (erase s) y \<noteq> Some (t'\<lparr>tcb_next := NULL\<rparr>)"
      using tid_bounds(2) [OF inv] t'(2) by (fastforce simp: heap_erase_iff dest: arg_cong [where f = tcb_tid])
    ultimately have e: "t'\<lparr>tcb_next := NULL\<rparr> = new_tcb fn arg stk sz x (next_tid s)" using x(3) by (auto split: if_splits)
    from arg_cong [OF e, of tcb_tid] arg_cong [OF e, of tcb_state] arg_cong [OF e, of tcb_fn] arg_cong [OF e, of tcb_arg] arg_cong [OF e, of tcb_ctx]
    show ?thesis by (simp add: thread_ok_def frames_of_def)
  qed
  show ?thesis
  proof (rule coupled_update [OF C I st])
    show "\<exists>t'. heap s' (uth_current s) = Some t' \<and> tcb_tid t' = self_tid s \<and> thread_ok (transfer d []) ?ps t'" if nz: "uth_current s \<noteq> NULL"
    proof -
      from caller_runs [OF c nz] obtain t where t: "heap s (uth_current s) = Some t" "tcb_state t = UTH_STATE_RUNNING" by (auto simp: runs_def)
      with go have "running s' (uth_current s)" by (auto simp: stays_def running_def)
      then obtain t' where t': "heap s' (uth_current s) = Some t'" "tcb_state t' = UTH_STATE_RUNNING" by (auto simp: running_def)
      have "tcb_state t' = UTH_STATE_READY" if "next_tid s \<le> tcb_tid t'"
        using x(1,3) t(1) heap_erase [OF t'(1)] that tid_bounds(2) [OF inv t(1)] heap_erase [OF t(1)]
        by (cases "uth_current s = x") (auto dest: arg_cong [where f = tcb_tid])
      with t' settledD(2) [OF st t'(1)] t(1) have "kept t t'" by auto
      with t t' self(1) self(3) [OF t(1)] l show ?thesis by (auto simp: kept_def thread_ok_def frames_of_def)
    qed
    show "main_ok (transfer d []) s' ?ps"
      using coupledD(5) [OF C] x(2) self(2,5) next_tid_pos [OF inv] l by (cases "uth_current s = NULL") (auto simp: main_ok_def)
    show "\<lbrakk>heap s' y = Some t'; next_tid s \<le> tcb_tid t'\<rbrakk> \<Longrightarrow> thread_ok (transfer d []) ?ps t'" for y t' by (rule new)
    show "i < next_tid s' \<and> (\<exists>y t'. heap s' y = Some t' \<and> tcb_tid t' = i)" if i: "next_tid s \<le> i" "?ps i \<noteq> Unborn" for i
    proof -
      have "i = next_tid s" using coupledD(3) [OF C i(1)] i self(1) by (auto split: if_splits)
      moreover have "heap (erase s') x = Some (new_tcb fn arg stk sz x (next_tid s))" using x(3) by simp
      then obtain t' where "heap s' x = Some t'" "tcb_tid t' = next_tid s" by (auto simp: heap_erase_iff dest: arg_cong [where f = tcb_tid])
      ultimately show ?thesis using n(1) by blast
    qed
  qed (use self(1) in auto)
qed

lemma coupled_call:
  assumes C: "coupled ((User [], s), ps, g)" and e: "env_ok a s" and res: "api_call a s = Ok (d, s')"
  shows "coupled ((transfer d [], s'), spawn a d (next_tid s) (ps(self_tid s := after P (next_tid s) d [] (issued a p))), g')"
proof -
  from coupledD(1) [OF C] obtain rq wq where inv: "lib_inv s rq wq" and u: "user_inv [] s" by (auto elim: lib_okE)
  note c = user_inv_caller [OF u]
  have P: "lib_post s (sigmask s) d s'" by (rule api_call_post [OF inv c e res])
  have I: "cfg_inv (transfer d [], s')" using post_cfg_inv [OF u P, of "[]"] by simp
  show ?thesis
  proof (cases rule: call_ctl [OF inv c e res])
    case 1
    have sp: "spawn a d (next_tid s) ps' = ps'" for ps' :: "u32 \<Rightarrow> 'a pos" using 1 by (cases a) simp_all
    have nc: "\<not> is_create a" using create_call [OF inv _ e res] 1 by fastforce
    show ?thesis unfolding sp
    proof (rule coupled_self [OF C P I objs_offD(2) [OF call_frame [OF res nc]]])
      fix t
      show "(\<exists>k'. parked k' s s' \<and> pos_ok (tcb_fn t) (tcb_arg t) k' (after P (next_tid s) d [] (issued a p))) \<or>
          after P (next_tid s) d [] (issued a p) = Ended \<and> (\<exists>t'. heap s' (uth_current s) = Some t' \<and> tcb_state t' = UTH_STATE_ZOMBIE)"
      proof (cases "\<exists>v. a = A_exit v")
        case True
        with exit_parks [OF inv c, of _ "[]" d s'] res 1 show ?thesis by auto
      next
        case False
        with call_parks [OF inv c e res [unfolded 1], of "tcb_fn t" "tcb_arg t" p] 1 show ?thesis by auto
      qed
    qed (use 1 in simp)
  next
    case (2 r)
    have sp: "spawn a d (next_tid s) ps' = ps'" for ps' :: "u32 \<Rightarrow> 'a pos" using 2 by (cases a) simp_all
    have "\<not> (\<exists>v. a = A_exit v)" using 2(2) by blast
    then have at: "\<exists>p'. after P (next_tid s) d [] (issued a p) = At p'" using 2(1) by (cases a) simp_all
    have "next_tid s' = next_tid s"
    proof (cases "is_create a")
      case True
      from create_call [OF inv True e res] 2 show ?thesis by fastforce
    qed (rule objs_offD(2) [OF call_frame [OF res]])
    from at 2 show ?thesis unfolding sp by (intro coupled_self [OF C P I \<open>next_tid s' = next_tid s\<close>]) auto
  next
    case (3 x)
    from 3(1) obtain fn arg n env where a: "a = A_create fn arg n env" by (rule is_createE)
    with coupled_create [OF C e res a 3(2)] 3 show ?thesis by simp
  next
    case (4 f)
    have sp: "spawn a d (next_tid s) ps' = ps'" for ps' :: "u32 \<Rightarrow> 'a pos" using 4(5) by (cases a) simp_all
    have "\<exists>p'. after P (next_tid s) d [] (issued a p) = Done p'" using 4(1,3,4) by auto
    with 4(1-3) show ?thesis unfolding sp
      by (intro coupled_self [OF C P I objs_offD(2) [OF call_frame [OF res 4(5)]]]) (auto simp: open_pos_ok)
  qed
qed

lemma coupled_current:
  assumes C: "coupled ((User k, s), ps, g)"
  obtains t where "heap s (uth_current s) = Some t" "tcb_state t = UTH_STATE_RUNNING" "pos_ok (tcb_fn t) (tcb_arg t) k (ps (self_tid s))"
    | "uth_current s = NULL" "pos_ok 0 0 k (ps (self_tid s))"
proof -
  from coupledD(1) [OF C] obtain rq wq where inv: "lib_inv s rq wq" and u: "user_inv k s" by (auto elim: lib_okE)
  note self = self_of [OF inv user_inv_caller [OF u]]
  show ?thesis
  proof (cases "uth_current s = NULL")
    case True
    with that(2) coupledD(5) [OF C] self(2) show ?thesis by (simp add: main_ok_def)
  next
    case False
    with caller_runs [OF user_inv_caller [OF u]] obtain t where t: "heap s (uth_current s) = Some t" "tcb_state t = UTH_STATE_RUNNING"
      by (auto simp: runs_def)
    with coupledD(2) [OF C t(1)] self(3) [OF t(1)] that(1) show ?thesis by (auto simp: thread_ok_def frames_of_def)
  qed
qed

lemma after_return:
  assumes "pos_ok fn arg (f # k) q" and "\<And>hi lo. f \<noteq> F_trampoline hi lo" and "stack_ok b (f # k)"
  shows "pos_ok fn' arg' k (after P n (Return r) k q)"
proof (cases f)
  case (F_yield old)
  with assms(3) have "caller_ok old k" by simp
  then show ?thesis by (rule caller_ok_cases) (use assms(1) F_yield in auto)
qed (use assms in \<open>auto split: if_splits elim: caller_ok_cases\<close>)

lemma coupled_resume:
  assumes C: "coupled ((User (f # k), s), ps, g)" and res: "resume_frame f k s = Ok (d, s')"
  shows "coupled ((transfer d k, s'), ps(self_tid s := after P (next_tid s) d k (ps (self_tid s))), g)"
proof -
  from coupledD(1) [OF C] obtain rq wq where inv: "lib_inv s rq wq" and u: "user_inv (f # k) s" by (auto elim: lib_okE)
  have P: "lib_post s (frame_mask (sigmask s) f) d s'" using resume_frame_post [OF inv u res] by blast
  have I: "cfg_inv (transfer d k, s')" by (rule resume_frame_inv [OF inv u res])
  have n: "next_tid s' = next_tid s" by (rule objs_offD(2) [OF resume_frame_frame [OF res]])
  have st: "stack_ok (sigmask s) (f # k)" using u by (auto simp: user_inv_def ctx_ok_def split: if_splits)
  obtain fn arg where q: "pos_ok fn arg (f # k) (ps (self_tid s))" "\<And>t. heap s (uth_current s) = Some t \<Longrightarrow> fn = tcb_fn t \<and> arg = tcb_arg t"
    by (rule coupled_current [OF C]) (use lib_heap_not_NULL [OF inv] in auto)
  show ?thesis
  proof (rule coupled_self [OF C P I n])
    show "\<forall>fn arg. pos_ok fn arg (frames_at (transfer d k)) (after P (next_tid s) d k (ps (self_tid s)))" if "d \<noteq> Switched"
    proof (cases rule: resume_ctl [OF inv u res])
      case (4 h)
      with q(1) have "\<exists>p. ps (self_tid s) = Done p" by auto
      with 4 show ?thesis by (simp add: open_pos_ok)
    qed (use that after_return [OF q(1) _ st] in auto)
    show "(\<exists>k'. parked k' s s' \<and> pos_ok (tcb_fn t) (tcb_arg t) k' (after P (next_tid s) d k (ps (self_tid s)))) \<or>
        after P (next_tid s) d k (ps (self_tid s)) = Ended \<and> (\<exists>t'. heap s' (uth_current s) = Some t' \<and> tcb_state t' = UTH_STATE_ZOMBIE)"
      if "d = Switched" "heap s (uth_current s) = Some t" for t
      using resume_parks [OF inv u] res that q by fastforce
  qed
qed

lemma same_thread_ok:
  assumes "t'\<lparr>tcb_next := NULL\<rparr> = t\<lparr>tcb_next := NULL\<rparr>" and "tcb_state t \<noteq> UTH_STATE_RUNNING" and "thread_ok l ps t"
  shows "thread_ok l' ps t'"
proof (rule kept_thread_ok [OF _ assms(2,3)])
  have "kept (t\<lparr>tcb_next := NULL\<rparr>) (t'\<lparr>tcb_next := NULL\<rparr>)" unfolding assms(1) by (rule kept_refl)
  then show "kept t t'" by simp
qed simp

lemma same_thread:
  assumes "heap s y = Some u" and "heap (erase s') y = heap (erase s) y"
  obtains v where "heap s' y = Some v" "v\<lparr>tcb_next := NULL\<rparr> = u\<lparr>tcb_next := NULL\<rparr>" "tcb_tid v = tcb_tid u"
proof -
  have "heap (erase s') y = Some (u\<lparr>tcb_next := NULL\<rparr>)" using heap_erase [OF assms(1)] assms(2) by simp
  then obtain v where v: "heap s' y = Some v" "u\<lparr>tcb_next := NULL\<rparr> = v\<lparr>tcb_next := NULL\<rparr>" unfolding heap_erase_iff by blast
  from arg_cong [OF v(2), of tcb_tid] have "tcb_tid v = tcb_tid u" by simp
  with that [OF v(1) v(2) [symmetric]] show ?thesis by blast
qed

lemma coupled_pick:
  assumes C: "coupled ((SchedTop, s), ps, g)" and res: "scheduler_round s = Ok (SchedRun k, s')"
  shows "coupled ((User k, s'), ps, g)"
proof -
  from coupledD(1) [OF C] obtain rq wq where inv: "lib_inv s rq wq" and nr: "no_running s" by (auto elim: lib_okE)
  have n: "next_tid s' = next_tid s" by (rule objs_offD(2) [OF objs_round [OF res]])
  show ?thesis
  proof (cases rule: scheduler_round_cases [OF inv nr])
    case (3 x rq' t s1 t')
    with res have k: "k = uc_frames (tcb_ctx t)" "s1 = s'" by simp_all
    have e: "erase s' = resumed x t (erase s)" "heap s x = Some t" "runs s' x t'" using 3 k by simp_all
    have other: "\<exists>u. heap s y = Some u \<and> v\<lparr>tcb_next := NULL\<rparr> = u\<lparr>tcb_next := NULL\<rparr>" if v: "heap s' y = Some v" "y \<noteq> x" for y v
    proof -
      have "heap (erase s) y = heap (erase s') y" using v(2) by (simp add: e(1) resumed_def heap_upd_tcb)
      then show ?thesis by (rule same_thread [OF v(1)]) auto
    qed
    have "t'\<lparr>tcb_next := NULL\<rparr> = t\<lparr>tcb_next := NULL, tcb_state := UTH_STATE_RUNNING\<rparr>"
      using runs_erase(1) [OF e(3)] heap_erase [OF e(2)] by (simp add: e(1) resumed_def heap_upd_tcb)
    from arg_cong [OF this, of tcb_fn] arg_cong [OF this, of tcb_arg] arg_cong [OF this, of tcb_tid]
    have same: "tcb_fn t' = tcb_fn t" "tcb_arg t' = tcb_arg t" "tcb_tid t' = tcb_tid t" by simp_all
    have r: "uth_current s' = x" "heap s' x = Some t'" "tcb_state t' = UTH_STATE_RUNNING" using e(3) by (simp_all add: runs_def)
    show ?thesis
    proof (rule coupledI)
      show "cfg_inv (User k, s')" by (rule pick_inv(1) [OF coupledD(1) [OF C] res refl])
      show "thread_ok (User k) ps v" if v: "heap s' y = Some v" for y v
      proof (cases "y = x")
        case True
        with v r same coupledD(2) [OF C e(2)] 3(3) k(1) show ?thesis by (simp add: thread_ok_def frames_of_def)
      next
        case False
        from other [OF v False] obtain u where u: "heap s y = Some u" "v\<lparr>tcb_next := NULL\<rparr> = u\<lparr>tcb_next := NULL\<rparr>" by blast
        with nr have "tcb_state u \<noteq> UTH_STATE_RUNNING" by (auto simp: no_running_def)
        from same_thread_ok [OF u(2) this coupledD(2) [OF C u(1)]] show ?thesis .
      qed
      show "next_tid s' \<le> i \<Longrightarrow> ps i = Unborn" for i using coupledD(3) [OF C] n by simp
      show "\<exists>y v. heap s' y = Some v \<and> tcb_tid v = i" if "i \<noteq> UTH_TID_INVALID" "ps i \<noteq> Unborn" "ps i \<noteq> Ended" for i
      proof -
        from coupledD(4) [OF C that] obtain y u where u: "heap s y = Some u" "tcb_tid u = i" by blast
        show ?thesis
        proof (cases "y = x")
          case True
          with u e(2) r(2) same(3) show ?thesis by auto
        next
          case False
          then have "heap (erase s') y = heap (erase s) y" by (simp add: e(1) resumed_def heap_upd_tcb)
          with same_thread [OF u(1)] u(2) show ?thesis by metis
        qed
      qed
      show "main_ok (User k) s' ps"
        using coupledD(5) [OF C] r runs_not_NULL [OF 3(5,6)] by (simp add: main_ok_def)
    qed
  qed (use res in simp_all)
qed

lemma coupled_tick:
  assumes C: "coupled ((l, s), ps, g)" and t: "tick_pending s" and ucp: "uc_sigmask ucp = sigmask s" "uc_frames ucp = frames_at l"
    and res: "uth_preempt_handler ucp s = Ok (d, s')"
  shows "coupled ((if d = Switched then SchedBack else l, s'), ps, g)"
proof (cases "uth_current s = NULL")
  case True
  with handler_idle [OF True] res C show ?thesis by auto
next
  case False
  note I = coupledD(1) [OF C]
  obtain k where l: "l = User k" using I t False by (cases l) (simp_all add: tick_pending_def)
  with I obtain rq wq where inv: "lib_inv s rq wq" and u: "user_inv k s" by (auto elim: lib_okE)
  obtain x where r: "runs s (uth_current s) x" using caller_runs [OF user_inv_caller [OF u] False] by blast
  have ctx: "ctx_ok (erase s) True (uth_current s) (uc_sigmask ucp) (uc_frames ucp)"
    using u False ucp l by (simp add: user_inv_def)
  from handler_preempts [OF inv r ctx] res have p: "d = Switched" "lib_inv s' (rq @ [uth_current s]) wq"
      "erase s' = preempted ucp (uth_current s) (erase s)" by auto
  have C': "coupled ((User k, s), ps, g)" using C l by simp
  have "coupled ((SchedBack, s'), ps, g)"
  proof (rule coupled_update [OF C' _ preempted_settled [OF r p(3)]])
    show "cfg_inv (SchedBack, s')" using tick_inv [OF t ucp res I] p(1) by simp
    have "heap (erase s') (uth_current s) = Some (x\<lparr>tcb_next := NULL, tcb_state := UTH_STATE_READY, tcb_ctx := ucp\<lparr>uc_fpregs := uth_current s\<rparr>\<rparr>)"
      unfolding p(3) using runs_erase(1) [OF r] by (simp add: preempted_def heap_upd_tcb)
    then obtain t' where t': "heap s' (uth_current s) = Some t'"
        "x\<lparr>tcb_next := NULL, tcb_state := UTH_STATE_READY, tcb_ctx := ucp\<lparr>uc_fpregs := uth_current s\<rparr>\<rparr> = t'\<lparr>tcb_next := NULL\<rparr>"
      unfolding heap_erase_iff by blast
    from arg_cong [OF t'(2), of tcb_fn] arg_cong [OF t'(2), of tcb_arg] arg_cong [OF t'(2), of tcb_tid] arg_cong [OF t'(2), of tcb_state]
      arg_cong [OF t'(2), of "\<lambda>t. uc_frames (tcb_ctx t)"]
    have same: "tcb_fn t' = tcb_fn x" "tcb_arg t' = tcb_arg x" "tcb_tid t' = tcb_tid x" "tcb_state t' = UTH_STATE_READY" "uc_frames (tcb_ctx t') = frames_at l"
      using ucp(2) by simp_all
    have "thread_ok SchedBack ps t' = thread_ok l ps x" using r by (simp add: thread_ok_def frames_of_def runs_def same)
    note this same(3)
    then show "\<exists>t'. heap s' (uth_current s) = Some t' \<and> tcb_tid t' = self_tid s \<and> thread_ok SchedBack ps t'"
      using t'(1) coupledD(2) [OF C runs_erase(4) [OF r]] self_of(3) [OF inv user_inv_caller [OF u] runs_erase(4) [OF r]] by auto
    show "main_ok SchedBack s' ps" using coupledD(5) [OF C] False l by (simp add: main_ok_def)
    have n: "next_tid s' = next_tid s" by (rule objs_offD(2) [OF objs_handler [OF res]])
    show "\<lbrakk>heap s' y = Some t'; next_tid s \<le> tcb_tid t'\<rbrakk> \<Longrightarrow> thread_ok SchedBack ps t'" for y t'
      using tid_bounds(2) [OF p(2)] n by fastforce
    show "\<lbrakk>next_tid s \<le> i; ps i \<noteq> Unborn\<rbrakk> \<Longrightarrow> i < next_tid s' \<and> (\<exists>y t'. heap s' y = Some t' \<and> tcb_tid t' = i)" for i
      using coupledD(3) [OF C] by blast
  qed simp
  with p(1) show ?thesis by simp
qed

end
