(* ===== verification/Uth_Exec.thy ===== *)
theory Uth_Exec
  imports Uth_Machine
begin

text \<open>
  Concrete runs of the transition system: a schedule is a list of moves, each of which determines
  one step of the machine. A configuration that a schedule computes is reachable.
\<close>

datatype move = M_call api | M_resume | M_run ptr ptr | M_sched | M_tick

fun do_move :: "move \<Rightarrow> config \<Rightarrow> config option" where
  "do_move (M_call a) (User [], s) =
     (if env_ok a s then (case api_call a s of Ok (d, s') \<Rightarrow> Some (transfer d [], s') | _ \<Rightarrow> None) else None)"
| "do_move M_resume (User (f # k), s) = (case resume_frame f k s of Ok (d, s') \<Rightarrow> Some (transfer d k, s') | _ \<Rightarrow> None)"
| "do_move (M_run bp sp) (User [], s) =
     (if uth_current s = NULL then (case uth_run bp sp s of (RunSchedule, s') \<Rightarrow> Some (SchedEntry, s') | _ \<Rightarrow> None) else None)"
| "do_move M_sched (SchedEntry, s) = Some (SchedTop, scheduler_entry s)"
| "do_move M_sched (SchedBack, s) = Some (SchedTop, scheduler_swapped s)"
| "do_move M_sched (SchedTop, s) =
     (case scheduler_round s of
        Ok (SchedRun k, s') \<Rightarrow> Some (User k, s')
      | Ok (SchedContinue, s') \<Rightarrow> Some (SchedTop, s')
      | Ok (SchedBreak, s1) \<Rightarrow> (case uth_run_linked 0 0 s1 of (RunReturn, s') \<Rightarrow> Some (User [], s') | _ \<Rightarrow> None)
      | _ \<Rightarrow> None)"
| "do_move M_tick (l, s) =
     (if tick_pending s then
        (case uth_preempt_handler (ucontext0\<lparr>uc_sigmask := sigmask s, uc_frames := frames_at l\<rparr>) s of
           Ok (d, s') \<Rightarrow> Some (if d = Switched then SchedBack else l, s')
         | _ \<Rightarrow> None)
      else None)"
| "do_move _ _ = None"

fun do_moves :: "move list \<Rightarrow> config \<Rightarrow> config option" where
  "do_moves [] c = Some c"
| "do_moves (m # ms) c = (case do_move m c of None \<Rightarrow> None | Some c' \<Rightarrow> do_moves ms c')"

lemma tick_move: "do_move M_tick (l, s) = Some c' \<Longrightarrow> step (l, s) c'"
  using do_tick [of s "ucontext0\<lparr>uc_sigmask := sigmask s, uc_frames := frames_at l\<rparr>" l] by (auto split: if_splits res.splits)

lemma do_move_step: "do_move m c = Some c' \<Longrightarrow> step c c'"
proof (induction m c rule: do_move.induct)
  case (7 l s)
  then show ?case by (rule tick_move)
qed (auto intro: step.intros split: if_splits res.splits run_ctl.splits sched_ctl.splits prod.splits)

lemma do_moves_reachable: "\<lbrakk>do_moves ms c = Some c'; reachable c\<rbrakk> \<Longrightarrow> reachable c'"
proof (induction ms arbitrary: c)
  case (Cons m ms)
  then obtain d where "do_move m c = Some d" "do_moves ms d = Some c'" by (auto split: option.splits)
  with Cons next_step [OF Cons.prems(2) do_move_step] show ?case by blast
qed simp

text \<open>
  Evaluation: the fixed-point equations of the loops are their code equations, and an updated map is
  only unfolded when it is applied.
\<close>

declare fun_upd_apply [code] find_end.simps [code] wake_all_loop.simps [code] spin_lock_loop.simps [code] ticket_walk.simps [code]

lemma setitimer_ok_code [code]: "setitimer_ok usec \<longleftrightarrow> usec \<le> 999999"
  by (simp add: setitimer_ok_def word_le_nat_alt)

definition at_end :: "move list \<Rightarrow> (loc \<Rightarrow> sys \<Rightarrow> bool) \<Rightarrow> bool" where
  "at_end ms P = (case do_moves ms (User [], sys0) of None \<Rightarrow> False | Some (l, s) \<Rightarrow> P l s)"

lemma at_endE:
  assumes "at_end ms P"
  obtains l s where "reachable (l, s)" "P l s"
proof -
  from assms obtain l s where "do_moves ms (User [], sys0) = Some (l, s)" "P l s"
    by (auto simp: at_end_def split: option.splits)
  with do_moves_reachable start_sys0 that show ?thesis by blast
qed

section \<open>Schedules\<close>

definition env_at :: "ptr \<Rightarrow> ptr \<Rightarrow> os_env" where
  "env_at stack tcb = \<lparr>env_mmap = Some stack, env_realloc = True, env_calloc = tcb\<rparr>"

text \<open>The main program creates three threads and starts the scheduler; the first thread enters its function.\<close>

definition three_threads :: "move list" where
  "three_threads = [M_call (A_create 0x77 1 0 (env_at 0xA000 0x100)), M_resume, M_call (A_create 0x77 2 0 (env_at 0xB000 0x200)), M_resume,
     M_call (A_create 0x77 3 0 (env_at 0xC000 0x300)), M_resume, M_run 0x10 0x20, M_sched, M_sched, M_resume]"

text \<open>The thread that runs makes a call that gives the processor away, and the next thread continues.\<close>

definition turn :: "api \<Rightarrow> move list" where
  "turn a = [M_call a, M_sched, M_sched, M_resume]"

text \<open>The first thread takes the mutex and yields, the two others block on it, and the first one has returned from \<open>uth_yield\<close>.\<close>

definition contended :: "move list" where
  "contended = M_call (A_mutex_init 0x600) # three_threads @ [M_call (A_mutex_lock 0x600)] @ turn A_yield @
     turn (A_mutex_lock 0x600) @ turn (A_mutex_lock 0x600)"

text \<open>Two threads block on an empty semaphore.\<close>

definition starved :: "move list" where
  "starved = M_call (A_sem_init 0x700 0) # three_threads @ turn (A_sem_wait 0x700) @ turn (A_sem_wait 0x700)"

text \<open>
  The first thread is interrupted twice in the last statement of \<open>uth_create\<close>; in between, the thread it
  created exits and another thread joins it.
\<close>

definition create_race :: "move list" where
  "create_race = [M_call (A_create 0x77 1 0 (env_at 0xA000 0x100)), M_resume, M_call (A_create 0x77 2 0 (env_at 0xB000 0x200)), M_resume,
     M_run 0x10 0x20, M_sched, M_sched, M_resume,
     M_call (A_preempt_enable 10 \<lparr>env_malloc = 0xD000, env_sigaltstack = True, env_sigaction = True\<rparr>), M_resume,
     M_call (A_create 0x77 3 0 (env_at 0xC000 0x300)), M_tick, M_sched, M_sched, M_resume] @
     turn (A_join 3 False) @ [M_call (A_exit 0), M_sched, M_sched, M_tick, M_sched, M_sched, M_resume, M_call A_yield, M_sched, M_sched]"

text \<open>The first thread starts the timer and is inside the loop of \<open>uth_active_count\<close>; then the two others yield once each.\<close>

definition scanning :: "move list" where
  "scanning = three_threads @ [M_call (A_preempt_enable 10 \<lparr>env_malloc = 0xD000, env_sigaltstack = True, env_sigaction = True\<rparr>), M_resume,
     M_call A_active_count, M_resume]"

definition others_yield :: "move list" where
  "others_yield = [M_sched, M_sched, M_resume] @ turn A_yield @ [M_call A_yield, M_sched]"

text \<open>
  The first thread is interrupted in \<open>uth_active_count\<close> when it has read the second entry of the table; the second thread exits, the third one joins
  it, and the first one continues.
\<close>

definition count_race :: "move list" where
  "count_race = scanning @ [M_resume, M_resume, M_tick, M_sched, M_sched, M_resume] @ turn (A_exit 0) @
     [M_call (A_join 2 False), M_call A_yield, M_sched, M_sched]"

text \<open>The first and the second thread join the third one, which then exits; the second thread collects it and exits as well.\<close>

definition join_twice :: "move list" where
  "join_twice = three_threads @ turn (A_join 3 False) @ turn (A_join 3 False) @ turn (A_exit 7) @ [M_call (A_exit 0), M_sched]"

end
