(* ===== verification/Uth_Resume.thy ===== *)
theory Uth_Resume
  imports Uth_Refine Uth_Exec
begin

text \<open>
  What a thread finds when it continues. Between two stretches of a thread, any number of steps of the scheduler and of the other threads happen; its saved
  context, the mask it will run with and, once it has ended, its return value do not change meanwhile.
\<close>

section \<open>Steps that do not pick a thread\<close>

text \<open>\<open>on_cpu x c\<close>: control is in the thread \<open>x\<close>; outside of every thread for \<open>NULL\<close>.\<close>

fun on_cpu :: "ptr \<Rightarrow> config \<Rightarrow> bool" where
  "on_cpu x (User k, s) = (uth_current s = x)"
| "on_cpu x _ = False"

lemma lib_post_on_cpu:
  assumes "lib_post s b d s'" and "on_cpu x (transfer d k, s')"
  shows "uth_current s = x"
  using assms by (cases d) (auto simp: lib_post_def stays_def)

lemma step_settled:
  assumes "step c c'" and I: "cfg_inv c"
  obtains (quiet) "settled (snd c) (snd c')" "\<And>x. on_cpu x c' \<Longrightarrow> on_cpu x c \<or> x = NULL"
    | (pick) s k s' where "c = (SchedTop, s)" "c' = (User k, s')" "scheduler_round s = Ok (SchedRun k, s')"
  using assms(1)
proof (cases rule: step.cases)
  case (do_call a s d s')
  with I obtain rq wq where inv: "lib_inv s rq wq" and u: "user_inv [] s" by (auto elim: lib_okE)
  have P: "lib_post s (sigmask s) d s'" by (rule api_call_post [OF inv user_inv_caller [OF u] do_call(3,4)])
  show ?thesis by (rule quiet) (use P do_call(1,2) lib_post_on_cpu [OF P] in \<open>auto simp: lib_post_def\<close>)
next
  case (do_resume f k s d s')
  with I obtain rq wq where inv: "lib_inv s rq wq" and u: "user_inv (f # k) s" by (auto elim: lib_okE)
  have P: "lib_post s (frame_mask (sigmask s) f) d s'" using resume_frame_post [OF inv u do_resume(3)] by blast
  show ?thesis by (rule quiet) (use P do_resume(1,2) lib_post_on_cpu [OF P] in \<open>auto simp: lib_post_def\<close>)
next
  case (do_run s bp sp s')
  then show ?thesis by (intro quiet) (auto simp: uth_run_def uth_run_body_def intro: settled_heap)
next
  case (do_entry s)
  then show ?thesis by (intro quiet) (auto simp: scheduler_entry_def intro: settled_heap)
next
  case (do_pick s k s')
  then show ?thesis by (rule pick)
next
  case (do_idle s s')
  with I have "s' = s" using pick_inv(2) by blast
  with do_idle show ?thesis by (intro quiet) (auto intro: settled_heap)
next
  case (do_finish s s1 bp sp s')
  with I have "s1 = s" using pick_inv(3) by blast
  with do_finish I show ?thesis by (intro quiet) (auto simp: uth_run_linked_def uth_run_body_def intro: settled_heap split: if_splits)
next
  case (do_back s)
  then show ?thesis by (intro quiet) (auto simp: scheduler_swapped_def intro: settled_heap)
next
  case (do_tick s ucp l d s')
  show ?thesis
  proof (cases "uth_current s = NULL")
    case True
    with handler_idle [OF True] do_tick show ?thesis by (intro quiet) (auto intro: settled_heap)
  next
    case False
    obtain k where l: "l = User k" using I do_tick(1,3) False by (cases l) (simp_all add: tick_pending_def)
    with I do_tick(1) obtain rq wq where inv: "lib_inv s rq wq" and u: "user_inv k s" by (auto elim: lib_okE)
    obtain t where r: "runs s (uth_current s) t" using caller_runs [OF user_inv_caller [OF u] False] by blast
    have "ctx_ok (erase s) True (uth_current s) (uc_sigmask ucp) (uc_frames ucp)" using u False do_tick(4,5) l by (simp add: user_inv_def)
    from handler_preempts [OF inv r this] do_tick(6) have "d = Switched" "erase s' = preempted ucp (uth_current s) (erase s)" by auto
    with preempted_settled [OF r] do_tick(1,2) show ?thesis by (intro quiet) auto
  qed
qed

lemma pick_effect:
  assumes I: "cfg_inv (SchedTop, s)" and res: "scheduler_round s = Ok (SchedRun k, s')"
  obtains x t where "heap s x = Some t" "tcb_state t = UTH_STATE_READY" "k = uc_frames (tcb_ctx t)" "sigmask s' = uc_sigmask (tcb_ctx t)"
    "uth_current s' = x" "x \<noteq> NULL" "erase s' = resumed x t (erase s)" "next_tid s' = next_tid s"
proof -
  from I obtain rq wq where inv: "lib_inv s rq wq" and nr: "no_running s" by (auto elim: lib_okE)
  show ?thesis
  proof (cases rule: scheduler_round_cases [OF inv nr])
    case (3 x rq' t s1 t')
    with res have k: "k = uc_frames (tcb_ctx t)" "s1 = s'" by simp_all
    have "sigmask s' = uc_sigmask (tcb_ctx t)" "uth_current s' = x" "next_tid s' = next_tid s" using erase_fields [OF 3(7)] k by (simp_all add: resumed_def)
    with 3(2,3,7) k runs_not_NULL [OF 3(5,6)] that show ?thesis by blast
  qed (use res in simp_all)
qed

lemma pick_other:
  assumes "erase s' = resumed x t (erase s)" and "heap s y = Some u" and "y \<noteq> x"
  obtains v where "heap s' y = Some v" "v\<lparr>tcb_next := NULL\<rparr> = u\<lparr>tcb_next := NULL\<rparr>"
proof -
  have "heap (erase s') y = heap (erase s) y" using assms(1,3) by (simp add: resumed_def heap_upd_tcb)
  from same_thread [OF assms(2) this] that show ?thesis by blast
qed

section \<open>Suspended threads\<close>

definition suspended :: "ptr \<Rightarrow> ucontext_t \<Rightarrow> sys \<Rightarrow> bool" where
  "suspended x ctx s \<longleftrightarrow> (\<exists>t. heap s x = Some t \<and> (tcb_state t = UTH_STATE_READY \<or> tcb_state t = UTH_STATE_BLOCKED) \<and> tcb_ctx t = ctx)"

lemma settled_suspended: "\<lbrakk>settled s s'; suspended x ctx s\<rbrakk> \<Longrightarrow> suspended x ctx s'"
  unfolding suspended_def by (metis settledE)

text \<open>A suspended thread keeps its context until the scheduler picks it, and then it continues with the frames and the mask of this context.\<close>

lemma suspended_step:
  assumes st: "step c c'" and I: "cfg_inv c" and x: "suspended x ctx (snd c)" "\<not> on_cpu x c" "x \<noteq> NULL"
  obtains (still) "\<not> on_cpu x c'" "suspended x ctx (snd c')"
    | (continues) s' where "c' = (User (uc_frames ctx), s')" "uth_current s' = x" "sigmask s' = uc_sigmask ctx"
proof (cases rule: step_settled [OF st I])
  case 1
  with settled_suspended [OF 1(1) x(1)] x(2,3) still show ?thesis by blast
next
  case (2 s k s')
  obtain y t where y: "heap s y = Some t" "tcb_state t = UTH_STATE_READY" "k = uc_frames (tcb_ctx t)" "sigmask s' = uc_sigmask (tcb_ctx t)"
      "uth_current s' = y" "erase s' = resumed y t (erase s)"
    by (rule pick_effect [OF _ 2(3)]) (use I 2(1) in blast)+
  from x(1) 2(1) obtain u where u: "heap s x = Some u" "tcb_state u = UTH_STATE_READY \<or> tcb_state u = UTH_STATE_BLOCKED" "tcb_ctx u = ctx"
    by (auto simp: suspended_def)
  show ?thesis
  proof (cases "x = y")
    case True
    with y u 2(2) continues show ?thesis by auto
  next
    case False
    obtain v where v: "heap s' x = Some v" "v\<lparr>tcb_next := NULL\<rparr> = u\<lparr>tcb_next := NULL\<rparr>" by (rule pick_other [OF y(6) u(1) False])
    from arg_cong [OF v(2), of tcb_state] arg_cong [OF v(2), of tcb_ctx] u v(1) have "suspended x ctx s'" by (auto simp: suspended_def)
    with False y(5) 2(2) still show ?thesis by auto
  qed
qed

text \<open>Runs in which a thread does not get the processor.\<close>

definition steps_off :: "ptr \<Rightarrow> config \<Rightarrow> config \<Rightarrow> bool" where
  "steps_off x = (\<lambda>c c'. step c c' \<and> \<not> on_cpu x c')\<^sup>*\<^sup>*"

lemma suspended_run:
  assumes "steps_off x c c'" and I: "cfg_inv c" and x: "suspended x ctx (snd c)" "\<not> on_cpu x c" "x \<noteq> NULL"
  shows "cfg_inv c' \<and> suspended x ctx (snd c') \<and> \<not> on_cpu x c'"
  using assms(1) unfolding steps_off_def
proof (induction rule: rtranclp_induct)
  case (step d d')
  then have d: "cfg_inv d" "suspended x ctx (snd d)" "\<not> on_cpu x d" and st: "step d d'" "\<not> on_cpu x d'" by simp_all
  have "suspended x ctx (snd d')" by (rule suspended_step [OF st(1) d x(3)]) (use st(2) in auto)
  with cfg_inv_step [OF st(1) d(1)] st(2) show ?case by simp
qed (use I x in simp)

lemma tick_suspends:
  assumes I: "cfg_inv (User k, s)" and ucp: "uc_sigmask ucp = sigmask s" "uc_frames ucp = k"
    and res: "uth_preempt_handler ucp s = Ok (d, s')" and nz: "uth_current s \<noteq> NULL"
  obtains rq wq where "d = Switched" "lib_inv s rq wq" "lib_inv s' (rq @ [uth_current s]) wq" "uth_current s' = NULL"
    "suspended (uth_current s) (ucp\<lparr>uc_fpregs := uth_current s\<rparr>) s'" "erase s' = preempted ucp (uth_current s) (erase s)"
proof -
  from I obtain rq wq where inv: "lib_inv s rq wq" and u: "user_inv k s" by (auto elim: lib_okE)
  obtain t where r: "runs s (uth_current s) t" using caller_runs [OF user_inv_caller [OF u] nz] by blast
  have "ctx_ok (erase s) True (uth_current s) (uc_sigmask ucp) (uc_frames ucp)" using u nz ucp by (simp add: user_inv_def)
  from handler_preempts [OF inv r this] res have p: "d = Switched" "lib_inv s' (rq @ [uth_current s]) wq" "uth_current s' = NULL"
      "erase s' = preempted ucp (uth_current s) (erase s)" by auto
  have "heap (erase s') (uth_current s) = Some (t\<lparr>tcb_next := NULL, tcb_state := UTH_STATE_READY, tcb_ctx := ucp\<lparr>uc_fpregs := uth_current s\<rparr>\<rparr>)"
    by (simp add: p(4) preempted_def heap_upd_tcb runs_erase(1) [OF r])
  then obtain t' where t': "heap s' (uth_current s) = Some t'"
      "t\<lparr>tcb_next := NULL, tcb_state := UTH_STATE_READY, tcb_ctx := ucp\<lparr>uc_fpregs := uth_current s\<rparr>\<rparr> = t'\<lparr>tcb_next := NULL\<rparr>"
    unfolding heap_erase_iff by blast
  from arg_cong [OF t'(2), of tcb_state] arg_cong [OF t'(2), of tcb_ctx] t'(1)
  have "suspended (uth_current s) (ucp\<lparr>uc_fpregs := uth_current s\<rparr>) s'" by (simp add: suspended_def)
  with that inv p show ?thesis by blast
qed

section \<open>The mask after a call\<close>

text \<open>
  \<open>masks_to x b c\<close>: when the frames of the thread \<open>x\<close> have all returned, wherever they are kept now, its mask is \<open>b\<close>.
\<close>

definition masks_to :: "ptr \<Rightarrow> sigset \<Rightarrow> config \<Rightarrow> bool" where
  "masks_to x b c \<longleftrightarrow> (if on_cpu x c then unwind (sigmask (snd c)) (frames_at (fst c)) = b
     else x \<noteq> NULL \<and> (\<exists>ctx. suspended x ctx (snd c) \<and> unwind (uc_sigmask ctx) (uc_frames ctx) = b))"

lemma parked_suspended:
  assumes "parked k s s'" and "no_running s'"
  shows "\<exists>ctx. suspended (uth_current s) ctx s' \<and> uc_frames ctx = k"
proof -
  from assms(1) obtain t where t: "heap s' (uth_current s) = Some t" "tcb_state t \<noteq> UTH_STATE_ZOMBIE" "uc_frames (tcb_ctx t) = k" by (auto simp: parked_def)
  with assms(2) have "tcb_state t = UTH_STATE_READY \<or> tcb_state t = UTH_STATE_BLOCKED" by (cases "tcb_state t") (auto simp: no_running_def)
  with t show ?thesis by (auto simp: suspended_def)
qed

lemma masks_to_parked:
  assumes "parked k s s'" and P: "lib_post s m Switched s'" and "\<forall>m. unwind m k = b"
  shows "masks_to (uth_current s) b (SchedBack, s')"
proof -
  have "no_running s'" "uth_current s \<noteq> NULL" using P by (simp_all add: lib_post_def)
  with parked_suspended [OF assms(1)] assms(3) show ?thesis by (auto simp: masks_to_def)
qed

lemma masks_to_call:
  assumes I: "cfg_inv (User [], s)" and e: "env_ok a s" and res: "api_call a s = Ok (d, s')" and ne: "\<And>v. a \<noteq> A_exit v"
  shows "masks_to (uth_current s) (sigmask s) (transfer d [], s')"
proof -
  from I obtain rq wq where inv: "lib_inv s rq wq" and u: "user_inv [] s" by (auto elim: lib_okE)
  note c = user_inv_caller [OF u]
  have P: "lib_post s (sigmask s) d s'" by (rule api_call_post [OF inv c e res])
  show ?thesis
  proof (cases rule: call_ctl [OF inv c e res])
    case 1
    from call_parks [OF inv c e res [unfolded 1] ne, of undefined undefined "undefined :: nat"] obtain k
      where "parked k s s'" "\<forall>b. unwind b k = sigmask s" by blast
    from masks_to_parked [OF this(1) P [unfolded 1] this(2)] 1 show ?thesis by simp
  qed (use P in \<open>auto simp: lib_post_def stays_def masks_to_def\<close>)
qed

lemma masks_to_resume:
  assumes I: "cfg_inv (User (f # k), s)" and res: "resume_frame f k s = Ok (d, s')" and b: "unwind (sigmask s) (f # k) = b"
  shows "masks_to (uth_current s) b (transfer d k, s')"
proof -
  from I obtain rq wq where inv: "lib_inv s rq wq" and u: "user_inv (f # k) s" by (auto elim: lib_okE)
  have P: "lib_post s (frame_mask (sigmask s) f) d s'" using resume_frame_post [OF inv u res] by blast
  show ?thesis
  proof (cases rule: resume_ctl [OF inv u res])
    case 1
    from resume_parks [OF inv u res [unfolded 1], of undefined undefined "undefined :: nat pos"] b obtain k'
      where "parked k' s s'" "\<forall>m. unwind m k' = b" by auto
    from masks_to_parked [OF this(1) P [unfolded 1] this(2)] 1 show ?thesis by simp
  next
    case (3 hi lo fn arg)
    have "k = []" "s' = s" using 3 res u by (auto simp: thread_trampoline_def ok_iff user_inv_def ctx_ok_def split: if_splits)
    with 3 b show ?thesis by (simp add: masks_to_def)
  qed (use P b in \<open>auto simp: lib_post_def stays_def masks_to_def\<close>)
qed

lemma masks_to_step:
  assumes st: "step c c'" and I: "cfg_inv c" and m: "masks_to x b c" and nr: "\<not> (fst c = User [] \<and> on_cpu x c)"
  shows "masks_to x b c'"
proof (cases "on_cpu x c")
  case False
  with m obtain ctx where ctx: "suspended x ctx (snd c)" "unwind (uc_sigmask ctx) (uc_frames ctx) = b" "x \<noteq> NULL" by (auto simp: masks_to_def)
  show ?thesis by (rule suspended_step [OF st I ctx(1) False ctx(3)]) (use ctx in \<open>auto simp: masks_to_def\<close>)
next
  case True
  then obtain f k s where c: "c = (User (f # k), s)" "uth_current s = x" using nr by (cases "(x, c)" rule: on_cpu.cases) (auto simp: neq_Nil_conv)
  have b: "unwind (sigmask s) (f # k) = b" using m True c by (simp add: masks_to_def)
  from st show ?thesis
  proof (cases rule: step.cases)
    case (do_resume f' k' s1 d s')
    with c masks_to_resume [of f k s d s' b] I b show ?thesis by auto
  next
    case (do_tick s1 ucp l d s')
    show ?thesis
    proof (cases "x = NULL")
      case True
      with do_tick c handler_idle [of s] m show ?thesis by auto
    next
      case False
      have "d = Switched" "suspended x (ucp\<lparr>uc_fpregs := x\<rparr>) s'"
        by (rule tick_suspends [of "f # k" s ucp d s']; use I c do_tick False in simp)+
      with do_tick c b False show ?thesis by (auto simp: masks_to_def)
    qed
  qed (use c in auto)
qed

text \<open>The run of a call: it ends when the caller is back in its own code.\<close>

definition in_call :: "ptr \<Rightarrow> config \<Rightarrow> bool" where
  "in_call x c \<longleftrightarrow> \<not> (fst c = User [] \<and> on_cpu x c)"

definition steps_in_call :: "ptr \<Rightarrow> config \<Rightarrow> config \<Rightarrow> bool" where
  "steps_in_call x = (\<lambda>c c'. step c c' \<and> in_call x c)\<^sup>*\<^sup>*"

lemma masks_to_run: "\<lbrakk>steps_in_call x c c'; cfg_inv c; masks_to x b c\<rbrakk> \<Longrightarrow> cfg_inv c' \<and> masks_to x b c'"
  unfolding steps_in_call_def
proof (induction rule: rtranclp_induct)
  case (step d d')
  then show ?case using cfg_inv_step [of d d'] masks_to_step [of d d' x b] by (auto simp: in_call_def)
qed simp

text \<open>The moves of a schedule, with a condition on every step.\<close>

fun do_moves_if :: "(config \<Rightarrow> config \<Rightarrow> bool) \<Rightarrow> move list \<Rightarrow> config \<Rightarrow> config option" where
  "do_moves_if R [] c = Some c"
| "do_moves_if R (m # ms) c = (case do_move m c of None \<Rightarrow> None | Some c' \<Rightarrow> if R c c' then do_moves_if R ms c' else None)"

lemma do_moves_if_steps: "do_moves_if R ms c = Some c' \<Longrightarrow> (\<lambda>c c'. step c c' \<and> R c c')\<^sup>*\<^sup>* c c'"
proof (induction ms arbitrary: c)
  case (Cons m ms)
  then obtain d where "do_move m c = Some d" "R c d" "do_moves_if R ms d = Some c'" by (auto split: option.splits if_splits)
  with Cons.IH do_move_step show ?case by (blast intro: converse_rtranclp_into_rtranclp)
qed simp

definition run_if :: "(config \<Rightarrow> config \<Rightarrow> bool) \<Rightarrow> move list \<Rightarrow> config \<Rightarrow> (config \<Rightarrow> bool) \<Rightarrow> bool" where
  "run_if R ms c Q = (case do_moves_if R ms c of None \<Rightarrow> False | Some c' \<Rightarrow> Q c')"

lemma run_ifE:
  assumes "run_if R ms c Q"
  obtains c' where "(\<lambda>c c'. step c c' \<and> R c c')\<^sup>*\<^sup>* c c'" "Q c'"
  using assms do_moves_if_steps [of R ms c] by (auto simp: run_if_def split: option.splits)

definition move_to :: "move \<Rightarrow> config \<Rightarrow> (config \<Rightarrow> bool) \<Rightarrow> bool" where
  "move_to m c Q = (case do_move m c of None \<Rightarrow> False | Some c' \<Rightarrow> Q c')"

lemma move_toE:
  assumes "move_to m c Q"
  obtains c' where "step c c'" "Q c'"
  using assms do_move_step [of m c] by (auto simp: move_to_def split: option.splits)

section \<open>Ended threads\<close>

text \<open>
  \<open>outcome tid x v s\<close>: the thread with the id \<open>tid\<close> has ended. If it is still there, it is the zombie at \<open>x\<close> with the return value \<open>v\<close>.
\<close>

definition outcome :: "u32 \<Rightarrow> ptr \<Rightarrow> val \<Rightarrow> sys \<Rightarrow> bool" where
  "outcome tid x v s \<longleftrightarrow> tid < next_tid s \<and>
     (\<forall>y u. heap s y = Some u \<longrightarrow> tcb_tid u = tid \<longrightarrow> y = x \<and> tcb_state u = UTH_STATE_ZOMBIE \<and> tcb_retval u = v)"

lemma outcome_step:
  assumes st: "step c c'" and I: "cfg_inv c" and o: "outcome tid x v (snd c)"
  shows "outcome tid x v (snd c')"
proof (cases rule: step_settled [OF st I])
  case 1
  show ?thesis unfolding outcome_def
  proof (intro conjI allI impI)
    show "tid < next_tid (snd c')" using o settledD(1) [OF 1(1)] by (auto simp: outcome_def)
    fix y u' assume u': "heap (snd c') y = Some u'" "tcb_tid u' = tid"
    then obtain u where u: "heap (snd c) y = Some u" "kept u u'" using settledD(2) [OF 1(1) u'(1)] o by (auto simp: outcome_def)
    with o u' show "y = x" "tcb_state u' = UTH_STATE_ZOMBIE" "tcb_retval u' = v" by (auto simp: outcome_def kept_def)
  qed
next
  case (2 s k s')
  obtain z t where z: "heap s z = Some t" "tcb_state t = UTH_STATE_READY" "erase s' = resumed z t (erase s)" "next_tid s' = next_tid s"
    by (rule pick_effect [OF _ 2(3)]) (use I 2(1) in blast)+
  have o': "tid < next_tid s" "\<And>y u. \<lbrakk>heap s y = Some u; tcb_tid u = tid\<rbrakk> \<Longrightarrow> y = x \<and> tcb_state u = UTH_STATE_ZOMBIE \<and> tcb_retval u = v"
    using o 2(1) by (auto simp: outcome_def)
  have "y = x \<and> tcb_state u' = UTH_STATE_ZOMBIE \<and> tcb_retval u' = v" if u': "heap s' y = Some u'" "tcb_tid u' = tid" for y u'
  proof -
    have e: "heap (resumed z t (erase s)) y = Some (u'\<lparr>tcb_next := NULL\<rparr>)" using heap_erase [OF u'(1)] z(3) by simp
    show ?thesis
    proof (cases "y = z")
      case True
      then have "u'\<lparr>tcb_next := NULL\<rparr> = t\<lparr>tcb_next := NULL, tcb_state := UTH_STATE_RUNNING\<rparr>"
        using e heap_erase [OF z(1)] by (simp add: resumed_def heap_upd_tcb)
      from arg_cong [OF this, of tcb_tid] u'(2) o'(2) [OF z(1)] z(2) show ?thesis by simp
    next
      case False
      then have "heap (erase s) y = Some (u'\<lparr>tcb_next := NULL\<rparr>)" using e by (simp add: resumed_def heap_upd_tcb)
      then obtain u where u: "heap s y = Some u" "u'\<lparr>tcb_next := NULL\<rparr> = u\<lparr>tcb_next := NULL\<rparr>" unfolding heap_erase_iff by blast
      from arg_cong [OF u(2), of tcb_tid] arg_cong [OF u(2), of tcb_state] arg_cong [OF u(2), of tcb_retval] u'(2) o'(2) [OF u(1)] show ?thesis by simp
    qed
  qed
  with o'(1) z(4) 2(2) show ?thesis by (simp add: outcome_def)
qed

lemma outcome_steps: "\<lbrakk>step\<^sup>*\<^sup>* c c'; cfg_inv c; outcome tid x v (snd c)\<rbrakk> \<Longrightarrow> cfg_inv c' \<and> outcome tid x v (snd c')"
  by (induction rule: rtranclp_induct) (auto intro: cfg_inv_step outcome_step)

section \<open>The count of active threads\<close>

text \<open>The rest of a call of \<open>uth_active_count\<close> when no signal arrives.\<close>

partial_function (option) run_open :: "frame \<Rightarrow> sys \<Rightarrow> (ctl \<times> sys) res option" where
  "run_open f s = (case resume_frame f [] s of Ok (Remains g, s') \<Rightarrow> run_open g s' | r \<Rightarrow> Some r)"

declare run_open.simps [code]

lemma run_open_count:
  assumes "i < unat (tcb_count s)" and "i < length (tcb_table s)"
  shows "run_open (F_count i n) s = (if tcb_table s ! i = NULL then run_open (F_count (Suc i) n) s else run_open (F_count_at i n (tcb_table s ! i)) s)"
  using assms by (subst run_open.simps) (simp add: active_count_loop_def table_get_def)

lemma run_open_at:
  assumes "heap s x = Some t" and "x \<noteq> NULL"
  shows "run_open (F_count_at i n x) s = (if tcb_state t = UTH_STATE_ZOMBIE then run_open (F_count (Suc i) n) s
     else if n = INT_MAX then Some (Fault SignedOverflow) else run_open (F_count (Suc i) (n + 1)) s)"
  using assms by (subst run_open.simps) (simp add: active_count_at_def)

lemma run_open_counts:
  assumes ok: "table_ok s" and "n \<le> INT_MAX"
  shows "run_open (F_count i n) s =
     (let m = n + int (card {x. live_at s x \<and> (\<exists>t. heap s x = Some t \<and> i < unat (tcb_tid t))}) in
      Some (if m \<le> INT_MAX then Ok (Return (RetInt m), s) else Fault SignedOverflow))"
    (is "_ = (let m = n + int (card (?L i)) in _)")
  using assms(2)
proof (induction "unat (tcb_count s) - i" arbitrary: i n)
  case 0
  have "?L i = {}" using 0(1) tids_okD(3) [OF table_okD(6) [OF ok]] by fastforce
  then have c: "card (?L i) = 0" by (simp only: card.empty)
  from 0 show ?case unfolding c by (subst run_open.simps) (simp add: active_count_loop_def)
next
  case (Suc k)
  note D = table_okD [OF ok]
  have len: "i < length (tcb_table s)" "i < unat (tcb_count s)" using Suc(2) D(1,2) by simp_all
  have IH: "run_open (F_count (Suc i) m) s =
      (let j = m + int (card (?L (Suc i))) in Some (if j \<le> INT_MAX then Ok (Return (RetInt j), s) else Fault SignedOverflow))" if "m \<le> INT_MAX" for m
    using Suc(2) that by (intro Suc.hyps(1)) simp_all
  have card: "card (?L i) = card (?L (Suc i)) + (if tcb_table s ! i \<noteq> NULL \<and> live_at s (tcb_table s ! i) then 1 else 0)"
    using live_slot_step [OF ok len(2)] finite_live [OF ok] by simp
  show ?case
  proof (cases "tcb_table s ! i = NULL")
    case False
    then obtain t where t: "heap s (tcb_table s ! i) = Some t" using slots_okD [OF D(5) len(2)] by blast
    show ?thesis unfolding card run_open_count [OF len(2,1)] using False Suc(3) IH [of n] IH [of "n + 1"]
      by (auto simp: run_open_at [OF t False] live_at_def t Let_def)
  next
    case True
    then show ?thesis unfolding card run_open_count [OF len(2,1)] using Suc(3) IH [of n] by simp
  qed
qed

lemma run_open_active:
  assumes ok: "table_ok s"
  shows "run_open (F_count 0 0) s = (let n = int (card {x. \<exists>t. heap s x = Some t \<and> tcb_state t \<noteq> UTH_STATE_ZOMBIE}) in
     Some (if n \<le> INT_MAX then Ok (Return (RetInt n), s) else Fault SignedOverflow))"
proof -
  have "{x. live_at s x \<and> (\<exists>t. heap s x = Some t \<and> 0 < unat (tcb_tid t))} = {x. \<exists>t. heap s x = Some t \<and> tcb_state t \<noteq> UTH_STATE_ZOMBIE}"
    using tids_okD(5) [OF table_okD(6) [OF ok]] by (fastforce simp: live_at_def split: option.splits)
  with run_open_counts [OF ok, of 0 0] show ?thesis by (simp add: INT_MAX_def)
qed

end
