(* ===== verification/Uth_Props_Thread.thy ===== *)
theory Uth_Props_Thread
  imports Uth_Demo Uth_Resume
begin

text \<open>
  The properties of the queues, of the thread table and of the thread calls of \<open>thread.c\<close>, each with
  its instance on the demonstration state.
\<close>

section \<open>Queues\<close>

text \<open>
  C27. The run queue is a FIFO: \<open>queue_pop\<close> returns the threads in the order in which \<open>queue_push\<close>
  linked them behind those already there, and then \<open>NULL\<close>; no access faults.
\<close>

theorem run_queue_is_fifo:
  assumes "shape s xs wq" and "distinct (xs @ ys)"
    and "\<forall>y \<in> set ys. y \<noteq> NULL \<and> heap s y \<noteq> None \<and> (\<forall>q. y \<notin> set (wq q))"
  shows "\<exists>s1 s2. enq_all (queue_push RqHead RqTail) ys s = Ok s1 \<and>
     deq_n (queue_pop RqHead RqTail) (length xs + length ys) s1 = Ok (xs @ ys, s2) \<and>
     queue_pop RqHead RqTail s2 = Ok (NULL, s2)"
  using assms by (rule run_queue.fifo_order)

theorem run_queue_is_fifo_witness:
  "\<exists>s1 s2. enq_all (queue_push RqHead RqTail) [0x100, 0x700] demo = Ok s1 \<and>
     deq_n (queue_pop RqHead RqTail) (length [0x200 :: ptr] + length [0x100, 0x700 :: ptr]) s1 = Ok ([0x200] @ [0x100, 0x700], s2) \<and>
     queue_pop RqHead RqTail s2 = Ok (NULL, s2)"
  by (rule run_queue_is_fifo [OF demo_shape]) (auto simp: demo_wq_def)

text \<open>
  C28. Every wait queue is a FIFO: \<open>uth_wake_one\<close> wakes the threads in the order in which
  \<open>uth_block\<close> appended them, and returns \<open>NULL\<close> when none is left.
\<close>

theorem wait_queue_is_fifo:
  assumes "wait_repr q s xs" and "distinct (xs @ ys)" and "\<forall>y \<in> set ys. may_wait q y s"
  shows "\<exists>s1 s2. enq_all (wait_append q) ys s = Ok s1 \<and>
     deq_n (uth_wake_one q) (length xs + length ys) s1 = Ok (xs @ ys, s2) \<and> uth_wake_one q s2 = Ok (NULL, s2)"
  using assms by (rule wait_queue.fifo_order)

theorem wait_queue_is_fifo_witness:
  "\<exists>s1 s2. enq_all (wait_append (SemWaiters demo_sem)) [0x100] demo = Ok s1 \<and>
     deq_n (uth_wake_one (SemWaiters demo_sem)) (length [0x500 :: ptr] + length [0x100 :: ptr]) s1 = Ok ([0x500] @ [0x100], s2) \<and>
     uth_wake_one (SemWaiters demo_sem) s2 = Ok (NULL, s2)"
proof (rule wait_queue_is_fifo)
  show "wait_repr (SemWaiters demo_sem) demo [0x500]"
    unfolding wait_repr_def using demo_shape by (auto simp: mapped_waiters intro!: exI [of _ "[0x200]"] exI [of _ demo_wq])
  show "\<forall>y \<in> set [0x100]. may_wait (SemWaiters demo_sem) y demo"
    using may_wait_shape [OF demo_shape] by (auto simp: demo_wq_def)
qed simp

text \<open>
  \<open>uth_wake_one\<close> on a non-empty wait queue unlinks its first thread, makes it \<open>READY\<close> and links
  it at the tail of the run queue; every other queue and everything else in the state stay as they are.
\<close>

lemma wake_one_moves_head:
  assumes "shape s rq wq" and "wq q = x # xs"
  shows "\<exists>s'. uth_wake_one q s = Ok (x, s') \<and> shape s' (rq @ [x]) (wq(q := xs)) \<and>
     erase s' = upd_tcb x (\<lambda>t. t\<lparr>tcb_state := UTH_STATE_READY\<rparr>) (erase s)"
  using assms by (rule uth_wake_one_shape)

text \<open>
  C29. The loop of \<open>uth_wake_all\<close> ends for every wait queue: all its threads become \<open>READY\<close> and are
  linked at the tail of the run queue in the order in which they waited.
\<close>

theorem wake_all_empties_queue:
  assumes "shape s rq wq" and "is_wait q" and "mapped q s"
  shows "\<exists>s'. uth_wake_all q s = Ok s' \<and> shape s' (rq @ wq q) (wq(q := [])) \<and>
     erase s' = fold (\<lambda>x. upd_tcb x (\<lambda>t. t\<lparr>tcb_state := UTH_STATE_READY\<rparr>)) (wq q) (erase s)"
  using assms by (rule uth_wake_all_shape)

theorem wake_all_empties_queue_witness:
  "\<exists>s'. uth_wake_all (CondWaiters demo_cond) demo = Ok s' \<and>
     shape s' ([0x200] @ demo_wq (CondWaiters demo_cond)) (demo_wq(CondWaiters demo_cond := [])) \<and>
     erase s' = fold (\<lambda>x. upd_tcb x (\<lambda>t. t\<lparr>tcb_state := UTH_STATE_READY\<rparr>)) (demo_wq (CondWaiters demo_cond)) (erase demo)"
  by (rule wake_all_empties_queue [OF demo_shape]) (simp_all add: mapped_waiters)

section \<open>The thread table\<close>

text \<open>
  \<open>tcb_find\<close> returns the TCB with the given id if there is one, and \<open>NULL\<close> exactly when there is
  none; it never faults on a well-formed table.
\<close>

lemma tcb_find_correct:
  assumes ok: "table_ok s"
  shows "tcb_find tid s = Ok x \<longleftrightarrow>
     (if x = NULL then \<forall>y t. heap s y = Some t \<longrightarrow> tcb_tid t \<noteq> tid else \<exists>t. heap s x = Some t \<and> tcb_tid t = tid)"
proof (cases rule: tcb_find_cases [OF ok, of tid])
  case (1 y u)
  with tid_unique [OF ok] show ?thesis by (auto split: if_splits)
qed (auto split: if_splits)

text \<open>
  The number of allocated threads that are not zombies is at most \<open>2 ^ 31\<close>, the largest number of threads the table can hold.
\<close>

lemma active_threads_bound:
  assumes ok: "table_ok s"
  shows "int (card {x. \<exists>t. heap s x = Some t \<and> tcb_state t \<noteq> UTH_STATE_ZOMBIE}) \<le> 2 ^ 31"
proof -
  have eq: "{x. live_at s x} = {x. \<exists>t. heap s x = Some t \<and> tcb_state t \<noteq> UTH_STATE_ZOMBIE}"
    by (auto simp: live_at_def split: option.splits)
  have "{x. live_at s x} \<subseteq> set (tcb_table s)"
    using heap_in_table [OF ok] by (auto simp: live_at_def split: option.splits)
  then have "card {x. live_at s x} \<le> length (tcb_table s)" using card_mono card_length by (metis List.finite_set order_trans)
  also have "\<dots> \<le> 2 ^ 31" using table_okD(1,3) [OF ok] cap_ok_bound by simp
  finally have "int (card {x. live_at s x}) \<le> 2 ^ 31" by simp
  with eq show ?thesis by simp
qed

section \<open>Creation\<close>

text \<open>
  C31. When the system grants the memory, \<open>uth_create\<close> adds one \<open>READY\<close> thread at the tail of the run
  queue, under the id \<open>next_tid\<close>, which is not \<open>UTH_TID_INVALID\<close> and was not in use; \<open>tcb_find\<close> finds
  it, its id is returned, no other thread changes, and the signal mask of the caller is restored.
\<close>

theorem create_adds_thread:
  assumes inv: "lib_inv s rq wq" and env: "env_mmap env = Some stack" "env_realloc env" "env_calloc env = x"
    and x: "x \<noteq> NULL" "heap s x = None" and lt: "unat (tcb_count s) < 2 ^ 31"
  shows "\<exists>s'. uth_create fn arg ssize env s = Ok (Remains (F_create_ret x), s') \<and>
     uth_create_ret x s' = Ok (Return (RetTid (next_tid s)), s') \<and>
     next_tid s \<noteq> UTH_TID_INVALID \<and> (\<forall>y t. heap s y = Some t \<longrightarrow> tcb_tid t \<noteq> next_tid s) \<and>
     lib_inv s' (rq @ [x]) wq \<and> tcb_find (next_tid s) s' = Ok x \<and> sigmask s' = sigmask s \<and>
     (\<forall>y. y \<noteq> x \<longrightarrow> heap (erase s') y = heap (erase s) y)"
proof -
  note ok = lib_invD(3) [OF inv]
  let ?s = "s\<lparr>sigmask := True, stacks := (stacks s)(stack \<mapsto> if ssize = 0 then UTH_STACK_DEFAULT else ssize)\<rparr>"
  have "table_ok ?s = table_ok s" by (rule table_ok_cong) simp_all
  with ok tcb_alloc_total [of ?s env] env x lt obtain s1 where a: "tcb_alloc env ?s = Ok (x, s1)" by auto
  have "heap s (env_calloc env) = None" using x env by simp
  from uth_create_ok [OF inv env(1) this a, of fn arg] obtain s' where
    s': "uth_create fn arg ssize env s = Ok (Remains (F_create_ret x), s')" "lib_inv s' (rq @ [x]) wq" "sigmask s' = sigmask s"
      "heap (erase s') = (heap (erase s))(x \<mapsto> new_tcb fn arg stack (if ssize = 0 then UTH_STACK_DEFAULT else ssize) x (next_tid s))"
    by blast
  obtain t where t: "heap s' x = Some t" "tcb_tid t = next_tid s"
    using fun_cong [OF s'(4), of x] by (auto simp: erase_maps dest: arg_cong [where f = tcb_tid])
  have n: "unat (tcb_tid u) < unat (next_tid s)" if "heap s y = Some u" for y u
    using tids_okD(3) [OF table_okD(6) [OF ok] that] table_okD(4) [OF ok] by simp
  have "next_tid s \<noteq> UTH_TID_INVALID" using table_okD(4) [OF ok] by auto
  moreover have "tcb_find (next_tid s) s' = Ok x" using tcb_find_hit [OF lib_invD(3) [OF s'(2)] t] .
  moreover have "uth_create_ret x s' = Ok (Return (RetTid (next_tid s)), s')" using t x by (simp add: uth_create_ret_def)
  moreover have "\<forall>y t. heap s y = Some t \<longrightarrow> tcb_tid t \<noteq> next_tid s" using n by fastforce
  ultimately show ?thesis using s' by auto
qed

theorem create_adds_thread_witness:
  "\<exists>s'. uth_create 0x77 5 0 \<lparr>env_mmap = Some 0xA000, env_realloc = True, env_calloc = 0x900\<rparr> demo = Ok (Remains (F_create_ret 0x900), s') \<and>
     uth_create_ret 0x900 s' = Ok (Return (RetTid (next_tid demo)), s') \<and>
     next_tid demo \<noteq> UTH_TID_INVALID \<and> (\<forall>y t. heap demo y = Some t \<longrightarrow> tcb_tid t \<noteq> next_tid demo) \<and>
     lib_inv s' ([0x200] @ [0x900]) demo_wq \<and> tcb_find (next_tid demo) s' = Ok 0x900 \<and> sigmask s' = sigmask demo \<and>
     (\<forall>y. y \<noteq> 0x900 \<longrightarrow> heap (erase s') y = heap (erase demo) y)"
  by (rule create_adds_thread [OF demo_inv]) (simp_all add: demo_heap_def)

text \<open>
  C32. The pointer to the TCB survives its way through the two \<open>int\<close> arguments of \<open>makecontext\<close>: the
  first resumption of a thread made by \<open>uth_create\<close> calls \<open>fn(arg)\<close>, with \<open>SIGALRM\<close> unblocked.
\<close>

theorem new_thread_calls_function:
  assumes inv: "lib_inv s rq wq" and fresh: "heap s (env_calloc env) = None"
    and res: "uth_create fn arg ssize env s = Ok (Remains (F_create_ret x), s')"
  shows "\<exists>t hi lo. heap s' x = Some t \<and> uc_frames (tcb_ctx t) = [F_trampoline hi lo] \<and> uc_sigmask (tcb_ctx t) = False \<and>
     thread_trampoline hi lo s' = Ok (CallUser fn arg, s')"
proof -
  obtain stack where stk: "env_mmap env = Some stack"
    using res by (cases "env_mmap env") (auto simp: uth_create_def uth_preempt_off_def)
  let ?sz = "if ssize = 0 then UTH_STACK_DEFAULT else ssize"
  obtain y s1 where a: "tcb_alloc env (s\<lparr>sigmask := True, stacks := (stacks s)(stack \<mapsto> ?sz)\<rparr>) = Ok (y, s1)"
    using res stk by (auto simp: uth_create_def uth_preempt_off_def ok_iff Let_def)
  from uth_create_ok [OF inv stk fresh a, of fn arg] res have
    s': "lib_inv s' (rq @ [x]) wq" "heap (erase s') = (heap (erase s))(x \<mapsto> new_tcb fn arg stack ?sz x (next_tid s))"
    by auto
  obtain t where t: "heap s' x = Some t" "t\<lparr>tcb_next := NULL\<rparr> = new_tcb fn arg stack ?sz x (next_tid s)"
    using fun_cong [OF s'(2), of x] by (auto simp: erase_maps)
  have "tcb_fn t = fn" "tcb_arg t = arg" "tcb_ctx t = tcb_ctx (new_tcb fn arg stack ?sz x (next_tid s))"
    using arg_cong [OF t(2), of tcb_fn] arg_cong [OF t(2), of tcb_arg] arg_cong [OF t(2), of tcb_ctx] by simp_all
  with t(1) lib_heap_not_NULL [OF s'(1) t(1)] show ?thesis
    by (auto simp: thread_trampoline_def join_halves_split)
qed

theorem new_thread_calls_function_witness:
  "\<exists>t hi lo. heap demo_created 0x900 = Some t \<and> uc_frames (tcb_ctx t) = [F_trampoline hi lo] \<and> uc_sigmask (tcb_ctx t) = False \<and>
     thread_trampoline hi lo demo_created = Ok (CallUser 0x77 5, demo_created)"
  by (rule new_thread_calls_function [OF demo_inv demo_fresh demo_create])

text \<open>
  Failure of \<open>mmap\<close>: \<open>uth_create\<close> returns \<open>UTH_TID_INVALID\<close> and leaves the whole state,
  the signal mask included, as it was.
\<close>

lemma create_fails_cleanly:
  assumes "env_mmap env = None"
  shows "uth_create fn arg ssize env s = Ok (Return (RetTid UTH_TID_INVALID), s)"
  using assms by (simp add: uth_create_def uth_preempt_off_def uth_preempt_restore_def)

section \<open>Yield, exit and join\<close>

text \<open>
  \<open>uth_yield\<close> of the running thread puts it at the tail of the run queue as \<open>READY\<close>, saves the mask
  of the caller in its frame, and switches to the scheduler with \<open>SIGALRM\<close> as the scheduler had it;
  resumed, it restores exactly that mask and returns.
\<close>

lemma yield_requeues:
  assumes "lib_inv s rq wq" and "runs s x t" and "caller_ok (sigmask s) k"
  shows "\<exists>s' t'. uth_yield k s = Ok (Switched, s') \<and> lib_inv s' (rq @ [x]) wq \<and> no_running s' \<and>
     heap s' x = Some t' \<and> tcb_state t' = UTH_STATE_READY \<and> uc_frames (tcb_ctx t') = F_yield (sigmask s) # k \<and>
     uc_sigmask (tcb_ctx t') \<and> sigmask s' = uc_sigmask (uth_sched_ctx s) \<and>
     (\<forall>s2. uth_yield_resumed (sigmask s) s2 = Ok (Return RetVoid, s2\<lparr>sigmask := sigmask s\<rparr>))"
proof -
  from uth_yield_ok [OF assms] obtain s' where
    s': "uth_yield k s = Ok (Switched, s')" "lib_inv s' (rq @ [x]) wq" "no_running s'"
      "erase s' = switched UTH_STATE_READY x (F_yield (sigmask s) # k) ((erase s)\<lparr>sigmask := True\<rparr>)" by blast
  from switched_tcb [OF s'(4)] runs_erase(1) [OF assms(2)] obtain t' where
    "heap s' x = Some t'" "tcb_state t' = UTH_STATE_READY" "uc_frames (tcb_ctx t') = F_yield (sigmask s) # k" "uc_sigmask (tcb_ctx t')"
    by auto
  with s' switched_fields(1) [OF s'(4)] show ?thesis
    by (auto simp: uth_yield_resumed_def uth_preempt_restore_def)
qed

text \<open>A thread that has ended, and the thread that waited for it.\<close>

lemma exit_effect:
  assumes inv: "lib_inv s rq wq" and r: "runs s x t"
  obtains s1 u where "uth_exit v [] s = Ok (Switched, s1)" "lib_inv s1 (rq @ (if tcb_joiner t = NULL then [] else [tcb_joiner t])) wq"
    "heap s1 x = Some u" "tcb_tid u = tcb_tid t" "tcb_state u = UTH_STATE_ZOMBIE" "tcb_retval u = v"
    "tcb_joiner t \<noteq> NULL \<longrightarrow> (\<exists>u want old. heap s1 (tcb_joiner t) = Some u \<and> uc_frames (tcb_ctx u) = [F_join (tcb_tid t) want old])"
proof -
  let ?a = "(erase s)\<lparr>sigmask := True\<rparr>" and ?j = "tcb_joiner t"
  from uth_exit_ok [OF inv r refl, of v "[]"] obtain s' where
    s': "uth_exit v [] s = Ok (Switched, s')" "lib_inv s' (rq @ (if ?j = NULL then [] else [?j])) wq" "erase s' = exited v x ?j [F_exit] ?a"
    by (auto split: if_splits)
  from runs_erase(1) [OF r] have xa: "heap ?a x = Some (t\<lparr>tcb_next := NULL\<rparr>)" by simp
  have j: "\<exists>u want old. heap (erase s) ?j = Some u \<and> tcb_state u = UTH_STATE_BLOCKED \<and> uc_frames (tcb_ctx u) = [F_join (tcb_tid t) want old]" if "?j \<noteq> NULL"
    by (rule joinerE [OF lib_invD(2) [OF inv] runs_erase(1) [OF r]]) (use that in auto)
  have jx: "?j \<noteq> x" using j runs_erase(1,2) [OF r] runs_not_NULL [OF inv r] by (cases "?j = NULL") auto
  obtain t' where t': "heap s' x = Some t'" "tcb_state t' = UTH_STATE_ZOMBIE" "tcb_retval t' = v" "tcb_tid t' = tcb_tid t"
    by (rule switched_tcb [OF s'(3) [unfolded exited_def]]) (use xa jx in \<open>auto simp: heap_upd_tcb split: if_splits\<close>)
  have "\<exists>u want old. heap s' ?j = Some u \<and> uc_frames (tcb_ctx u) = [F_join (tcb_tid t) want old]" if nz: "?j \<noteq> NULL"
  proof -
    from j [OF nz] obtain u want old where u: "heap (erase s) ?j = Some u" "uc_frames (tcb_ctx u) = [F_join (tcb_tid t) want old]" by blast
    have "heap (erase s') ?j = Some (u\<lparr>tcb_state := UTH_STATE_READY\<rparr>)"
      unfolding s'(3) using u(1) jx nz by (simp add: exited_def switched_def heap_upd_tcb)
    then obtain u' where u': "heap s' ?j = Some u'" "u\<lparr>tcb_state := UTH_STATE_READY\<rparr> = u'\<lparr>tcb_next := NULL\<rparr>" unfolding heap_erase_iff by blast
    from arg_cong [OF u'(2), of tcb_ctx] u(2) u'(1) show ?thesis by auto
  qed
  with s' t' that show ?thesis by blast
qed

lemma outcome_joins:
  assumes inv: "lib_inv s rq wq" and o: "outcome tid x v s"
  shows "if \<exists>y u. heap s y = Some u \<and> tcb_tid u = tid
     then \<forall>want k old. \<exists>s3. uth_join tid want k s = Ok (Return (RetJoin 0 (if want then Some v else None)), s3) \<and> heap s3 = (heap s)(x := None) \<and>
       uth_join_resumed tid want old s = Ok (Return (RetJoin 0 (if want then Some v else None)), s3\<lparr>sigmask := old\<rparr>)
     else \<forall>want k old. uth_join tid want k s = Ok (Return (RetJoin (- 1) None), s) \<and>
       uth_join_resumed tid want old s = Ok (Return (RetJoin (- 1) None), s\<lparr>sigmask := old\<rparr>)"
proof -
  note ok = lib_invD(3) [OF inv]
  have z: "zombie_tid s tid" using o by (auto simp: outcome_def zombie_tid_def)
  show ?thesis
  proof (cases "\<exists>y u. heap s y = Some u \<and> tcb_tid u = tid")
    case True
    then obtain u where u: "heap s x = Some u" "tcb_tid u = tid" "tcb_state u = UTH_STATE_ZOMBIE" "tcb_retval u = v" using o by (auto simp: outcome_def)
    have "uth_join_resumed tid want old s = Ok (Return (RetJoin 0 (if want then Some v else None)), (remove_tcb x u s)\<lparr>sigmask := old\<rparr>)" for want old
      using tcb_find_hit [OF ok u(1,2)] uth_join_collect_ok [OF ok u(1)] u(4) lib_heap_not_NULL [OF inv u(1)] by (simp add: uth_join_resumed_def)
    with uth_join_zombie [OF ok u(1-3)] u(4) True show ?thesis by (auto simp: remove_tcb_def)
  next
    case False
    then have "uth_join_resumed tid want old s = Ok (Return (RetJoin (- 1) None), s\<lparr>sigmask := old\<rparr>)" for want old
      using tcb_find_miss [OF ok, of tid] by (auto simp: uth_join_resumed_def uth_preempt_restore_def)
    with False uth_join_miss [OF ok, of tid] show ?thesis by auto
  qed
qed

text \<open>
  C30. The value passed to \<open>uth_exit\<close> is delivered once. \<open>uth_exit\<close> turns the caller into a zombie, makes the thread that waits for it in \<open>uth_join\<close> ready, if there is
  one, inside its call, and switches to the scheduler. In every later state, whatever the scheduler and the other threads have done: as long as the zombie is there, a
  \<open>uth_join\<close> on its id, one that is called now as well as one that continues after it was woken, returns exactly this value and releases the zombie; once another join
  has released it, both return \<open>-1\<close>.
\<close>

theorem exit_reaches_joiner:
  assumes r: "reachable (User [], s)" and x: "runs s x t"
  shows "\<exists>s1 rq wq. uth_exit v [] s = Ok (Switched, s1) \<and> lib_inv s rq wq \<and> lib_inv s1 (rq @ (if tcb_joiner t = NULL then [] else [tcb_joiner t])) wq \<and>
     (tcb_joiner t \<noteq> NULL \<longrightarrow> (\<exists>u want old. heap s1 (tcb_joiner t) = Some u \<and> uc_frames (tcb_ctx u) = [F_join (tcb_tid t) want old])) \<and>
     (\<exists>u. heap s1 x = Some u \<and> tcb_tid u = tcb_tid t \<and> tcb_state u = UTH_STATE_ZOMBIE) \<and>
     (\<forall>l s2. step\<^sup>*\<^sup>* (SchedBack, s1) (l, s2) \<longrightarrow>
       (if \<exists>y u. heap s2 y = Some u \<and> tcb_tid u = tcb_tid t
        then \<forall>want k old. \<exists>s3. uth_join (tcb_tid t) want k s2 = Ok (Return (RetJoin 0 (if want then Some v else None)), s3) \<and> heap s3 = (heap s2)(x := None) \<and>
          uth_join_resumed (tcb_tid t) want old s2 = Ok (Return (RetJoin 0 (if want then Some v else None)), s3\<lparr>sigmask := old\<rparr>)
        else \<forall>want k old. uth_join (tcb_tid t) want k s2 = Ok (Return (RetJoin (- 1) None), s2) \<and>
          uth_join_resumed (tcb_tid t) want old s2 = Ok (Return (RetJoin (- 1) None), s2\<lparr>sigmask := old\<rparr>)))"
proof -
  have I: "cfg_inv (User [], s)" by (rule cfg.reachable_inv [OF r])
  then obtain rq wq where inv: "lib_inv s rq wq" by (auto elim: lib_okE)
  obtain s1 u where e: "uth_exit v [] s = Ok (Switched, s1)" "lib_inv s1 (rq @ (if tcb_joiner t = NULL then [] else [tcb_joiner t])) wq"
      "heap s1 x = Some u" "tcb_tid u = tcb_tid t" "tcb_state u = UTH_STATE_ZOMBIE" "tcb_retval u = v"
      "tcb_joiner t \<noteq> NULL \<longrightarrow> (\<exists>u want old. heap s1 (tcb_joiner t) = Some u \<and> uc_frames (tcb_ctx u) = [F_join (tcb_tid t) want old])"
    by (rule exit_effect [OF inv x])
  have "cfg_inv (SchedBack, s1)" using cfg_inv_step [OF do_call [of "A_exit v" s] I] e(1) by simp
  moreover have "y = x" if "heap s1 y = Some w" "tcb_tid w = tcb_tid t" for y w
    using tid_unique [OF lib_invD(3) [OF e(2)] that(1) e(3)] that(2) e(4) by simp
  then have "outcome (tcb_tid t) x v s1" unfolding outcome_def using e(3-6) tid_bounds(2) [OF e(2,3)] by fastforce
  ultimately have o: "lib_ok s2 \<and> outcome (tcb_tid t) x v s2" if "step\<^sup>*\<^sup>* (SchedBack, s1) (l, s2)" for l s2
    using outcome_steps [OF that, of "tcb_tid t" x v] by (cases l) simp_all
  show ?thesis
  proof (rule exI [of _ s1], rule exI [of _ rq], rule exI [of _ wq], intro conjI allI impI)
    fix l s2 assume "step\<^sup>*\<^sup>* (SchedBack, s1) (l, s2)"
    from o [OF this] obtain rq2 wq2 where "lib_inv s2 rq2 wq2" "outcome (tcb_tid t) x v s2" by (auto elim: lib_okE)
    then show "if \<exists>y u. heap s2 y = Some u \<and> tcb_tid u = tcb_tid t
        then \<forall>want k old. \<exists>s3. uth_join (tcb_tid t) want k s2 = Ok (Return (RetJoin 0 (if want then Some v else None)), s3) \<and> heap s3 = (heap s2)(x := None) \<and>
          uth_join_resumed (tcb_tid t) want old s2 = Ok (Return (RetJoin 0 (if want then Some v else None)), s3\<lparr>sigmask := old\<rparr>)
        else \<forall>want k old. uth_join (tcb_tid t) want k s2 = Ok (Return (RetJoin (- 1) None), s2) \<and>
          uth_join_resumed (tcb_tid t) want old s2 = Ok (Return (RetJoin (- 1) None), s2\<lparr>sigmask := old\<rparr>)" by (rule outcome_joins)
  qed (rule e(1), rule inv, rule e(2), rule e(7) [THEN mp], assumption, rule exI [of _ u], use e(3-5) in simp)
qed

theorem exit_reaches_joiner_witness:
  "\<exists>s t s1 s2. reachable (User [], s) \<and> runs s 0x300 t \<and> tcb_joiner t = 0x200 \<and> uth_exit 7 [] s = Ok (Switched, s1) \<and>
     step\<^sup>*\<^sup>* (SchedBack, s1) (User [F_join 3 True False], s2) \<and> uth_current s2 = 0x200 \<and>
     (\<exists>s3. uth_join_resumed 3 True False s2 = Ok (Return (RetJoin 0 (Some 7)), s3) \<and> heap s3 0x300 = None)"
proof -
  let ?ms = "three_threads @ [M_call A_yield, M_sched, M_sched, M_resume] @ turn (A_join 3 True)"
  have "at_end ?ms (\<lambda>l s. l = User [] \<and> uth_current s = 0x300 \<and>
      (case heap s 0x300 of None \<Rightarrow> False | Some t \<Rightarrow> tcb_state t = UTH_STATE_RUNNING \<and> tcb_joiner t = 0x200 \<and> tcb_tid t = 3) \<and>
      (case uth_exit 7 [] s of Ok (d, s1) \<Rightarrow> 
         run_if (\<lambda>_ _. True) ([M_sched, M_sched, M_resume, M_call A_yield, M_sched, M_sched]) (SchedBack, s1)
           (\<lambda>c. fst c = User [F_join 3 True False] \<and> uth_current (snd c) = 0x200 \<and> heap (snd c) 0x300 \<noteq> None \<and> map_option tcb_tid (heap (snd c) 0x300) = Some 3) | _ \<Rightarrow> False))" by code_simp
  then obtain s t d s1 where w: "reachable (User [], s)" "runs s 0x300 t" "tcb_joiner t = 0x200" "tcb_tid t = 3" "uth_exit 7 [] s = Ok (d, s1)"
      "run_if (\<lambda>_ _. True) ([M_sched, M_sched, M_resume, M_call A_yield, M_sched, M_sched]) (SchedBack, s1)
           (\<lambda>c. fst c = User [F_join 3 True False] \<and> uth_current (snd c) = 0x200 \<and> heap (snd c) 0x300 \<noteq> None \<and> map_option tcb_tid (heap (snd c) 0x300) = Some 3)"
    by (elim at_endE conjE) (auto simp: runs_def split: res.splits option.splits)
  from w(6) obtain s2 u where s2: "step\<^sup>*\<^sup>* (SchedBack, s1) (User [F_join 3 True False], s2)" "uth_current s2 = 0x200" "heap s2 0x300 = Some u" "tcb_tid u = 3"
    by (auto elim!: run_ifE)
  from exit_reaches_joiner [OF w(1,2), of 7] w(5) have d: "d = Switched" and
      j: "if \<exists>y u. heap s2 y = Some u \<and> tcb_tid u = tcb_tid t
        then \<forall>want k old. \<exists>s3. uth_join (tcb_tid t) want k s2 = Ok (Return (RetJoin 0 (if want then Some 7 else None)), s3) \<and> heap s3 = (heap s2)(0x300 := None) \<and>
          uth_join_resumed (tcb_tid t) want old s2 = Ok (Return (RetJoin 0 (if want then Some 7 else None)), s3\<lparr>sigmask := old\<rparr>)
        else \<forall>want k old. uth_join (tcb_tid t) want k s2 = Ok (Return (RetJoin (- 1) None), s2) \<and>
          uth_join_resumed (tcb_tid t) want old s2 = Ok (Return (RetJoin (- 1) None), s2\<lparr>sigmask := old\<rparr>)"
    using s2(1) by (elim exE conjE; simp)+
  have hit: "\<exists>y u. heap s2 y = Some u \<and> tcb_tid u = tcb_tid t" using s2(3,4) w(4) by auto
  have "\<forall>want k old. \<exists>s3. uth_join (tcb_tid t) want k s2 = Ok (Return (RetJoin 0 (if want then Some 7 else None)), s3) \<and> heap s3 = (heap s2)(0x300 := None) \<and>
          uth_join_resumed (tcb_tid t) want old s2 = Ok (Return (RetJoin 0 (if want then Some 7 else None)), s3\<lparr>sigmask := old\<rparr>)" using j unfolding if_P [OF hit] .
  from this [THEN spec [of _ True], THEN spec [of _ "[]"], THEN spec [of _ False]] obtain s3 where
      s3: "uth_join_resumed 3 True False s2 = Ok (Return (RetJoin 0 (Some 7)), s3\<lparr>sigmask := False\<rparr>)" "heap s3 = (heap s2)(0x300 := None)"
    using w(4) by auto
  with w d s2 show ?thesis by (intro exI [of _ s] exI [of _ t] exI [of _ s1] exI [of _ s2]) auto
qed

text \<open>
  C33. \<open>uth_join\<close> on a zombie returns its value at once, keeps the signal mask, and releases the thread:
  afterwards its id is unknown to \<open>tcb_find\<close>, and no other thread has changed.
\<close>

theorem join_collects_zombie:
  assumes inv: "lib_inv s rq wq" and y: "heap s y = Some u" "tcb_tid u = tid" "tcb_state u = UTH_STATE_ZOMBIE"
  shows "\<exists>s'. uth_join tid want k s = Ok (Return (RetJoin 0 (if want then Some (tcb_retval u) else None)), s') \<and>
     lib_inv s' rq wq \<and> sigmask s' = sigmask s \<and> heap s' = (heap s)(y := None) \<and> tcb_find tid s' = Ok NULL"
proof -
  note ok = lib_invD(3) [OF inv]
  let ?s = "remove_tcb y u s"
  have inv': "lib_inv ?s rq wq" by (rule lib_inv_remove [OF inv y(1,3)])
  have "tcb_tid t \<noteq> tid" if "heap ?s z = Some t" for z t
    using tid_unique [OF ok, of y u z t] y that by (auto simp: remove_tcb_def split: if_splits)
  then have "tcb_find tid ?s = Ok NULL" by (intro tcb_find_miss [OF lib_invD(3) [OF inv']]) blast
  with uth_join_zombie [OF ok y] inv' show ?thesis by (auto simp: remove_tcb_def)
qed

theorem join_collects_zombie_witness:
  "\<exists>s'. uth_join 7 True [] demo = Ok (Return (RetJoin 0 (if True then Some 42 else None)), s') \<and>
     lib_inv s' [0x200] demo_wq \<and> sigmask s' = sigmask demo \<and> heap s' = (heap demo)(0x700 := None) \<and> tcb_find 7 s' = Ok NULL"
  using join_collects_zombie [OF demo_inv, of "0x700" _ 7 True "[]"] by simp

text \<open>
  \<open>uth_join\<close> on a thread that is still alive makes the caller its joiner and blocks it, in no
  queue; it is resumed in the frame of \<open>uth_join\<close> with \<open>SIGALRM\<close> still blocked.
\<close>

lemma join_blocks_on_live_thread:
  assumes inv: "lib_inv s rq wq" and r: "runs s x t"
    and y: "heap s y = Some u" "tcb_tid u = tid" "tcb_state u \<noteq> UTH_STATE_ZOMBIE"
  shows "\<exists>s' t' u'. uth_join tid want [] s = Ok (Switched, s') \<and> lib_inv s' rq wq \<and> no_running s' \<and> unqueued x rq wq \<and>
     heap s' x = Some t' \<and> tcb_state t' = UTH_STATE_BLOCKED \<and> uc_frames (tcb_ctx t') = [F_join tid want (sigmask s)] \<and>
     uc_sigmask (tcb_ctx t') \<and> heap s' y = Some u' \<and> tcb_joiner u' = x"
proof -
  let ?a = "upd_tcb y (\<lambda>t. t\<lparr>tcb_joiner := x\<rparr>) ((erase s)\<lparr>sigmask := True\<rparr>)"
  from uth_join_block [OF inv r y, of want] obtain s' where s': "uth_join tid want [] s = Ok (Switched, s')" "lib_inv s' rq wq"
      "no_running s'" "erase s' = switched UTH_STATE_BLOCKED x [F_join tid want (sigmask s)] ?a" by blast
  obtain ta where ta: "heap ?a x = Some ta" using heap_upd_exists [OF runs_erase(1) [OF r]] by auto
  obtain t' where t': "heap s' x = Some t'" "tcb_state t' = UTH_STATE_BLOCKED"
      "uc_frames (tcb_ctx t') = [F_join tid want (sigmask s)]" "uc_sigmask (tcb_ctx t')"
    by (rule switched_tcb [OF s'(4) ta]) simp
  have "\<exists>v. heap (switched UTH_STATE_BLOCKED x [F_join tid want (sigmask s)] ?a) y = Some v \<and> tcb_joiner v = x"
    using y(1) by (auto simp: switched_joiner heap_upd_tcb switched_def erase_maps)
  then have "\<exists>v. heap (erase s') y = Some v \<and> tcb_joiner v = x" by (simp only: s'(4))
  then obtain u' where "heap s' y = Some u'" "tcb_joiner u' = x" by (auto simp: erase_maps)
  with s' t' runs_unqueued [OF inv r] show ?thesis by blast
qed

text \<open>
  \<open>uth_join\<close> with an id that no thread has returns \<open>-1\<close> and changes nothing.
\<close>

lemma join_unknown_fails:
  assumes "table_ok s" and "\<forall>x t. heap s x = Some t \<longrightarrow> tcb_tid t \<noteq> tid"
  shows "uth_join tid want k s = Ok (Return (RetJoin (- 1) None), s)"
  using assms by (rule uth_join_miss)

text \<open>
  Outside of every thread, \<open>uth_join\<close> on a live thread is not possible: it blocks \<open>uth_current\<close>,
  which is \<open>NULL\<close> there, and dereferences it.
\<close>

lemma join_outside_thread_faults:
  assumes "table_ok s" and "uth_current s = NULL"
    and "heap s y = Some u" and "tcb_tid u = tid" and "tcb_state u \<noteq> UTH_STATE_ZOMBIE"
  shows "uth_join tid want k s = Fault NullDeref"
  using assms by (rule uth_join_outside)

end
