(* ===== verification/Uth_Props_Sync.thy ===== *)
theory Uth_Props_Sync
  imports Uth_Demo
begin

text \<open>
  The properties of the locks, the condition variable, the semaphore and the preemption timer, each
  with its instance on the demonstration state.
\<close>

section \<open>Mutex\<close>

text \<open>
  \<open>uth_mutex_lock\<close> on a held mutex blocks the caller at the end of the waiters of the mutex and
  keeps the owner; the caller continues with the same loop when it is resumed.
\<close>

lemma mutex_lock_blocks:
  assumes inv: "lib_inv s rq wq" and r: "runs s x t" and m: "mutexes s m = Some xm" "mtx_locked xm \<noteq> 0"
  shows "\<exists>s' t' xm'. uth_mutex_lock m [] s = Ok (Switched, s') \<and>
     lib_inv s' rq (wq(MutexWaiters m := wq (MutexWaiters m) @ [x])) \<and> no_running s' \<and>
     heap s' x = Some t' \<and> tcb_state t' = UTH_STATE_BLOCKED \<and> uc_frames (tcb_ctx t') = [F_mutex_lock m (sigmask s)] \<and>
     mutexes s' m = Some xm' \<and> mtx_locked xm' = 1 \<and> mtx_owner xm' = mtx_owner xm"
proof -
  let ?s = "s\<lparr>sigmask := True\<rparr>"
  from mutex_wait.waits [of ?s rq wq x t m "sigmask s" "[]"] inv r m obtain s' where
    s': "uth_mutex_lock m [] s = Ok (Switched, s')" "lib_inv s' rq (wq(MutexWaiters m := wq (MutexWaiters m) @ [x]))" "no_running s'"
      "erase s' = switched UTH_STATE_BLOCKED x [F_mutex_lock m (sigmask s)] (erase (mutex_mark m ?s))"
    by (auto simp: mutex_free_def uth_mutex_lock_def uth_preempt_off_def)
  have mk: "mutex_mark m ?s = set_mutex m (xm\<lparr>mtx_locked := 1\<rparr>) ?s" using m by (simp add: mutex_mark_def)
  obtain t' where t': "heap s' x = Some t'" "tcb_state t' = UTH_STATE_BLOCKED" "uc_frames (tcb_ctx t') = [F_mutex_lock m (sigmask s)]"
    by (rule switched_tcb [OF s'(4), of "t\<lparr>tcb_next := NULL\<rparr>"]) (use runs_erase(1) [OF r] in \<open>simp_all add: mk\<close>)
  have "mutexes (erase s') m = Some (xm\<lparr>mtx_locked := 1, mtx_waiters := NULL\<rparr>)"
    by (simp add: s'(4) mk switched_def)
  then obtain xm' where xm': "mutexes s' m = Some xm'" "xm'\<lparr>mtx_waiters := NULL\<rparr> = xm\<lparr>mtx_locked := 1, mtx_waiters := NULL\<rparr>"
    by (auto simp: erase_maps)
  have "mtx_locked xm' = 1" "mtx_owner xm' = mtx_owner xm"
    using arg_cong [OF xm'(2), of mtx_locked] arg_cong [OF xm'(2), of mtx_owner] by simp_all
  with s' t' xm'(1) show ?thesis by blast
qed

text \<open>
  \<open>uth_mutex_unlock\<close> by the owner frees the mutex and moves the thread that waited longest, if
  any, to the tail of the run queue; the caller keeps the processor and its signal mask.
\<close>

lemma mutex_unlock_wakes_first:
  assumes inv: "lib_inv s rq wq" and c: "caller s" and m: "mutexes s m = Some x" "mtx_owner x = self_tid s"
  shows "\<exists>s' x'. uth_mutex_unlock m s = Ok (Return RetVoid, s') \<and>
     lib_inv s' (rq @ take 1 (wq (MutexWaiters m))) (wq(MutexWaiters m := tl (wq (MutexWaiters m)))) \<and>
     caller s' \<and> uth_current s' = uth_current s \<and> sigmask s' = sigmask s \<and>
     mutexes s' m = Some x' \<and> mtx_locked x' = 0 \<and> mtx_owner x' = UTH_TID_INVALID"
proof -
  from mutex_unlock_ok [OF inv c m] obtain s' where s': "uth_mutex_unlock m s = Ok (Return RetVoid, s')"
      "lib_inv s' (rq @ take 1 (wq (MutexWaiters m))) (wq(MutexWaiters m := tl (wq (MutexWaiters m))))" "stays s s'" "sigmask s' = sigmask s"
      "erase s' = (let a = set_mutex m (x\<lparr>mtx_owner := UTH_TID_INVALID, mtx_locked := 0, mtx_waiters := NULL\<rparr>) (erase s) in
       if wq (MutexWaiters m) = [] then a else set_state (hd (wq (MutexWaiters m))) UTH_STATE_READY a)" by blast
  have "mutexes (erase s') m = Some (x\<lparr>mtx_owner := UTH_TID_INVALID, mtx_locked := 0, mtx_waiters := NULL\<rparr>)"
    unfolding s'(5) by (simp add: Let_def)
  then obtain x' where x': "mutexes s' m = Some x'" "x'\<lparr>mtx_waiters := NULL\<rparr> = x\<lparr>mtx_owner := UTH_TID_INVALID, mtx_locked := 0, mtx_waiters := NULL\<rparr>"
    by (auto simp: erase_maps)
  have "mtx_locked x' = 0" "mtx_owner x' = UTH_TID_INVALID"
    using arg_cong [OF x'(2), of mtx_locked] arg_cong [OF x'(2), of mtx_owner] by simp_all
  with s'(1-4) x'(1) caller_stays [OF c s'(3)] show ?thesis by (auto simp: stays_def)
qed

text \<open>
  C35. \<open>uth_mutex_lock\<close> on a free mutex returns at once with the caller as its owner, whether or not threads are still queued on it; the following
  \<open>uth_mutex_unlock\<close> by the same caller frees the mutex and moves the longest waiter, if there is one, to the tail of the run queue. Without waiters the two calls give
  back exactly the state before the lock. Both keep the signal mask.
\<close>

theorem mutex_lock_unlock:
  assumes inv: "lib_inv s rq wq" and c: "caller s" and m: "mutexes s m = Some x" and free: "mtx_locked x = 0" "mtx_owner x = UTH_TID_INVALID"
  shows "\<exists>s1 s2 x2. uth_mutex_lock m k s = Ok (Return RetVoid, s1) \<and> mutexes s1 m = Some (x\<lparr>mtx_locked := 1, mtx_owner := self_tid s\<rparr>) \<and>
     lib_inv s1 rq wq \<and> sigmask s1 = sigmask s \<and>
     uth_mutex_unlock m s1 = Ok (Return RetVoid, s2) \<and> lib_inv s2 (rq @ take 1 (wq (MutexWaiters m))) (wq(MutexWaiters m := tl (wq (MutexWaiters m)))) \<and>
     mutexes s2 m = Some x2 \<and> mtx_locked x2 = 0 \<and> mtx_owner x2 = UTH_TID_INVALID \<and> sigmask s2 = sigmask s \<and> (wq (MutexWaiters m) = [] \<longrightarrow> s2 = s)"
proof -
  let ?s1 = "set_mutex m (x\<lparr>mtx_locked := 1, mtx_owner := self_tid s\<rparr>) s"
  have lock: "uth_mutex_lock m k s = Ok (Return RetVoid, ?s1)" by (rule mutex_lock_free [OF c m free(1)])
  have inv1: "lib_inv ?s1 rq wq" using inv m by simp
  have s1: "caller ?s1" "mutexes ?s1 m = Some (x\<lparr>mtx_locked := 1, mtx_owner := self_tid s\<rparr>)" "sigmask ?s1 = sigmask s" using c by simp (simp_all add: set_mutex_def)
  have "mtx_owner (x\<lparr>mtx_locked := 1, mtx_owner := self_tid s\<rparr>) = self_tid ?s1" by simp
  from mutex_unlock_wakes_first [OF inv1 s1(1,2) this] obtain s2 x2 where u: "uth_mutex_unlock m ?s1 = Ok (Return RetVoid, s2)"
      "lib_inv s2 (rq @ take 1 (wq (MutexWaiters m))) (wq(MutexWaiters m := tl (wq (MutexWaiters m))))" "sigmask s2 = sigmask s"
      "mutexes s2 m = Some x2" "mtx_locked x2 = 0" "mtx_owner x2 = UTH_TID_INVALID" unfolding s1(3) by blast
  have "s2 = s" if "wq (MutexWaiters m) = []"
  proof -
    have "wchain s (MutexWaiters m) []" using shapeD [OF lib_invD(1) [OF inv]] that by metis
    then have "mtx_waiters x = NULL" using m by (simp add: wchain_def mapped_def pp_simps ok_iff)
    with free have x: "x = \<lparr>mtx_locked = 0, mtx_owner = UTH_TID_INVALID, mtx_waiters = NULL\<rparr>" by simp
    with mutex_round(2) [OF c, of m] m u(1) show ?thesis by simp
  qed
  with lock inv1 s1 u show ?thesis by blast
qed

theorem mutex_lock_unlock_witness:
  "\<exists>s1 s2. uth_mutex_lock 0x6000 [] (uth_mutex_init 0x6000 demo) = Ok (Return RetVoid, s1) \<and>
     mutexes s1 0x6000 = Some \<lparr>mtx_locked = 1, mtx_owner = 1, mtx_waiters = NULL\<rparr> \<and>
     sigmask s1 = sigmask (uth_mutex_init 0x6000 demo) \<and> uth_mutex_unlock 0x6000 s1 = Ok (Return RetVoid, s2) \<and> s2 = uth_mutex_init 0x6000 demo"
proof -
  have "lib_inv (uth_mutex_init 0x6000 demo) [0x200] (demo_wq(MutexWaiters 0x6000 := []))"
    unfolding uth_mutex_init_def by (rule lib_inv_init(1) [OF demo_inv]) simp
  from mutex_lock_unlock [OF this, of "0x6000" UTH_MUTEX_INITIALIZER "[]"] demo_caller show ?thesis
    by (simp add: uth_mutex_init_def UTH_MUTEX_INITIALIZER_def) blast
qed

text \<open>
  Only the owner can release a mutex: for every other caller \<open>uth_mutex_unlock\<close> stops in its
  assertion, before it changes the mutex.
\<close>

lemma mutex_unlock_by_other_asserts:
  assumes "caller s" and "mutexes s m = Some x" and "mtx_owner x \<noteq> self_tid s"
  shows "uth_mutex_unlock m s = Fault (AssertFail ''unlock by non-owner'')"
  using assms by (rule mutex_unlock_foreign)

section \<open>Spinlock and ticket lock\<close>

text \<open>
  C40. Outside of every thread, \<open>uth_spin_lock\<close> on a taken spinlock never returns: \<open>uth_yield\<close> is a
  no-op there, so the loop of test-and-set runs for ever.
\<close>

theorem spin_lock_outside_diverges:
  assumes "uth_current s = NULL" and "spins s p = Some x" and "spin_flag x"
  shows "uth_spin_lock p k s = NoReturn"
  using assms by (rule spin_lock_outside)

theorem spin_lock_outside_diverges_witness:
  "uth_spin_lock 0x5000 [] (demo\<lparr>uth_current := NULL\<rparr>) = NoReturn"
  by (rule spin_lock_outside_diverges [of _ _ "\<lparr>spin_flag = True\<rparr>"]) simp_all

text \<open>
  Inside a thread, a failed attempt of \<open>uth_spin_lock\<close> yields: the thread goes to the tail of the
  run queue and will try again in the frame of \<open>uth_spin_lock\<close>.
\<close>

lemma spin_lock_yields:
  assumes "lib_inv s rq wq" and "runs s x t" and "spins s p = Some sp" and "spin_flag sp"
  shows "\<exists>s' t'. uth_spin_lock p [] s = Ok (Switched, s') \<and> lib_inv s' (rq @ [x]) wq \<and> heap s' x = Some t' \<and>
     tcb_state t' = UTH_STATE_READY \<and> uc_frames (tcb_ctx t') = [F_yield (sigmask s), F_spin_lock p]"
proof -
  from spin_lock_taken [OF assms] obtain s' where s': "uth_spin_lock p [] s = Ok (Switched, s')" "lib_inv s' (rq @ [x]) wq"
      "erase s' = switched UTH_STATE_READY x [F_yield (sigmask s), F_spin_lock p] ((erase s)\<lparr>sigmask := True\<rparr>)" by blast
  show ?thesis
    by (rule switched_tcb [OF s'(3), of "t\<lparr>tcb_next := NULL\<rparr>"]) (use s' runs_erase(1) [OF assms(2)] in auto)
qed

text \<open>
  C36. \<open>uth_ticket_unlock\<close> serves the next ticket: of the waiters it wakes exactly the first one that
  holds the ticket \<open>now_serving + 1\<close>, wherever it stands in the queue, and keeps the order of the others.
\<close>

theorem ticket_unlock_wakes_next:
  assumes "lib_inv s rq wq" and "tickets s p = Some x" and "wq (TicketWaiters p) = ys @ w # zs"
    and "\<forall>y \<in> set ys. \<not> holds_ticket s (tk_now_serving x + 1) y" and "holds_ticket s (tk_now_serving x + 1) w"
  shows "\<exists>s'. uth_ticket_unlock p s = Ok (Return RetVoid, s') \<and> lib_inv s' (rq @ [w]) (wq(TicketWaiters p := ys @ zs)) \<and>
     sigmask s' = sigmask s \<and>
     erase s' = upd_tcb w (\<lambda>t. t\<lparr>tcb_state := UTH_STATE_READY\<rparr>)
       (set_ticket p (x\<lparr>tk_now_serving := tk_now_serving x + 1, tk_waiters := NULL\<rparr>) (erase s))"
  using ticket_unlock_hit [OF assms] by blast

theorem ticket_unlock_wakes_next_witness:
  "\<exists>s'. uth_ticket_unlock demo_ticket demo = Ok (Return RetVoid, s') \<and> lib_inv s' ([0x200] @ [0x600]) (demo_wq(TicketWaiters demo_ticket := [] @ [])) \<and>
     sigmask s' = sigmask demo \<and>
     erase s' = upd_tcb 0x600 (\<lambda>t. t\<lparr>tcb_state := UTH_STATE_READY\<rparr>)
       (set_ticket demo_ticket \<lparr>tk_next_ticket = 2, tk_now_serving = 1, tk_waiters = NULL\<rparr> (erase demo))"
  using ticket_unlock_wakes_next [OF demo_inv, of demo_ticket _ "[]" "0x600" "[]"] by (simp add: holds_ticket_def)

text \<open>
  \<open>uth_ticket_lock\<close> draws the next ticket, modulo \<open>2 ^ 32\<close>. When it is being served the call
  returns; otherwise the thread notes the ticket in its TCB and blocks at the end of the waiters.
\<close>

lemma ticket_lock_draws:
  assumes inv: "lib_inv s rq wq" and r: "runs s x t" and p: "tickets s p = Some tk"
  shows "if tk_now_serving tk = tk_next_ticket tk
     then uth_ticket_lock p [] s = Ok (Return RetVoid, set_ticket p (tk\<lparr>tk_next_ticket := tk_next_ticket tk + 1\<rparr>) s)
     else \<exists>s'. uth_ticket_lock p [] s = Ok (Switched, s') \<and> lib_inv s' rq (wq(TicketWaiters p := wq (TicketWaiters p) @ [x])) \<and>
       holds_ticket s' (tk_next_ticket tk) x"
proof -
  let ?s = "set_ticket p (tk\<lparr>tk_next_ticket := tk_next_ticket tk + 1\<rparr>) (s\<lparr>sigmask := True\<rparr>)"
  have inv0: "lib_inv ?s rq wq" and r0: "runs ?s x t" using inv r p by simp_all
  have eq: "uth_ticket_lock p [] s = ticket_lock_loop p (tk_next_ticket tk) (sigmask s) [] ?s"
    using p by (simp add: uth_ticket_lock_def uth_preempt_off_def)
  show ?thesis
  proof (cases "tk_now_serving tk = tk_next_ticket tk")
    case True
    then show ?thesis using eq by (simp add: ticket_lock_loop_def uth_preempt_restore_def sigmask_same)
  next
    case False
    from ticket_wait.waits [OF inv0 r0, of p "tk_next_ticket tk" "sigmask s" "[]"] False eq obtain s' where
      s': "uth_ticket_lock p [] s = Ok (Switched, s')" "lib_inv s' rq (wq(TicketWaiters p := wq (TicketWaiters p) @ [x]))"
        "erase s' = switched UTH_STATE_BLOCKED x [F_ticket_lock p (tk_next_ticket tk) (sigmask s)] (erase (keep_ticket (tk_next_ticket tk) ?s))"
      by (auto simp: ticket_turn_def)
    have "holds_ticket s' (tk_next_ticket tk) x"
      by (rule switched_tcb [OF s'(3), of "t\<lparr>tcb_next := NULL, tcb_ticket := tk_next_ticket tk\<rparr>"])
        (use runs_erase [OF r] in \<open>simp_all add: heap_upd_tcb holds_ticket_def\<close>)
    with s' False show ?thesis by auto
  qed
qed

section \<open>Condition variable\<close>

text \<open>
  C34. \<open>uth_cond_wait\<close> releases the mutex and blocks in one step without a window: in the state it
  leaves to the scheduler the mutex is free, its first waiter is ready, and the caller is at the
  end of the waiters of the condition variable, in a frame that will take the mutex again.
\<close>

theorem cond_wait_releases_and_blocks:
  assumes inv: "lib_inv s rq wq" and r: "runs s x t" and c: "conds s c \<noteq> None"
    and m: "mutexes s m = Some xm" "mtx_owner xm = self_tid s"
  shows "\<exists>s' xm'. uth_cond_wait c m [] s = Ok (Switched, s') \<and>
     lib_inv s' (rq @ take 1 (wq (MutexWaiters m)))
       (wq(MutexWaiters m := tl (wq (MutexWaiters m)), CondWaiters c := wq (CondWaiters c) @ [x])) \<and>
     no_running s' \<and> mutexes s' m = Some xm' \<and> mtx_locked xm' = 0 \<and> mtx_owner xm' = UTH_TID_INVALID"
proof -
  from cond_wait_ok [OF inv r c m] obtain s' where s': "uth_cond_wait c m [] s = Ok (Switched, s')"
      "lib_inv s' (rq @ take 1 (wq (MutexWaiters m))) (wq(MutexWaiters m := tl (wq (MutexWaiters m)), CondWaiters c := wq (CondWaiters c) @ [x]))"
      "no_running s'" "mutexes (erase s') m = Some (xm\<lparr>mtx_owner := UTH_TID_INVALID, mtx_locked := 0, mtx_waiters := NULL\<rparr>)" by blast
  from s'(4) obtain xm' where xm': "mutexes s' m = Some xm'"
      "xm'\<lparr>mtx_waiters := NULL\<rparr> = xm\<lparr>mtx_owner := UTH_TID_INVALID, mtx_locked := 0, mtx_waiters := NULL\<rparr>"
    by (auto simp: erase_maps)
  have "mtx_locked xm' = 0" "mtx_owner xm' = UTH_TID_INVALID"
    using arg_cong [OF xm'(2), of mtx_locked] arg_cong [OF xm'(2), of mtx_owner] by simp_all
  with s' xm'(1) show ?thesis by blast
qed

theorem cond_wait_releases_and_blocks_witness:
  "\<exists>s' xm'. uth_cond_wait demo_cond demo_mutex [] demo = Ok (Switched, s') \<and>
     lib_inv s' [0x200, 0x300] (demo_wq(MutexWaiters demo_mutex := [], CondWaiters demo_cond := [0x400, 0x100])) \<and>
     no_running s' \<and> mutexes s' demo_mutex = Some xm' \<and> mtx_locked xm' = 0 \<and> mtx_owner xm' = UTH_TID_INVALID"
  using cond_wait_releases_and_blocks [OF demo_inv demo_runs, of demo_cond demo_mutex] by simp

text \<open>
  \<open>uth_cond_signal\<close> wakes the thread that waited longest, \<open>uth_cond_broadcast\<close> wakes all of them in
  the order in which they waited; both return to the caller with its signal mask and do not switch.
\<close>

lemma cond_signal_broadcast:
  assumes inv: "lib_inv s rq wq" and c: "conds s c \<noteq> None"
  shows "(\<exists>s1. uth_cond_signal c s = Ok (Return RetVoid, s1) \<and> sigmask s1 = sigmask s \<and> uth_current s1 = uth_current s \<and>
       lib_inv s1 (rq @ take 1 (wq (CondWaiters c))) (wq(CondWaiters c := tl (wq (CondWaiters c))))) \<and>
     (\<exists>s2. uth_cond_broadcast c s = Ok (Return RetVoid, s2) \<and> sigmask s2 = sigmask s \<and> uth_current s2 = uth_current s \<and>
       lib_inv s2 (rq @ wq (CondWaiters c)) (wq(CondWaiters c := [])))"
  using cond_signal_ok [OF assms] cond_broadcast_ok [OF assms] by (auto simp: stays_def)

section \<open>Semaphore\<close>

text \<open>
  \<open>uth_sem_wait\<close> takes one permit when the value is positive and returns; otherwise it leaves the
  value alone and blocks the caller at the end of the waiters.
\<close>

lemma sem_wait_takes_or_blocks:
  assumes inv: "lib_inv s rq wq" and r: "runs s x t" and p: "sems s p = Some xs"
  shows "if 0 < sem_value xs
     then uth_sem_wait p [] s = Ok (Return RetVoid, set_sem p (xs\<lparr>sem_value := sem_value xs - 1\<rparr>) s)
     else \<exists>s'. uth_sem_wait p [] s = Ok (Switched, s') \<and> no_running s' \<and>
       lib_inv s' rq (wq(SemWaiters p := wq (SemWaiters p) @ [x])) \<and> map_option sem_value (sems s' p) = Some (sem_value xs)"
proof (cases "0 < sem_value xs")
  case True
  with p show ?thesis
    by (simp add: uth_sem_wait_def uth_preempt_off_def sem_wait_loop_def uth_preempt_restore_def sigmask_same)
next
  case False
  let ?s = "s\<lparr>sigmask := True\<rparr>"
  from sem_wait.waits [of ?s rq wq x t p "sigmask s" "[]"] inv r p False obtain s' where
    s': "uth_sem_wait p [] s = Ok (Switched, s')" "lib_inv s' rq (wq(SemWaiters p := wq (SemWaiters p) @ [x]))" "no_running s'"
      "erase s' = switched UTH_STATE_BLOCKED x [F_sem_wait p (sigmask s)] (erase ?s)"
    by (auto simp: sem_avail_def uth_sem_wait_def uth_preempt_off_def)
  have "sems (erase s') p = Some (xs\<lparr>sem_waiters := NULL\<rparr>)" using p by (simp add: s'(4) switched_def erase_maps)
  then have "map_option sem_value (sems s' p) = Some (sem_value xs)"
    by (cases "sems s' p") (auto simp: erase_maps dest: arg_cong [where f = sem_value])
  with s' False show ?thesis by auto
qed

text \<open>
  C37. \<open>uth_sem_post\<close> adds one permit and moves the thread that waited longest, if any, to the tail of
  the run queue; at \<open>INT_MAX\<close> permits the increment of the signed value overflows.
\<close>

theorem sem_post_adds_permit:
  assumes inv: "lib_inv s rq wq" and p: "sems s p = Some xs"
  shows "if sem_value xs = INT_MAX then uth_sem_post p s = Fault SignedOverflow
     else \<exists>s'. uth_sem_post p s = Ok (Return RetVoid, s') \<and> sigmask s' = sigmask s \<and>
       lib_inv s' (rq @ take 1 (wq (SemWaiters p))) (wq(SemWaiters p := tl (wq (SemWaiters p)))) \<and>
       map_option sem_value (sems s' p) = Some (sem_value xs + 1)"
proof (cases "sem_value xs = INT_MAX")
  case True
  with p show ?thesis by (simp add: uth_sem_post_def uth_preempt_off_def)
next
  case False
  from sem_post_ok [OF inv p False] obtain s' where s': "uth_sem_post p s = Ok (Return RetVoid, s')" "sigmask s' = sigmask s"
      "lib_inv s' (rq @ take 1 (wq (SemWaiters p))) (wq(SemWaiters p := tl (wq (SemWaiters p))))"
      "erase s' = (let a = set_sem p (xs\<lparr>sem_value := sem_value xs + 1, sem_waiters := NULL\<rparr>) (erase s) in
       if wq (SemWaiters p) = [] then a else set_state (hd (wq (SemWaiters p))) UTH_STATE_READY a)" by blast
  have "sems (erase s') p = Some (xs\<lparr>sem_value := sem_value xs + 1, sem_waiters := NULL\<rparr>)" unfolding s'(4) by (simp add: Let_def)
  then have "map_option sem_value (sems s' p) = Some (sem_value xs + 1)"
    by (cases "sems s' p") (auto simp: erase_maps dest: arg_cong [where f = sem_value])
  with s' False show ?thesis by auto
qed

theorem sem_post_adds_permit_witness:
  "\<exists>s'. uth_sem_post demo_sem demo = Ok (Return RetVoid, s') \<and> sigmask s' = sigmask demo \<and>
     lib_inv s' [0x200, 0x500] (demo_wq(SemWaiters demo_sem := [])) \<and> map_option sem_value (sems s' demo_sem) = Some 1"
  using sem_post_adds_permit [OF demo_inv, of demo_sem] by (simp add: INT_MAX_def)

section \<open>Preemption\<close>

text \<open>
  The handler of \<open>SIGALRM\<close> saves the interrupted context in the TCB of the current thread, with
  the self pointer of the floating-point state repaired, puts the thread at the tail of the run queue
  and enters the scheduler; when no thread is current it returns without any effect.
\<close>

lemma handler_requeues_current:
  assumes inv: "lib_inv s rq wq" and r: "runs s x t" and user: "uc_frames ucp = []"
  shows "\<exists>s' t'. uth_preempt_handler ucp s = Ok (Switched, s') \<and> lib_inv s' (rq @ [x]) wq \<and> no_running s' \<and>
     uth_current s' = NULL \<and> heap s' x = Some t' \<and> tcb_state t' = UTH_STATE_READY \<and> tcb_ctx t' = ucp\<lparr>uc_fpregs := x\<rparr> \<and>
     uth_preempt_handler ucp s' = Ok (Return RetVoid, s')"
proof -
  have "ctx_ok (erase s) True x (uc_sigmask ucp) (uc_frames ucp)" using user by (simp add: ctx_ok_def)
  from handler_preempts [OF inv r this] obtain s' where s': "uth_preempt_handler ucp s = Ok (Switched, s')"
      "lib_inv s' (rq @ [x]) wq" "no_running s'" "uth_current s' = NULL" "erase s' = preempted ucp x (erase s)" by blast
  have "heap (erase s') x = Some (t\<lparr>tcb_next := NULL, tcb_state := UTH_STATE_READY, tcb_ctx := ucp\<lparr>uc_fpregs := x\<rparr>\<rparr>)"
    by (simp add: s'(5) preempted_def heap_upd_tcb runs_erase(1) [OF r])
  then obtain t' where t': "heap s' x = Some t'"
      "t'\<lparr>tcb_next := NULL\<rparr> = t\<lparr>tcb_next := NULL, tcb_state := UTH_STATE_READY, tcb_ctx := ucp\<lparr>uc_fpregs := x\<rparr>\<rparr>"
    by (auto simp: erase_maps)
  have "tcb_state t' = UTH_STATE_READY" "tcb_ctx t' = ucp\<lparr>uc_fpregs := x\<rparr>"
    using arg_cong [OF t'(2), of tcb_state] arg_cong [OF t'(2), of tcb_ctx] by simp_all
  with s' t'(1) handler_idle [OF s'(4)] show ?thesis by blast
qed

text \<open>
  C38. \<open>uth_preempt_enable\<close> puts the whole interval into \<open>tv_usec\<close>, computed in 32 bits: \<open>setitimer\<close> refuses it, and the process exits, exactly when
  \<open>interval_ms * 1000\<close> modulo \<open>2 ^ 32\<close> is a million or more. So every interval from 1000 ms to 4294967 ms ends the process; beyond, the product wraps, and an accepted
  interval is armed with the remainder, as 704 microseconds for 4294968 ms.
\<close>

theorem preempt_enable_rejects_seconds:
  assumes "\<not> preempt_enabled s" and "env_malloc env \<noteq> NULL" "env_sigaltstack env" "env_sigaction env"
  shows "(if 1000000 \<le> unat ms * 1000 mod 2 ^ 32 then uth_preempt_enable ms env s = Fault (ExitFailure ''setitimer'')
      else \<exists>s1. uth_preempt_enable ms env s = Ok (Remains F_preempt_enable, s1) \<and> sigalrm_handler s1 \<and> unat (itimer_usec s1) = unat ms * 1000 mod 2 ^ 32) \<and>
    (1000 \<le> unat ms \<longrightarrow> unat ms \<le> 4294967 \<longrightarrow> uth_preempt_enable ms env s = Fault (ExitFailure ''setitimer''))"
proof -
  let ?us = "unat ms * 1000 mod 2 ^ 32"
  have m: "unat (ms * 1000) = ?us" by (simp add: unat_word_ariths)
  have "unat (ucast (ms * 1000) :: u64) = unat (ms * 1000)" by simp
  note uc = this [unfolded m]
  have rej: "uth_preempt_enable ms env s = Fault (ExitFailure ''setitimer'')" if "1000000 \<le> ?us"
    using assms that uc by (simp add: uth_preempt_enable_def setitimer_ok_def Let_def)
  moreover have "\<exists>s1. uth_preempt_enable ms env s = Ok (Remains F_preempt_enable, s1) \<and> sigalrm_handler s1 \<and> unat (itimer_usec s1) = ?us" if "\<not> 1000000 \<le> ?us"
    using assms that uc by (simp add: uth_preempt_enable_def setitimer_ok_def Let_def)
  moreover have "1000000 \<le> ?us" if "1000 \<le> unat ms" "unat ms \<le> 4294967" using that by simp
  ultimately show ?thesis by auto
qed

theorem preempt_enable_rejects_seconds_witness:
  "uth_preempt_enable 1000 \<lparr>env_malloc = 0xB000, env_sigaltstack = True, env_sigaction = True\<rparr> demo = Fault (ExitFailure ''setitimer'') \<and>
   (\<exists>s1. uth_preempt_enable 4294968 \<lparr>env_malloc = 0xB000, env_sigaltstack = True, env_sigaction = True\<rparr> demo = Ok (Remains F_preempt_enable, s1) \<and>
      unat (itimer_usec s1) = 704)"
  using preempt_enable_rejects_seconds [of demo "\<lparr>env_malloc = 0xB000, env_sigaltstack = True, env_sigaction = True\<rparr>" 1000]
    preempt_enable_rejects_seconds [of demo "\<lparr>env_malloc = 0xB000, env_sigaltstack = True, env_sigaction = True\<rparr>" 4294968] by auto

text \<open>
  For every interval below one second \<open>uth_preempt_enable\<close> installs the handler and arms the timer
  with that many microseconds, a second call changes nothing, and \<open>uth_preempt_disable\<close> disarms the
  timer and removes the handler.
\<close>

lemma preempt_enable_disable:
  assumes "\<not> preempt_enabled s" and "env_malloc env \<noteq> NULL" "env_sigaltstack env" "env_sigaction env"
    and "0 < unat ms" "unat ms < 1000"
  shows "\<exists>s1 s2 s3. uth_preempt_enable ms env s = Ok (Remains F_preempt_enable, s1) \<and> preempt_enable_end s1 = Ok (Return RetVoid, s2) \<and>
     sigalrm_handler s2 \<and> unat (itimer_usec s2) = unat ms * 1000 \<and> heap s2 = heap s \<and> uth_preempt_enable ms' env' s2 = Ok (Return RetVoid, s2) \<and>
     uth_preempt_disable s2 = Ok (Remains F_preempt_disable, s2) \<and> preempt_disable_end s2 = Ok (Return RetVoid, s3) \<and>
     \<not> sigalrm_handler s3 \<and> itimer_usec s3 = 0 \<and> \<not> preempt_enabled s3"
proof -
  have m: "unat (ms * 1000) = unat ms * 1000" using assms(6) by (simp add: unat_word_ariths)
  with assms show ?thesis
    by (simp add: uth_preempt_enable_def preempt_enable_end_def uth_preempt_disable_def preempt_disable_end_def setitimer_ok_def Let_def)
qed

end
