(* ===== verification/Uth_Props_Objects.thy ===== *)
theory Uth_Props_Objects
  imports Uth_Wakeup Uth_Exec
begin

text \<open>
  Properties of the synchronisation objects in every reachable configuration: no wake-up is lost, a
  mutex is released by its owner only, the objects stay well-formed, and calls on different
  objects do not interfere.
\<close>

text \<open>
  C6. No wake-up of a mutex is lost: whenever a mutex is free while threads wait on it, some thread is
  about to take it: a ready thread inside \<open>uth_mutex_lock\<close> or inside the second half of \<open>uth_cond_wait\<close> on this mutex, or the
  thread that runs.
\<close>

theorem mutex_no_lost_wakeup:
  assumes r: "reachable (l, s)" and x: "mutexes s m = Some x" "mtx_locked x = 0" "mtx_waiters x \<noteq> NULL"
  shows "(\<exists>y t old k. heap s y = Some t \<and> tcb_state t = UTH_STATE_READY \<and> uc_frames (tcb_ctx t) = F_mutex_lock m old # k) \<or>
     (\<exists>old k. l = User (F_mutex_lock m old # k))"
proof -
  have "wake_ok (MutexWaiters m) (l, s)" using wake.reachable_inv [OF r] by (simp add: wake_inv_def)
  with x have "0 < takers (MutexWaiters m) (l, s)" by (simp add: wake_ok_def)
  then have "retrying (MutexWaiters m) s \<noteq> {} \<or> retries_at (MutexWaiters m) l \<noteq> 0" by (auto simp: takers_def)
  then show ?thesis
  proof
    assume "retrying (MutexWaiters m) s \<noteq> {}"
    then obtain y t f k where t: "heap s y = Some t" "tcb_state t = UTH_STATE_READY" "uc_frames (tcb_ctx t) = f # k" "waits_on f = Some (MutexWaiters m)"
      by (auto simp: retrying_def)
    from t(4) obtain old where "f = F_mutex_lock m old" by (cases f) auto
    with t show ?thesis by blast
  next
    assume "retries_at (MutexWaiters m) l \<noteq> 0"
    then obtain f k where l: "l = User (f # k)" "waits_on f = Some (MutexWaiters m)"
      by (cases "(MutexWaiters m, l)" rule: retries_at.cases) (auto split: if_splits)
    from l(2) obtain old where "f = F_mutex_lock m old" by (cases f) auto
    with l show ?thesis by blast
  qed
qed

theorem mutex_no_lost_wakeup_witness:
  "\<exists>l s x. reachable (l, s) \<and> mutexes s 0x600 = Some x \<and> mtx_locked x = 0 \<and> mtx_waiters x \<noteq> NULL \<and>
     ((\<exists>y t old k. heap s y = Some t \<and> tcb_state t = UTH_STATE_READY \<and> uc_frames (tcb_ctx t) = F_mutex_lock 0x600 old # k) \<or>
      (\<exists>old k. l = User (F_mutex_lock 0x600 old # k)))"
proof -
  have "at_end (contended @ [M_call (A_mutex_unlock 0x600)])
      (\<lambda>l s. case mutexes s 0x600 of None \<Rightarrow> False | Some x \<Rightarrow> mtx_locked x = 0 \<and> mtx_waiters x \<noteq> NULL)" by code_simp
  then obtain l s x where "reachable (l, s)" "mutexes s 0x600 = Some x" "mtx_locked x = 0" "mtx_waiters x \<noteq> NULL"
    by (auto elim!: at_endE split: option.splits)
  with mutex_no_lost_wakeup [OF this] show ?thesis by blast
qed

text \<open>
  C7. No wake-up of a semaphore is lost: while threads wait on a semaphore, its value is at most the number of
  threads that are about to take a permit: the ready threads inside \<open>uth_sem_wait\<close> on it, and the thread that runs if it is one.
\<close>

theorem sem_no_lost_wakeup:
  assumes r: "reachable (l, s)" and x: "sems s p = Some x" "sem_waiters x \<noteq> NULL"
  shows "sem_value x \<le> int (card {y. \<exists>t old k. heap s y = Some t \<and> tcb_state t = UTH_STATE_READY \<and>
       uc_frames (tcb_ctx t) = F_sem_wait p old # k}) + (if \<exists>old k. l = User (F_sem_wait p old # k) then 1 else 0)"
proof -
  have w: "waits_on f = Some (SemWaiters p) \<longleftrightarrow> (\<exists>old. f = F_sem_wait p old)" for f by (cases f) auto
  have "wake_ok (SemWaiters p) (l, s)" using wake.reachable_inv [OF r] by (simp add: wake_inv_def)
  with x have "sem_value x \<le> takers (SemWaiters p) (l, s)" by (simp add: wake_ok_def)
  moreover have "retrying (SemWaiters p) s = {y. \<exists>t old k. heap s y = Some t \<and> tcb_state t = UTH_STATE_READY \<and>
       uc_frames (tcb_ctx t) = F_sem_wait p old # k}"
    by (auto simp: retrying_def w)
  moreover have "int (retries_at (SemWaiters p) l) = (if \<exists>old k. l = User (F_sem_wait p old # k) then 1 else 0)"
    by (cases "(SemWaiters p, l)" rule: retries_at.cases) (auto simp: w)
  ultimately show ?thesis by (simp add: takers_def)
qed

theorem sem_no_lost_wakeup_witness:
  "\<exists>l s x. reachable (l, s) \<and> sems s 0x700 = Some x \<and> sem_waiters x \<noteq> NULL \<and> sem_value x = 1 \<and>
     1 \<le> int (card {y. \<exists>t old k. heap s y = Some t \<and> tcb_state t = UTH_STATE_READY \<and>
       uc_frames (tcb_ctx t) = F_sem_wait 0x700 old # k}) + (if \<exists>old k. l = User (F_sem_wait 0x700 old # k) then 1 else 0)"
proof -
  have "at_end (starved @ [M_call (A_sem_post 0x700)])
      (\<lambda>l s. case sems s 0x700 of None \<Rightarrow> False | Some x \<Rightarrow> sem_value x = 1 \<and> sem_waiters x \<noteq> NULL)" by code_simp
  then obtain l s x where r: "reachable (l, s)" and x: "sems s 0x700 = Some x" "sem_waiters x \<noteq> NULL" "sem_value x = 1"
    by (auto elim!: at_endE split: option.splits)
  show ?thesis
    by (rule exI [of _ l], rule exI [of _ s], rule exI [of _ x]) (use sem_no_lost_wakeup [OF r x(1,2), unfolded x(3)] r x in simp)
qed

text \<open>
  C8. Mutual exclusion: from the moment a mutex is held by a thread, every step of the library keeps it held
  by this thread, except the thread's own call of \<open>uth_mutex_unlock\<close> or \<open>uth_cond_wait\<close> on the mutex, and a call of \<open>uth_mutex_init\<close> on it.
\<close>

theorem mutex_released_by_owner_only:
  assumes r: "reachable (l, s)" and st: "step (l, s) (l', s')" and h: "held_by m i s" "\<not> held_by m i s'"
  shows "\<exists>a d. l = User [] \<and> api_call a s = Ok (d, s') \<and>
     (a = A_mutex_init m \<or> self_tid s = i \<and> (a = A_mutex_unlock m \<or> (\<exists>cv. a = A_cond_wait cv m)))"
proof -
  have I: "cfg_inv (l, s)" by (rule cfg.reachable_inv [OF r])
  from st show ?thesis
  proof (cases rule: step_object_cases [of l s l' s' "MutexWaiters m"])
    case same
    with held_by_same [OF same] h show ?thesis by simp
  next
    case (call a d)
    with I obtain rq wq where "lib_inv s rq wq" "user_inv [] s" by (auto elim: lib_okE)
    then have "a = A_mutex_init m \<or> self_tid s = i \<and> (a = A_mutex_unlock m \<or> (\<exists>cv. a = A_cond_wait cv m))"
      by (intro call_releases [OF _ _ call(3) h]) (auto intro: user_inv_caller)
    with call show ?thesis by blast
  next
    case (resume f k d)
    with I obtain rq wq where "lib_inv s rq wq" "user_inv (f # k) s" by (auto elim: lib_okE)
    with resume_keeps_held [OF _ _ resume(2) h(1)] h show ?thesis by blast
  qed
qed

theorem mutex_released_by_owner_only_witness:
  "\<exists>s s'. reachable (User [], s) \<and> held_by 0x600 1 s \<and> \<not> held_by 0x600 1 s' \<and> step (User [], s) (User [], s') \<and>
     (\<exists>a d. api_call a s = Ok (d, s') \<and>
       (a = A_mutex_init 0x600 \<or> self_tid s = 1 \<and> (a = A_mutex_unlock 0x600 \<or> (\<exists>cv. a = A_cond_wait cv 0x600))))"
proof -
  let ?free = "\<lambda>s'. case mutexes s' 0x600 of None \<Rightarrow> False | Some x \<Rightarrow> mtx_locked x = 0"
  have "at_end contended (\<lambda>l s. l = User [] \<and> (case mutexes s 0x600 of None \<Rightarrow> False | Some x \<Rightarrow> mtx_locked x \<noteq> 0 \<and> mtx_owner x = 1) \<and>
      (case api_call (A_mutex_unlock 0x600) s of Ok (d, s') \<Rightarrow> d = Return RetVoid \<and> ?free s' | _ \<Rightarrow> False))" by code_simp
  then obtain l s where r: "reachable (l, s)" and l: "l = User []"
      and x: "case mutexes s 0x600 of None \<Rightarrow> False | Some x \<Rightarrow> mtx_locked x \<noteq> 0 \<and> mtx_owner x = 1"
      and u: "case api_call (A_mutex_unlock 0x600) s of Ok (d, s') \<Rightarrow> d = Return RetVoid \<and> ?free s' | _ \<Rightarrow> False"
    by (rule at_endE) blast
  note r = r [unfolded l]
  from x obtain x where x: "mutexes s 0x600 = Some x" "mtx_locked x \<noteq> 0" "mtx_owner x = 1" by (auto split: option.splits)
  from u obtain s' x' where c: "api_call (A_mutex_unlock 0x600) s = Ok (Return RetVoid, s')" "mutexes s' 0x600 = Some x'" "mtx_locked x' = 0"
    by (auto split: res.splits option.splits)
  with x have h: "held_by 0x600 1 s" "\<not> held_by 0x600 1 s'" by (auto simp: held_by_def)
  have st: "step (User [], s) (User [], s')" using do_call [OF _ c(1)] by simp
  from mutex_released_by_owner_only [OF r st h] r h st show ?thesis by blast
qed

text \<open>
  C20. The objects stay well-formed: a mutex is either locked or free without an owner, and the value of a
  semaphore is never negative and never above \<open>INT_MAX\<close>.
\<close>

theorem reachable_objects:
  assumes "reachable (l, s)"
  shows "(\<forall>m x. mutexes s m = Some x \<longrightarrow> mtx_locked x = 1 \<or> mtx_locked x = 0 \<and> mtx_owner x = UTH_TID_INVALID) \<and>
     (\<forall>p x. sems s p = Some x \<longrightarrow> 0 \<le> sem_value x \<and> sem_value x \<le> INT_MAX)"
proof -
  have ok: "obj_ok (obj_at q s)" for q using objects.reachable_inv [OF assms] by (simp add: objects_inv_def)
  have "mtx_locked x = 1 \<or> mtx_locked x = 0 \<and> mtx_owner x = UTH_TID_INVALID" if "mutexes s m = Some x" for m x
    using ok [of "MutexWaiters m"] that by simp
  moreover have "0 \<le> sem_value x \<and> sem_value x \<le> INT_MAX" if "sems s p = Some x" for p x
    using ok [of "SemWaiters p"] that by simp
  ultimately show ?thesis by blast
qed

theorem reachable_objects_witness:
  "\<exists>s x. reachable (User [], s) \<and> sems s 0x700 = Some x \<and> sem_value x = 1 \<and> 0 \<le> sem_value x \<and> sem_value x \<le> INT_MAX"
proof -
  have "at_end (starved @ [M_call (A_sem_post 0x700)])
      (\<lambda>l s. l = User [] \<and> (case sems s 0x700 of None \<Rightarrow> False | Some x \<Rightarrow> sem_value x = 1))" by code_simp
  then obtain s x where r: "reachable (User [], s)" and x: "sems s 0x700 = Some x" "sem_value x = 1"
    by (auto elim!: at_endE split: option.splits)
  with reachable_objects [OF r] show ?thesis by blast
qed

text \<open>
  Calls on different objects do not interfere: a step changes a mutex, ticket lock, condition variable or
  semaphore only in a call of the interface that names it, or in a suspended call that waits on it or has to take it.
\<close>

lemma steps_respect_footprint:
  assumes "step (l, s) (l', s')" and "obj_at q s' \<noteq> obj_at q s"
  shows "(\<exists>a d. l = User [] \<and> api_call a s = Ok (d, s') \<and> q \<in> footprint a) \<or>
     (\<exists>f k d. l = User (f # k) \<and> resume_frame f k s = Ok (d, s') \<and> q \<in> frame_footprint f)"
  using assms(1) by (cases rule: step_object_cases [of l s l' s' q]) (use assms(2) in auto)

text \<open>
  C21. The last statement of \<open>uth_create\<close> is a race: with preemption enabled a schedule exists in which the new thread has
  exited and has been joined and freed before its creator reads \<open>t->tid\<close>, which is then a use after free.
\<close>

theorem create_use_after_free:
  "\<exists>s. reachable (User [F_create_ret 0x300], s) \<and> uth_create_ret 0x300 s = Fault UseAfterFree"
proof -
  have "at_end create_race (\<lambda>l s. l = User [F_create_ret 0x300] \<and> uth_create_ret 0x300 s = Fault UseAfterFree)" by code_simp
  then show ?thesis by (auto elim!: at_endE)
qed

text \<open>
  The loop of \<open>uth_active_count\<close> has the same defect: it does not block \<open>SIGALRM\<close>, and a thread can be freed between the read of its entry in the table and the
  read of its state.
\<close>

lemma active_count_use_after_free:
  "\<exists>s. reachable (User [F_count_at 1 1 0x200], s) \<and> active_count_at 1 1 0x200 s = Fault UseAfterFree"
proof -
  have "at_end count_race (\<lambda>l s. l = User [F_count_at 1 1 0x200] \<and> active_count_at 1 1 0x200 s = Fault UseAfterFree)" by code_simp
  then show ?thesis by (elim at_endE conjE) auto
qed

end
