(* ===== verification/Uth_Sim.thy ===== *)
theory Uth_Sim
  imports Uth_Refine
begin

text \<open>
  Every step of a program keeps the coupling, and is a sequence of steps of the abstract machine. So every
  reachable state of a program has a reachable abstract state: what is proved of the program on the
  abstract machine holds on the library.
\<close>

section \<open>Every step keeps the coupling\<close>

lemma coupled_compute: "\<lbrakk>coupled ((User [], s), ps, g); ps (self_tid s) = At p\<rbrakk> \<Longrightarrow> coupled ((User [], s), ps(self_tid s := At p'), g')"
  using coupled_self [of "[]" s ps g "sigmask s" "Return RetVoid" s "[]" "At p'" g'] coupledD(1) [of "User []" s ps g]
  by (auto simp: lib_post_def stays_def settled_heap)

lemma coupled_exit:
  assumes C: "coupled ((User [], s), ps, g)" and res: "api_call (A_exit v) s = Ok (d, s')"
  shows "coupled ((transfer d [], s'), ps(self_tid s := Ended), g')"
proof -
  from coupledD(1) [OF C] obtain rq wq where "lib_inv s rq wq" "user_inv [] s" by (auto elim: lib_okE)
  from exit_post [OF this(1) user_inv_caller [OF this(2)]] res have "d = Switched" by simp
  with coupled_call [OF C _ res] show ?thesis by simp
qed

lemma coupled_step: "\<lbrakk>cstep P c c'; coupled c\<rbrakk> \<Longrightarrow> coupled c'"
proof (induction rule: cstep.induct)
  case (c_compute ps s p e g g' p')
  show ?case by (rule coupled_compute [OF c_compute(3,1)])
next
  case (c_call ps s p e g a g' p' d s')
  show ?case by (rule coupled_call [OF c_call(5,3,4)])
next
  case (c_exit ps s p e g v g' d s')
  show ?case by (rule coupled_exit [OF c_exit(5,4)])
next
  case (c_resume f k s d s' ps g)
  show ?case by (rule coupled_resume [OF c_resume(2,1)])
next
  case (c_run ps s p e g g' p' bp sp s')
  from coupledD(1) [OF c_run(5)] c_run(3) have "no_running s" by (simp add: user_inv_def)
  moreover have "cfg_inv (SchedEntry, s')" using cfg_inv_step [OF do_run [OF c_run(3,4)] coupledD(1) [OF c_run(5)]] .
  moreover have "heap s' = heap s" "next_tid s' = next_tid s" using c_run(4) by (auto simp: uth_run_def uth_run_body_def)
  ultimately show ?case using c_run(3,5) by (intro coupled_idle [OF c_run(5)]) (auto simp: main_ok_def self_tid_def)
next
  case (c_entry s ps g)
  from coupledD(1,5) [OF c_entry] show ?case
    by (intro coupled_idle [OF c_entry] cfg_inv_step [OF do_entry]) (auto simp: scheduler_entry_def main_ok_def)
next
  case (c_pick s k s' ps g)
  show ?case by (rule coupled_pick [OF c_pick(2,1)])
next
  case (c_idle s s' ps g)
  with pick_inv(2) [OF coupledD(1) [OF c_idle(2)] c_idle(1)] show ?case by simp
next
  case (c_finish s s1 bp sp s' ps p g)
  from pick_inv(3) [OF coupledD(1) [OF c_finish(4)] c_finish(1)] have s: "s1 = s" by simp
  have "heap s' = heap s" "next_tid s' = next_tid s" "uth_current s' = uth_current s"
    using c_finish(2) s by (auto simp: uth_run_linked_def uth_run_body_def split: if_splits)
  with coupledD(1) [OF c_finish(4)] show ?case
    by (intro coupled_idle [OF c_finish(4)] cfg_inv_step [OF do_finish [OF c_finish(1,2)]]) (auto simp: main_ok_def)
next
  case (c_back s ps g)
  from coupledD(1,5) [OF c_back] show ?case
    by (intro coupled_idle [OF c_back] cfg_inv_step [OF do_back]) (auto simp: scheduler_swapped_def main_ok_def)
next
  case (c_tick s ucp l d s' ps g)
  show ?case by (rule coupled_tick [OF c_tick(5,1-4)])
qed

lemma coupled_init: "coupled (cinit p0 g0)"
  unfolding cinit_def
proof (rule coupledI)
  show "cfg_inv (User [], sys0)" by (rule cfg.reachable_inv [OF start_sys0])
  show "main_ok (User []) sys0 ((\<lambda>_. Unborn)(UTH_TID_INVALID := At p0))" by (simp add: main_ok_def sys0_def)
  show "next_tid sys0 \<le> i \<Longrightarrow> ((\<lambda>_. Unborn)(UTH_TID_INVALID := At p0)) i = Unborn" for i
    using next_tid_pos [OF sys0_inv] by auto
qed (auto simp: sys0_def)

lemma creachable_coupled: "creachable P p0 g0 c \<Longrightarrow> coupled c"
  by (induction rule: creachable.induct) (auto intro: coupled_init coupled_step)

section \<open>Cooperative programs\<close>

text \<open>
  A cooperative program never has the timer running, so between the two steps of a \<open>uth_create\<close> nothing else happens, and
  the second one still finds the thread that the first one made.
\<close>

definition prompt :: "('p, 'g) cconfig \<Rightarrow> bool" where
  "prompt c \<longleftrightarrow> (case c of ((l, s), ps, g) \<Rightarrow> \<not> sigalrm_handler s \<and>
     (\<forall>i j p. ps i = Made j p \<longrightarrow> (\<exists>x t. l = User [F_create_ret x] \<and> i = self_tid s \<and> heap s x = Some t \<and> tcb_tid t = j)))"

lemma promptD:
  assumes "prompt ((l, s), ps, g)"
  shows "\<not> sigalrm_handler s" "ps i = Made j p \<Longrightarrow> \<exists>x t. l = User [F_create_ret x] \<and> i = self_tid s \<and> heap s x = Some t \<and> tcb_tid t = j"
  using assms by (auto simp: prompt_def)

lemma prompt_none: "\<lbrakk>\<not> sigalrm_handler s; \<And>i j p. ps i \<noteq> Made j p\<rbrakk> \<Longrightarrow> prompt ((l, s), ps, g)"
  by (simp add: prompt_def)

lemma timer_off_objs: "\<lbrakk>obj_at RqHead s' = obj_at RqHead s; \<not> sigalrm_handler s\<rbrakk> \<Longrightarrow> \<not> sigalrm_handler s'"
  by simp

lemma timer_off_call:
  assumes "api_call a s = Ok (d, s')" and "\<not> is_preempt_enable a" and "\<not> sigalrm_handler s"
  shows "\<not> sigalrm_handler s'"
proof -
  have "RqHead \<notin> footprint a" using assms(2) by (cases a) simp_all
  from timer_off_objs [OF call_obj_at [OF assms(1) this] assms(3)] show ?thesis .
qed

lemma timer_off_resume:
  assumes "resume_frame f k s = Ok (d, s')" and "\<not> sigalrm_handler s"
  shows "\<not> sigalrm_handler s'"
proof (cases "f = F_preempt_disable")
  case False
  then have "RqHead \<notin> frame_footprint f" by (cases f) simp_all
  with objs_offD(1) [OF resume_frame_frame [OF assms(1)], of RqHead] assms(2) show ?thesis by simp
qed (use assms in \<open>auto simp: preempt_disable_end_def\<close>)

lemma after_not_made:
  assumes "\<And>f. d = Remains f \<Longrightarrow> \<not> creating f" and "\<And>j p. q \<noteq> Made j p"
  shows "after P n d k q \<noteq> Made j p"
  using assms
  by (cases "(P, n, d, k, q)" rule: after.cases; cases q) (auto split: frame.splits)

lemma issued_not_made: "issued a p \<noteq> Made j q"
  by (cases a) simp_all

lemma prompt_call:
  assumes C: "coupled ((User [], s), ps, g)" and I: "prompt ((User [], s), ps, g)" and e: "env_ok a s" and res: "api_call a s = Ok (d, s')"
    and a: "\<not> is_preempt_enable a"
  shows "prompt ((transfer d [], s'), spawn a d (next_tid s) (ps(self_tid s := after P (next_tid s) d [] (issued a p))), g')"
proof -
  from coupledD(1) [OF C] obtain rq wq where inv: "lib_inv s rq wq" and u: "user_inv [] s" by (auto elim: lib_okE)
  note c = user_inv_caller [OF u]
  note off = timer_off_call [OF res a promptD(1) [OF I]]
  have none: "ps i \<noteq> Made j q" for i j q using promptD(2) [OF I, of i j q] by auto
  show ?thesis
  proof (cases "is_create a \<and> (\<exists>x. d = Remains (F_create_ret x))")
    case False
    then have d: "d = Remains f \<Longrightarrow> \<not> creating f \<and> \<not> is_create a" for f by (cases rule: call_ctl [OF inv c e res]) auto
    then have "spawn a d i ps' = ps'" for i and ps' :: "u32 \<Rightarrow> 'a pos" by (cases "(a, d, i, ps')" rule: spawn.cases) auto
    moreover have "after P (next_tid s) d [] (issued a p) \<noteq> Made j q" for j q by (rule after_not_made [OF _ issued_not_made]) (use d in blast)
    ultimately show ?thesis using none by (intro prompt_none [OF off]) auto
  next
    case True
    then obtain fn arg n env x stk sz where k: "a = A_create fn arg n env" "d = Remains (F_create_ret x)" "heap s x = None" "uth_current s' = uth_current s"
        "heap (erase s') = (heap (erase s))(x \<mapsto> new_tcb fn arg stk sz x (next_tid s))"
      by (auto elim: create_call [OF inv _ e res])
    have "heap (erase s') x = Some (new_tcb fn arg stk sz x (next_tid s))" using k(5) by simp
    then obtain t where t: "heap s' x = Some t" "new_tcb fn arg stk sz x (next_tid s) = t\<lparr>tcb_next := NULL\<rparr>" unfolding heap_erase_iff by blast
    from arg_cong [OF t(2), of tcb_tid] have tid: "tcb_tid t = next_tid s" by simp
    have "self_tid s' = self_tid s"
    proof (cases "uth_current s = NULL")
      case False
      with c obtain v where v: "heap s (uth_current s) = Some v" by (auto simp: caller_def running_def)
      moreover have "heap (erase s') (uth_current s) = heap (erase s) (uth_current s)" using k(3,5) v by auto
      ultimately show ?thesis using k(4) False by (auto elim!: same_thread [of s "uth_current s" v s'] simp: self_tid_def)
    qed (use k(4) in \<open>simp add: self_tid_def\<close>)
    with none off k(1,2) t(1) tid show ?thesis by (auto simp: prompt_def split: if_splits)
  qed
qed

lemma prompt_resume:
  assumes C: "coupled ((User (f # k), s), ps, g)" and I: "prompt ((User (f # k), s), ps, g)" and res: "resume_frame f k s = Ok (d, s')"
  shows "prompt ((transfer d k, s'), ps(self_tid s := after P (next_tid s) d k (ps (self_tid s))), g)"
proof (rule prompt_none)
  from coupledD(1) [OF C] obtain rq wq where inv: "lib_inv s rq wq" and u: "user_inv (f # k) s" by (auto elim: lib_okE)
  show "\<not> sigalrm_handler s'" by (rule timer_off_resume [OF res promptD(1) [OF I]])
  have d: "d = Remains h \<Longrightarrow> \<not> creating h" for h by (cases rule: resume_ctl [OF inv u res]) auto
  fix i j p
  show "(ps(self_tid s := after P (next_tid s) d k (ps (self_tid s)))) i \<noteq> Made j p"
  proof (cases "\<exists>x. f = F_create_ret x \<and> k = []")
    case True
    with res obtain r where "d = Return r" by (auto simp: uth_create_ret_def ok_iff)
    moreover have "\<exists>j p. ps (self_tid s) = Made j p" using True by (auto intro: coupled_current [OF C])
    ultimately show ?thesis using promptD(2) [OF I, of i j p] True by (auto split: if_splits)
  next
    case False
    then have none: "ps i \<noteq> Made j q" for i j q using promptD(2) [OF I, of i j q] by auto
    with after_not_made [of d "ps (self_tid s)" P "next_tid s" k j p] d show ?thesis by simp
  qed
qed

lemma prompt_step: "\<lbrakk>cstep P c c'; cooperative P; coupled c; prompt c\<rbrakk> \<Longrightarrow> prompt c'"
proof (induction rule: cstep.induct)
  case (c_compute ps s p e g g' p')
  then show ?case by (auto simp: prompt_def)
next
  case (c_call ps s p e g a g' p' d s')
  from c_call(2,5) have "\<not> is_preempt_enable a" unfolding cooperative_def by blast
  from prompt_call [OF c_call(6,7,3,4) this] show ?case .
next
  case (c_exit ps s p e g v g' d s')
  from timer_off_call [OF c_exit(4)] promptD [OF c_exit(7)] show ?case by (intro prompt_none) (auto split: if_splits)
next
  case (c_resume f k s d s' ps g)
  show ?case by (rule prompt_resume [OF c_resume(3,4,1)])
next
  case (c_run ps s p e g g' p' bp sp s')
  from c_run(4) have "sigalrm_handler s' = sigalrm_handler s" by (auto simp: uth_run_def uth_run_body_def)
  with promptD [OF c_run(7)] show ?case by (intro prompt_none) (auto split: if_splits)
next
  case (c_entry s ps g)
  from promptD [OF c_entry(3)] show ?case by (intro prompt_none) (auto simp: scheduler_entry_def)
next
  case (c_pick s k s' ps g)
  from timer_off_objs [OF objs_offD(1) [OF objs_round [OF c_pick(1)]]] promptD [OF c_pick(4)] show ?case by (intro prompt_none) auto
next
  case (c_idle s s' ps g)
  from timer_off_objs [OF objs_offD(1) [OF objs_round [OF c_idle(1)]]] promptD [OF c_idle(4)] show ?case by (intro prompt_none) auto
next
  case (c_finish s s1 bp sp s' ps p g)
  have "sigalrm_handler s' = sigalrm_handler s1" using c_finish(2) by (auto simp: uth_run_linked_def uth_run_body_def split: if_splits)
  with timer_off_objs [OF objs_offD(1) [OF objs_round [OF c_finish(1)]]] promptD [OF c_finish(6)] show ?case
    by (intro prompt_none) (auto split: if_splits)
next
  case (c_back s ps g)
  from promptD [OF c_back(3)] show ?case by (intro prompt_none) (auto simp: scheduler_swapped_def)
next
  case (c_tick s ucp l d s' ps g)
  with promptD(1) [OF c_tick(7)] show ?case by (simp add: tick_pending_def)
qed

lemma creachable_prompt: "\<lbrakk>creachable P p0 g0 c; cooperative P\<rbrakk> \<Longrightarrow> prompt c"
proof (induction rule: creachable.induct)
  case c_start
  show ?case by (simp add: cinit_def prompt_none sys0_def)
next
  case (c_next c c')
  with prompt_step [OF c_next(2,4) creachable_coupled [OF c_next(1)]] show ?case by simp
qed

section \<open>What calls do to the abstract objects\<close>

definition views :: "sys \<Rightarrow> objects" where
  "views s = (mtx_view s, sem_view s)"

definition objects_ok :: "sys \<Rightarrow> bool" where
  "objects_ok s \<longleftrightarrow> (\<forall>q. obj_ok (obj_at q s))"

lemma views_frame:
  assumes "\<And>q. q \<notin> F \<Longrightarrow> obj_at q s' = obj_at q s"
  shows "MutexWaiters m \<notin> F \<Longrightarrow> mtx_view s' m = mtx_view s m" "SemWaiters m \<notin> F \<Longrightarrow> sem_view s' m = sem_view s m"
  using assms [of "MutexWaiters m"] assms [of "SemWaiters m"] by (simp_all add: mtx_view_def sem_view_def)

lemma views_same:
  assumes "\<And>q. q \<notin> F \<Longrightarrow> obj_at q s' = obj_at q s" and "\<And>m. MutexWaiters m \<notin> F" "\<And>m. SemWaiters m \<notin> F"
  shows "views s' = views s"
  using views_frame [of F s' s, OF assms(1)] assms(2,3) by (auto simp: views_def fun_eq_iff)

lemma views_mutex:
  assumes "\<And>q. q \<notin> F \<Longrightarrow> obj_at q s' = obj_at q s" and "\<And>n. MutexWaiters n \<in> F \<Longrightarrow> n = m" "\<And>m. SemWaiters m \<notin> F"
  shows "views s' = ((mtx_view s)(m := mtx_view s' m), sem_view s)"
  using views_frame [of F s' s, OF assms(1)] assms(2,3) by (auto simp: views_def fun_eq_iff)

lemma views_sem:
  assumes "\<And>q. q \<notin> F \<Longrightarrow> obj_at q s' = obj_at q s" and "\<And>n. SemWaiters n \<in> F \<Longrightarrow> n = m" "\<And>m. MutexWaiters m \<notin> F"
  shows "views s' = (mtx_view s, (sem_view s)(m := sem_view s' m))"
  using views_frame [of F s' s, OF assms(1)] assms(2,3) by (auto simp: views_def fun_eq_iff)

lemma views_objs: "objs s' = objs s \<Longrightarrow> views s' = views s"
  by (rule views_same [of "{}"]) (auto dest: objs_offD(1))

lemma may_unlock_owner:
  assumes "objects_ok s" and "mutexes s m = Some x" and "mtx_owner x = i"
  shows "may_unlock i (mtx_view s m)"
  using assms spec [OF assms(1) [unfolded objects_ok_def], of "MutexWaiters m"] by (auto simp: may_unlock_def mtx_view_def)

fun takes_effect_later :: "api \<Rightarrow> bool" where
  "takes_effect_later a = (case issued a () of Await b p \<Rightarrow> True | _ \<Rightarrow> False)"

text \<open>A call that returns has taken effect; one that gave control away has only been made.\<close>

lemma call_views:
  assumes inv: "lib_inv s rq wq" and c: "caller s" and e: "env_ok a s" and ok: "objects_ok s" and res: "api_call a s = Ok (d, s')"
  shows "if takes_effect_later a \<and> d \<noteq> Switched then issue (self_tid s) a (views s) = Some (views s) \<and> complete (self_tid s) a (views s) = Some (views s')
    else issue (self_tid s) a (views s) = Some (views s')"
proof -
  note fr = call_obj_at [OF res]
  show ?thesis
  proof (cases a)
    case (A_mutex_init m)
    have v: "views s' = ((mtx_view s)(m := mtx_view s' m), sem_view s)" by (rule views_mutex [of "footprint a"], erule fr) (use A_mutex_init in auto)
    with A_mutex_init res show ?thesis by (auto simp: uth_mutex_init_def mtx_view_def views_def)
  next
    case (A_mutex_lock m)
    have v: "views s' = ((mtx_view s)(m := mtx_view s' m), sem_view s)" by (rule views_mutex [of "footprint a"], erule fr) (use A_mutex_lock in auto)
    have "uth_mutex_lock m [] s = Ok (d, s')" using res A_mutex_lock by simp
    from mutex_lock_effect [OF inv c _ this] show ?thesis
      unfolding v by (cases; simp) (auto simp: A_mutex_lock mtx_view_def views_def fun_eq_iff)
  next
    case (A_mutex_unlock m)
    have v: "views s' = ((mtx_view s)(m := mtx_view s' m), sem_view s)" by (rule views_mutex [of "footprint a"], erule fr) (use A_mutex_unlock in auto)
    have "uth_mutex_unlock m s = Ok (d, s')" using res A_mutex_unlock by simp
    then obtain x x' where "mutexes s m = Some x" "mtx_owner x = self_tid s" "mutexes s' m = Some x'" "mtx_locked x' = 0" "mtx_owner x' = UTH_TID_INVALID"
      by (rule mutex_unlock_effect [OF inv c])
    with may_unlock_owner [OF ok this(1,2)] v show ?thesis by (simp add: A_mutex_unlock views_def mtx_view_def)
  next
    case (A_cond_wait cv m)
    have v: "views s' = ((mtx_view s)(m := mtx_view s' m), sem_view s)" by (rule views_mutex [of "footprint a"], erule fr) (use A_cond_wait in auto)
    have r: "uth_cond_wait cv m [] s = Ok (d, s')" using res A_cond_wait by simp
    then obtain x x' where "mutexes s m = Some x" "mtx_owner x = self_tid s" "mutexes s' m = Some x'" "mtx_locked x' = 0" "mtx_owner x' = UTH_TID_INVALID"
      by (rule cond_wait_effect [OF inv c])
    with may_unlock_owner [OF ok this(1,2)] v cond_wait_parks [OF inv c r] show ?thesis by (simp add: A_cond_wait views_def mtx_view_def)
  next
    case (A_sem_init p v)
    have w: "views s' = (mtx_view s, (sem_view s)(p := sem_view s' p))" by (rule views_sem [of "footprint a"], erule fr) (use A_sem_init in auto)
    with A_sem_init res show ?thesis by (auto simp: uth_sem_init_def sem_view_def views_def split: if_splits)
  next
    case (A_sem_wait p)
    have v: "views s' = (mtx_view s, (sem_view s)(p := sem_view s' p))" by (rule views_sem [of "footprint a"], erule fr) (use A_sem_wait in auto)
    have "uth_sem_wait p [] s = Ok (d, s')" using res A_sem_wait by simp
    from sem_wait_effect [OF inv c _ this] show ?thesis
      unfolding v by (cases; simp) (auto simp: A_sem_wait sem_view_def views_def fun_eq_iff)
  next
    case (A_sem_post p)
    have v: "views s' = (mtx_view s, (sem_view s)(p := sem_view s' p))" by (rule views_sem [of "footprint a"], erule fr) (use A_sem_post in auto)
    have "uth_sem_post p s = Ok (d, s')" using res A_sem_post by simp
    then obtain x x' where "sems s p = Some x" "sems s' p = Some x'" "sem_value x' = sem_value x + 1" by (rule sem_post_effect [OF inv])
    with v show ?thesis by (simp add: A_sem_post views_def sem_view_def)
  qed (use views_same [of "footprint a", OF fr] in \<open>auto simp: views_def\<close>)
qed

section \<open>Joined threads have ended\<close>

lemma zombie_finished:
  assumes C: "coupled ((l, s), ps, g)" and z: "zombie_tid s tid"
  shows "finished tid ps"
proof (rule ccontr)
  assume n: "\<not> finished tid ps"
  with coupledD(4) [OF C, of tid] obtain x t where t: "heap s x = Some t" "tcb_tid t = tid" by (auto simp: finished_def)
  with z have "tcb_state t = UTH_STATE_ZOMBIE" by (auto simp: zombie_tid_def)
  with coupledD(2) [OF C t(1)] t(2) n show False by (simp add: thread_ok_def finished_def)
qed

lemma join_returns_zombie:
  assumes inv: "lib_inv s rq wq" and c: "caller s" and res: "uth_join tid want [] s = Ok (Return r, s')"
  shows "zombie_tid s tid"
proof (rule ccontr)
  assume "\<not> zombie_tid s tid"
  then obtain y u where u: "heap s y = Some u" "tcb_tid u = tid" "tcb_state u \<noteq> UTH_STATE_ZOMBIE" by (auto simp: zombie_tid_def)
  have nz: "uth_current s \<noteq> NULL" using uth_join_outside [OF lib_invD(3) [OF inv] _ u, of want "[]"] res by auto
  from caller_runs [OF c nz] obtain t where "runs s (uth_current s) t" by blast
  from uth_join_block [OF inv this u, of want] res show False by auto
qed

lemma call_join_ok:
  assumes C: "coupled ((User [], s), ps, g)" and res: "api_call a s = Ok (Return r, s')" and at: "ps (self_tid s) = At p"
  shows "join_ok a (ps(self_tid s := q))"
proof (cases a)
  case (A_join tid want)
  from coupledD(1) [OF C] obtain rq wq where inv: "lib_inv s rq wq" and u: "user_inv [] s" by (auto elim: lib_okE)
  have "finished tid ps"
    by (rule zombie_finished [OF C join_returns_zombie [OF inv user_inv_caller [OF u]]]) (use res A_join in auto)
  with at A_join show ?thesis by (auto simp: finished_def)
qed simp_all

lemma resume_join_ok:
  assumes C: "coupled ((User (F_join tid want old # k), s), ps, g)"
  shows "finished tid ps"
proof -
  from coupledD(1) [OF C] have "user_inv (F_join tid want old # k) s" by simp
  then have "ctx_ok (erase s) True (uth_current s) (sigmask s) (F_join tid want old # k)" by (simp add: user_inv_def split: if_splits)
  then have "zombie_tid s tid" by (auto simp: ctx_ok_def zombie_tid_erase)
  with zombie_finished [OF C] show ?thesis by blast
qed

section \<open>The simulation\<close>

lemma sim_return:
  assumes "ps i = Done p" and "views s' = views s"
  shows "astep P (abstr ((l, s), ps, g)) (abstr ((l', s'), ps(i := At (p_ret P p r)), g))"
  using a_return [of "abstr ((l, s), ps, g)" i p P r] assms by (simp add: place_def views_def)

lemma sim_complete:
  assumes "ps i = Await a p" and "join_ok a ps" and "complete i a (views s) = Some (views s')"
  shows "astep P (abstr ((l, s), ps, g)) (abstr ((l', s'), ps(i := Done p), g))"
  using a_complete [of "abstr ((l, s), ps, g)" i a p "views s'" P] assms by (simp add: place_def with_objects_def views_def)

lemma sim_issue:
  assumes "ps i = At p" and "p_code P e p g = Ok (Call a g' p')" and "\<not> is_create a" and "issue i a (views s) = Some (views s')"
  shows "astep P (abstr ((l, s), ps, g)) (abstr ((l', s'), ps(i := issued a p'), g'))"
  using assms a_issue [of "abstr ((l, s), ps, g)" i p P e a g' p' "views s'"] assms by (simp add: place_def with_objects_def views_def)

lemma sim_effect:
  assumes "ps i = Await a p" and "join_ok a ps" and "complete i a (views s) = Some (views s')"
  shows "(astep P)\<^sup>*\<^sup>* (abstr ((l, s), ps, g)) (abstr ((l', s'), ps(i := At (p_ret P p r)), g))"
proof (rule converse_rtranclp_into_rtranclp)
  show "astep P (abstr ((l, s), ps, g)) (abstr ((l', s'), ps(i := Done p), g))" by (rule sim_complete [of ps i a p s s', OF assms])
  show "(astep P)\<^sup>*\<^sup>* (abstr ((l', s'), ps(i := Done p), g)) (abstr ((l', s'), ps(i := At (p_ret P p r)), g))"
    using sim_return [of "ps(i := Done p)" i p s' s' P l' g l' r] by simp
qed

lemma issued_cases:
  obtains "issued a p = Await a p" "takes_effect_later a" | "issued a p = Done p" "\<not> takes_effect_later a"
    | v where "a = A_exit v" "issued a p = Ended" "\<not> takes_effect_later a"
  by (cases a) auto

lemma sim_create:
  assumes C: "coupled ((User [], s), ps, g)" and at: "ps (self_tid s) = At p" "p_code P e p g = Ok (Call a g' p')"
    and a: "a = A_create fn arg n env" and en: "env_ok a s" and res: "api_call a s = Ok (d, s')"
  shows "astep P (abstr ((User [], s), ps, g)) (abstr ((transfer d [], s'), spawn a d (next_tid s) (ps(self_tid s := after P (next_tid s) d [] (issued a p'))), g'))"
proof -
  from coupledD(1) [OF C] obtain rq wq where inv: "lib_inv s rq wq" by (auto elim: lib_okE)
  have vw: "views s' = views s" by (rule views_same [of "{}"]) (use call_obj_at [OF res] a in auto)
  have new: "ps (next_tid s) = Unborn" by (rule coupledD(3) [OF C]) simp
  have c: "heap s (env_calloc env) = None" "uth_create fn arg n env s = Ok (d, s')" using a en res by simp_all
  show ?thesis
  proof (cases rule: create_effect [OF inv c])
    case 1
    with a_no_create [of "abstr ((User [], s), ps, g)" "self_tid s" p P e fn arg n env g' p'] at a vw show ?thesis
      by (simp add: place_def views_def)
  next
    case 2
    with a_create [of "abstr ((User [], s), ps, g)" "self_tid s" p P e fn arg n env g' p' "next_tid s"] new at a vw show ?thesis
      by (simp add: place_def views_def)
  qed
qed

lemma sim_call:
  assumes I: "coupled ((User [], s), ps, g)" "objects_ok s" and at: "ps (self_tid s) = At p" "p_code P e p g = Ok (Call a g' p')"
    and nc: "\<not> is_create a" and en: "env_ok a s" and res: "api_call a s = Ok (d, s')"
  shows "(astep P)\<^sup>+\<^sup>+ (abstr ((User [], s), ps, g)) (abstr ((transfer d [], s'), ps(self_tid s := after P (next_tid s) d [] (issued a p')), g'))"
proof -
  let ?i = "self_tid s"
  from coupledD(1) [OF I(1)] obtain rq wq where inv: "lib_inv s rq wq" and u: "user_inv [] s" by (auto elim: lib_okE)
  note c = user_inv_caller [OF u]
  note v = call_views [OF inv c en I(2) res]
  show ?thesis
  proof (cases rule: call_ctl [OF inv c en res])
    case 1
    then have "issue ?i a (views s) = Some (views s')" using v by simp
    with sim_issue [of ps ?i p P e g a g' p' s s' "User []" "transfer d []"] at nc 1 show ?thesis by (auto intro: tranclp.r_into_trancl)
  next
    case (2 r)
    show ?thesis
    proof (cases rule: issued_cases [of a p'])
      case 1
      then have "issue ?i a (views s) = Some (views s)" "complete ?i a (views s) = Some (views s')" using v 2 by simp_all
      moreover have "join_ok a (ps(?i := issued a p'))" using call_join_ok [OF I(1) _ at(1)] res 2(1) by blast
      ultimately have "astep P (abstr ((User [], s), ps, g)) (abstr ((User [], s), ps(?i := issued a p'), g'))"
        and "(astep P)\<^sup>*\<^sup>* (abstr ((User [], s), ps(?i := issued a p'), g')) (abstr ((User [], s'), ps(?i := At (p_ret P p' r)), g'))"
        using sim_issue [of ps ?i p P e g a g' p' s s "User []" "User []"] sim_effect [of "ps(?i := issued a p')" ?i a p' s s' P "User []" g' "User []" r] at nc 1
        by simp_all
      with rtranclp_into_tranclp2 [OF this] 1 2 show ?thesis by simp
    next
      case y: 2
      then have "issue ?i a (views s) = Some (views s')" using v by simp
      with sim_issue [of ps ?i p P e g a g' p' s s' "User []" "User []"] sim_return [of "ps(?i := Done p')" ?i p' s' s' P "User []" g' "User []" r] at nc y
      have "astep P (abstr ((User [], s), ps, g)) (abstr ((User [], s'), ps(?i := Done p'), g'))"
        and "astep P (abstr ((User [], s'), ps(?i := Done p'), g')) (abstr ((User [], s'), ps(?i := At (p_ret P p' r)), g'))" by simp_all
      with tranclp.trancl_into_trancl [of "astep P", OF tranclp.r_into_trancl [of "astep P"]] y 2 show ?thesis by simp
    qed (use 2 in simp)
  next
    case (4 f)
    then have i: "issued a p' = Done p'" "issue ?i a (views s) = Some (views s')" using v by auto
    with sim_issue [of ps ?i p P e g a g' p' s s' "User []" "User [f]"] at nc 4 show ?thesis by (auto intro: tranclp.r_into_trancl)
  qed (use nc in simp)
qed

text \<open>A suspended call that continues is suspended again, or takes effect, or returns.\<close>

lemma resume_views_same:
  assumes "resume_frame f k s = Ok (d, s')" and "\<And>m. MutexWaiters m \<notin> frame_footprint f" "\<And>m. SemWaiters m \<notin> frame_footprint f"
  shows "views s' = views s"
  by (rule views_same [of "frame_footprint f"]) (use assms objs_offD(1) [OF resume_frame_frame] in auto)

lemma resume_views_mutex:
  assumes inv: "lib_inv s rq wq" and u: "user_inv (f # k) s" and res: "resume_frame f k s = Ok (d, s')"
    and f: "f = F_mutex_lock m old \<or> f = F_cond_wait cv m old"
  shows "if d = Switched then views s' = views s
    else d = Return RetVoid \<and> mtx_view s m = Some None \<and> views s' = ((mtx_view s)(m \<mapsto> Some (self_tid s)), sem_view s)"
proof -
  have st: "stack_ok (sigmask s) (f # k)" using u by (auto simp: user_inv_def ctx_ok_def split: if_splits)
  note c = user_inv_caller [OF u]
  have v: "views s' = ((mtx_view s)(m := mtx_view s' m), sem_view s)"
    by (rule views_mutex [of "frame_footprint f"], rule objs_offD(1) [OF resume_frame_frame [OF res]]) (use f in auto)
  from f show ?thesis
  proof
    assume f: "f = F_mutex_lock m old"
    then have "sigmask s" "caller_ok old k" "mutex_lock_loop m old k s = Ok (d, s')" using st res by simp_all
    from mutex_loop_effect [OF inv c this] show ?thesis
      unfolding v by (cases; simp) (auto simp: mtx_view_def views_def fun_eq_iff)
  next
    assume f: "f = F_cond_wait cv m old"
    with st res obtain d1 s1 where s1: "uth_mutex_lock m [F_cond_relock old] s = Ok (d1, s1)" "sigmask s"
        "(if d1 = Return RetVoid then uth_cond_relocked old s1 else Ok (d1, s1)) = Ok (d, s')"
      by (auto simp: uth_cond_wait_resumed_def ok_iff)
    have "caller_ok (sigmask s) [F_cond_relock old]" using s1(2) by simp
    from mutex_lock_effect [OF inv c this s1(1)] s1(3) show ?thesis
      unfolding v by (cases; simp) (auto simp: mtx_view_def views_def fun_eq_iff uth_cond_relocked_def uth_preempt_restore_def simp del: map_option_eq_Some)
  qed
qed

lemma resume_views_sem:
  assumes inv: "lib_inv s rq wq" and u: "user_inv (F_sem_wait p old # k) s" and res: "resume_frame (F_sem_wait p old) k s = Ok (d, s')"
  shows "if d = Switched then views s' = views s
    else d = Return RetVoid \<and> (\<exists>v. sem_view s p = Some v \<and> 0 < v \<and> views s' = (mtx_view s, (sem_view s)(p \<mapsto> v - 1)))"
proof -
  have v: "views s' = (mtx_view s, (sem_view s)(p := sem_view s' p))"
    by (rule views_sem [of "{SemWaiters p}"]) (use objs_offD(1) [OF resume_frame_frame [OF res]] in auto)
  have "sigmask s" "caller_ok old k" "sem_wait_loop p old k s = Ok (d, s')"
    using u res by (auto simp: user_inv_def ctx_ok_def split: if_splits)
  from sem_loop_effect [OF inv user_inv_caller [OF u] this] show ?thesis
    unfolding v by (cases; simp) (auto simp: sem_view_def views_def fun_eq_iff)
qed

lemma sim_same: "\<lbrakk>q = ps i; views s' = views s\<rbrakk> \<Longrightarrow> (astep P)\<^sup>*\<^sup>* (abstr ((l, s), ps, g)) (abstr ((l', s'), ps(i := q), g))"
  by (auto simp: views_def)

lemma sim_created:
  assumes "ps i = Made j p" and "r \<noteq> UTH_TID_INVALID" and "cooperative P \<Longrightarrow> r = j"
  shows "astep P (abstr ((l, s), ps, g)) (abstr ((l', s), ps(i := At (p_ret P p (RetTid r))), g))"
  using a_created [of "abstr ((l, s), ps, g)" i j p r P] assms by (simp add: place_def)

lemma sim_returns:
  assumes "views s' = views s" and "ps i = Done p \<or> ps i = Await a p \<and> join_ok a ps \<and> complete i a (views s) = Some (views s)"
  shows "(astep P)\<^sup>*\<^sup>* (abstr ((l, s), ps, g)) (abstr ((l', s'), ps(i := after P n (Return r) [] (ps i)), g))"
  using assms sim_return [of ps i p s' s P l g l' r] sim_effect [of ps i a p s s' P l g l' r] by auto

text \<open>The frames of a function that works on no mutex and no semaphore.\<close>

lemma sim_resume_plain:
  assumes v: "views s' = views s" and q: "pos_ok fn arg (f # k) (ps i)" and st: "stack_ok b (f # k)"
    and f: "\<And>hi lo. f \<noteq> F_trampoline hi lo" "\<And>x. f \<noteq> F_create_ret x" "\<And>m. MutexWaiters m \<notin> frame_footprint f" "\<And>m. SemWaiters m \<notin> frame_footprint f"
    and j: "\<And>tid want old. f = F_join tid want old \<Longrightarrow> finished tid ps"
  shows "(astep P)\<^sup>*\<^sup>* (abstr ((l, s), ps, g)) (abstr ((l', s'), ps(i := after P n (Return r) k (ps i)), g))"
proof (cases "k = []")
  case True
  with q st f j have "\<exists>p a. ps i = Done p \<or> ps i = Await a p \<and> join_ok a ps \<and> complete i a (views s) = Some (views s)" by (cases f) auto
  then obtain p a where "ps i = Done p \<or> ps i = Await a p \<and> join_ok a ps \<and> complete i a (views s) = Some (views s)" by blast
  from sim_returns [of s' s ps i p a, OF v this] True show ?thesis by simp
next
  case False
  with q st f obtain old where y: "f = F_yield old" "caller_ok old k" by (cases f) auto
  from y(2) have "after P n (Return r) k (ps i) = ps i" by (rule caller_ok_cases) (use False q y(1) in auto)
  with v show ?thesis by (intro sim_same)
qed

lemma sim_resume_mutex:
  assumes v: "mtx_view s m = Some None" "views s' = ((mtx_view s)(m \<mapsto> Some i), sem_view s)"
    and f: "f = F_mutex_lock m old \<or> f = F_cond_wait cv m old" and q: "pos_ok fn arg (f # k) (ps i)" and st: "stack_ok b (f # k)"
  shows "(astep P)\<^sup>*\<^sup>* (abstr ((l, s), ps, g)) (abstr ((l', s'), ps(i := after P n (Return r) k (ps i)), g))"
proof -
  have c: "complete i (A_mutex_lock m) (views s) = Some (views s')" "complete i (A_cond_wait c m) (views s) = Some (views s')" for c
    using v by (simp_all add: views_def)
  consider p where "ps i = Await (A_mutex_lock m) p" "k = []"
    | c p old' where "ps i = Await (A_cond_wait c m) p" "k = [F_cond_relock old']"
    | p where "ps i = Await (A_cond_wait cv m) p" "k = []"
    using f q st by (auto split: if_splits)
  then show ?thesis
  proof cases
    case (1 p)
    with sim_effect [of ps i "A_mutex_lock m" p s s' P l g l' r] c show ?thesis by simp
  next
    case (2 c p old')
    with sim_complete [of ps i "A_cond_wait c m" p s s' P l g l'] c show ?thesis by simp
  next
    case (3 p)
    with sim_effect [of ps i "A_cond_wait cv m" p s s' P l g l' r] c show ?thesis by simp
  qed
qed

lemma sim_resume:
  assumes C: "coupled ((User (f # k), s), ps, g)" and prompt: "cooperative P \<Longrightarrow> prompt ((User (f # k), s), ps, g)"
    and res: "resume_frame f k s = Ok (d, s')"
  shows "(astep P)\<^sup>*\<^sup>* (abstr ((User (f # k), s), ps, g)) (abstr ((transfer d k, s'), ps(self_tid s := after P (next_tid s) d k (ps (self_tid s))), g))"
proof -
  let ?i = "self_tid s"
  from coupledD(1) [OF C] obtain rq wq where inv: "lib_inv s rq wq" and u: "user_inv (f # k) s" by (auto elim: lib_okE)
  have st: "stack_ok (sigmask s) (f # k)" using u by (auto simp: user_inv_def ctx_ok_def split: if_splits)
  obtain fn arg where q: "pos_ok fn arg (f # k) (ps ?i)" "\<And>t. heap s (uth_current s) = Some t \<Longrightarrow> fn = tcb_fn t \<and> arg = tcb_arg t"
    by (rule coupled_current [OF C]) (use lib_heap_not_NULL [OF inv] in auto)
  note same = resume_views_same [OF res] and mutex = resume_views_mutex [OF inv u res]
  show ?thesis
  proof (cases rule: resume_ctl [OF inv u res])
    case 1
    have "views s' = views s"
    proof (cases f)
      case (F_mutex_lock m old)
      with mutex [of m old] 1 show ?thesis by simp
    next
      case (F_cond_wait cv m old)
      with mutex [of m old cv] 1 show ?thesis by simp
    next
      case (F_sem_wait p old)
      with resume_views_sem [of s rq wq p old k d s'] inv u res 1 show ?thesis by simp
    qed (use same in simp_all)
    with 1 show ?thesis by (intro sim_same) simp_all
  next
    case (2 r)
    consider m old cv where "f = F_mutex_lock m old \<or> f = F_cond_wait cv m old" | p old where "f = F_sem_wait p old"
      | x where "f = F_create_ret x"
      | "\<And>x. f \<noteq> F_create_ret x" "\<And>m. MutexWaiters m \<notin> frame_footprint f" "\<And>m. SemWaiters m \<notin> frame_footprint f" by (cases f) auto
    then show ?thesis
    proof cases
      case f: 1
      have "mtx_view s m = Some None" "views s' = ((mtx_view s)(m \<mapsto> Some ?i), sem_view s)" using mutex [OF f] 2(1) by simp_all
      from sim_resume_mutex [of s m s' ?i f old cv fn arg k ps, OF this f q(1) st] 2(1) show ?thesis by simp
    next
      case f: 2
      with resume_views_sem [of s rq wq p old k d s'] inv u res 2 obtain v where v: "sem_view s p = Some v" "0 < v"
        "views s' = (mtx_view s, (sem_view s)(p \<mapsto> v - 1))" by auto
      from f q(1) obtain p' where "ps ?i = Await (A_sem_wait p) p'" "k = []" by auto
      with sim_effect [of ps ?i "A_sem_wait p" p' s s' P "User (f # k)" g "User k" r] v 2 show ?thesis by (simp add: views_def)
    next
      case f: 3
      with res obtain t where t: "heap s x = Some t" "d = Return (RetTid (tcb_tid t))" "s' = s"
        by (auto simp: uth_create_ret_def ok_iff get_tcb_def split: option.splits if_splits)
      from f q(1) st obtain j p where m: "ps ?i = Made j p" "k = []" by auto
      moreover have "cooperative P \<Longrightarrow> tcb_tid t = j" using promptD(2) [OF prompt m(1)] f t(1) by auto
      ultimately show ?thesis using sim_created [of ps ?i j p "tcb_tid t" P "User (f # k)" s g "User k"] tid_bounds(1) [OF inv t(1)] t(2,3) by simp
    next
      case f: 4
      have j: "f = F_join tid want old \<Longrightarrow> finished tid ps" for tid want old using C resume_join_ok [of tid want old k s ps g] by simp
      from sim_resume_plain [of s' s fn arg f k ps ?i, OF same [OF f(2,3)] q(1) st 2(2) f] j 2(1) show ?thesis by auto
    qed
  next
    case (3 hi lo fn' arg')
    then have k: "k = []" using st by simp
    have nz: "uth_current s \<noteq> NULL" using u 3(1) by (auto simp: user_inv_def)
    have "join_halves hi lo = uth_current s" using u nz 3(1) k by (simp add: user_inv_def ctx_ok_def)
    with 3 res obtain t where "heap s (uth_current s) = Some t" "s' = s" "fn' = tcb_fn t" "arg' = tcb_arg t"
      by (auto simp: thread_trampoline_def ok_iff get_tcb_def split: option.splits if_splits)
    with q 3(1) have "ps ?i = New fn' arg'" by auto
    from a_start [of "abstr ((User (f # k), s), ps, g)" ?i fn' arg' P] this \<open>s' = s\<close> 3(2) show ?thesis by (simp add: place_def)
  next
    case (4 h)
    then show ?thesis by simp
  qed
qed

section \<open>Refinement\<close>

lemma finished_positions:
  assumes C: "coupled ((SchedTop, s), ps, g)" and res: "scheduler_round s = Ok (SchedBreak, s1)" and i: "i \<noteq> UTH_TID_INVALID"
  shows "ps i = Unborn \<or> ps i = Ended"
proof (rule ccontr)
  assume "\<not> ?thesis"
  with coupledD(4) [OF C i] obtain x t where t: "heap s x = Some t" "tcb_tid t = i" by blast
  from coupledD(1) [OF C] obtain rq wq where inv: "lib_inv s rq wq" and nr: "no_running s" by (auto elim: lib_okE)
  have "tcb_state t = UTH_STATE_ZOMBIE"
    by (rule scheduler_round_cases [OF inv nr]) (use res t in auto)
  with coupledD(2) [OF C t(1)] t(2) \<open>\<not> ?thesis\<close> show False by (simp add: thread_ok_def)
qed

lemma sim_step: "\<lbrakk>cstep P c c'; coupled c; cooperative P \<Longrightarrow> prompt c; objects_ok (snd (fst c))\<rbrakk> \<Longrightarrow> (astep P)\<^sup>*\<^sup>* (abstr c) (abstr c')"
proof (induction rule: cstep.induct)
  case (c_compute ps s p e g g' p')
  then show ?case using a_compute [of "abstr ((User [], s), ps, g)" "self_tid s" p P e g' p'] by (simp add: place_def)
next
  case (c_call ps s p e g a g' p' d s')
  show ?case
  proof (cases "is_create a")
    case True
    then obtain fn arg n env where "a = A_create fn arg n env" by (rule is_createE)
    from sim_create [OF c_call(5,1,2) this c_call(3,4)] show ?thesis by simp
  next
    case False
    then have "spawn a d (next_tid s) ps' = ps'" for ps' :: "u32 \<Rightarrow> 'a pos" by (cases a) simp_all
    with tranclp_into_rtranclp [OF sim_call [OF c_call(5) _ c_call(1,2) False c_call(3,4)]] c_call(7) show ?thesis by simp
  qed
next
  case (c_exit ps s p e g v g' d s')
  from coupledD(1) [OF c_exit(5)] obtain rq wq where inv: "lib_inv s rq wq" and u: "user_inv [] s" by (auto elim: lib_okE)
  from call_views [OF inv user_inv_caller [OF u] _ _ c_exit(4)] c_exit(7) have "views s' = views s" by (simp add: views_def)
  with self_of(5) [OF inv user_inv_caller [OF u] c_exit(3)] a_exit [of "abstr ((User [], s), ps, g)" "self_tid s" p P e v g'] c_exit(1,2)
  show ?case by (simp add: place_def views_def)
next
  case (c_resume f k s d s' ps g)
  show ?case by (rule sim_resume [OF c_resume(2,3,1)])
next
  case (c_run ps s p e g g' p' bp sp s')
  have "views s' = views s" using c_run(4) by (auto simp: uth_run_def uth_run_body_def views_def mtx_view_def sem_view_def fun_eq_iff)
  with a_run [of "abstr ((User [], s), ps, g)" p P e g' p'] c_run(1-3) show ?case by (simp add: place_def views_def self_tid_def)
next
  case (c_entry s ps g)
  have "views (scheduler_entry s) = views s" by (simp add: scheduler_entry_def views_def mtx_view_def sem_view_def fun_eq_iff)
  then show ?case by (simp add: views_def)
next
  case (c_pick s k s' ps g)
  with views_objs [OF objs_round [OF c_pick(1)]] show ?case by (simp add: views_def)
next
  case (c_idle s s' ps g)
  with views_objs [OF objs_round [OF c_idle(1)]] show ?case by (simp add: views_def)
next
  case (c_finish s s1 bp sp s' ps p g)
  from pick_inv(3) [OF coupledD(1) [OF c_finish(4)] c_finish(1)] have s: "s1 = s" by simp
  have "views s' = views s"
    using c_finish(2) s by (auto simp: uth_run_linked_def uth_run_body_def views_def mtx_view_def sem_view_def fun_eq_iff split: if_splits)
  with a_run_return [of "abstr ((SchedTop, s), ps, g)" p P] c_finish(3) finished_positions [OF c_finish(4,1)] show ?case
    by (auto simp: place_def views_def)
next
  case (c_back s ps g)
  have "views (scheduler_swapped s) = views s" by (simp add: scheduler_swapped_def views_def mtx_view_def sem_view_def fun_eq_iff)
  then show ?case by (simp add: views_def)
next
  case (c_tick s ucp l d s' ps g)
  with views_objs [OF objs_handler [OF c_tick(4)]] show ?case by (simp add: views_def)
qed

lemma asteps_areachable: "\<lbrakk>(astep P)\<^sup>*\<^sup>* A A'; areachable P p0 g0 A\<rbrakk> \<Longrightarrow> areachable P p0 g0 A'"
  by (induction rule: rtranclp_induct) (auto intro: ar_next)

lemma creachable_areachable: "creachable P p0 g0 c \<Longrightarrow> areachable P p0 g0 (abstr c)"
proof (induction rule: creachable.induct)
  case c_start
  have "abstr (cinit p0 g0) = ainit p0 g0" by (simp add: cinit_def ainit_def mtx_view_def sem_view_def sys0_def fun_eq_iff)
  then show ?case by (simp add: ar_start)
next
  case (c_next c c')
  have "objects_ok (snd (fst c))" using objects.reachable_inv [OF creachable_reachable [OF c_next(1)]] by (simp add: objects_inv_def objects_ok_def)
  from asteps_areachable [OF sim_step [OF c_next(2) creachable_coupled [OF c_next(1)] creachable_prompt [OF c_next(1)] this] c_next(3)] show ?case .
qed

text \<open>An invariant of a program on the abstract machine is one of the program on the library.\<close>

locale client_invariant =
  fixes P :: "('p, 'g) prog" and p0 :: 'p and g0 :: 'g and I :: "('p, 'g) astate \<Rightarrow> bool"
  assumes init: "I (ainit p0 g0)"
    and preserved: "\<lbrakk>I A; astep P A A'\<rbrakk> \<Longrightarrow> I A'"
begin

lemma areachable_inv: "areachable P p0 g0 A \<Longrightarrow> I A"
  by (induction rule: areachable.induct) (auto intro: init preserved)

lemma creachable_inv: "creachable P p0 g0 c \<Longrightarrow> I (abstr c)"
  by (rule areachable_inv [OF creachable_areachable])

end

text \<open>
  The proof rule for such invariants: one law per step of the abstract machine, over the positions, the
  mutexes, the semaphores and the globals.
\<close>

locale client_rules =
  fixes P :: "('p, 'g) prog" and p0 :: 'p and g0 :: 'g
    and I :: "(u32 \<Rightarrow> 'p pos) \<Rightarrow> (ptr \<rightharpoonup> u32 option) \<Rightarrow> (ptr \<rightharpoonup> int) \<Rightarrow> 'g \<Rightarrow> bool"
  assumes start: "I ((\<lambda>_. Unborn)(UTH_TID_INVALID := At p0)) (\<lambda>_. None) (\<lambda>_. None) g0"
    and compute: "\<lbrakk>I ps M S g; ps i = At p; p_code P e p g = Ok (Compute g' p')\<rbrakk> \<Longrightarrow> I (ps(i := At p')) M S g'"
    and call: "\<lbrakk>I ps M S g; ps i = At p; p_code P e p g = Ok (Call a g' p'); \<not> is_create a; issue i a (M, S) = Some (M', S')\<rbrakk> \<Longrightarrow>
      I (ps(i := issued a p')) M' S' g'"
    and create: "\<lbrakk>I ps M S g; ps i = At p; p_code P e p g = Ok (Call (A_create fn arg n env) g' p'); ps j = Unborn; j \<noteq> i\<rbrakk> \<Longrightarrow>
      I (ps(i := Made j p', j := New fn arg)) M S g'"
    and no_create: "\<lbrakk>I ps M S g; ps i = At p; p_code P e p g = Ok (Call (A_create fn arg n env) g' p')\<rbrakk> \<Longrightarrow>
      I (ps(i := At (p_ret P p' (RetTid UTH_TID_INVALID)))) M S g'"
    and effect: "\<lbrakk>I ps M S g; ps i = Await a p; join_ok a ps; complete i a (M, S) = Some (M', S')\<rbrakk> \<Longrightarrow> I (ps(i := Done p)) M' S' g"
    and return: "\<lbrakk>I ps M S g; ps i = Done p\<rbrakk> \<Longrightarrow> I (ps(i := At (p_ret P p r))) M S g"
    and created: "\<lbrakk>I ps M S g; ps i = Made j p; k \<noteq> UTH_TID_INVALID; cooperative P \<Longrightarrow> k = j\<rbrakk> \<Longrightarrow> I (ps(i := At (p_ret P p (RetTid k)))) M S g"
    and thread: "\<lbrakk>I ps M S g; ps i = New fn arg\<rbrakk> \<Longrightarrow> I (ps(i := At (p_start P fn arg))) M S g"
    and exit: "\<lbrakk>I ps M S g; ps i = At p; p_code P e p g = Ok (Finish v g'); i \<noteq> UTH_TID_INVALID\<rbrakk> \<Longrightarrow> I (ps(i := Ended)) M S g'"
    and run: "\<lbrakk>I ps M S g; ps UTH_TID_INVALID = At p; p_code P e p g = Ok (RunSched g' p')\<rbrakk> \<Longrightarrow> I (ps(UTH_TID_INVALID := InRun p')) M S g'"
    and run_return: "\<lbrakk>I ps M S g; ps UTH_TID_INVALID = InRun p; \<And>i. i \<noteq> UTH_TID_INVALID \<Longrightarrow> ps i = Unborn \<or> ps i = Ended\<rbrakk> \<Longrightarrow>
      I (ps(UTH_TID_INVALID := At (p_ret P p RetVoid))) M S g"
begin

abbreviation holds :: "('p, 'g) astate \<Rightarrow> bool" where
  "holds A \<equiv> I (a_pos A) (a_mtx A) (a_sem A) (a_glob A)"

lemma holds_step:
  assumes I: "holds A" and st: "astep P A A'"
  shows "holds A'"
  using st
proof (cases rule: astep.cases)
  case (a_issue i p e a g' p' x)
  with call [OF I, of i p e a g' p' "fst x" "snd x"] show ?thesis by (simp add: place_def with_objects_def)
next
  case (a_create i p e fn arg n env g' p' j)
  then have "j \<noteq> i" by auto
  with create [OF I a_create(2-4)] a_create(1) show ?thesis by (simp add: place_def)
next
  case (a_complete i a p x)
  with effect [OF I, of i a p "fst x" "snd x"] show ?thesis by (simp add: place_def with_objects_def)
qed (use I in \<open>auto simp: place_def intro: compute no_create return created thread exit run run_return\<close>)

end

sublocale client_rules \<subseteq> client_invariant P p0 g0 holds
  by unfold_locales (auto simp: ainit_def start intro: holds_step)

end
