(* ===== verification/Uth_Clib.thy ===== *)
theory Uth_Clib
  imports Uth_Sim Uth_Exec "HOL-Library.Signed_Division"
begin

text \<open>
  What the models of the client programs share: \<open>int\<close> arithmetic and arrays of C, sums over all threads for
  counting arguments, and an evaluator for concrete runs.
\<close>

section \<open>C arithmetic and arrays\<close>

text \<open>The result of an \<open>int\<close> operation, whose overflow is undefined behaviour.\<close>

definition c_int :: "int \<Rightarrow> int res" where
  "c_int v = (if - INT_MAX - 1 \<le> v \<and> v \<le> INT_MAX then Ok v else Fault SignedOverflow)"

text \<open>The same for \<open>long\<close>.\<close>

definition c_long :: "int \<Rightarrow> int res" where
  "c_long v = (if - (2 ^ 63) \<le> v \<and> v < 2 ^ 63 then Ok v else Fault SignedOverflow)"

definition c_div :: "int \<Rightarrow> int \<Rightarrow> int res" where
  "c_div a b = (if b = 0 then Fault DivisionByZero else c_int (a sdiv b))"

definition c_mod :: "int \<Rightarrow> int \<Rightarrow> int res" where
  "c_mod a b = and_then (c_div a b) (\<lambda>_. Ok (a smod b))"

definition arr_get :: "'a list \<Rightarrow> int \<Rightarrow> 'a res" where
  "arr_get xs i = (if 0 \<le> i \<and> i < int (length xs) then Ok (xs ! nat i) else Fault OutOfBounds)"

definition arr_put :: "'a list \<Rightarrow> int \<Rightarrow> 'a \<Rightarrow> 'a list res" where
  "arr_put xs i v = (if 0 \<le> i \<and> i < int (length xs) then Ok (xs[nat i := v]) else Fault OutOfBounds)"

text \<open>The address of an element of an array, and a read from memory that may not be allocated.\<close>

definition elem_at :: "ptr \<Rightarrow> nat \<Rightarrow> int \<Rightarrow> ptr" where
  "elem_at base sz i = base + of_int (int sz * i)"

definition mem_get :: "('k \<rightharpoonup> 'v) \<Rightarrow> 'k \<Rightarrow> 'v res" where
  "mem_get m k = (case m k of None \<Rightarrow> Fault UseAfterFree | Some v \<Rightarrow> Ok v)"

text \<open>
  \<open>argc > k ? atoi(argv[k]) : d\<close>, where \<open>args\<close> are the numbers that the arguments denote, without the program
  name. The result of \<open>atoi\<close> is undefined if it is not an \<open>int\<close>.
\<close>

definition arg_or :: "int list \<Rightarrow> nat \<Rightarrow> int \<Rightarrow> int res" where
  "arg_or args k d = (if k \<le> length args then c_int (args ! (k - 1)) else Ok d)"

text \<open>Different elements of an array have different addresses.\<close>

lemma elem_at_inj:
  assumes "elem_at a sz x = elem_at a sz y" and "0 \<le> x" "x < n" "0 \<le> y" "y < n" "n \<le> INT_MAX" and sz: "0 < sz" "sz \<le> 16"
  shows "x = y"
proof -
  have "(of_int (int sz * x) :: 64 word) = of_int (int sz * y)" using assms(1) by (simp add: elem_at_def)
  then have "uint (of_int (int sz * x) :: 64 word) = uint (of_int (int sz * y) :: 64 word)" by (rule arg_cong)
  then have "int sz * x mod 2 ^ 64 = int sz * y mod 2 ^ 64" by (simp only: uint_word_of_int) simp
  moreover have "int sz * z mod 2 ^ 64 = int sz * z" if z: "0 \<le> z" "z < n" for z :: int
  proof (rule mod_pos_pos_trivial)
    have "int sz * z \<le> 16 * INT_MAX" using z sz(2) assms(6) by (intro mult_mono) simp_all
    then show "int sz * z < 2 ^ 64" by (simp add: INT_MAX_def)
  qed (use z in simp)
  ultimately show ?thesis using assms(2-5) sz(1) by simp
qed

lemma c_int_iff: "c_int v = Ok w \<longleftrightarrow> w = v \<and> - INT_MAX - 1 \<le> v \<and> v \<le> INT_MAX"
  by (auto simp: c_int_def)

lemma c_long_iff: "c_long v = Ok w \<longleftrightarrow> w = v \<and> - (2 ^ 63) \<le> v \<and> v < 2 ^ 63"
  by (auto simp: c_long_def)

lemma arr_get_iff: "arr_get xs i = Ok v \<longleftrightarrow> 0 \<le> i \<and> i < int (length xs) \<and> v = xs ! nat i"
  by (auto simp: arr_get_def)

lemma arr_put_iff: "arr_put xs i v = Ok ys \<longleftrightarrow> 0 \<le> i \<and> i < int (length xs) \<and> ys = xs[nat i := v]"
  by (auto simp: arr_put_def)

lemma mem_get_iff: "mem_get m k = Ok v \<longleftrightarrow> m k = Some v"
  by (auto simp: mem_get_def split: option.splits)

lemmas c_iff = ok_iff c_int_iff arr_get_iff arr_put_iff mem_get_iff

section \<open>Counting threads\<close>

text \<open>The sum of a weight over the positions of all threads.\<close>

definition tally :: "('p pos \<Rightarrow> int) \<Rightarrow> (u32 \<Rightarrow> 'p pos) \<Rightarrow> int" where
  "tally w ps = (\<Sum>i\<in>UNIV. w (ps i))"

lemma tally_upd [simp]: "tally w (ps(i := q)) = tally w ps - w (ps i) + w q"
proof -
  have "tally w ps = w (ps i) + (\<Sum>j\<in>UNIV - {i}. w (ps j))" unfolding tally_def by (rule sum.remove) simp_all
  moreover have "tally w (ps(i := q)) = w q + (\<Sum>j\<in>UNIV - {i}. w ((ps(i := q)) j))"
    unfolding tally_def using sum.remove [of UNIV i "\<lambda>j. w ((ps(i := q)) j)"] by simp
  moreover have "(\<Sum>j\<in>UNIV - {i}. w ((ps(i := q)) j)) = (\<Sum>j\<in>UNIV - {i}. w (ps j))" by (rule sum.cong) auto
  ultimately show ?thesis by simp
qed

lemma tally_const [simp]: "w Unborn = 0 \<Longrightarrow> tally w (\<lambda>_. Unborn) = 0"
  by (simp add: tally_def)

lemma tally_nonneg: "(\<And>q. 0 \<le> w q) \<Longrightarrow> 0 \<le> tally w ps"
  by (simp add: tally_def sum_nonneg)

lemma tally_ge: "(\<And>q. 0 \<le> w q) \<Longrightarrow> w (ps i) \<le> tally w ps"
  unfolding tally_def by (rule member_le_sum) simp_all

lemma tally_ge_two:
  assumes "\<And>q. 0 \<le> w q" and "i \<noteq> j"
  shows "w (ps i) + w (ps j) \<le> tally w ps"
proof -
  have "(\<Sum>k\<in>{i, j}. w (ps k)) \<le> tally w ps" unfolding tally_def by (rule sum_mono2) (use assms in auto)
  with assms(2) show ?thesis by simp
qed

lemma tally_zero: "(\<And>i. w (ps i) = 0) \<Longrightarrow> tally w ps = 0"
  by (simp add: tally_def)

text \<open>A weight of program points, for threads that are not waiting for a semaphore.\<close>

fun weigh :: "('p \<Rightarrow> int) \<Rightarrow> 'p pos \<Rightarrow> int" where
  "weigh f (At p) = f p"
| "weigh f (Done p) = f p"
| "weigh f (Made j p) = f p"
| "weigh f (Await a p) = (case a of A_sem_wait m \<Rightarrow> 0 | _ \<Rightarrow> f p)"
| "weigh f _ = 0"

lemma weigh_nonneg: "(\<And>p. 0 \<le> f p) \<Longrightarrow> 0 \<le> weigh f q"
  by (cases q) (auto split: api.splits)

section \<open>Programs of several functions\<close>

text \<open>The code of a program is made of the code of its functions.\<close>

abbreviation within :: "('q \<Rightarrow> 'p) \<Rightarrow> ('q, 'g) act res \<Rightarrow> ('p, 'g) act res" where
  "within f \<equiv> map_res (map_act f id)"

lemma map_act_iff:
  "map_act f id x = Call a g' p' \<longleftrightarrow> (\<exists>p. x = Call a g' p \<and> p' = f p)"
  "map_act f id x = Compute g' p' \<longleftrightarrow> (\<exists>p. x = Compute g' p \<and> p' = f p)"
  "map_act f id x = Finish v g' \<longleftrightarrow> x = Finish v g'"
  "map_act f id x = RunSched g' p' \<longleftrightarrow> (\<exists>p. x = RunSched g' p \<and> p' = f p)"
  by (cases x; auto)+

lemma within_iff [simp]:
  "within f r = Ok (Call a g' p') \<longleftrightarrow> (\<exists>p. r = Ok (Call a g' p) \<and> p' = f p)"
  "within f r = Ok (Compute g' p') \<longleftrightarrow> (\<exists>p. r = Ok (Compute g' p) \<and> p' = f p)"
  "within f r = Ok (Finish v g') \<longleftrightarrow> r = Ok (Finish v g')"
  "within f r = Ok (RunSched g' p') \<longleftrightarrow> (\<exists>p. r = Ok (RunSched g' p) \<and> p' = f p)"
  by (cases r; simp add: map_act_iff)+

fun act_glob :: "('p, 'g) act \<Rightarrow> 'g" where
  "act_glob (Compute g p) = g"
| "act_glob (Call a g p) = g"
| "act_glob (Finish v g) = g"
| "act_glob (RunSched g p) = g"

fun act_point :: "('p, 'g) act \<Rightarrow> 'p option" where
  "act_point (Compute g p) = Some p"
| "act_point (Call a g p) = Some p"
| "act_point (Finish v g) = None"
| "act_point (RunSched g p) = Some p"

fun act_call :: "('p, 'g) act \<Rightarrow> api option" where
  "act_call (Call a g p) = Some a"
| "act_call _ = None"

lemma within_ok: "within f r = Ok x \<Longrightarrow> \<exists>y. r = Ok y \<and> act_glob x = act_glob y \<and> act_point x = map_option f (act_point y) \<and> act_call x = act_call y"
proof (cases r)
  case (Ok y)
  assume "within f r = Ok x"
  with Ok show ?thesis by (cases y) auto
qed simp_all

section \<open>Concrete runs\<close>

text \<open>
  One step without a tick. The choices of the operating system are computed from a counter, so that every
  allocation gets an address of its own.
\<close>

definition os_at :: "nat \<Rightarrow> os_choice" where
  "os_at n = \<lparr>os_create = \<lparr>env_mmap = Some (4096 * of_nat n), env_realloc = True, env_calloc = 4096 * of_nat n\<rparr>,
     os_preempt = \<lparr>env_malloc = 4096 * of_nat n, env_sigaltstack = True, env_sigaction = True\<rparr>,
     os_malloc = (\<lambda>k. 4096 * of_nat n + 512 * of_nat k)\<rparr>"

fun do_act :: "('p, 'g) prog \<Rightarrow> ('p, 'g) act \<Rightarrow> sys \<Rightarrow> (u32 \<Rightarrow> 'p pos) \<Rightarrow> ('p, 'g) cconfig option" where
  "do_act P (Compute g' p') s ps = Some ((User [], s), ps(self_tid s := At p'), g')"
| "do_act P (Call a g' p') s ps =
     (if env_ok a s then
        (case api_call a s of
           Ok (d, s') \<Rightarrow> Some ((transfer d [], s'), spawn a d (next_tid s) (ps(self_tid s := after P (next_tid s) d [] (issued a p'))), g')
         | _ \<Rightarrow> None)
      else None)"
| "do_act P (Finish v g') s ps =
     (if uth_current s = NULL then None
      else (case api_call (A_exit v) s of Ok (d, s') \<Rightarrow> Some ((transfer d [], s'), ps(self_tid s := Ended), g') | _ \<Rightarrow> None))"
| "do_act P (RunSched g' p') s ps =
     (if uth_current s = NULL then
        (case uth_run 0 0 s of (RunSchedule, s') \<Rightarrow> Some ((SchedEntry, s'), ps(self_tid s := InRun p'), g') | _ \<Rightarrow> None)
      else None)"

fun do_cstep :: "('p, 'g) prog \<Rightarrow> os_choice \<Rightarrow> ('p, 'g) cconfig \<Rightarrow> ('p, 'g) cconfig option" where
  "do_cstep P e ((User [], s), ps, g) =
     (case ps (self_tid s) of At p \<Rightarrow> (case p_code P e p g of Ok a \<Rightarrow> do_act P a s ps | _ \<Rightarrow> None) | _ \<Rightarrow> None)"
| "do_cstep P e ((User (f # k), s), ps, g) =
     (case resume_frame f k s of
        Ok (d, s') \<Rightarrow> Some ((transfer d k, s'), ps(self_tid s := after P (next_tid s) d k (ps (self_tid s))), g)
      | _ \<Rightarrow> None)"
| "do_cstep P e ((SchedEntry, s), ps, g) = Some ((SchedTop, scheduler_entry s), ps, g)"
| "do_cstep P e ((SchedBack, s), ps, g) = Some ((SchedTop, scheduler_swapped s), ps, g)"
| "do_cstep P e ((SchedTop, s), ps, g) =
     (case scheduler_round s of
        Ok (SchedRun k, s') \<Rightarrow> Some ((User k, s'), ps, g)
      | Ok (SchedContinue, s') \<Rightarrow> Some ((SchedTop, s'), ps, g)
      | Ok (SchedBreak, s1) \<Rightarrow>
          (case ps UTH_TID_INVALID of
             InRun p \<Rightarrow>
               (case uth_run_linked 0 0 s1 of
                  (RunReturn, s') \<Rightarrow> Some ((User [], s'), ps(UTH_TID_INVALID := At (p_ret P p RetVoid)), g)
                | _ \<Rightarrow> None)
           | _ \<Rightarrow> None)
      | _ \<Rightarrow> None)"

text \<open>A run follows a list that says where \<open>SIGALRM\<close> arrives.\<close>

fun do_ctick :: "('p, 'g) cconfig \<Rightarrow> ('p, 'g) cconfig option" where
  "do_ctick ((l, s), ps, g) =
     (if tick_pending s then
        (case uth_preempt_handler (ucontext0\<lparr>uc_sigmask := sigmask s, uc_frames := frames_at l\<rparr>) s of
           Ok (d, s') \<Rightarrow> Some ((if d = Switched then SchedBack else l, s'), ps, g)
         | _ \<Rightarrow> None)
      else None)"

fun do_csteps :: "('p, 'g) prog \<Rightarrow> bool list \<Rightarrow> ('p, 'g) cconfig \<Rightarrow> ('p, 'g) cconfig option" where
  "do_csteps P [] c = Some c"
| "do_csteps P (t # ts) c =
     (case (if t then do_ctick c else do_cstep P (os_at (Suc (length ts))) c) of None \<Rightarrow> None | Some c' \<Rightarrow> do_csteps P ts c')"

lemma do_act_step:
  assumes "ps (self_tid s) = At p" and "p_code P e p g = Ok a" and "do_act P a s ps = Some c'"
  shows "cstep P ((User [], s), ps, g) c'"
  using assms(2,3)
proof (cases a)
  case (Compute g' p')
  with assms c_compute [of ps s p P e g g' p'] show ?thesis by simp
next
  case (Call b g' p')
  with assms(3) obtain d s' where "env_ok b s" "api_call b s = Ok (d, s')"
      "c' = ((transfer d [], s'), spawn b d (next_tid s) (ps(self_tid s := after P (next_tid s) d [] (issued b p'))), g')"
    by (auto split: if_splits res.splits)
  with assms(1,2) Call c_call [of ps s p P e g b g' p' d s'] show ?thesis by simp
next
  case (Finish v g')
  with assms(3) obtain d s' where "uth_current s \<noteq> NULL" "api_call (A_exit v) s = Ok (d, s')"
      "c' = ((transfer d [], s'), ps(self_tid s := Ended), g')"
    by (auto split: if_splits res.splits)
  with assms(1,2) Finish c_exit [of ps s p P e g v g' d s'] show ?thesis by simp
next
  case (RunSched g' p')
  with assms(3) obtain s' where "uth_current s = NULL" "uth_run 0 0 s = (RunSchedule, s')" "c' = ((SchedEntry, s'), ps(self_tid s := InRun p'), g')"
    by (auto split: if_splits prod.splits run_ctl.splits)
  with assms(1,2) RunSched c_run [of ps s p P e g g' p' 0 0 s'] show ?thesis by simp
qed

lemma do_cstep_step: "do_cstep P e c = Some c' \<Longrightarrow> cstep P c c'"
proof (induction P e c rule: do_cstep.induct)
  case (1 P e s ps g)
  then obtain p a where "ps (self_tid s) = At p" "p_code P e p g = Ok a" "do_act P a s ps = Some c'" by (auto split: pos.splits res.splits)
  then show ?case by (rule do_act_step)
qed (auto intro: cstep.intros split: res.splits run_ctl.splits sched_ctl.splits prod.splits pos.splits)

lemma do_ctick_step: "do_ctick c = Some c' \<Longrightarrow> cstep P c c'"
proof (induction c rule: do_ctick.induct)
  case (1 l s ps g)
  let ?ucp = "ucontext0\<lparr>uc_sigmask := sigmask s, uc_frames := frames_at l\<rparr>"
  from 1 obtain d s' where "tick_pending s" "uth_preempt_handler ?ucp s = Ok (d, s')" "c' = ((if d = Switched then SchedBack else l, s'), ps, g)"
    by (auto split: if_splits res.splits)
  with c_tick [of s ?ucp l d s' P ps g] show ?case by simp
qed

lemma do_csteps_creachable: "\<lbrakk>do_csteps P ts c = Some c'; creachable P p0 g0 c\<rbrakk> \<Longrightarrow> creachable P p0 g0 c'"
proof (induction ts arbitrary: c)
  case (Cons t ts)
  then obtain d where d: "(if t then do_ctick c else do_cstep P (os_at (Suc (length ts))) c) = Some d" "do_csteps P ts d = Some c'"
    by (auto split: option.splits)
  have "cstep P c d" using d(1) do_ctick_step [of c d P] do_cstep_step [of P _ c d] by (cases t) simp_all
  from Cons.IH [OF d(2) c_next [OF Cons.prems(2) this]] show ?case .
qed simp

definition runs_to :: "('p, 'g) prog \<Rightarrow> 'p \<Rightarrow> 'g \<Rightarrow> bool list \<Rightarrow> (loc \<Rightarrow> (u32 \<Rightarrow> 'p pos) \<Rightarrow> 'g \<Rightarrow> bool) \<Rightarrow> bool" where
  "runs_to P p0 g0 ts Q = (case do_csteps P ts (cinit p0 g0) of None \<Rightarrow> False | Some ((l, s), ps, g) \<Rightarrow> Q l ps g)"

lemma runs_toE:
  assumes "runs_to P p0 g0 ts Q"
  obtains l s ps g where "creachable P p0 g0 ((l, s), ps, g)" "Q l ps g"
proof -
  from assms obtain l s ps g where "do_csteps P ts (cinit p0 g0) = Some ((l, s), ps, g)" "Q l ps g"
    by (auto simp: runs_to_def split: option.splits)
  from that [OF do_csteps_creachable [OF this(1) c_start] this(2)] show ?thesis .
qed

text \<open>A run that stays in configurations of a given kind.\<close>

definition csteps_in :: "('p, 'g) prog \<Rightarrow> (('p, 'g) cconfig \<Rightarrow> bool) \<Rightarrow> ('p, 'g) cconfig \<Rightarrow> ('p, 'g) cconfig \<Rightarrow> bool" where
  "csteps_in P Q = (\<lambda>c c'. cstep P c c' \<and> Q c')\<^sup>*\<^sup>*"

fun do_csteps_in :: "('p, 'g) prog \<Rightarrow> (('p, 'g) cconfig \<Rightarrow> bool) \<Rightarrow> bool list \<Rightarrow> ('p, 'g) cconfig \<Rightarrow> ('p, 'g) cconfig option" where
  "do_csteps_in P Q [] c = Some c"
| "do_csteps_in P Q (t # ts) c =
     (case (if t then do_ctick c else do_cstep P (os_at (Suc (length ts))) c) of
        None \<Rightarrow> None
      | Some c' \<Rightarrow> if Q c' then do_csteps_in P Q ts c' else None)"

lemma do_csteps_in_run: "do_csteps_in P Q ts c = Some c' \<Longrightarrow> csteps_in P Q c c'"
proof (induction ts arbitrary: c)
  case (Cons t ts)
  then obtain d where d: "(if t then do_ctick c else do_cstep P (os_at (Suc (length ts))) c) = Some d" "Q d" "do_csteps_in P Q ts d = Some c'"
    by (auto split: option.splits if_splits)
  have "cstep P c d" using d(1) do_ctick_step [of c d P] do_cstep_step [of P _ c d] by (cases t) simp_all
  with d(2) Cons.IH [OF d(3)] show ?case unfolding csteps_in_def by (blast intro: converse_rtranclp_into_rtranclp)
qed (simp add: csteps_in_def)

lemma csteps_in_creachable: "\<lbrakk>csteps_in P Q c c'; creachable P p0 g0 c\<rbrakk> \<Longrightarrow> creachable P p0 g0 c'"
  unfolding csteps_in_def by (induction rule: rtranclp_induct) (auto intro: c_next)

text \<open>The same, with the point where the running thread is.\<close>

definition runs_self :: "('p, 'g) prog \<Rightarrow> 'p \<Rightarrow> 'g \<Rightarrow> bool list \<Rightarrow> 'p \<Rightarrow> ('g \<Rightarrow> bool) \<Rightarrow> bool" where
  "runs_self P p0 g0 ts p Q = (case do_csteps P ts (cinit p0 g0) of None \<Rightarrow> False | Some ((l, s), ps, g) \<Rightarrow> l = User [] \<and> ps (self_tid s) = At p \<and> Q g)"

lemma runs_selfE:
  assumes "runs_self P p0 g0 ts p Q"
  obtains s ps g where "creachable P p0 g0 ((User [], s), ps, g)" "ps (self_tid s) = At p" "Q g"
proof -
  from assms obtain s ps g where "do_csteps P ts (cinit p0 g0) = Some ((User [], s), ps, g)" "ps (self_tid s) = At p" "Q g"
    by (auto simp: runs_self_def split: option.splits)
  from that [OF do_csteps_creachable [OF this(1) c_start] this(2,3)] show ?thesis .
qed

section \<open>Steps of concrete runs\<close>

text \<open>A run with given choices of the operating system, from any configuration.\<close>

fun do_cenvs :: "('p, 'g) prog \<Rightarrow> os_choice list \<Rightarrow> ('p, 'g) cconfig \<Rightarrow> ('p, 'g) cconfig option" where
  "do_cenvs P [] c = Some c"
| "do_cenvs P (e # es) c = (case do_cstep P e c of None \<Rightarrow> None | Some c' \<Rightarrow> do_cenvs P es c')"

lemma do_cenvs_creachable: "\<lbrakk>do_cenvs P es c = Some c'; creachable P p0 g0 c\<rbrakk> \<Longrightarrow> creachable P p0 g0 c'"
proof (induction es arbitrary: c)
  case (Cons e es)
  then obtain d where "do_cstep P e c = Some d" "do_cenvs P es d = Some c'" by (auto split: option.splits)
  with Cons.IH [OF this(2) c_next [OF Cons.prems(2) do_cstep_step]] show ?case by blast
qed simp

text \<open>The choices with which a creation fails.\<close>

definition os_fail :: os_choice where
  "os_fail = \<lparr>os_create = \<lparr>env_mmap = None, env_realloc = True, env_calloc = NULL\<rparr>,
     os_preempt = \<lparr>env_malloc = NULL, env_sigaltstack = False, env_sigaction = False\<rparr>, os_malloc = (\<lambda>_. 0x7000)\<rparr>"

lemma create_fails: "uth_create fn arg n (os_create os_fail) s = Ok (Return (RetTid UTH_TID_INVALID), s)"
  by (simp add: os_fail_def uth_create_def uth_preempt_off_def uth_preempt_restore_def)

lemma creachable_lib:
  assumes "creachable P p0 g0 ((User [], s), ps, g)"
  obtains rq wq where "lib_inv s rq wq" "caller s"
proof -
  from coupledD(1) [OF creachable_coupled [OF assms]] obtain rq wq where "lib_inv s rq wq" "user_inv [] s" by (auto elim: lib_okE)
  with that user_inv_caller show ?thesis by blast
qed

lemma join_nobody:
  assumes "creachable P p0 g0 ((User [], s), ps, g)"
  shows "api_call (A_join UTH_TID_INVALID False) s = Ok (Return (RetJoin (- 1) None), s)"
proof -
  obtain rq wq where inv: "lib_inv s rq wq" by (rule creachable_lib [OF assms])
  then have "\<forall>x t. heap s x = Some t \<longrightarrow> tcb_tid t \<noteq> UTH_TID_INVALID" using tid_bounds(1) by blast
  from uth_join_miss [OF lib_invD(3) [OF inv] this] show ?thesis by simp
qed

text \<open>A call that returns without giving control away.\<close>

lemma call_returns:
  assumes r: "creachable P p0 g0 ((User [], s), ps, g)" and p: "ps (self_tid s) = At p" "p_code P e p g = Ok (Call a g' p')"
    and a: "env_ok a s" "api_call a s = Ok (Return x, s')" "\<And>v. a \<noteq> A_exit v"
  shows "creachable P p0 g0 ((User [], s'), ps(self_tid s := At (p_ret P p' x)), g')"
proof -
  have "spawn a (Return x) i q = q" for i and q :: "u32 \<Rightarrow> 'a pos" by (cases "(a, Return x, i, q)" rule: spawn.cases) auto
  moreover have "after P (next_tid s) (Return x) [] (issued a p') = At (p_ret P p' x)" using a(3) by (cases rule: issued_cases [of a p']) auto
  ultimately show ?thesis using c_next [OF r c_call [of ps s p P e g a g' p' "Return x" s']] p a(1,2) by simp
qed

lemma code_computes:
  assumes r: "creachable P p0 g0 ((User [], s), ps, g)" and p: "ps (self_tid s) = At p" "p_code P e p g = Ok (Compute g' p')"
  shows "creachable P p0 g0 ((User [], s), ps(self_tid s := At p'), g')"
  using c_next [OF r c_compute [of ps s p P e g g' p']] p by simp

end
