(* ===== verification/Uth_Prodcons.thy ===== *)
theory Uth_Prodcons
  imports Uth_Clib
begin

text \<open>
  \<open>examples/producer_consumer.c\<close>: producers and consumers on a bounded buffer. The program never enables
  preemption, so the code between two library calls runs undisturbed and is one step of the model. A program
  point is the place before such a piece of code, with the local variables; \<open>printf\<close> appends to a log.
\<close>

section \<open>The program\<close>

definition BUFFER_SIZE :: int where
  "BUFFER_SIZE = 8"

record thread_arg_t =
  ta_id :: int
  ta_items :: int

datatype pc_event = Ev_produced int int int | Ev_consumed int int int | Ev_producer_done int | Ev_consumer_done int | Ev_summary int int

text \<open>The static variables, the arrays of \<open>driver\<close> and what has been printed.\<close>

record pc_globals =
  buf :: "int list"
  buf_in :: int
  buf_out :: int
  items_produced :: int
  items_consumed :: int
  g_np :: int
  g_nc :: int
  g_ni :: int
  targs :: "ptr \<rightharpoonup> thread_arg_t"
  ptids :: "int \<rightharpoonup> u32"
  ctids :: "int \<rightharpoonup> u32"
  pc_log :: "pc_event list"

text \<open>The addresses of the static objects and of the thread functions.\<close>

definition empty_at :: ptr where "empty_at = 1"
definition full_at :: ptr where "full_at = 2"
definition buf_lock_at :: ptr where "buf_lock_at = 3"
definition producer_fn :: ptr where "producer_fn = 1"
definition consumer_fn :: ptr where "consumer_fn = 2"
definition driver_fn :: ptr where "driver_fn = 3"

record pc_locals =
  pargs :: ptr
  cargs :: ptr
  per_consumer :: int
  extra :: int

datatype producer_point = P_loop ptr int | P_lock ptr int int | P_body ptr int int | P_post ptr int | P_yield ptr int

datatype consumer_point = C_loop ptr int | C_lock ptr int | C_body ptr int | C_post ptr int | C_yield ptr int

datatype pc_driver_point =
    D_entry | D_prod pc_locals int | D_prod_made pc_locals int u32 | D_cons pc_locals int | D_cons_made pc_locals int u32
  | D_join_p pc_locals int | D_join_c pc_locals int

datatype pc_main_point = M_entry | M_full | M_lock | M_init | M_create | M_run | M_print | M_destroy_full | M_destroy_lock | M_return

fun producer :: "producer_point \<Rightarrow> pc_globals \<Rightarrow> (producer_point, pc_globals) act res" where
  "producer (P_loop a i) g =
     and_then (mem_get (targs g) a) (\<lambda>x.
       if i < ta_items x then
         and_then (c_int (ta_id x * 1000)) (\<lambda>m. and_then (c_int (m + i)) (\<lambda>item.
           Ok (Call (A_sem_wait empty_at) g (P_lock a i item))))
       else Ok (Finish 0 (g\<lparr>pc_log := pc_log g @ [Ev_producer_done (ta_id x)]\<rparr>)))"
| "producer (P_lock a i item) g = Ok (Call (A_mutex_lock buf_lock_at) g (P_body a i item))"
| "producer (P_body a i item) g =
     and_then (mem_get (targs g) a) (\<lambda>x.
     and_then (arr_put (buf g) (buf_in g) item) (\<lambda>b.
     and_then (c_mod (buf_in g + 1) BUFFER_SIZE) (\<lambda>n.
     and_then (c_int (items_produced g + 1)) (\<lambda>k.
     and_then (c_int (k - items_consumed g)) (\<lambda>d.
       Ok (Call (A_mutex_unlock buf_lock_at)
         (g\<lparr>buf := b, buf_in := n, items_produced := k, pc_log := pc_log g @ [Ev_produced (ta_id x) item d]\<rparr>) (P_post a i)))))))"
| "producer (P_post a i) g = Ok (Call (A_sem_post full_at) g (P_yield a i))"
| "producer (P_yield a i) g = Ok (Call A_yield g (P_loop a (i + 1)))"

fun consumer :: "consumer_point \<Rightarrow> pc_globals \<Rightarrow> (consumer_point, pc_globals) act res" where
  "consumer (C_loop a i) g =
     and_then (mem_get (targs g) a) (\<lambda>x.
       if i < ta_items x then Ok (Call (A_sem_wait full_at) g (C_lock a i))
       else Ok (Finish 0 (g\<lparr>pc_log := pc_log g @ [Ev_consumer_done (ta_id x)]\<rparr>)))"
| "consumer (C_lock a i) g = Ok (Call (A_mutex_lock buf_lock_at) g (C_body a i))"
| "consumer (C_body a i) g =
     and_then (mem_get (targs g) a) (\<lambda>x.
     and_then (arr_get (buf g) (buf_out g)) (\<lambda>item.
     and_then (c_mod (buf_out g + 1) BUFFER_SIZE) (\<lambda>n.
     and_then (c_int (items_consumed g + 1)) (\<lambda>k.
     and_then (c_int (items_produced g - k)) (\<lambda>d.
       Ok (Call (A_mutex_unlock buf_lock_at)
         (g\<lparr>buf_out := n, items_consumed := k, pc_log := pc_log g @ [Ev_consumed (ta_id x) item d]\<rparr>) (C_post a i)))))))"
| "consumer (C_post a i) g = Ok (Call (A_sem_post empty_at) g (C_yield a i))"
| "consumer (C_yield a i) g = Ok (Call A_yield g (C_loop a (i + 1)))"

text \<open>\<open>free\<close> makes the \<open>n\<close> elements of an array inaccessible.\<close>

definition free_args :: "ptr \<Rightarrow> int \<Rightarrow> (ptr \<rightharpoonup> thread_arg_t) \<Rightarrow> (ptr \<rightharpoonup> thread_arg_t)" where
  "free_args base n m = (\<lambda>p. if p \<in> set (map (elem_at base 8) [0..n - 1]) then None else m p)"

fun pc_driver :: "os_choice \<Rightarrow> pc_driver_point \<Rightarrow> pc_globals \<Rightarrow> (pc_driver_point, pc_globals) act res" where
  "pc_driver e D_entry g =
     and_then (c_int (g_np g * g_ni g)) (\<lambda>n.
     and_then (c_div n (g_nc g)) (\<lambda>per.
     and_then (c_mod n (g_nc g)) (\<lambda>ex.
       Ok (Compute g (D_prod \<lparr>pargs = os_malloc e 0, cargs = os_malloc e 1, per_consumer = per, extra = ex\<rparr> 0)))))"
| "pc_driver e (D_prod d i) g =
     (if i < g_np g then
        Ok (Call (A_create producer_fn (elem_at (pargs d) 8 i) 0 (os_create e))
          (g\<lparr>targs := (targs g)(elem_at (pargs d) 8 i \<mapsto> \<lparr>ta_id = i, ta_items = g_ni g\<rparr>)\<rparr>) (D_prod_made d i 0))
      else Ok (Compute g (D_cons d 0)))"
| "pc_driver e (D_prod_made d i t) g = Ok (Compute (g\<lparr>ptids := (ptids g)(i \<mapsto> t)\<rparr>) (D_prod d (i + 1)))"
| "pc_driver e (D_cons d i) g =
     (if i < g_nc g then
        and_then (c_int (per_consumer d + (if i < extra d then 1 else 0))) (\<lambda>n.
          Ok (Call (A_create consumer_fn (elem_at (cargs d) 8 i) 0 (os_create e))
            (g\<lparr>targs := (targs g)(elem_at (cargs d) 8 i \<mapsto> \<lparr>ta_id = i, ta_items = n\<rparr>)\<rparr>) (D_cons_made d i 0)))
      else Ok (Compute g (D_join_p d 0)))"
| "pc_driver e (D_cons_made d i t) g = Ok (Compute (g\<lparr>ctids := (ctids g)(i \<mapsto> t)\<rparr>) (D_cons d (i + 1)))"
| "pc_driver e (D_join_p d i) g =
     (if i < g_np g then and_then (mem_get (ptids g) i) (\<lambda>t. Ok (Call (A_join t False) g (D_join_p d (i + 1))))
      else Ok (Compute g (D_join_c d 0)))"
| "pc_driver e (D_join_c d i) g =
     (if i < g_nc g then and_then (mem_get (ctids g) i) (\<lambda>t. Ok (Call (A_join t False) g (D_join_c d (i + 1))))
      else Ok (Finish 0 (g\<lparr>targs := free_args (cargs d) (g_nc g) (free_args (pargs d) (g_np g) (targs g))\<rparr>)))"

fun pc_main :: "int list \<Rightarrow> os_choice \<Rightarrow> pc_main_point \<Rightarrow> pc_globals \<Rightarrow> (pc_main_point, pc_globals) act res" where
  "pc_main argv e M_entry g =
     and_then (arg_or argv 1 2) (\<lambda>np. and_then (arg_or argv 2 3) (\<lambda>nc. and_then (arg_or argv 3 6) (\<lambda>ni.
       Ok (Call (A_sem_init empty_at BUFFER_SIZE) (g\<lparr>g_np := np, g_nc := nc, g_ni := ni\<rparr>) M_full))))"
| "pc_main argv e M_full g = Ok (Call (A_sem_init full_at 0) g M_lock)"
| "pc_main argv e M_lock g = Ok (Call (A_mutex_init buf_lock_at) g M_init)"
| "pc_main argv e M_init g = Ok (Call A_init g M_create)"
| "pc_main argv e M_create g = Ok (Call (A_create driver_fn 0 0 (os_create e)) g M_run)"
| "pc_main argv e M_run g = Ok (RunSched g M_print)"
| "pc_main argv e M_print g =
     Ok (Call (A_sem_destroy empty_at) (g\<lparr>pc_log := pc_log g @ [Ev_summary (items_produced g) (items_consumed g)]\<rparr>) M_destroy_full)"
| "pc_main argv e M_destroy_full g = Ok (Call (A_sem_destroy full_at) g M_destroy_lock)"
| "pc_main argv e M_destroy_lock g = Ok (Call (A_mutex_destroy buf_lock_at) g M_return)"
| "pc_main argv e M_return g = Ok (Finish (if items_produced g = items_consumed g then 0 else 1) g)"

datatype pc_point =
    PC_producer producer_point
  | PC_consumer consumer_point
  | PC_driver pc_driver_point
  | PC_main pc_main_point
  | PC_nowhere

fun pc_code :: "int list \<Rightarrow> os_choice \<Rightarrow> pc_point \<Rightarrow> pc_globals \<Rightarrow> (pc_point, pc_globals) act res" where
  "pc_code argv e (PC_producer p) g = within PC_producer (producer p g)"
| "pc_code argv e (PC_consumer p) g = within PC_consumer (consumer p g)"
| "pc_code argv e (PC_driver p) g = within PC_driver (pc_driver e p g)"
| "pc_code argv e (PC_main p) g = within PC_main (pc_main argv e p g)"
| "pc_code argv e PC_nowhere g = Fault Unreachable"

text \<open>The thread functions, and the result of \<open>uth_create\<close> that \<open>driver\<close> stores.\<close>

definition pc_start :: "ptr \<Rightarrow> val \<Rightarrow> pc_point" where
  "pc_start fn arg =
     (if fn = producer_fn then PC_producer (P_loop arg 0)
      else if fn = consumer_fn then PC_consumer (C_loop arg 0)
      else if fn = driver_fn then PC_driver D_entry
      else PC_nowhere)"

fun pc_ret :: "pc_point \<Rightarrow> ret \<Rightarrow> pc_point" where
  "pc_ret (PC_driver (D_prod_made d i t)) (RetTid j) = PC_driver (D_prod_made d i j)"
| "pc_ret (PC_driver (D_cons_made d i t)) (RetTid j) = PC_driver (D_cons_made d i j)"
| "pc_ret p r = p"

definition producer_consumer :: "int list \<Rightarrow> (pc_point, pc_globals) prog" where
  "producer_consumer argv = \<lparr>p_start = pc_start, p_code = pc_code argv, p_ret = pc_ret\<rparr>"

definition pc_globals0 :: pc_globals where
  "pc_globals0 = \<lparr>buf = replicate 8 0, buf_in = 0, buf_out = 0, items_produced = 0, items_consumed = 0, g_np = 0, g_nc = 0, g_ni = 0,
     targs = (\<lambda>_. None), ptids = (\<lambda>_. None), ctids = (\<lambda>_. None), pc_log = []\<rparr>"

end
