(* ===== verification/Uth_Prodcons_Inv.thy ===== *)
theory Uth_Prodcons_Inv
  imports Uth_Prodcons
begin

text \<open>
  The bounded buffer is correct: it never holds more than \<open>BUFFER_SIZE\<close> items and never fewer than none,
  and the items leave it in the order in which they came. The proof is on the abstract machine.
\<close>

section \<open>The calls of the program\<close>

lemma smod_next: "\<lbrakk>0 \<le> i; i < BUFFER_SIZE; c_mod (i + 1) BUFFER_SIZE = Ok n\<rbrakk> \<Longrightarrow> n = (i + 1) mod BUFFER_SIZE"
  by (auto simp: c_mod_def c_div_def c_iff BUFFER_SIZE_def smod_int_alt_def split: if_splits)

text \<open>What the program does to the buffer when it inserts and removes an item.\<close>

definition inserted :: "int \<Rightarrow> int \<Rightarrow> int \<Rightarrow> pc_globals \<Rightarrow> pc_globals \<Rightarrow> bool" where
  "inserted k item n g g' \<longleftrightarrow> 0 \<le> buf_in g \<and> buf_in g < int (length (buf g)) \<and> c_mod (buf_in g + 1) BUFFER_SIZE = Ok n \<and>
     g' = g\<lparr>buf := (buf g)[nat (buf_in g) := item], buf_in := n, items_produced := items_produced g + 1,
       pc_log := pc_log g @ [Ev_produced k item (items_produced g + 1 - items_consumed g)]\<rparr>"

definition removed :: "int \<Rightarrow> int \<Rightarrow> pc_globals \<Rightarrow> pc_globals \<Rightarrow> bool" where
  "removed k n g g' \<longleftrightarrow> 0 \<le> buf_out g \<and> buf_out g < int (length (buf g)) \<and> c_mod (buf_out g + 1) BUFFER_SIZE = Ok n \<and>
     g' = g\<lparr>buf_out := n, items_consumed := items_consumed g + 1,
       pc_log := pc_log g @ [Ev_consumed k (buf g ! nat (buf_out g)) (items_produced g - (items_consumed g + 1))]\<rparr>"

definition buffer_of :: "pc_globals \<Rightarrow> int list \<times> int \<times> int \<times> int \<times> int" where
  "buffer_of g = (buf g, buf_in g, buf_out g, items_produced g, items_consumed g)"

fun items_made :: "pc_event list \<Rightarrow> int list" where
  "items_made [] = []"
| "items_made (Ev_produced k x n # es) = x # items_made es"
| "items_made (_ # es) = items_made es"

fun items_taken :: "pc_event list \<Rightarrow> int list" where
  "items_taken [] = []"
| "items_taken (Ev_consumed k x n # es) = x # items_taken es"
| "items_taken (_ # es) = items_taken es"

lemma items_append [simp]:
  "items_made (es @ es') = items_made es @ items_made es'" "items_taken (es @ es') = items_taken es @ items_taken es'"
  by (induction es rule: items_made.induct; simp) (induction es rule: items_taken.induct; simp)

definition same_buffer :: "pc_globals \<Rightarrow> pc_globals \<Rightarrow> bool" where
  "same_buffer g g' \<longleftrightarrow> buffer_of g' = buffer_of g \<and> items_made (pc_log g') = items_made (pc_log g) \<and> items_taken (pc_log g') = items_taken (pc_log g)"

lemma same_bufferI [simp]: "same_buffer g g"
  by (simp add: same_buffer_def)

lemma pc_call:
  assumes "pc_code argv e p g = Ok (Call a g' p')"
  obtains (p_wait) b i x where "p = PC_producer (P_loop b i)" "a = A_sem_wait empty_at" "p' = PC_producer (P_lock b i x)" "g' = g"
    | (p_lock) b i x where "p = PC_producer (P_lock b i x)" "a = A_mutex_lock buf_lock_at" "p' = PC_producer (P_body b i x)" "g' = g"
    | (p_insert) b i x k n where "p = PC_producer (P_body b i x)" "a = A_mutex_unlock buf_lock_at" "p' = PC_producer (P_post b i)" "inserted k x n g g'"
    | (p_post) b i where "p = PC_producer (P_post b i)" "a = A_sem_post full_at" "p' = PC_producer (P_yield b i)" "g' = g"
    | (p_yield) b i where "p = PC_producer (P_yield b i)" "a = A_yield" "p' = PC_producer (P_loop b (i + 1))" "g' = g"
    | (c_wait) b i where "p = PC_consumer (C_loop b i)" "a = A_sem_wait full_at" "p' = PC_consumer (C_lock b i)" "g' = g"
    | (c_lock) b i where "p = PC_consumer (C_lock b i)" "a = A_mutex_lock buf_lock_at" "p' = PC_consumer (C_body b i)" "g' = g"
    | (c_remove) b i k n where "p = PC_consumer (C_body b i)" "a = A_mutex_unlock buf_lock_at" "p' = PC_consumer (C_post b i)" "removed k n g g'"
    | (c_post) b i where "p = PC_consumer (C_post b i)" "a = A_sem_post empty_at" "p' = PC_consumer (C_yield b i)" "g' = g"
    | (c_yield) b i where "p = PC_consumer (C_yield b i)" "a = A_yield" "p' = PC_consumer (C_loop b (i + 1))" "g' = g"
    | (driver) q q' where "p = PC_driver q" "p' = PC_driver q'" "is_create a \<or> (\<exists>t w. a = A_join t w)" "same_buffer g g'"
    | (entry) "p = PC_main M_entry" "p' = PC_main M_full" "a = A_sem_init empty_at BUFFER_SIZE" "same_buffer g g'"
    | (full) "p = PC_main M_full" "p' = PC_main M_lock" "a = A_sem_init full_at 0" "g' = g"
    | (lock) "p = PC_main M_lock" "p' = PC_main M_init" "a = A_mutex_init buf_lock_at" "g' = g"
    | (init) "p = PC_main M_init" "p' = PC_main M_create" "a = A_init" "g' = g"
    | (create) "p = PC_main M_create" "p' = PC_main M_run" "is_create a" "g' = g"
    | (late) m m' x where "p = PC_main m" "p' = PC_main m'" "a = A_sem_destroy x \<or> a = A_mutex_destroy x" "same_buffer g g'"
        "m' \<in> {M_destroy_full, M_destroy_lock, M_return}"
proof (cases p)
  case (PC_producer q)
  with assms show ?thesis by (cases q) (auto simp: c_iff inserted_def split: if_splits intro: p_wait p_lock p_insert p_post p_yield)
next
  case (PC_consumer q)
  with assms show ?thesis by (cases q) (auto simp: c_iff removed_def split: if_splits intro: c_wait c_lock c_remove c_post c_yield)
next
  case (PC_driver q)
  with assms show ?thesis by (cases q) (auto simp: c_iff same_buffer_def buffer_of_def split: if_splits intro!: driver)
next
  case (PC_main m)
  with assms show ?thesis
    by (cases m) (auto simp: ok_iff same_buffer_def buffer_of_def intro: entry full lock init create late)
qed (use assms in simp)

lemma pc_compute:
  assumes "pc_code argv e p g = Ok (Compute g' p')"
  obtains q q' where "p = PC_driver q" "p' = PC_driver q'" "same_buffer g g'"
proof (cases p)
  case (PC_producer q)
  with assms show ?thesis by (cases q) (auto simp: c_iff split: if_splits)
next
  case (PC_consumer q)
  with assms show ?thesis by (cases q) (auto simp: c_iff split: if_splits)
next
  case (PC_driver q)
  with assms that show ?thesis by (cases q) (auto simp: c_iff same_buffer_def buffer_of_def split: if_splits)
next
  case (PC_main q)
  with assms show ?thesis by (cases q) (auto simp: ok_iff)
qed (use assms in simp)

lemma pc_finish:
  assumes "pc_code argv e p g = Ok (Finish v g')"
  obtains b i where "p = PC_producer (P_loop b i)" "same_buffer g g'" | b i where "p = PC_consumer (C_loop b i)" "same_buffer g g'"
    | q where "p = PC_driver q" "same_buffer g g'" | "p = PC_main M_return" "g' = g"
proof (cases p)
  case (PC_producer q)
  with assms that(1) show ?thesis by (cases q) (auto simp: c_iff same_buffer_def buffer_of_def split: if_splits)
next
  case (PC_consumer q)
  with assms that(2) show ?thesis by (cases q) (auto simp: c_iff same_buffer_def buffer_of_def split: if_splits)
next
  case (PC_driver q)
  with assms that(3) show ?thesis by (cases q) (auto simp: c_iff same_buffer_def buffer_of_def split: if_splits)
next
  case (PC_main q)
  with assms that(4) show ?thesis by (cases q) (auto simp: ok_iff)
qed (use assms in simp)

lemma pc_run:
  assumes "pc_code argv e p g = Ok (RunSched g' p')"
  shows "p = PC_main M_run \<and> p' = PC_main M_print \<and> g' = g"
proof (cases p)
  case (PC_producer q)
  with assms show ?thesis by (cases q) (auto simp: c_iff split: if_splits)
next
  case (PC_consumer q)
  with assms show ?thesis by (cases q) (auto simp: c_iff split: if_splits)
next
  case (PC_driver q)
  with assms show ?thesis by (cases q) (auto simp: c_iff split: if_splits)
next
  case (PC_main q)
  with assms show ?thesis by (cases q) (auto simp: ok_iff)
qed (use assms in simp)

section \<open>Where threads are\<close>

fun pc_pos_ok :: "pc_point pos \<Rightarrow> bool" where
  "pc_pos_ok (Await a p) =
     (case a of
        A_sem_wait m \<Rightarrow> (\<exists>b i x. m = empty_at \<and> p = PC_producer (P_lock b i x)) \<or> (\<exists>b i. m = full_at \<and> p = PC_consumer (C_lock b i))
      | A_mutex_lock m \<Rightarrow> (\<exists>b i x. p = PC_producer (P_body b i x)) \<or> (\<exists>b i. p = PC_consumer (C_body b i))
      | A_join t w \<Rightarrow> (\<exists>q. p = PC_driver q)
      | _ \<Rightarrow> False)"
| "pc_pos_ok (Made j p) = (\<forall>m. p = PC_main m \<longrightarrow> m = M_run)"
| "pc_pos_ok _ = True"

fun at_main :: "pc_point pos \<Rightarrow> bool" where
  "at_main (At p) = (\<exists>m. p = PC_main m)"
| "at_main (Done p) = (\<exists>m. p = PC_main m)"
| "at_main (Made j p) = (\<exists>m. p = PC_main m)"
| "at_main (InRun p) = (\<exists>m. p = PC_main m \<and> m = M_print)"
| "at_main (Await a p) = (\<exists>m. p = PC_main m)"
| "at_main _ = False"

text \<open>\<open>main\<close> before it creates the driver.\<close>

fun early :: "pc_point pos \<Rightarrow> bool" where
  "early (At p) = (\<exists>m. p = PC_main m \<and> m \<in> {M_entry, M_full, M_lock, M_init, M_create})"
| "early (Done p) = (\<exists>m. p = PC_main m \<and> m \<in> {M_entry, M_full, M_lock, M_init, M_create})"
| "early _ = False"

definition pc_shape :: "(u32 \<Rightarrow> pc_point pos) \<Rightarrow> pc_globals \<Rightarrow> bool" where
  "pc_shape ps g \<longleftrightarrow> (\<forall>i. pc_pos_ok (ps i)) \<and> (\<forall>i. at_main (ps i) = (i = UTH_TID_INVALID)) \<and>
     (early (ps UTH_TID_INVALID) \<longrightarrow> (\<forall>i. i \<noteq> UTH_TID_INVALID \<longrightarrow> ps i = Unborn) \<and> items_produced g = 0 \<and> items_consumed g = 0)"

lemma pc_shape_upd:
  assumes "pc_shape ps g" and "pc_pos_ok q" and "at_main q = at_main (ps i)" and "early q \<longrightarrow> early (ps i) \<and> items_produced g' = 0 \<and> items_consumed g' = 0"
    and "i \<noteq> UTH_TID_INVALID \<longrightarrow> ps i \<noteq> Unborn"
  shows "pc_shape (ps(i := q)) g'"
  using assms unfolding pc_shape_def by (cases "i = UTH_TID_INVALID") auto

section \<open>Counting slots and items\<close>

text \<open>
  A producer owns a free slot from \<open>uth_sem_wait(&empty)\<close> to the insertion and a filled one until
  \<open>uth_sem_post(&full)\<close>; a consumer claims an item from \<open>uth_sem_wait(&full)\<close> to the removal and owns the
  emptied slot until \<open>uth_sem_post(&empty)\<close>.
\<close>

fun slot :: "pc_point \<Rightarrow> int" where
  "slot (PC_producer (P_lock b i x)) = 1"
| "slot (PC_producer (P_body b i x)) = 1"
| "slot _ = 0"

fun filled :: "pc_point \<Rightarrow> int" where
  "filled (PC_producer (P_post b i)) = 1"
| "filled _ = 0"

fun claimed :: "pc_point \<Rightarrow> int" where
  "claimed (PC_consumer (C_lock b i)) = 1"
| "claimed (PC_consumer (C_body b i)) = 1"
| "claimed _ = 0"

fun emptied :: "pc_point \<Rightarrow> int" where
  "emptied (PC_consumer (C_post b i)) = 1"
| "emptied _ = 0"

definition sem_or :: "int \<Rightarrow> int option \<Rightarrow> int" where
  "sem_or d v = (case v of None \<Rightarrow> d | Some x \<Rightarrow> x)"

lemma sem_or_simps [simp]: "sem_or d None = d" "sem_or d (Some x) = x"
  by (simp_all add: sem_or_def)

definition in_buffer :: "pc_globals \<Rightarrow> int" where
  "in_buffer g = items_produced g - items_consumed g"

definition pc_counts :: "(u32 \<Rightarrow> pc_point pos) \<Rightarrow> (ptr \<rightharpoonup> int) \<Rightarrow> pc_globals \<Rightarrow> bool" where
  "pc_counts ps S g \<longleftrightarrow>
     0 \<le> sem_or BUFFER_SIZE (S empty_at) \<and> 0 \<le> sem_or 0 (S full_at) \<and>
     sem_or BUFFER_SIZE (S empty_at) + tally (weigh slot) ps + in_buffer g + tally (weigh emptied) ps = BUFFER_SIZE \<and>
     sem_or 0 (S full_at) + tally (weigh claimed) ps + tally (weigh filled) ps = in_buffer g"

definition weights :: "pc_point pos \<Rightarrow> int \<times> int \<times> int \<times> int" where
  "weights q = (weigh slot q, weigh filled q, weigh claimed q, weigh emptied q)"

lemma weights_ge: "0 \<le> weigh slot q" "0 \<le> weigh filled q" "0 \<le> weigh claimed q" "0 \<le> weigh emptied q"
proof -
  have "0 \<le> slot p" for p by (cases p rule: slot.cases) simp_all
  moreover have "0 \<le> filled p" for p by (cases p rule: filled.cases) simp_all
  moreover have "0 \<le> claimed p" for p by (cases p rule: claimed.cases) simp_all
  moreover have "0 \<le> emptied p" for p by (cases p rule: emptied.cases) simp_all
  ultimately show "0 \<le> weigh slot q" "0 \<le> weigh filled q" "0 \<le> weigh claimed q" "0 \<le> weigh emptied q" by (simp_all add: weigh_nonneg)
qed

text \<open>The buffer holds between none and \<open>BUFFER_SIZE\<close> items; there is room for a producer that inserts and an item for a consumer that removes.\<close>

lemma pc_counts_bounds:
  assumes "pc_counts ps S g"
  shows "0 \<le> in_buffer g" "in_buffer g \<le> BUFFER_SIZE" "weigh slot (ps i) + in_buffer g \<le> BUFFER_SIZE" "weigh claimed (ps i) \<le> in_buffer g"
  using assms tally_nonneg [of "weigh slot" ps] tally_nonneg [of "weigh emptied" ps] tally_nonneg [of "weigh claimed" ps]
    tally_nonneg [of "weigh filled" ps] tally_ge [of "weigh slot" ps i] tally_ge [of "weigh claimed" ps i] weights_ge
  by (simp_all add: pc_counts_def)

section \<open>The contents of the buffer\<close>

definition pc_data :: "pc_globals \<Rightarrow> bool" where
  "pc_data g \<longleftrightarrow> length (buf g) = nat BUFFER_SIZE \<and> 0 \<le> items_consumed g \<and>
     buf_in g = items_produced g mod BUFFER_SIZE \<and> buf_out g = items_consumed g mod BUFFER_SIZE \<and>
     length (items_made (pc_log g)) = nat (items_produced g) \<and>
     items_taken (pc_log g) = take (nat (items_consumed g)) (items_made (pc_log g)) \<and>
     (\<forall>k. items_consumed g \<le> k \<longrightarrow> k < items_produced g \<longrightarrow> buf g ! nat (k mod BUFFER_SIZE) = items_made (pc_log g) ! nat k)"

lemma pc_data_insert:
  assumes D: "pc_data g" and ins: "inserted k x n g g'" and b: "0 \<le> in_buffer g" "1 + in_buffer g \<le> BUFFER_SIZE"
  shows "pc_data g'"
proof -
  have n: "n = (items_produced g + 1) mod BUFFER_SIZE"
    using smod_next [of "buf_in g" n] D ins by (simp add: inserted_def pc_data_def BUFFER_SIZE_def mod_add_left_eq)
  have ge: "0 \<le> items_produced g" using D b(1) by (simp add: pc_data_def in_buffer_def)
  have ne: "j mod BUFFER_SIZE \<noteq> items_produced g mod BUFFER_SIZE" if "items_consumed g \<le> j" "j < items_produced g" for j
  proof
    assume "j mod BUFFER_SIZE = items_produced g mod BUFFER_SIZE"
    then have "BUFFER_SIZE dvd items_produced g - j" by (metis mod_eq_dvd_iff)
    with that have "BUFFER_SIZE \<le> items_produced g - j" by (intro zdvd_imp_le) auto
    with b(2) that(1) show False by (simp add: in_buffer_def)
  qed
  have old: "(buf g)[nat (buf_in g) := x] ! nat (j mod BUFFER_SIZE) = buf g ! nat (j mod BUFFER_SIZE)" if "items_consumed g \<le> j" "j < items_produced g" for j
    using ne [OF that] D by (simp add: pc_data_def BUFFER_SIZE_def nat_eq_iff)
  show ?thesis using D ins n ge b(1) old
    by (auto simp: pc_data_def inserted_def in_buffer_def nth_append nat_add_distrib BUFFER_SIZE_def nat_less_iff)
qed

lemma pc_data_remove:
  assumes D: "pc_data g" and rem: "removed k n g g'" and b: "1 \<le> in_buffer g"
  shows "pc_data g'"
proof -
  have n: "n = (items_consumed g + 1) mod BUFFER_SIZE"
    using smod_next [of "buf_out g" n] D rem by (simp add: removed_def pc_data_def BUFFER_SIZE_def mod_add_left_eq)
  have x: "buf g ! nat (buf_out g) = items_made (pc_log g) ! nat (items_consumed g)" "nat (items_consumed g) < length (items_made (pc_log g))"
    using D b by (auto simp: pc_data_def in_buffer_def)
  show ?thesis using D rem n x
    by (auto simp: pc_data_def removed_def nat_add_distrib take_Suc_conv_app_nth)
qed

lemma pc_data_same: "\<lbrakk>pc_data g; same_buffer g g'\<rbrakk> \<Longrightarrow> pc_data g'"
  by (auto simp: pc_data_def same_buffer_def buffer_of_def)

section \<open>The invariant\<close>

definition pc_inv :: "(u32 \<Rightarrow> pc_point pos) \<Rightarrow> (ptr \<rightharpoonup> u32 option) \<Rightarrow> (ptr \<rightharpoonup> int) \<Rightarrow> pc_globals \<Rightarrow> bool" where
  "pc_inv ps M S g \<longleftrightarrow> pc_shape ps g \<and> pc_counts ps S g \<and> pc_data g"

lemma pc_main_at:
  assumes "pc_inv ps M S g"
  shows "at_main (ps i) \<longleftrightarrow> i = UTH_TID_INVALID" "pc_pos_ok (ps i)"
  using assms by (simp_all add: pc_inv_def pc_shape_def)

lemma early_at_main: "early q \<Longrightarrow> at_main q"
  by (cases q) auto

text \<open>A step of thread \<open>i\<close> that does not change what it owns.\<close>

lemma pc_counts_upd:
  assumes "pc_counts ps S g" and "weights q = weights (ps i)" and "same_buffer g g'"
  shows "pc_counts (ps(i := q)) S g'"
  using assms by (simp add: pc_counts_def weights_def same_buffer_def buffer_of_def in_buffer_def)

lemma pc_quiet:
  assumes I: "pc_inv ps M S g" and q: "weights q = weights (ps i)" "at_main q = at_main (ps i)" "pc_pos_ok q" "early q \<Longrightarrow> early (ps i)"
    and "ps i \<noteq> Unborn" and g: "same_buffer g g'" and "S' = S"
  shows "pc_inv (ps(i := q)) M' S' g'"
proof -
  have "early q \<longrightarrow> early (ps i) \<and> items_produced g' = 0 \<and> items_consumed g' = 0"
    using early_at_main [of "ps i"] q(4) I g pc_main_at(1) [OF I, of i] by (auto simp: pc_inv_def pc_shape_def same_buffer_def buffer_of_def)
  with assms show ?thesis
    by (auto simp: pc_inv_def intro: pc_shape_upd pc_counts_upd pc_data_same)
qed

lemma early_counts:
  assumes "pc_inv ps M S g" and e: "early (ps UTH_TID_INVALID)"
  shows "sem_or BUFFER_SIZE (S empty_at) = BUFFER_SIZE" "sem_or 0 (S full_at) = 0"
proof -
  have S: "pc_shape ps g" and C: "pc_counts ps S g" using assms(1) by (simp_all add: pc_inv_def)
  obtain m where "ps UTH_TID_INVALID = At (PC_main m) \<or> ps UTH_TID_INVALID = Done (PC_main m)"
    using e by (cases "ps UTH_TID_INVALID") auto
  then have "weigh f (ps i) = 0" if "\<And>m. f (PC_main m) = 0" for f i
    using S e that by (cases "i = UTH_TID_INVALID") (auto simp: pc_shape_def)
  then have "tally (weigh slot) ps = 0" "tally (weigh filled) ps = 0" "tally (weigh claimed) ps = 0" "tally (weigh emptied) ps = 0"
    by (simp_all add: tally_zero)
  with S C e show "sem_or BUFFER_SIZE (S empty_at) = BUFFER_SIZE" "sem_or 0 (S full_at) = 0"
    by (auto simp: pc_counts_def pc_shape_def in_buffer_def)
qed

lemma pc_inv_call:
  assumes I: "pc_inv ps M S g" and p: "ps i = At p" and code: "pc_code argv e p g = Ok (Call a g' p')" and nc: "\<not> is_create a"
    and x: "issue i a (M, S) = Some (M', S')"
  shows "pc_inv (ps(i := issued a p')) M' S' g'"
proof -
  have S: "pc_shape ps g" and C: "pc_counts ps S g" and D: "pc_data g" using I by (simp_all add: pc_inv_def)
  note b = pc_counts_bounds(1,2) [OF C] pc_counts_bounds(3,4) [OF C, of i]
  have main: "i = UTH_TID_INVALID" if "p = PC_main m" for m using pc_main_at(1) [OF I, of i] p that by simp
  show ?thesis using code
  proof (cases rule: pc_call)
    case (p_insert b i' y k n)
    have "pc_shape (ps(i := issued a p')) g'" by (rule pc_shape_upd [OF S]) (use p p_insert in auto)
    moreover have "pc_counts (ps(i := issued a p')) S' g'"
      using C p p_insert x by (auto simp: pc_counts_def in_buffer_def inserted_def split: if_splits)
    moreover have "pc_data g'" by (rule pc_data_insert [OF D p_insert(4)]) (use b p p_insert in auto)
    ultimately show ?thesis by (simp add: pc_inv_def)
  next
    case (c_remove b i' k n)
    have "pc_shape (ps(i := issued a p')) g'" by (rule pc_shape_upd [OF S]) (use p c_remove in auto)
    moreover have "pc_counts (ps(i := issued a p')) S' g'"
      using C p c_remove x by (auto simp: pc_counts_def in_buffer_def removed_def split: if_splits)
    moreover have "pc_data g'" by (rule pc_data_remove [OF D c_remove(4)]) (use b p c_remove in auto)
    ultimately show ?thesis by (simp add: pc_inv_def)
  next
    case (p_post b i')
    have "pc_shape (ps(i := issued a p')) g'" by (rule pc_shape_upd [OF S]) (use p p_post in auto)
    moreover have "pc_counts (ps(i := issued a p')) S' g'"
      using C p p_post x by (auto simp: pc_counts_def empty_at_def full_at_def split: option.splits)
    ultimately show ?thesis using D p_post by (simp add: pc_inv_def)
  next
    case (c_post b i')
    have "pc_shape (ps(i := issued a p')) g'" by (rule pc_shape_upd [OF S]) (use p c_post in auto)
    moreover have "pc_counts (ps(i := issued a p')) S' g'"
      using C p c_post x by (auto simp: pc_counts_def empty_at_def full_at_def split: option.splits)
    ultimately show ?thesis using D c_post by (simp add: pc_inv_def)
  next
    case entry
    have "pc_inv (ps(i := issued a p')) M' S g'" by (rule pc_quiet [OF I]) (use p entry in \<open>auto simp: weights_def\<close>)
    moreover have "sem_or BUFFER_SIZE (S empty_at) = BUFFER_SIZE" by (rule early_counts [OF I]) (use p entry main in auto)
    ultimately show ?thesis using x entry by (auto simp: pc_inv_def pc_counts_def empty_at_def full_at_def split: if_splits)
  next
    case full
    have "pc_inv (ps(i := issued a p')) M' S g'" by (rule pc_quiet [OF I]) (use p full in \<open>auto simp: weights_def\<close>)
    moreover have "sem_or 0 (S full_at) = 0" by (rule early_counts [OF I]) (use p full main in auto)
    ultimately show ?thesis using x full by (auto simp: pc_inv_def pc_counts_def empty_at_def full_at_def split: if_splits)
  next
    case (driver q q')
    then have "S' = S" "\<exists>t w. a = A_join t w" using x nc by auto
    with p driver show ?thesis by (auto intro!: pc_quiet [OF I] simp: weights_def)
  next
    case (late m m' y)
    then have "S' = S" using x by auto
    with p late show ?thesis by (auto intro!: pc_quiet [OF I] simp: weights_def)
  qed (use p x nc in \<open>auto intro!: pc_quiet [OF I] simp: weights_def split: if_splits\<close>)
qed

text \<open>The driver and \<open>main\<close> create threads, which own nothing at first.\<close>

lemma pc_creates:
  assumes "pc_code argv e p g = Ok (Call (A_create fn arg n env) g' p')"
  shows "(\<exists>q q'. p = PC_driver q \<and> p' = PC_driver q') \<or> p = PC_main M_create \<and> p' = PC_main M_run" "same_buffer g g'"
  using assms by (auto elim: pc_call)

lemma pc_ret_look:
  "weights (At (pc_ret p r)) = weights (Done p)" "weights (At (pc_ret p r)) = weights (Made j p)"
  by (cases "(p, r)" rule: pc_ret.cases; simp add: weights_def)+

lemma pc_ret_main [simp]: "pc_ret p r = PC_main m \<longleftrightarrow> p = PC_main m"
  by (cases "(p, r)" rule: pc_ret.cases) simp_all

lemma pc_inv_create:
  assumes I: "pc_inv ps M S g" and p: "ps i = At p" and code: "pc_code argv e p g = Ok (Call (A_create fn arg n env) g' p')"
    and j: "ps j = Unborn" "j \<noteq> i"
  shows "pc_inv (ps(i := Made j p', j := New fn arg)) M S g'"
proof -
  note c = pc_creates [OF code]
  have "pc_inv (ps(i := Made j p')) M S g'" by (rule pc_quiet [OF I]) (use p c in \<open>auto simp: weights_def\<close>)
  moreover have "j \<noteq> UTH_TID_INVALID" using pc_main_at(1) [OF I, of j] j by auto
  moreover have "\<not> early ((ps(i := Made j p')) UTH_TID_INVALID)"
    using pc_main_at(1) [OF I, of i] early_at_main p c(1) I j by (auto simp: pc_inv_def pc_shape_def)
  ultimately show ?thesis using j pc_counts_upd [of "ps(i := Made j p')" S g' "New fn arg" j g']
    by (auto simp: pc_inv_def pc_shape_def weights_def)
qed

lemma pc_inv_effect:
  assumes I: "pc_inv ps M S g" and q: "ps i = Await a p" and x: "complete i a (M, S) = Some (M', S')"
  shows "pc_inv (ps(i := Done p)) M' S' g"
proof -
  have S: "pc_shape ps g" and C: "pc_counts ps S g" using I by (simp_all add: pc_inv_def)
  note ok = pc_main_at [OF I, of i, unfolded q]
  have nm: "p \<noteq> PC_main m" for m using ok(2) by (auto split: api.splits)
  then have "\<not> early (Done p)" by auto
  then have "pc_shape (ps(i := Done p)) g" by (intro pc_shape_upd [OF S]) (use q nm in auto)
  moreover have "pc_counts (ps(i := Done p)) S' g"
    using C q x ok(2) by (auto simp: pc_counts_def empty_at_def full_at_def split: api.splits option.splits if_splits)
  ultimately show ?thesis using I by (simp add: pc_inv_def)
qed

interpretation pc: client_rules "producer_consumer argv" "PC_main M_entry" pc_globals0 pc_inv for argv
proof
  show "pc_inv ((\<lambda>_. Unborn)(UTH_TID_INVALID := At (PC_main M_entry))) (\<lambda>_. None) (\<lambda>_. None) pc_globals0"
    by (auto simp: pc_inv_def pc_shape_def pc_counts_def pc_data_def pc_globals0_def in_buffer_def BUFFER_SIZE_def)
next
  fix ps M S g i p e g' p'
  assume I: "pc_inv ps M S g" and p: "ps i = At p" and c: "p_code (producer_consumer argv) e p g = Ok (Compute g' p')"
  from c have "pc_code argv e p g = Ok (Compute g' p')" by (simp add: producer_consumer_def)
  with p show "pc_inv (ps(i := At p')) M S g'" by (auto elim!: pc_compute intro!: pc_quiet [OF I] simp: weights_def)
next
  fix ps M S g i p e a g' p' M' S'
  assume "pc_inv ps M S g" "ps i = At p" "p_code (producer_consumer argv) e p g = Ok (Call a g' p')" "\<not> is_create a" "issue i a (M, S) = Some (M', S')"
  then show "pc_inv (ps(i := issued a p')) M' S' g'" using pc_inv_call by (simp add: producer_consumer_def)
next
  fix ps M S g i p e fn arg n env g' p' j
  assume "pc_inv ps M S g" "ps i = At p" "p_code (producer_consumer argv) e p g = Ok (Call (A_create fn arg n env) g' p')" "ps j = Unborn" "j \<noteq> i"
  then show "pc_inv (ps(i := Made j p', j := New fn arg)) M S g'" using pc_inv_create by (simp add: producer_consumer_def)
next
  fix ps M S g i p e fn arg n env g' p'
  assume I: "pc_inv ps M S g" and p: "ps i = At p" and c: "p_code (producer_consumer argv) e p g = Ok (Call (A_create fn arg n env) g' p')"
  from c have "pc_code argv e p g = Ok (Call (A_create fn arg n env) g' p')" by (simp add: producer_consumer_def)
  then show "pc_inv (ps(i := At (p_ret (producer_consumer argv) p' (RetTid UTH_TID_INVALID)))) M S g'"
    using pc_creates [of argv e p g fn arg n env g' p'] pc_ret_look(1) [of p' "RetTid UTH_TID_INVALID"] p
    by (intro pc_quiet [OF I]) (auto simp: producer_consumer_def weights_def)
next
  fix ps M S g i a p M' S'
  assume "pc_inv ps M S g" "ps i = Await a p" "complete i a (M, S) = Some (M', S')"
  then show "pc_inv (ps(i := Done p)) M' S' g" by (rule pc_inv_effect)
next
  fix ps M S g i p r
  assume I: "pc_inv ps M S g" and p: "ps i = Done p"
  then show "pc_inv (ps(i := At (p_ret (producer_consumer argv) p r))) M S g"
    by (intro pc_quiet [OF I]) (auto simp: producer_consumer_def pc_ret_look)
next
  fix ps M S g i p j t
  assume I: "pc_inv ps M S g" and p: "ps i = Made t p"
  with pc_main_at(2) [OF I, of i] show "pc_inv (ps(i := At (p_ret (producer_consumer argv) p (RetTid j)))) M S g"
    by (intro pc_quiet [OF I]) (auto simp: producer_consumer_def pc_ret_look(2))
next
  fix ps M S g i fn arg
  assume I: "pc_inv ps M S g" and p: "ps i = New fn arg"
  then show "pc_inv (ps(i := At (p_start (producer_consumer argv) fn arg))) M S g"
    by (intro pc_quiet [OF I]) (auto simp: producer_consumer_def pc_start_def weights_def split: if_splits)
next
  fix ps M S g i p e v g'
  assume I: "pc_inv ps M S g" and p: "ps i = At p" and c: "p_code (producer_consumer argv) e p g = Ok (Finish v g')" and i: "i \<noteq> UTH_TID_INVALID"
  from c have "pc_code argv e p g = Ok (Finish v g')" by (simp add: producer_consumer_def)
  moreover have "\<not> at_main (At p)" using pc_main_at(1) [OF I, of i] p i by simp
  ultimately show "pc_inv (ps(i := Ended)) M S g'" using p by (auto elim!: pc_finish intro!: pc_quiet [OF I] simp: weights_def)
next
  fix ps M S g p e g' p'
  assume I: "pc_inv ps M S g" and p: "ps UTH_TID_INVALID = At p" and c: "p_code (producer_consumer argv) e p g = Ok (RunSched g' p')"
  from c have "pc_code argv e p g = Ok (RunSched g' p')" by (simp add: producer_consumer_def)
  from pc_run [OF this] p show "pc_inv (ps(UTH_TID_INVALID := InRun p')) M S g'" by (intro pc_quiet [OF I]) (auto simp: weights_def)
next
  fix ps M S g p
  assume I: "pc_inv ps M S g" and p: "ps UTH_TID_INVALID = InRun p"
  from pc_main_at(1) [OF I, of UTH_TID_INVALID] p have "p = PC_main M_print" by auto
  with p show "pc_inv (ps(UTH_TID_INVALID := At (p_ret (producer_consumer argv) p RetVoid))) M S g"
    by (intro pc_quiet [OF I]) (auto simp: producer_consumer_def weights_def)
qed

end
