(* ===== verification/Uth_Readwrite.thy ===== *)
theory Uth_Readwrite
  imports Uth_Clib
begin

text \<open>
  \<open>examples/readers_writers.c\<close>: a readers-writers lock with writer preference, built from a mutex and two
  condition variables. As in the other cooperative programs the code between two library calls is one step. The
  static initialisers of \<open>lock\<close>, \<open>can_read\<close> and \<open>can_write\<close> are the first calls of \<open>main\<close>.
\<close>

section \<open>The program\<close>

record rw_arg_t =
  ra_id :: int
  ra_iters :: int

datatype rw_event = Ev_read int int | Ev_write int int | Ev_reader_done int | Ev_writer_done int | Ev_final int int

record rw_globals =
  active_readers :: int
  active_writers :: int
  waiting_writers :: int
  shared_data :: int
  g_nr :: int
  g_nw :: int
  g_iters :: int
  rw_args :: "ptr \<rightharpoonup> rw_arg_t"
  rtids :: "int \<rightharpoonup> u32"
  wtids :: "int \<rightharpoonup> u32"
  rw_log :: "rw_event list"

definition rw_lock_at :: ptr where "rw_lock_at = 1"
definition can_read_at :: ptr where "can_read_at = 2"
definition can_write_at :: ptr where "can_write_at = 3"
definition reader_fn :: ptr where "reader_fn = 1"
definition writer_fn :: ptr where "writer_fn = 2"
definition rw_driver_fn :: ptr where "rw_driver_fn = 3"

text \<open>
  The helpers of the lock. Each begins with \<open>uth_mutex_lock(&lock)\<close> and goes on at the point it is given; the rest of its body, up to
  the next library call, is a definition of its own (\<open>_loop\<close>, \<open>_locked\<close>), and so is the final \<open>uth_mutex_unlock(&lock)\<close> of the two
  unlock functions (\<open>_end\<close>).
\<close>

definition read_lock :: "'p \<Rightarrow> rw_globals \<Rightarrow> ('p, rw_globals) act res" where
  "read_lock locked g = Ok (Call (A_mutex_lock rw_lock_at) g locked)"

definition read_lock_loop :: "'p \<Rightarrow> 'p \<Rightarrow> rw_globals \<Rightarrow> ('p, rw_globals) act res" where
  "read_lock_loop again entered g =
     (if active_writers g > 0 \<or> waiting_writers g > 0 then Ok (Call (A_cond_wait can_read_at rw_lock_at) g again)
      else and_then (c_int (active_readers g + 1)) (\<lambda>n. Ok (Call (A_mutex_unlock rw_lock_at) (g\<lparr>active_readers := n\<rparr>) entered)))"

definition read_unlock :: "'p \<Rightarrow> rw_globals \<Rightarrow> ('p, rw_globals) act res" where
  "read_unlock locked g = Ok (Call (A_mutex_lock rw_lock_at) g locked)"

definition read_unlock_locked :: "'p \<Rightarrow> 'p \<Rightarrow> rw_globals \<Rightarrow> ('p, rw_globals) act res" where
  "read_unlock_locked signalled unlocked g =
     and_then (c_int (active_readers g - 1)) (\<lambda>n.
       if n = 0 then Ok (Call (A_cond_signal can_write_at) (g\<lparr>active_readers := n\<rparr>) signalled)
       else Ok (Call (A_mutex_unlock rw_lock_at) (g\<lparr>active_readers := n\<rparr>) unlocked))"

definition read_unlock_end :: "'p \<Rightarrow> rw_globals \<Rightarrow> ('p, rw_globals) act res" where
  "read_unlock_end unlocked g = Ok (Call (A_mutex_unlock rw_lock_at) g unlocked)"

definition write_lock :: "'p \<Rightarrow> rw_globals \<Rightarrow> ('p, rw_globals) act res" where
  "write_lock locked g = Ok (Call (A_mutex_lock rw_lock_at) g locked)"

definition write_lock_loop :: "'p \<Rightarrow> 'p \<Rightarrow> rw_globals \<Rightarrow> ('p, rw_globals) act res" where
  "write_lock_loop again entered g =
     (if active_readers g > 0 \<or> active_writers g > 0 then Ok (Call (A_cond_wait can_write_at rw_lock_at) g again)
      else and_then (c_int (waiting_writers g - 1)) (\<lambda>w. and_then (c_int (active_writers g + 1)) (\<lambda>n.
        Ok (Call (A_mutex_unlock rw_lock_at) (g\<lparr>waiting_writers := w, active_writers := n\<rparr>) entered))))"

definition write_lock_locked :: "'p \<Rightarrow> 'p \<Rightarrow> rw_globals \<Rightarrow> ('p, rw_globals) act res" where
  "write_lock_locked again entered g =
     and_then (c_int (waiting_writers g + 1)) (\<lambda>w. write_lock_loop again entered (g\<lparr>waiting_writers := w\<rparr>))"

definition write_unlock :: "'p \<Rightarrow> rw_globals \<Rightarrow> ('p, rw_globals) act res" where
  "write_unlock locked g = Ok (Call (A_mutex_lock rw_lock_at) g locked)"

definition write_unlock_locked :: "'p \<Rightarrow> rw_globals \<Rightarrow> ('p, rw_globals) act res" where
  "write_unlock_locked signalled g =
     and_then (c_int (active_writers g - 1)) (\<lambda>n.
       Ok (Call (if waiting_writers g > 0 then A_cond_signal can_write_at else A_cond_broadcast can_read_at)
         (g\<lparr>active_writers := n\<rparr>) signalled))"

definition write_unlock_end :: "'p \<Rightarrow> rw_globals \<Rightarrow> ('p, rw_globals) act res" where
  "write_unlock_end unlocked g = Ok (Call (A_mutex_unlock rw_lock_at) g unlocked)"

lemmas rw_mutex_calls [simp] = read_lock_def read_unlock_def read_unlock_end_def write_lock_def write_unlock_def write_unlock_end_def

datatype reader_point =
    R_loop ptr int | R_check ptr int | R_read ptr int | R_unlock ptr int | R_leave ptr int | R_release ptr int | R_yield ptr int

datatype writer_point =
    W_loop ptr int | W_enter ptr int | W_check ptr int | W_write ptr int | W_unlock ptr int | W_leave ptr int | W_release ptr int | W_yield ptr int

fun reader :: "reader_point \<Rightarrow> rw_globals \<Rightarrow> (reader_point, rw_globals) act res" where
  "reader (R_loop a i) g =
     and_then (mem_get (rw_args g) a) (\<lambda>x.
       if i < ra_iters x then read_lock (R_check a i) g
       else Ok (Finish 0 (g\<lparr>rw_log := rw_log g @ [Ev_reader_done (ra_id x)]\<rparr>)))"
| "reader (R_check a i) g = read_lock_loop (R_check a i) (R_read a i) g"
| "reader (R_read a i) g =
     and_then (mem_get (rw_args g) a) (\<lambda>x.
       Ok (Call A_yield (g\<lparr>rw_log := rw_log g @ [Ev_read (ra_id x) (shared_data g)]\<rparr>) (R_unlock a i)))"
| "reader (R_unlock a i) g = read_unlock (R_leave a i) g"
| "reader (R_leave a i) g = read_unlock_locked (R_release a i) (R_yield a i) g"
| "reader (R_release a i) g = read_unlock_end (R_yield a i) g"
| "reader (R_yield a i) g = Ok (Call A_yield g (R_loop a (i + 1)))"

fun writer :: "writer_point \<Rightarrow> rw_globals \<Rightarrow> (writer_point, rw_globals) act res" where
  "writer (W_loop a i) g =
     and_then (mem_get (rw_args g) a) (\<lambda>x.
       if i < ra_iters x then write_lock (W_enter a i) g
       else Ok (Finish 0 (g\<lparr>rw_log := rw_log g @ [Ev_writer_done (ra_id x)]\<rparr>)))"
| "writer (W_enter a i) g = write_lock_locked (W_check a i) (W_write a i) g"
| "writer (W_check a i) g = write_lock_loop (W_check a i) (W_write a i) g"
| "writer (W_write a i) g =
     and_then (mem_get (rw_args g) a) (\<lambda>x. and_then (c_int (shared_data g + 1)) (\<lambda>n.
       Ok (Call A_yield (g\<lparr>shared_data := n, rw_log := rw_log g @ [Ev_write (ra_id x) n]\<rparr>) (W_unlock a i))))"
| "writer (W_unlock a i) g = write_unlock (W_leave a i) g"
| "writer (W_leave a i) g = write_unlock_locked (W_release a i) g"
| "writer (W_release a i) g = write_unlock_end (W_yield a i) g"
| "writer (W_yield a i) g = Ok (Call A_yield g (W_loop a (i + 1)))"

record rw_locals =
  rargs :: ptr
  wargs :: ptr

datatype rw_driver_point =
    RD_entry | RD_write rw_locals int | RD_write_made rw_locals int u32 | RD_read rw_locals int | RD_read_made rw_locals int u32
  | RD_join_w rw_locals int | RD_join_r rw_locals int

definition rw_free :: "ptr \<Rightarrow> int \<Rightarrow> (ptr \<rightharpoonup> rw_arg_t) \<Rightarrow> (ptr \<rightharpoonup> rw_arg_t)" where
  "rw_free base n m = (\<lambda>p. if p \<in> set (map (elem_at base 8) [0..n - 1]) then None else m p)"

fun rw_driver :: "os_choice \<Rightarrow> rw_driver_point \<Rightarrow> rw_globals \<Rightarrow> (rw_driver_point, rw_globals) act res" where
  "rw_driver e RD_entry g = Ok (Compute g (RD_write \<lparr>rargs = os_malloc e 0, wargs = os_malloc e 1\<rparr> 0))"
| "rw_driver e (RD_write d i) g =
     (if i < g_nw g then
        Ok (Call (A_create writer_fn (elem_at (wargs d) 8 i) 0 (os_create e))
          (g\<lparr>rw_args := (rw_args g)(elem_at (wargs d) 8 i \<mapsto> \<lparr>ra_id = i, ra_iters = g_iters g\<rparr>)\<rparr>) (RD_write_made d i 0))
      else Ok (Compute g (RD_read d 0)))"
| "rw_driver e (RD_write_made d i t) g = Ok (Compute (g\<lparr>wtids := (wtids g)(i \<mapsto> t)\<rparr>) (RD_write d (i + 1)))"
| "rw_driver e (RD_read d i) g =
     (if i < g_nr g then
        Ok (Call (A_create reader_fn (elem_at (rargs d) 8 i) 0 (os_create e))
          (g\<lparr>rw_args := (rw_args g)(elem_at (rargs d) 8 i \<mapsto> \<lparr>ra_id = i, ra_iters = g_iters g\<rparr>)\<rparr>) (RD_read_made d i 0))
      else Ok (Compute g (RD_join_w d 0)))"
| "rw_driver e (RD_read_made d i t) g = Ok (Compute (g\<lparr>rtids := (rtids g)(i \<mapsto> t)\<rparr>) (RD_read d (i + 1)))"
| "rw_driver e (RD_join_w d i) g =
     (if i < g_nw g then and_then (mem_get (wtids g) i) (\<lambda>t. Ok (Call (A_join t False) g (RD_join_w d (i + 1))))
      else Ok (Compute g (RD_join_r d 0)))"
| "rw_driver e (RD_join_r d i) g =
     (if i < g_nr g then and_then (mem_get (rtids g) i) (\<lambda>t. Ok (Call (A_join t False) g (RD_join_r d (i + 1))))
      else Ok (Finish 0 (g\<lparr>rw_args := rw_free (wargs d) (g_nw g) (rw_free (rargs d) (g_nr g) (rw_args g))\<rparr>)))"

datatype rw_main_point = RM_lock | RM_can_read | RM_can_write | RM_entry | RM_create | RM_run | RM_print | RM_return

fun rw_main :: "int list \<Rightarrow> os_choice \<Rightarrow> rw_main_point \<Rightarrow> rw_globals \<Rightarrow> (rw_main_point, rw_globals) act res" where
  "rw_main argv e RM_lock g = Ok (Call (A_mutex_init rw_lock_at) g RM_can_read)"
| "rw_main argv e RM_can_read g = Ok (Call (A_cond_init can_read_at) g RM_can_write)"
| "rw_main argv e RM_can_write g = Ok (Call (A_cond_init can_write_at) g RM_entry)"
| "rw_main argv e RM_entry g =
     and_then (arg_or argv 1 4) (\<lambda>nr. and_then (arg_or argv 2 2) (\<lambda>nw. and_then (arg_or argv 3 3) (\<lambda>n.
       Ok (Call A_init (g\<lparr>g_nr := nr, g_nw := nw, g_iters := n\<rparr>) RM_create))))"
| "rw_main argv e RM_create g = Ok (Call (A_create rw_driver_fn 0 0 (os_create e)) g RM_run)"
| "rw_main argv e RM_run g = Ok (RunSched g RM_print)"
| "rw_main argv e RM_print g =
     and_then (c_int (g_nw g * g_iters g)) (\<lambda>n. Ok (Compute (g\<lparr>rw_log := rw_log g @ [Ev_final (shared_data g) n]\<rparr>) RM_return))"
| "rw_main argv e RM_return g = and_then (c_int (g_nw g * g_iters g)) (\<lambda>n. Ok (Finish (if shared_data g = n then 0 else 1) g))"

datatype rw_point =
    RW_reader reader_point
  | RW_writer writer_point
  | RW_driver rw_driver_point
  | RW_main rw_main_point
  | RW_nowhere

fun rw_code :: "int list \<Rightarrow> os_choice \<Rightarrow> rw_point \<Rightarrow> rw_globals \<Rightarrow> (rw_point, rw_globals) act res" where
  "rw_code argv e (RW_reader p) g = within RW_reader (reader p g)"
| "rw_code argv e (RW_writer p) g = within RW_writer (writer p g)"
| "rw_code argv e (RW_driver p) g = within RW_driver (rw_driver e p g)"
| "rw_code argv e (RW_main p) g = within RW_main (rw_main argv e p g)"
| "rw_code argv e RW_nowhere g = Fault Unreachable"

definition rw_start :: "ptr \<Rightarrow> val \<Rightarrow> rw_point" where
  "rw_start fn arg =
     (if fn = reader_fn then RW_reader (R_loop arg 0)
      else if fn = writer_fn then RW_writer (W_loop arg 0)
      else if fn = rw_driver_fn then RW_driver RD_entry
      else RW_nowhere)"

fun rw_ret :: "rw_point \<Rightarrow> ret \<Rightarrow> rw_point" where
  "rw_ret (RW_driver (RD_write_made d i t)) (RetTid j) = RW_driver (RD_write_made d i j)"
| "rw_ret (RW_driver (RD_read_made d i t)) (RetTid j) = RW_driver (RD_read_made d i j)"
| "rw_ret p r = p"

definition readers_writers :: "int list \<Rightarrow> (rw_point, rw_globals) prog" where
  "readers_writers argv = \<lparr>p_start = rw_start, p_code = rw_code argv, p_ret = rw_ret\<rparr>"

definition rw_globals0 :: rw_globals where
  "rw_globals0 = \<lparr>active_readers = 0, active_writers = 0, waiting_writers = 0, shared_data = 0, g_nr = 0, g_nw = 0, g_iters = 0,
     rw_args = (\<lambda>_. None), rtids = (\<lambda>_. None), wtids = (\<lambda>_. None), rw_log = []\<rparr>"

end
