(* ===== verification/Uth_Readwrite_Inv.thy ===== *)
theory Uth_Readwrite_Inv
  imports Uth_Readwrite
begin

text \<open>
  The lock of \<open>readers_writers.c\<close> is correct: the counters are the numbers of threads in the sections they
  count, a writer excludes every other thread, and \<open>shared_data\<close> does not change while a thread is in a section.
\<close>

fun reading :: "rw_point \<Rightarrow> int" where
  "reading (RW_reader (R_read a i)) = 1"
| "reading (RW_reader (R_unlock a i)) = 1"
| "reading (RW_reader (R_leave a i)) = 1"
| "reading _ = 0"

fun writing :: "rw_point \<Rightarrow> int" where
  "writing (RW_writer (W_write a i)) = 1"
| "writing (RW_writer (W_unlock a i)) = 1"
| "writing (RW_writer (W_leave a i)) = 1"
| "writing _ = 0"

fun waiting :: "rw_point \<Rightarrow> int" where
  "waiting (RW_writer (W_check a i)) = 1"
| "waiting _ = 0"

lemma rw_weights_ge: "0 \<le> reading p" "0 \<le> writing p" "0 \<le> waiting p"
  by (cases p rule: reading.cases, simp_all) (cases p rule: writing.cases, simp_all, cases p rule: waiting.cases, simp_all)

definition rw_counts :: "(u32 \<Rightarrow> rw_point pos) \<Rightarrow> rw_globals \<Rightarrow> bool" where
  "rw_counts ps g \<longleftrightarrow> active_readers g = tally (weigh reading) ps \<and> active_writers g = tally (weigh writing) ps \<and>
     waiting_writers g = tally (weigh waiting) ps \<and> (active_writers g = 0 \<or> active_writers g = 1 \<and> active_readers g = 0)"

fun writes :: "rw_event list \<Rightarrow> int" where
  "writes [] = 0"
| "writes (Ev_write k n # es) = writes es + 1"
| "writes (_ # es) = writes es"

text \<open>Every writer prints the number of writes so far, and every reader reads it.\<close>

fun rw_log_ok :: "int \<Rightarrow> rw_event list \<Rightarrow> bool" where
  "rw_log_ok n [] = True"
| "rw_log_ok n (Ev_write k d # es) = (d = n + 1 \<and> rw_log_ok (n + 1) es)"
| "rw_log_ok n (Ev_read k d # es) = (d = n \<and> rw_log_ok n es)"
| "rw_log_ok n (_ # es) = rw_log_ok n es"

lemma writes_append [simp]: "writes (es @ es') = writes es + writes es'"
  by (induction es rule: writes.induct) simp_all

lemma rw_log_ok_append [simp]: "rw_log_ok n (es @ es') \<longleftrightarrow> rw_log_ok n es \<and> rw_log_ok (n + writes es) es'"
  by (induction n es rule: rw_log_ok.induct) (simp_all add: algebra_simps)

definition rw_data :: "rw_globals \<Rightarrow> bool" where
  "rw_data g \<longleftrightarrow> shared_data g = writes (rw_log g) \<and> rw_log_ok 0 (rw_log g)"

fun rw_other :: "rw_point \<Rightarrow> bool" where
  "rw_other (RW_driver q) = True"
| "rw_other (RW_main q) = True"
| "rw_other p = False"

fun rw_pos_ok :: "rw_point pos \<Rightarrow> bool" where
  "rw_pos_ok (Await a p) = (\<forall>m. a \<noteq> A_sem_wait m)"
| "rw_pos_ok (InRun p) = rw_other p"
| "rw_pos_ok _ = True"

definition rw_inv :: "(u32 \<Rightarrow> rw_point pos) \<Rightarrow> (ptr \<rightharpoonup> u32 option) \<Rightarrow> (ptr \<rightharpoonup> int) \<Rightarrow> rw_globals \<Rightarrow> bool" where
  "rw_inv ps M S g \<longleftrightarrow> rw_counts ps g \<and> rw_data g \<and> (\<forall>i. rw_pos_ok (ps i))"

lemma rw_counts_ge:
  assumes "rw_counts ps g"
  shows "0 \<le> active_readers g" "0 \<le> active_writers g" "weigh reading (ps i) \<le> active_readers g" "weigh writing (ps i) \<le> active_writers g"
  using assms tally_nonneg [of "weigh reading" ps] tally_nonneg [of "weigh writing" ps] tally_ge [of "weigh reading" ps i]
    tally_ge [of "weigh writing" ps i] weigh_nonneg [of reading] weigh_nonneg [of writing] rw_weights_ge
  by (simp_all add: rw_counts_def)

lemma writer_excludes:
  assumes C: "rw_counts ps g" and w: "weigh writing (ps i) = 1" "i \<noteq> j"
  shows "weigh writing (ps j) = 0 \<and> weigh reading (ps j) = 0"
proof -
  have ge: "0 \<le> weigh reading q" "0 \<le> weigh writing q" for q by (simp_all add: weigh_nonneg rw_weights_ge)
  have "weigh writing (ps i) + weigh writing (ps j) \<le> active_writers g"
    using tally_ge_two [of "weigh writing" i j ps, OF ge(2) w(2)] C by (simp add: rw_counts_def)
  then show ?thesis using w(1) C ge(2) [of "ps j"] ge(1) [of "ps j"] rw_counts_ge(3) [OF C, of j] by (auto simp: rw_counts_def)
qed

text \<open>A step that enters and leaves no section.\<close>

definition rw_look :: "rw_point pos \<Rightarrow> int \<times> int \<times> int" where
  "rw_look q = (weigh reading q, weigh writing q, weigh waiting q)"

definition rw_counters :: "rw_globals \<Rightarrow> int \<times> int \<times> int" where
  "rw_counters g = (active_readers g, active_writers g, waiting_writers g)"

lemma rw_quiet:
  assumes "rw_inv ps M S g" and "rw_look q = rw_look (ps i)" and "rw_pos_ok q"
    and "rw_counters g' = rw_counters g" and "rw_data g'"
  shows "rw_inv (ps(i := q)) M' S' g'"
  using assms by (auto simp: rw_inv_def rw_counts_def rw_look_def rw_counters_def)

lemma rw_call_reader:
  assumes I: "rw_inv ps M S g" and p: "ps i = At (RW_reader q)" and code: "reader q g = Ok (Call a g' q')"
  shows "rw_inv (ps(i := issued a (RW_reader q'))) M' S' g'"
proof -
  have C: "rw_counts ps g" and D: "rw_data g" using I by (simp_all add: rw_inv_def)
  show ?thesis
  proof (cases q)
    case (R_check b k)
    with I p code show ?thesis
      by (auto simp: read_lock_loop_def c_iff rw_inv_def rw_counts_def rw_data_def split: if_splits)
  next
    case (R_leave b k)
    with I p code rw_counts_ge(1,2) [OF C] rw_counts_ge(3,4) [OF C, of i] show ?thesis
      by (auto simp: read_unlock_locked_def c_iff rw_inv_def rw_counts_def rw_data_def split: if_splits)
  qed (use I p code D in \<open>auto intro!: rw_quiet [OF I] simp: c_iff rw_look_def rw_counters_def rw_data_def split: if_splits\<close>)
qed

lemma rw_call_writer:
  assumes I: "rw_inv ps M S g" and p: "ps i = At (RW_writer q)" and code: "writer q g = Ok (Call a g' q')"
  shows "rw_inv (ps(i := issued a (RW_writer q'))) M' S' g'"
proof -
  have C: "rw_counts ps g" and D: "rw_data g" using I by (simp_all add: rw_inv_def)
  note ge = rw_counts_ge(1,2) [OF C] rw_counts_ge(3,4) [OF C, of i]
  show ?thesis
  proof (cases q)
    case (W_enter b k)
    with I p code ge show ?thesis
      by (auto simp: write_lock_locked_def write_lock_loop_def c_iff rw_inv_def rw_counts_def rw_data_def split: if_splits)
  next
    case (W_check b k)
    with I p code ge show ?thesis
      by (auto simp: write_lock_loop_def c_iff rw_inv_def rw_counts_def rw_data_def split: if_splits)
  next
    case (W_leave b k)
    with I p code ge show ?thesis
      by (auto simp: write_unlock_locked_def c_iff rw_inv_def rw_counts_def rw_data_def split: if_splits)
  qed (use I p code D in \<open>auto intro!: rw_quiet [OF I] simp: c_iff rw_look_def rw_counters_def rw_data_def split: if_splits\<close>)
qed

text \<open>The driver and \<open>main\<close> leave the lock alone.\<close>

lemma rw_other_code:
  assumes "rw_other p" and "rw_code argv e p g = Ok x" and "rw_data g"
  shows "rw_counters (act_glob x) = rw_counters g" "rw_data (act_glob x)" "act_point x = Some p' \<Longrightarrow> rw_other p'" "act_call x \<noteq> Some (A_sem_wait m)"
proof -
  have "rw_counters (act_glob x) = rw_counters g \<and> rw_data (act_glob x) \<and> (\<forall>p'. act_point x = Some p' \<longrightarrow> rw_other p') \<and> act_call x \<noteq> Some (A_sem_wait m)"
  proof (cases p)
    case (RW_driver q)
    with assms(2) obtain y where "rw_driver e q g = Ok y" "act_glob x = act_glob y" "act_point x = map_option RW_driver (act_point y)" "act_call x = act_call y"
      by (auto dest: within_ok)
    with assms(3) show ?thesis by (cases q) (auto simp: c_iff rw_counters_def rw_data_def split: if_splits)
  next
    case (RW_main q)
    with assms(2) obtain y where "rw_main argv e q g = Ok y" "act_glob x = act_glob y" "act_point x = map_option RW_main (act_point y)" "act_call x = act_call y"
      by (auto dest: within_ok)
    with assms(3) show ?thesis by (cases q) (auto simp: c_iff rw_counters_def rw_data_def split: if_splits)
  qed (use assms(1) in simp_all)
  then show "rw_counters (act_glob x) = rw_counters g" "rw_data (act_glob x)" "act_point x = Some p' \<Longrightarrow> rw_other p'" "act_call x \<noteq> Some (A_sem_wait m)" by auto
qed

lemma rw_look_other [simp]:
  "rw_other p \<Longrightarrow> rw_look (At p) = (0, 0, 0)" "rw_other p \<Longrightarrow> rw_look (Done p) = (0, 0, 0)" "rw_other p \<Longrightarrow> rw_look (Made j p) = (0, 0, 0)"
  "(\<And>m. a \<noteq> A_sem_wait m) \<Longrightarrow> rw_other p \<Longrightarrow> rw_look (Await a p) = (0, 0, 0)"
  "rw_look Unborn = (0, 0, 0)" "rw_look (New fn arg) = (0, 0, 0)" "rw_look (InRun p) = (0, 0, 0)" "rw_look Ended = (0, 0, 0)"
  by (cases p; auto simp: rw_look_def split: api.splits)+

lemma rw_ret_look: "rw_look (At (rw_ret p r)) = rw_look (At p)" "rw_look (Done p) = rw_look (At p)" "rw_look (Made j p) = rw_look (At p)"
  by (cases "(p, r)" rule: rw_ret.cases; simp add: rw_look_def)+

lemma rw_creates: "rw_code argv e p g = Ok (Call (A_create fn arg n env) g' p') \<Longrightarrow> rw_other p"
proof (cases p)
  case (RW_reader q)
  assume "rw_code argv e p g = Ok (Call (A_create fn arg n env) g' p')"
  with RW_reader show ?thesis by (cases q) (auto simp: c_iff read_lock_loop_def read_unlock_locked_def split: if_splits)
next
  case (RW_writer q)
  assume "rw_code argv e p g = Ok (Call (A_create fn arg n env) g' p')"
  with RW_writer show ?thesis by (cases q) (auto simp: c_iff write_lock_locked_def write_lock_loop_def write_unlock_locked_def split: if_splits)
qed simp_all

lemma rw_threads:
  assumes "\<not> rw_other p" and "rw_code argv e p g = Ok x" and "act_call x = None" and "rw_data g"
  shows "\<exists>v. x = Finish v (act_glob x)" "rw_look (At p) = (0, 0, 0)" "rw_counters (act_glob x) = rw_counters g" "rw_data (act_glob x)"
proof -
  have "(\<exists>v. x = Finish v (act_glob x)) \<and> rw_look (At p) = (0, 0, 0) \<and> rw_counters (act_glob x) = rw_counters g \<and> rw_data (act_glob x)"
  proof (cases p)
    case (RW_reader q)
    with assms show ?thesis
      by (cases q; cases x) (auto simp: c_iff read_lock_loop_def read_unlock_locked_def rw_look_def rw_counters_def rw_data_def split: if_splits)
  next
    case (RW_writer q)
    with assms show ?thesis
      by (cases q; cases x) (auto simp: c_iff write_lock_locked_def write_lock_loop_def write_unlock_locked_def rw_look_def rw_counters_def rw_data_def split: if_splits)
  qed (use assms in simp_all)
  then show "\<exists>v. x = Finish v (act_glob x)" "rw_look (At p) = (0, 0, 0)" "rw_counters (act_glob x) = rw_counters g" "rw_data (act_glob x)" by auto
qed

lemma rw_inv_call:
  assumes I: "rw_inv ps M S g" and p: "ps i = At p" and code: "rw_code argv e p g = Ok (Call a g' p')" and nc: "\<not> is_create a"
  shows "rw_inv (ps(i := issued a p')) M' S' g'"
proof (cases p)
  case (RW_reader q)
  with code p rw_call_reader [OF I, of i q a g'] show ?thesis by auto
next
  case (RW_writer q)
  with code p rw_call_writer [OF I, of i q a g'] show ?thesis by auto
next
  case (RW_driver q)
  have D: "rw_data g" using I by (simp add: rw_inv_def)
  have o: "rw_other p" using RW_driver by simp
  from rw_other_code(1,2) [OF o code D] rw_other_code(3) [OF o code D, of p'] rw_other_code(4) [OF o code D] o p show ?thesis
    by (intro rw_quiet [OF I]; cases rule: issued_cases [of a p']) auto
next
  case (RW_main q)
  have D: "rw_data g" using I by (simp add: rw_inv_def)
  have o: "rw_other p" using RW_main by simp
  from rw_other_code(1,2) [OF o code D] rw_other_code(3) [OF o code D, of p'] rw_other_code(4) [OF o code D] o p show ?thesis
    by (intro rw_quiet [OF I]; cases rule: issued_cases [of a p']) auto
qed (use code in simp)

interpretation rw: client_rules "readers_writers argv" "RW_main RM_lock" rw_globals0 rw_inv for argv
proof (unfold_locales, unfold readers_writers_def prog.simps)
  show "rw_inv ((\<lambda>_. Unborn)(UTH_TID_INVALID := At (RW_main RM_lock))) (\<lambda>_. None) (\<lambda>_. None) rw_globals0"
    by (simp add: rw_inv_def rw_counts_def rw_data_def rw_globals0_def)
next
  fix ps M S g i p e g' p'
  assume I: "rw_inv ps M S g" and p: "ps i = At p" and c: "rw_code argv e p g = Ok (Compute g' p')"
  have D: "rw_data g" using I by (simp add: rw_inv_def)
  have o: "rw_other p" using rw_threads(1) [OF _ c _ D] by auto
  from rw_other_code(1-3) [OF o c D] o p show "rw_inv (ps(i := At p')) M S g'" by (intro rw_quiet [OF I]) auto
next
  fix ps M S g i p e a g' p' M' S'
  assume "rw_inv ps M S g" "ps i = At p" "rw_code argv e p g = Ok (Call a g' p')" "\<not> is_create a" "issue i a (M, S) = Some (M', S')"
  from rw_inv_call [OF this(1-4)] show "rw_inv (ps(i := issued a p')) M' S' g'" .
next
  fix ps M S g i p e fn arg n env g' p' j
  assume I: "rw_inv ps M S g" and p: "ps i = At p" and c: "rw_code argv e p g = Ok (Call (A_create fn arg n env) g' p')"
    and j: "ps j = Unborn" "j \<noteq> i"
  have D: "rw_data g" using I by (simp add: rw_inv_def)
  note o = rw_creates [OF c]
  have "rw_inv (ps(i := Made j p')) M S g'" using rw_other_code(1-3) [OF o c D] o p by (intro rw_quiet [OF I]) auto
  from rw_quiet [OF this, of "New fn arg" j g'] j rw_other_code(2) [OF o c D] show "rw_inv (ps(i := Made j p', j := New fn arg)) M S g'" by simp
next
  fix ps M S g i p e fn arg n env g' p'
  assume I: "rw_inv ps M S g" and p: "ps i = At p" and c: "rw_code argv e p g = Ok (Call (A_create fn arg n env) g' p')"
  have D: "rw_data g" using I by (simp add: rw_inv_def)
  note o = rw_creates [OF c]
  show "rw_inv (ps(i := At (rw_ret p' (RetTid UTH_TID_INVALID)))) M S g'"
    using rw_other_code(1-3) [OF o c D] o p by (intro rw_quiet [OF I]) (auto simp: rw_ret_look)
next
  fix ps M S g i a p M' S'
  assume I: "rw_inv ps M S g" and p: "ps i = Await a p"
  then have "a \<noteq> A_sem_wait m" for m using I by (auto simp: rw_inv_def dest: spec [of _ i])
  then have "rw_look (Await a p) = rw_look (At p)" by (cases a) (auto simp: rw_look_def)
  with I p show "rw_inv (ps(i := Done p)) M' S' g" by (intro rw_quiet [OF I]) (auto simp: rw_ret_look(2) rw_inv_def)
next
  fix ps M S g i p r
  assume I: "rw_inv ps M S g" and p: "ps i = Done p"
  then show "rw_inv (ps(i := At (rw_ret p r))) M S g" by (intro rw_quiet [OF I]) (auto simp: rw_ret_look rw_inv_def)
next
  fix ps M S g i p j t
  assume I: "rw_inv ps M S g" and p: "ps i = Made t p"
  then show "rw_inv (ps(i := At (rw_ret p (RetTid j)))) M S g" by (intro rw_quiet [OF I]) (auto simp: rw_ret_look rw_inv_def)
next
  fix ps M S g i fn arg
  assume I: "rw_inv ps M S g" and p: "ps i = New fn arg"
  then show "rw_inv (ps(i := At (rw_start fn arg))) M S g"
    by (intro rw_quiet [OF I]) (auto simp: rw_start_def rw_look_def rw_inv_def)
next
  fix ps M S g i p e v g'
  assume I: "rw_inv ps M S g" and p: "ps i = At p" and c: "rw_code argv e p g = Ok (Finish v g')"
  have D: "rw_data g" using I by (simp add: rw_inv_def)
  show "rw_inv (ps(i := Ended)) M S g'"
  proof (cases "rw_other p")
    case True
    with rw_other_code(1,2) [OF True c D] p show ?thesis by (intro rw_quiet [OF I]) auto
  next
    case False
    with rw_threads(2-4) [OF False c _ D] p show ?thesis by (intro rw_quiet [OF I]) auto
  qed
next
  fix ps M S g p e g' p'
  assume I: "rw_inv ps M S g" and p: "ps UTH_TID_INVALID = At p" and c: "rw_code argv e p g = Ok (RunSched g' p')"
  have D: "rw_data g" using I by (simp add: rw_inv_def)
  have o: "rw_other p" using rw_threads(1) [OF _ c _ D] by auto
  from rw_other_code(1-3) [OF o c D] o p show "rw_inv (ps(UTH_TID_INVALID := InRun p')) M S g'" by (intro rw_quiet [OF I]) auto
next
  fix ps :: "u32 \<Rightarrow> rw_point pos" and M S g p
  assume I: "rw_inv ps M S g" and p: "ps UTH_TID_INVALID = InRun p"
  then have "rw_other p" by (auto simp: rw_inv_def dest: spec [of _ UTH_TID_INVALID])
  with I p show "rw_inv (ps(UTH_TID_INVALID := At (rw_ret p RetVoid))) M S g" by (intro rw_quiet [OF I]) (auto simp: rw_ret_look rw_inv_def)
qed

section \<open>Sections\<close>

text \<open>A thread that reads, or a writer that has made its update: until it leaves its section, \<open>shared_data\<close> belongs to it.\<close>

fun wrote :: "rw_point \<Rightarrow> int" where
  "wrote (RW_writer (W_unlock a i)) = 1"
| "wrote (RW_writer (W_leave a i)) = 1"
| "wrote _ = 0"

definition in_section :: "rw_point pos \<Rightarrow> bool" where
  "in_section q \<longleftrightarrow> weigh reading q = 1 \<or> weigh wrote q = 1"

lemma wrote_writing: "weigh wrote q = 1 \<Longrightarrow> weigh writing q = 1"
proof -
  have "wrote p = 1 \<Longrightarrow> writing p = 1" for p by (cases p rule: wrote.cases) simp_all
  then show "weigh wrote q = 1 \<Longrightarrow> weigh writing q = 1" by (cases q) (auto split: api.splits)
qed

lemma rw_code_writes:
  assumes "rw_code argv e p g = Ok x" and "shared_data (act_glob x) \<noteq> shared_data g \<or> writes (rw_log (act_glob x)) \<noteq> writes (rw_log g)"
  shows "\<exists>a k. p = RW_writer (W_write a k)"
proof (cases p)
  case (RW_reader q)
  with assms obtain y where "reader q g = Ok y" "act_glob x = act_glob y" by (auto dest: within_ok)
  with assms(2) show ?thesis by (cases q) (auto simp: c_iff read_lock_loop_def read_unlock_locked_def split: if_splits)
next
  case (RW_writer q)
  with assms obtain y where "writer q g = Ok y" "act_glob x = act_glob y" by (auto dest: within_ok)
  with RW_writer assms(2) show ?thesis
    by (cases q) (auto simp: c_iff write_lock_locked_def write_lock_loop_def write_unlock_locked_def split: if_splits)
next
  case (RW_driver q)
  with assms obtain y where "rw_driver e q g = Ok y" "act_glob x = act_glob y" by (auto dest: within_ok)
  with assms(2) show ?thesis by (cases q) (auto simp: c_iff split: if_splits)
next
  case (RW_main q)
  with assms obtain y where "rw_main argv e q g = Ok y" "act_glob x = act_glob y" by (auto dest: within_ok)
  with assms(2) show ?thesis by (cases q) (auto simp: c_iff split: if_splits)
qed (use assms in simp)

lemma section_step:
  assumes r: "creachable (readers_writers argv) (RW_main RM_lock) rw_globals0 c" and st: "cstep (readers_writers argv) c c'"
    and i: "in_section (fst (snd c) i)"
  shows "shared_data (snd (snd c')) = shared_data (snd (snd c)) \<and> writes (rw_log (snd (snd c'))) = writes (rw_log (snd (snd c)))"
proof (rule ccontr)
  assume ch: "\<not> ?thesis"
  obtain l s ps g where c: "c = ((l, s), ps, g)" by (metis surj_pair)
  have C: "rw_counts ps g" using rw.creachable_inv [OF r] c by (simp add: rw_inv_def)
  from st c ch obtain p e x where p: "ps (self_tid s) = At p" "rw_code argv e p g = Ok x" "act_glob x = snd (snd c')"
    by (cases rule: cstep.cases) (fastforce simp: readers_writers_def)+
  with rw_code_writes [OF p(2)] ch c obtain a k where w: "ps (self_tid s) = At (RW_writer (W_write a k))" by auto
  then have "self_tid s \<noteq> i" "weigh writing (ps (self_tid s)) = 1" using i c by (auto simp: in_section_def)
  with writer_excludes [OF C] i c wrote_writing [of "ps i"] show False by (force simp: in_section_def)
qed

end
