(* ===== verification/Uth_Philosophers.thy ===== *)
theory Uth_Philosophers
  imports Uth_Clib
begin

text \<open>
  \<open>examples/philosophers.c\<close>: the dining philosophers, where the last philosopher picks up its forks in
  the opposite order. The program is cooperative: the code between two library calls is one step.
\<close>

section \<open>The program\<close>

datatype ph_event =
    Ev_thinking int | Ev_eating int int | Ev_picked int int | Ev_put_down int | Ev_ph_done int
  | Ev_need_two | Ev_finished | Ev_ate int int | Ev_total int int

record ph_globals =
  ph_N :: int
  total_meals :: int
  forks :: ptr
  meals :: "int list"
  ph_args :: "ptr \<rightharpoonup> int"
  ph_tids :: "int \<rightharpoonup> u32"
  ph_log :: "ph_event list"

definition philosopher_fn :: ptr where "philosopher_fn = 1"
definition ph_driver_fn :: ptr where "ph_driver_fn = 2"

text \<open>\<open>&forks[i]\<close>, where \<open>sizeof (uth_mutex_t)\<close> is 16.\<close>

definition fork_at :: "ph_globals \<Rightarrow> int \<Rightarrow> ptr" where
  "fork_at g i = elem_at (forks g) 16 i"

record ph_locals =
  ph_id :: int
  ph_first :: int
  ph_second :: int

datatype philosopher_point =
    PH_entry ptr | PH_loop ph_locals | PH_think ph_locals nat | PH_first ph_locals | PH_second ph_locals | PH_picked ph_locals
  | PH_eat ph_locals nat | PH_put ph_locals | PH_down ph_locals

definition ph_print :: "ph_event \<Rightarrow> ph_globals \<Rightarrow> ph_globals" where
  "ph_print ev g = g\<lparr>ph_log := ph_log g @ [ev]\<rparr>"

text \<open>The loops of \<open>think\<close> and \<open>eat\<close> after their \<open>printf\<close>: \<open>k\<close> iterations are done; \<open>rest\<close> follows the loop.\<close>

definition think :: "(nat \<Rightarrow> 'p) \<Rightarrow> ('p, ph_globals) act res \<Rightarrow> nat \<Rightarrow> ph_globals \<Rightarrow> ('p, ph_globals) act res" where
  "think again rest k g = (if k < 3 then Ok (Call A_yield g (again (k + 1))) else rest)"

definition eat :: "(nat \<Rightarrow> 'p) \<Rightarrow> ('p, ph_globals) act res \<Rightarrow> nat \<Rightarrow> ph_globals \<Rightarrow> ('p, ph_globals) act res" where
  "eat again rest k g = (if k < 2 then Ok (Call A_yield g (again (k + 1))) else rest)"

fun philosopher :: "philosopher_point \<Rightarrow> ph_globals \<Rightarrow> (philosopher_point, ph_globals) act res" where
  "philosopher (PH_entry a) g =
     and_then (mem_get (ph_args g) a) (\<lambda>i.
     and_then (c_int (i + 1)) (\<lambda>n.
     and_then (c_mod n (ph_N g)) (\<lambda>right.
       Ok (Compute g (PH_loop \<lparr>ph_id = i, ph_first = (if i = ph_N g - 1 then right else i), ph_second = (if i = ph_N g - 1 then i else right)\<rparr>)))))"
| "philosopher (PH_loop l) g =
     and_then (arr_get (meals g) (ph_id l)) (\<lambda>m.
       if m < total_meals g then Ok (Compute (ph_print (Ev_thinking (ph_id l)) g) (PH_think l 0))
       else Ok (Finish 0 (ph_print (Ev_ph_done (ph_id l)) g)))"
| "philosopher (PH_think l k) g = think (PH_think l) (Ok (Call (A_mutex_lock (fork_at g (ph_first l))) g (PH_first l))) k g"
| "philosopher (PH_first l) g = Ok (Call A_yield (ph_print (Ev_picked (ph_id l) (ph_first l)) g) (PH_second l))"
| "philosopher (PH_second l) g = Ok (Call (A_mutex_lock (fork_at g (ph_second l))) g (PH_picked l))"
| "philosopher (PH_picked l) g =
     and_then (arr_get (meals g) (ph_id l)) (\<lambda>m. and_then (c_int (m + 1)) (\<lambda>n.
       Ok (Compute (ph_print (Ev_eating (ph_id l) n) (ph_print (Ev_picked (ph_id l) (ph_second l)) g)) (PH_eat l 0))))"
| "philosopher (PH_eat l k) g =
     eat (PH_eat l)
       (and_then (arr_get (meals g) (ph_id l)) (\<lambda>m. and_then (c_int (m + 1)) (\<lambda>n. and_then (arr_put (meals g) (ph_id l) n) (\<lambda>ms.
          Ok (Call (A_mutex_unlock (fork_at g (ph_second l))) (g\<lparr>meals := ms\<rparr>) (PH_put l)))))) k g"
| "philosopher (PH_put l) g = Ok (Call (A_mutex_unlock (fork_at g (ph_first l))) g (PH_down l))"
| "philosopher (PH_down l) g = Ok (Compute (ph_print (Ev_put_down (ph_id l)) g) (PH_loop l))"

datatype ph_driver_point = PD_entry | PD_create ptr int | PD_made ptr int u32 | PD_join ptr int

definition ph_free :: "ptr \<Rightarrow> int \<Rightarrow> (ptr \<rightharpoonup> int) \<Rightarrow> (ptr \<rightharpoonup> int)" where
  "ph_free base n m = (\<lambda>p. if p \<in> set (map (elem_at base 4) [0..n - 1]) then None else m p)"

fun ph_driver :: "os_choice \<Rightarrow> ph_driver_point \<Rightarrow> ph_globals \<Rightarrow> (ph_driver_point, ph_globals) act res" where
  "ph_driver e PD_entry g = Ok (Compute g (PD_create (os_malloc e 0) 0))"
| "ph_driver e (PD_create args i) g =
     (if i < ph_N g then
        Ok (Call (A_create philosopher_fn (elem_at args 4 i) 0 (os_create e)) (g\<lparr>ph_args := (ph_args g)(elem_at args 4 i \<mapsto> i)\<rparr>) (PD_made args i 0))
      else Ok (Compute g (PD_join args 0)))"
| "ph_driver e (PD_made args i t) g = Ok (Compute (g\<lparr>ph_tids := (ph_tids g)(i \<mapsto> t)\<rparr>) (PD_create args (i + 1)))"
| "ph_driver e (PD_join args i) g =
     (if i < ph_N g then and_then (mem_get (ph_tids g) i) (\<lambda>t. Ok (Call (A_join t False) g (PD_join args (i + 1))))
      else Ok (Finish 0 (g\<lparr>ph_args := ph_free args (ph_N g) (ph_args g)\<rparr>)))"

datatype ph_main_point = PM_entry | PM_forks int | PM_create | PM_run | PM_print | PM_sum int int | PM_destroy int

fun ph_main :: "int list \<Rightarrow> os_choice \<Rightarrow> ph_main_point \<Rightarrow> ph_globals \<Rightarrow> (ph_main_point, ph_globals) act res" where
  "ph_main argv e PM_entry g =
     and_then (arg_or argv 1 5) (\<lambda>n. and_then (arg_or argv 2 3) (\<lambda>t.
       if n < 2 then Ok (Finish 1 (ph_print Ev_need_two (g\<lparr>ph_N := n, total_meals := t\<rparr>)))
       else Ok (Compute (g\<lparr>ph_N := n, total_meals := t, forks := os_malloc e 0, meals := replicate (nat n) 0\<rparr>) (PM_forks 0))))"
| "ph_main argv e (PM_forks i) g =
     (if i < ph_N g then Ok (Call (A_mutex_init (fork_at g i)) g (PM_forks (i + 1))) else Ok (Call A_init g PM_create))"
| "ph_main argv e PM_create g = Ok (Call (A_create ph_driver_fn 0 0 (os_create e)) g PM_run)"
| "ph_main argv e PM_run g = Ok (RunSched g PM_print)"
| "ph_main argv e PM_print g = Ok (Compute (ph_print Ev_finished g) (PM_sum 0 0))"
| "ph_main argv e (PM_sum i t) g =
     (if i < ph_N g then
        and_then (arr_get (meals g) i) (\<lambda>m. and_then (c_int (t + m)) (\<lambda>t'. Ok (Compute (ph_print (Ev_ate i m) g) (PM_sum (i + 1) t'))))
      else and_then (c_int (ph_N g * total_meals g)) (\<lambda>n. Ok (Compute (ph_print (Ev_total t n) g) (PM_destroy 0))))"
| "ph_main argv e (PM_destroy i) g =
     (if i < ph_N g then Ok (Call (A_mutex_destroy (fork_at g i)) g (PM_destroy (i + 1))) else Ok (Finish 0 (g\<lparr>meals := []\<rparr>)))"

datatype ph_point = PH_philosopher philosopher_point | PH_driver ph_driver_point | PH_main ph_main_point | PH_nowhere

fun ph_code :: "int list \<Rightarrow> os_choice \<Rightarrow> ph_point \<Rightarrow> ph_globals \<Rightarrow> (ph_point, ph_globals) act res" where
  "ph_code argv e (PH_philosopher p) g = within PH_philosopher (philosopher p g)"
| "ph_code argv e (PH_driver p) g = within PH_driver (ph_driver e p g)"
| "ph_code argv e (PH_main p) g = within PH_main (ph_main argv e p g)"
| "ph_code argv e PH_nowhere g = Fault Unreachable"

definition ph_start :: "ptr \<Rightarrow> val \<Rightarrow> ph_point" where
  "ph_start fn arg =
     (if fn = philosopher_fn then PH_philosopher (PH_entry arg) else if fn = ph_driver_fn then PH_driver PD_entry else PH_nowhere)"

fun ph_ret :: "ph_point \<Rightarrow> ret \<Rightarrow> ph_point" where
  "ph_ret (PH_driver (PD_made args i t)) (RetTid j) = PH_driver (PD_made args i j)"
| "ph_ret p r = p"

definition philosophers :: "int list \<Rightarrow> (ph_point, ph_globals) prog" where
  "philosophers argv = \<lparr>p_start = ph_start, p_code = ph_code argv, p_ret = ph_ret\<rparr>"

definition ph_globals0 :: ph_globals where
  "ph_globals0 = \<lparr>ph_N = 0, total_meals = 0, forks = NULL, meals = [], ph_args = (\<lambda>_. None), ph_tids = (\<lambda>_. None), ph_log = []\<rparr>"

end
