(* ===== verification/Uth_Philosophers_Inv.thy ===== *)
theory Uth_Philosophers_Inv
  imports Uth_Philosophers
begin

text \<open>
  The forks of \<open>philosophers.c\<close>: a philosopher that eats holds both of its forks, so neighbours never eat at the
  same time; and the philosophers never wait for each other in a circle.
\<close>

section \<open>Positions\<close>

definition fork_order :: "ph_globals \<Rightarrow> ph_locals \<Rightarrow> bool" where
  "fork_order g l \<longleftrightarrow> 0 \<le> ph_id l \<and> ph_id l < ph_N g \<and> 0 \<le> ph_first l \<and> ph_first l < ph_second l \<and> ph_second l < ph_N g \<and>
     {ph_first l, ph_second l} = {ph_id l, (ph_id l + 1) mod ph_N g}"

fun ph_point_ok :: "ph_globals \<Rightarrow> ph_point \<Rightarrow> bool" where
  "ph_point_ok g (PH_philosopher p) =
     (case p of
        PH_entry a \<Rightarrow> True | PH_loop l \<Rightarrow> fork_order g l | PH_think l k \<Rightarrow> fork_order g l | PH_first l \<Rightarrow> fork_order g l
      | PH_second l \<Rightarrow> fork_order g l | PH_picked l \<Rightarrow> fork_order g l | PH_eat l k \<Rightarrow> fork_order g l | PH_put l \<Rightarrow> fork_order g l
      | PH_down l \<Rightarrow> fork_order g l)"
| "ph_point_ok g (PH_driver q) = (case q of PD_create a k \<Rightarrow> 0 \<le> k | PD_made a k t \<Rightarrow> 0 \<le> k | _ \<Rightarrow> True)"
| "ph_point_ok g p = True"

text \<open>The forks a philosopher holds, and the one it waits for.\<close>

fun holding :: "ph_point \<Rightarrow> int set" where
  "holding (PH_philosopher (PH_first l)) = {ph_first l}"
| "holding (PH_philosopher (PH_second l)) = {ph_first l}"
| "holding (PH_philosopher (PH_picked l)) = {ph_first l, ph_second l}"
| "holding (PH_philosopher (PH_eat l k)) = {ph_first l, ph_second l}"
| "holding (PH_philosopher (PH_put l)) = {ph_first l}"
| "holding p = {}"

fun wanted :: "ph_point \<Rightarrow> int option" where
  "wanted (PH_philosopher (PH_first l)) = Some (ph_first l)"
| "wanted (PH_philosopher (PH_picked l)) = Some (ph_second l)"
| "wanted p = None"

fun awaits_fork :: "ph_point pos \<Rightarrow> int option" where
  "awaits_fork (Await a p) = wanted p"
| "awaits_fork q = None"

fun holds_forks :: "ph_point pos \<Rightarrow> int set" where
  "holds_forks (At p) = holding p"
| "holds_forks (Done p) = holding p"
| "holds_forks (Await a p) = holding p - set_option (wanted p)"
| "holds_forks q = {}"

fun ph_pos_ok :: "ph_globals \<Rightarrow> ph_point pos \<Rightarrow> bool" where
  "ph_pos_ok g (At p) = ph_point_ok g p"
| "ph_pos_ok g (Done p) = (ph_point_ok g p \<and> p \<noteq> PH_main PM_entry)"
| "ph_pos_ok g (Made j p) = (ph_point_ok g p \<and> (p = PH_main PM_run \<or> (\<exists>q. p = PH_driver q)))"
| "ph_pos_ok g (InRun p) = (p = PH_main PM_print)"
| "ph_pos_ok g (Await a p) = (ph_point_ok g p \<and>
     ((\<exists>x. wanted p = Some x \<and> a = A_mutex_lock (fork_at g x)) \<or> (\<exists>q t w. p = PH_driver q \<and> a = A_join t w)))"
| "ph_pos_ok g q = True"

fun ph_at_main :: "ph_point pos \<Rightarrow> bool" where
  "ph_at_main (At p) = (\<exists>m. p = PH_main m)"
| "ph_at_main (Done p) = (\<exists>m. p = PH_main m)"
| "ph_at_main (Made j p) = (\<exists>m. p = PH_main m)"
| "ph_at_main (InRun p) = (\<exists>m. p = PH_main m)"
| "ph_at_main (Await a p) = (\<exists>m. p = PH_main m)"
| "ph_at_main q = False"

text \<open>How many forks \<open>main\<close> has initialised while it is still alone.\<close>

fun inited_of :: "ph_point \<Rightarrow> int option" where
  "inited_of (PH_main PM_entry) = Some 0"
| "inited_of (PH_main (PM_forks k)) = Some k"
| "inited_of p = None"

fun inited :: "ph_point pos \<Rightarrow> int option" where
  "inited (At p) = inited_of p"
| "inited (Done p) = inited_of p"
| "inited q = None"

fun alone :: "ph_point pos \<Rightarrow> bool" where
  "alone (At p) = (inited_of p \<noteq> None \<or> p = PH_main PM_create)"
| "alone (Done p) = (inited_of p \<noteq> None \<or> p = PH_main PM_create)"
| "alone q = False"

section \<open>The invariant\<close>

definition ph_shape :: "(u32 \<Rightarrow> ph_point pos) \<Rightarrow> ph_globals \<Rightarrow> bool" where
  "ph_shape ps g \<longleftrightarrow> (\<forall>i. ph_at_main (ps i) = (i = UTH_TID_INVALID)) \<and> (\<forall>i. ph_pos_ok g (ps i)) \<and>
     (alone (ps UTH_TID_INVALID) \<longrightarrow> (\<forall>i. i \<noteq> UTH_TID_INVALID \<longrightarrow> ps i = Unborn)) \<and>
     (\<forall>a i. ph_args g a = Some i \<longrightarrow> 0 \<le> i \<and> i < ph_N g) \<and>
     (ps UTH_TID_INVALID \<noteq> At (PH_main PM_entry) \<longrightarrow> 2 \<le> ph_N g \<and> ph_N g \<le> INT_MAX)"

definition ph_forks :: "(u32 \<Rightarrow> ph_point pos) \<Rightarrow> (ptr \<rightharpoonup> u32 option) \<Rightarrow> ph_globals \<Rightarrow> bool" where
  "ph_forks ps M g \<longleftrightarrow> (ps UTH_TID_INVALID = At (PH_main PM_entry) \<longrightarrow> M = (\<lambda>_. None) \<and> ph_args g = (\<lambda>_. None)) \<and>
     (\<forall>x. 0 \<le> x \<longrightarrow> x < ph_N g \<longrightarrow> (\<forall>j. M (fork_at g x) = Some (Some j) \<longleftrightarrow> x \<in> holds_forks (ps j)) \<and>
        (M (fork_at g x) = None \<longrightarrow> (\<exists>k. inited (ps UTH_TID_INVALID) = Some k \<and> k \<le> x)))"

definition ph_inv :: "(u32 \<Rightarrow> ph_point pos) \<Rightarrow> (ptr \<rightharpoonup> u32 option) \<Rightarrow> (ptr \<rightharpoonup> int) \<Rightarrow> ph_globals \<Rightarrow> bool" where
  "ph_inv ps M S g \<longleftrightarrow> ph_shape ps g \<and> ph_forks ps M g"

lemma fork_at_inj:
  assumes "fork_at g x = fork_at g y" and "0 \<le> x" "x < ph_N g" "0 \<le> y" "y < ph_N g" "ph_N g \<le> INT_MAX"
  shows "x = y"
  using elem_at_inj [of "forks g" 16 x y "ph_N g"] assms by (simp add: fork_at_def)

lemma ph_facts:
  assumes "ph_inv ps M S g"
  shows "ph_at_main (ps i) \<longleftrightarrow> i = UTH_TID_INVALID" "ph_pos_ok g (ps i)" "alone (ps UTH_TID_INVALID) \<Longrightarrow> i \<noteq> UTH_TID_INVALID \<Longrightarrow> ps i = Unborn"
    "i \<noteq> UTH_TID_INVALID \<Longrightarrow> ps i \<noteq> Unborn \<Longrightarrow> 2 \<le> ph_N g \<and> ph_N g \<le> INT_MAX"
    "\<lbrakk>0 \<le> x; x < ph_N g\<rbrakk> \<Longrightarrow> M (fork_at g x) = Some (Some j) \<longleftrightarrow> x \<in> holds_forks (ps j)"
  using assms by (auto simp: ph_inv_def ph_shape_def ph_forks_def)

lemma alone_main: "alone q \<Longrightarrow> ph_at_main q" "inited q = Some k \<Longrightarrow> alone q" "holds_forks q \<noteq> {} \<Longrightarrow> \<not> ph_at_main q"
proof -
  have i: "inited_of p = Some k \<Longrightarrow> \<exists>m. p = PH_main m" for p k by (cases p rule: inited_of.cases) auto
  have h: "holding (PH_main m) = {}" for m by simp
  show "alone q \<Longrightarrow> ph_at_main q" using i by (cases q) auto
  show "inited q = Some k \<Longrightarrow> alone q" by (cases q) auto
  show "holds_forks q \<noteq> {} \<Longrightarrow> \<not> ph_at_main q" using h by (cases q) auto
qed

definition same_table :: "ph_globals \<Rightarrow> ph_globals \<Rightarrow> bool" where
  "same_table g g' \<longleftrightarrow> ph_N g' = ph_N g \<and> forks g' = forks g \<and> (\<forall>a i. ph_args g' a = Some i \<longrightarrow> ph_args g a = Some i \<or> 0 \<le> i \<and> i < ph_N g)"

lemma same_table_refl [simp]: "same_table g g"
  by (simp add: same_table_def)

lemma same_table_frame:
  assumes "same_table g g'"
  shows "fork_at g' x = fork_at g x" "fork_order g' l = fork_order g l" "ph_point_ok g' p = ph_point_ok g p" "ph_pos_ok g' q = ph_pos_ok g q"
proof -
  show f: "fork_at g' x = fork_at g x" for x using assms by (simp add: same_table_def fork_at_def)
  show o: "fork_order g' l = fork_order g l" for l using assms by (simp add: same_table_def fork_order_def)
  show p: "ph_point_ok g' p = ph_point_ok g p" for p by (cases p) (auto simp: o split: philosopher_point.splits)
  show "ph_pos_ok g' q = ph_pos_ok g q" by (cases q) (simp_all add: p f)
qed

text \<open>A step of thread \<open>i\<close> that picks up and puts down no fork.\<close>

lemma ph_shape_upd:
  assumes I: "ph_inv ps M S g" and q: "ph_at_main q = ph_at_main (ps i)" "ph_pos_ok g q" "alone q \<Longrightarrow> alone (ps i)" "q \<noteq> At (PH_main PM_entry)"
    and b: "ps i \<noteq> Unborn" and e: "ps i \<noteq> At (PH_main PM_entry)" and g: "same_table g g'"
  shows "ph_shape (ps(i := q)) g'"
  unfolding ph_shape_def
proof (intro conjI)
  have S: "ph_shape ps g" using I by (simp add: ph_inv_def)
  have N: "ph_N g' = ph_N g" using g by (simp add: same_table_def)
  show "\<forall>j. ph_at_main ((ps(i := q)) j) = (j = UTH_TID_INVALID)" using S q(1) by (auto simp: ph_shape_def)
  show "\<forall>j. ph_pos_ok g' ((ps(i := q)) j)" using S q(2) by (simp add: ph_shape_def same_table_frame [OF g])
  show "alone ((ps(i := q)) UTH_TID_INVALID) \<longrightarrow> (\<forall>j. j \<noteq> UTH_TID_INVALID \<longrightarrow> (ps(i := q)) j = Unborn)"
    using ph_facts(3) [OF I] q(3) b by (cases "i = UTH_TID_INVALID") auto
  show "\<forall>a j. ph_args g' a = Some j \<longrightarrow> 0 \<le> j \<and> j < ph_N g'" using S g unfolding ph_shape_def same_table_def by metis
  show "(ps(i := q)) UTH_TID_INVALID \<noteq> At (PH_main PM_entry) \<longrightarrow> 2 \<le> ph_N g' \<and> ph_N g' \<le> INT_MAX"
    using S N e by (cases "i = UTH_TID_INVALID") (auto simp: ph_shape_def)
qed

lemma ph_quiet:
  assumes I: "ph_inv ps M S g" and q: "ph_at_main q = ph_at_main (ps i)" "ph_pos_ok g q" "alone q \<Longrightarrow> alone (ps i)" "q \<noteq> At (PH_main PM_entry)"
    and b: "ps i \<noteq> Unborn" and e: "ps i \<noteq> At (PH_main PM_entry)" and g: "same_table g g'"
    and h: "holds_forks q = holds_forks (ps i)" and k: "\<And>k. inited (ps i) = Some k \<Longrightarrow> inited q = Some k \<or> ph_N g \<le> k" and M: "M' = M"
  shows "ph_inv (ps(i := q)) M' S' g'"
proof -
  have N: "ph_N g' = ph_N g" using g by (simp add: same_table_def)
  have "ph_forks (ps(i := q)) M g'"
    unfolding ph_forks_def
  proof (intro conjI allI impI)
    show "M = (\<lambda>_. None)" "ph_args g' = (\<lambda>_. None)" if "(ps(i := q)) UTH_TID_INVALID = At (PH_main PM_entry)"
      using that q(4) ph_facts(1) [OF I, of i] ph_facts(3) [OF I, of i] b by (auto split: if_splits)
    fix x assume x: "0 \<le> x" "x < ph_N g'"
    show "M (fork_at g' x) = Some (Some j) \<longleftrightarrow> x \<in> holds_forks ((ps(i := q)) j)" for j
      using ph_facts(5) [OF I, of x j] x h N by (simp add: same_table_frame [OF g])
    assume "M (fork_at g' x) = None"
    with I x N obtain k' where k': "inited (ps UTH_TID_INVALID) = Some k'" "k' \<le> x" by (auto simp: ph_inv_def ph_forks_def same_table_frame [OF g])
    with k [of k'] x N show "\<exists>k. inited ((ps(i := q)) UTH_TID_INVALID) = Some k \<and> k \<le> x" by (cases "i = UTH_TID_INVALID") auto
  qed
  with ph_shape_upd [OF I q b e g] M show ?thesis by (simp add: ph_inv_def)
qed

text \<open>A philosopher picks up a free fork, and puts down a fork it holds.\<close>

lemma ph_pick_up:
  assumes I: "ph_inv ps M S g" and p: "ps i = Await (A_mutex_lock (fork_at g x)) p" "wanted p = Some x" and f: "M (fork_at g x) = Some None"
  shows "ph_inv (ps(i := Done p)) (M(fork_at g x \<mapsto> Some i)) S g"
proof -
  obtain l where l: "p = PH_philosopher (PH_first l) \<and> x = ph_first l \<or> p = PH_philosopher (PH_picked l) \<and> x = ph_second l"
    using p(2) by (cases p rule: wanted.cases) auto
  have ok: "fork_order g l" using ph_facts(2) [OF I, of i] p(1) l by auto
  have x: "0 \<le> x" "x < ph_N g" using ok l by (auto simp: fork_order_def)
  have i: "i \<noteq> UTH_TID_INVALID" using ph_facts(1) [OF I, of i] p(1) l by auto
  then have N: "ph_N g \<le> INT_MAX" using ph_facts(4) [OF I, of i] p(1) by simp
  have h: "holds_forks (Done p) = insert x (holds_forks (ps i))" "x \<notin> holds_forks (ps i)" using p(1) l ok by (auto simp: fork_order_def)
  have "ph_shape (ps(i := Done p)) g" by (rule ph_shape_upd [OF I]) (use p(1) l ok in auto)
  moreover have "ph_forks (ps(i := Done p)) (M(fork_at g x \<mapsto> Some i)) g"
    unfolding ph_forks_def
  proof (intro conjI allI impI)
    show "M(fork_at g x \<mapsto> Some i) = (\<lambda>_. None)" "ph_args g = (\<lambda>_. None)" if "(ps(i := Done p)) UTH_TID_INVALID = At (PH_main PM_entry)"
      using that i I f by (simp_all add: ph_inv_def ph_forks_def)
    fix y assume y: "0 \<le> y" "y < ph_N g"
    have inj: "fork_at g y = fork_at g x \<longleftrightarrow> y = x" using fork_at_inj [OF _ y x N] by auto
    show "(M(fork_at g x \<mapsto> Some i)) (fork_at g y) = Some (Some j) \<longleftrightarrow> y \<in> holds_forks ((ps(i := Done p)) j)" for j
    proof (cases "y = x")
      case True
      have "x \<notin> holds_forks (ps j)" using ph_facts(5) [OF I x, of j] f by simp
      with True h(1) show ?thesis by auto
    next
      case False
      with inj ph_facts(5) [OF I y, of j] h show ?thesis by auto
    qed
    show "\<exists>k. inited ((ps(i := Done p)) UTH_TID_INVALID) = Some k \<and> k \<le> y" if "(M(fork_at g x \<mapsto> Some i)) (fork_at g y) = None"
      using that i I y by (auto simp: ph_inv_def ph_forks_def split: if_splits)
  qed
  ultimately show ?thesis by (simp add: ph_inv_def)
qed

lemma ph_put_down:
  assumes I: "ph_inv ps M S g" and p: "ps i = At p" and x: "x \<in> holding p" "0 \<le> x" "x < ph_N g" and q: "holding q = holding p - {x}" "ph_point_ok g q" "\<exists>r. q = PH_philosopher r"
    and g: "same_table g g'"
  shows "ph_inv (ps(i := Done q)) (M(fork_at g x \<mapsto> None)) S g'"
proof -
  have i: "i \<noteq> UTH_TID_INVALID" "\<not> ph_at_main (ps i)" using ph_facts(1) [OF I, of i] alone_main(3) [of "ps i"] p x(1) by auto
  then have N: "ph_N g \<le> INT_MAX" using ph_facts(4) [OF I, of i] p by simp
  have N': "ph_N g' = ph_N g" using g by (simp add: same_table_def)
  have own: "M (fork_at g x) = Some (Some i)" using ph_facts(5) [OF I x(2,3), of i] p x(1) by simp
  have "ph_shape (ps(i := Done q)) g'" by (rule ph_shape_upd [OF I]) (use p q i g in \<open>auto dest: alone_main(1)\<close>)
  moreover have "ph_forks (ps(i := Done q)) (M(fork_at g x \<mapsto> None)) g'"
    unfolding ph_forks_def
  proof (intro conjI allI impI)
    show "M(fork_at g x \<mapsto> None) = (\<lambda>_. None)" "ph_args g' = (\<lambda>_. None)" if "(ps(i := Done q)) UTH_TID_INVALID = At (PH_main PM_entry)"
      using that i I own by (simp_all add: ph_inv_def ph_forks_def)
    fix y assume y: "0 \<le> y" "y < ph_N g'"
    have inj: "fork_at g y = fork_at g x \<longleftrightarrow> y = x" using fork_at_inj [OF _ _ _ x(2,3) N] y N' by auto
    show "(M(fork_at g x \<mapsto> None)) (fork_at g' y) = Some (Some j) \<longleftrightarrow> y \<in> holds_forks ((ps(i := Done q)) j)" for j
    proof (cases "y = x")
      case True
      have "x \<notin> holds_forks (ps j)" if "j \<noteq> i" using ph_facts(5) [OF I x(2,3), of j] own that by simp
      with True q(1) show ?thesis by (auto simp: same_table_frame [OF g])
    next
      case False
      with inj ph_facts(5) [OF I, of y j] y q(1) p N' show ?thesis by (auto simp: same_table_frame [OF g])
    qed
    show "\<exists>k. inited ((ps(i := Done q)) UTH_TID_INVALID) = Some k \<and> k \<le> y" if "(M(fork_at g x \<mapsto> None)) (fork_at g' y) = None"
      using that i I y N' by (auto simp: ph_inv_def ph_forks_def same_table_frame [OF g] split: if_splits)
  qed
  ultimately show ?thesis by (simp add: ph_inv_def)
qed

section \<open>The steps of the program\<close>

lemma smod_N: "\<lbrakk>0 \<le> i; i < n; c_mod (i + 1) n = Ok r\<rbrakk> \<Longrightarrow> r = (i + 1) mod n"
  by (auto simp: c_mod_def c_div_def c_iff smod_int_alt_def split: if_splits)

lemma fork_order_entry:
  assumes "0 \<le> i" "i < ph_N g" "2 \<le> ph_N g" and "c_mod (i + 1) (ph_N g) = Ok r"
  shows "fork_order g \<lparr>ph_id = i, ph_first = (if i = ph_N g - 1 then r else i), ph_second = (if i = ph_N g - 1 then i else r)\<rparr>"
proof -
  have "(i + 1) mod ph_N g = (if i = ph_N g - 1 then 0 else i + 1)" using assms by auto
  with smod_N [OF assms(1,2,4)] assms(1-3) show ?thesis by (auto simp: fork_order_def)
qed

lemma ph_print_simps [simp]: "same_table g (ph_print ev g') = same_table g g'"
  by (simp add: same_table_def ph_print_def)

lemma ph_call_philosopher:
  assumes I: "ph_inv ps M S g" and p: "ps i = At (PH_philosopher q)" and code: "philosopher q g = Ok (Call a g' q')"
    and x: "issue i a (M, S) = Some (M', S')"
  shows "ph_inv (ps(i := issued a (PH_philosopher q'))) M' S' g'"
proof -
  have ok: "ph_point_ok g (PH_philosopher q)" using ph_facts(2) [OF I, of i] p by simp
  show ?thesis
  proof (cases q)
    case (PH_eat l k)
    show ?thesis
    proof (cases "k < 2")
      case True
      with PH_eat p ok code x show ?thesis by (auto intro!: ph_quiet [OF I] simp: eat_def)
    next
      case False
      with PH_eat code obtain ms where c: "a = A_mutex_unlock (fork_at g (ph_second l))" "g' = g\<lparr>meals := ms\<rparr>" "q' = PH_put l"
        by (auto simp: eat_def c_iff)
      have "ph_inv (ps(i := Done (PH_philosopher q'))) (M(fork_at g (ph_second l) \<mapsto> None)) S g'"
        by (rule ph_put_down [OF I p]) (use PH_eat ok c in \<open>auto simp: fork_order_def same_table_def\<close>)
      with x c show ?thesis by (auto simp: ph_inv_def split: if_splits)
    qed
  next
    case (PH_put l)
    with code have c: "a = A_mutex_unlock (fork_at g (ph_first l))" "g' = g" "q' = PH_down l" by auto
    have "ph_inv (ps(i := Done (PH_philosopher q'))) (M(fork_at g (ph_first l) \<mapsto> None)) S g'"
      by (rule ph_put_down [OF I p]) (use PH_put ok c in \<open>auto simp: fork_order_def\<close>)
    with x c show ?thesis by (auto simp: ph_inv_def split: if_splits)
  qed (use p ok code x in \<open>auto intro!: ph_quiet [OF I] simp: think_def c_iff fork_order_def split: if_splits\<close>)
qed

lemma ph_call_driver:
  assumes I: "ph_inv ps M S g" and p: "ps i = At (PH_driver q)" and code: "ph_driver e q g = Ok (Call a g' q')" and nc: "\<not> is_create a"
    and x: "issue i a (M, S) = Some (M', S')"
  shows "ph_inv (ps(i := issued a (PH_driver q'))) M' S' g'"
  using assms by (cases q) (auto intro!: ph_quiet [OF I] simp: c_iff split: if_splits)

lemma ph_call_main:
  assumes I: "ph_inv ps M S g" and p: "ps i = At (PH_main q)" and code: "ph_main argv e q g = Ok (Call a g' q')" and nc: "\<not> is_create a"
    and x: "issue i a (M, S) = Some (M', S')"
  shows "ph_inv (ps(i := issued a (PH_main q'))) M' S' g'"
proof (cases q)
  case (PM_forks k)
  have i: "i = UTH_TID_INVALID" using ph_facts(1) [OF I, of i] p by simp
  show ?thesis
  proof (cases "k < ph_N g")
    case False
    with PM_forks p code x show ?thesis by (auto intro!: ph_quiet [OF I])
  next
    case True
    with PM_forks code x have c: "a = A_mutex_init (fork_at g k)" "g' = g" "q' = PM_forks (k + 1)" "M' = M(fork_at g k \<mapsto> None)" "S' = S" by auto
    have "ph_shape (ps(i := Done (PH_main q'))) g" by (rule ph_shape_upd [OF I]) (use p PM_forks c in auto)
    moreover have none: "holds_forks (ps j) = {}" for j
      using ph_facts(3) [OF I, of j] p PM_forks i by (cases "j = i") auto
    have "ph_forks (ps(i := Done (PH_main q'))) M' g"
      unfolding ph_forks_def
    proof (intro conjI allI impI)
      show "M' = (\<lambda>_. None)" "ph_args g = (\<lambda>_. None)" if "(ps(i := Done (PH_main q'))) UTH_TID_INVALID = At (PH_main PM_entry)"
        using that i by simp_all
      fix y assume y: "0 \<le> y" "y < ph_N g"
      show "M' (fork_at g y) = Some (Some j) \<longleftrightarrow> y \<in> holds_forks ((ps(i := Done (PH_main q'))) j)" for j
        using ph_facts(5) [OF I y, of j] none [of j] c by auto
      assume n: "M' (fork_at g y) = None"
      with c I y p i PM_forks have "k \<le> y" "y \<noteq> k" by (auto simp: ph_inv_def ph_forks_def split: if_splits)
      with c i show "\<exists>k. inited ((ps(i := Done (PH_main q'))) UTH_TID_INVALID) = Some k \<and> k \<le> y" by auto
    qed
    ultimately show ?thesis using c by (simp add: ph_inv_def)
  qed
qed (use p code nc x in \<open>auto intro!: ph_quiet [OF I] simp: c_iff split: if_splits\<close>)

lemma ph_compute:
  assumes I: "ph_inv ps M S g" and p: "ps i = At p" and code: "ph_code argv e p g = Ok (Compute g' p')"
  shows "ph_inv (ps(i := At p')) M S g'"
proof (cases p)
  case (PH_philosopher q)
  then obtain q' where c: "philosopher q g = Ok (Compute g' q')" "p' = PH_philosopher q'" using code by auto
  have i: "i \<noteq> UTH_TID_INVALID" using ph_facts(1) [OF I, of i] p PH_philosopher by auto
  have ok: "ph_point_ok g p" "2 \<le> ph_N g" using ph_facts(2) [OF I, of i] ph_facts(4) [OF I i] p by auto
  have args: "ph_args g a = Some k \<Longrightarrow> 0 \<le> k \<and> k < ph_N g" for a k using I by (simp add: ph_inv_def ph_shape_def)
  have "ph_point_ok g p' \<and> holding p' = holding p \<and> same_table g g'"
  proof (cases q)
    case (PH_entry a)
    with c obtain k r where k: "ph_args g a = Some k" "c_mod (k + 1) (ph_N g) = Ok r" "g' = g"
        "q' = PH_loop \<lparr>ph_id = k, ph_first = (if k = ph_N g - 1 then r else k), ph_second = (if k = ph_N g - 1 then k else r)\<rparr>"
      by (auto simp: c_iff)
    from fork_order_entry [OF _ _ ok(2) k(2)] args [OF k(1)] k(3,4) c(2) PH_philosopher PH_entry show ?thesis by simp
  qed (use c ok PH_philosopher in \<open>auto simp: think_def eat_def c_iff split: if_splits\<close>)
  with c(2) PH_philosopher p show ?thesis by (intro ph_quiet [OF I]) auto
next
  case (PH_driver q)
  then obtain q' where c: "ph_driver e q g = Ok (Compute g' q')" "p' = PH_driver q'" using code by auto
  then have "same_table g g' \<and> ph_point_ok g p'" using ph_facts(2) [OF I, of i] p PH_driver
    by (cases q) (auto simp: c_iff same_table_def split: if_splits)
  with c(2) PH_driver p show ?thesis by (intro ph_quiet [OF I]) auto
next
  case (PH_main q)
  then obtain q' where c: "ph_main argv e q g = Ok (Compute g' q')" "p' = PH_main q'" using code by auto
  have i: "i = UTH_TID_INVALID" using ph_facts(1) [OF I, of i] p PH_main by simp
  show ?thesis
  proof (cases "q = PM_entry")
    case False
    with c(1) have "same_table g g'" "q' \<noteq> PM_entry" "inited_of (PH_main q') = None" "inited_of (PH_main q) = None" "q' \<noteq> PM_create"
      by (cases q; auto simp: c_iff split: if_splits)+
    with c(2) False PH_main p show ?thesis by (intro ph_quiet [OF I]) auto
  next
    case True
    then obtain n t where g': "g' = g\<lparr>ph_N := n, total_meals := t, forks := os_malloc e 0, meals := replicate (nat n) 0\<rparr>"
        "q' = PM_forks 0" "2 \<le> n" "arg_or argv 1 5 = Ok n" using c(1) by (auto simp: ok_iff split: if_splits)
    have n: "n \<le> INT_MAX" using g'(4) by (auto simp: arg_or_def c_int_def INT_MAX_def split: if_splits)
    have others: "j \<noteq> i \<Longrightarrow> ps j = Unborn" for j using ph_facts(3) [OF I, of j] p PH_main True i by simp
    have M: "M = (\<lambda>_. None)" using I p PH_main True i by (simp add: ph_inv_def ph_forks_def)
    have args: "ph_args g = (\<lambda>_. None)" using I p PH_main True i by (simp add: ph_inv_def ph_forks_def)
    have "holds_forks ((ps(i := At p')) j) = {}" for j using others [of j] c(2) g'(2) by (cases "j = i") auto
    moreover have "ph_pos_ok g' ((ps(i := At p')) j)" "ph_at_main ((ps(i := At p')) j) \<longleftrightarrow> j = UTH_TID_INVALID" for j
      using others [of j] c(2) g'(2) i by (cases "j = i"; simp)+
    ultimately show ?thesis using others args M c(2) g'(1-3) n i by (auto simp: ph_inv_def ph_shape_def ph_forks_def)
  qed
qed (use code in simp)

lemma ph_creates:
  assumes "ph_code argv e p g = Ok (Call (A_create fn arg n env) g' p')"
  shows "(\<exists>q q'. p = PH_driver q \<and> p' = PH_driver q') \<or> p = PH_main PM_create \<and> p' = PH_main PM_run"
proof (cases p)
  case (PH_philosopher q)
  with assms show ?thesis by (cases q) (auto simp: think_def eat_def c_iff split: if_splits)
next
  case (PH_main q)
  with assms show ?thesis by (cases q) (auto simp: c_iff split: if_splits)
qed (use assms in auto)

lemma ph_create_ok:
  assumes "ph_code argv e p g = Ok (Call (A_create fn arg n env) g' p')" and "ph_point_ok g p"
  shows "same_table g g'" "ph_point_ok g p'"
proof -
  have "same_table g g' \<and> ph_point_ok g p'" using ph_creates [OF assms(1)]
  proof
    assume "\<exists>q q'. p = PH_driver q \<and> p' = PH_driver q'"
    then obtain q q' where "p = PH_driver q" "p' = PH_driver q'" by blast
    with assms show ?thesis by (cases q) (auto simp: c_iff same_table_def split: if_splits)
  qed (use assms(1) in auto)
  then show "same_table g g'" "ph_point_ok g p'" by auto
qed

lemma ph_ret_simps [simp]:
  "holding (ph_ret p r) = holding p" "inited_of (ph_ret p r) = inited_of p" "ph_point_ok g (ph_ret p r) = ph_point_ok g p"
  "ph_ret p r = PH_main m \<longleftrightarrow> p = PH_main m"
  by (cases "(p, r)" rule: ph_ret.cases; simp)+

lemma ph_no_forks: "ph_at_main (At p) \<or> (\<exists>q. p = PH_driver q) \<Longrightarrow> holding p = {}"
  by auto

lemma ph_finish:
  assumes "ph_code argv e p g = Ok (Finish v g')" and "\<not> ph_at_main (At p)"
  shows "holding p = {}" "same_table g g'"
proof -
  have "holding p = {} \<and> same_table g g'"
  proof (cases p)
    case (PH_philosopher q)
    with assms show ?thesis by (cases q) (auto simp: think_def eat_def c_iff split: if_splits)
  next
    case (PH_driver q)
    with assms show ?thesis by (cases q) (auto simp: c_iff same_table_def ph_free_def split: if_splits)
  qed (use assms in auto)
  then show "holding p = {}" "same_table g g'" by simp_all
qed

lemma ph_inv_create:
  assumes I: "ph_inv ps M S g" and p: "ps i = At p" and c: "ph_code argv e p g = Ok (Call (A_create fn arg n env) g' p')"
    and j: "ps j = Unborn" "j \<noteq> i"
  shows "ph_inv (ps(i := Made j p', j := New fn arg)) M S g'"
proof -
  have ok: "ph_point_ok g p" using ph_facts(2) [OF I, of i] p by simp
  note c' = ph_creates [OF c] ph_create_ok [OF c ok]
  have I': "ph_inv (ps(i := Made j p')) M S g'" by (rule ph_quiet [OF I]) (use p c' in auto)
  have j0: "j \<noteq> UTH_TID_INVALID" using ph_facts(1) [OF I, of j] j by auto
  have "\<not> alone ((ps(i := Made j p')) UTH_TID_INVALID)"
  proof (cases "i = UTH_TID_INVALID")
    case False
    with ph_facts(3) [OF I, of i] p show ?thesis by auto
  qed simp
  with I' j j0 show ?thesis by (auto simp: ph_inv_def ph_shape_def ph_forks_def)
qed

interpretation ph: client_rules "philosophers argv" "PH_main PM_entry" ph_globals0 ph_inv for argv
proof (unfold_locales, unfold philosophers_def prog.simps)
  show "ph_inv ((\<lambda>_. Unborn)(UTH_TID_INVALID := At (PH_main PM_entry))) (\<lambda>_. None) (\<lambda>_. None) ph_globals0"
    by (auto simp: ph_inv_def ph_shape_def ph_forks_def ph_globals0_def)
next
  fix ps M S g i p e g' p'
  assume "ph_inv ps M S g" "ps i = At p" "ph_code argv e p g = Ok (Compute g' p')"
  then show "ph_inv (ps(i := At p')) M S g'" by (rule ph_compute)
next
  fix ps M S g i p e a g' p' M' S'
  assume I: "ph_inv ps M S g" and p: "ps i = At p" and c: "ph_code argv e p g = Ok (Call a g' p')" and nc: "\<not> is_create a"
    and x: "issue i a (M, S) = Some (M', S')"
  show "ph_inv (ps(i := issued a p')) M' S' g'"
  proof (cases p)
    case (PH_philosopher q)
    with c p ph_call_philosopher [OF I, of i q a g' _ M' S'] x show ?thesis by auto
  next
    case (PH_driver q)
    with c p ph_call_driver [OF I, of i q e a g' _ M' S'] x nc show ?thesis by auto
  next
    case (PH_main q)
    with c p ph_call_main [OF I, of i q argv e a g' _ M' S'] x nc show ?thesis by auto
  qed (use c in simp)
next
  fix ps M S g i p e fn arg n env g' p' j
  assume "ph_inv ps M S g" "ps i = At p" "ph_code argv e p g = Ok (Call (A_create fn arg n env) g' p')" "ps j = Unborn" "j \<noteq> i"
  then show "ph_inv (ps(i := Made j p', j := New fn arg)) M S g'" by (rule ph_inv_create)
next
  fix ps M S g i p e fn arg n env g' p'
  assume I: "ph_inv ps M S g" and p: "ps i = At p" and c: "ph_code argv e p g = Ok (Call (A_create fn arg n env) g' p')"
  have ok: "ph_point_ok g p" using ph_facts(2) [OF I, of i] p by simp
  show "ph_inv (ps(i := At (ph_ret p' (RetTid UTH_TID_INVALID)))) M S g'"
    by (rule ph_quiet [OF I]) (use p ph_creates [OF c] ph_create_ok [OF c ok] in auto)
next
  fix ps M S g i a p M' S'
  assume I: "ph_inv ps M S g" and p: "ps i = Await a p" and x: "complete i a (M, S) = Some (M', S')"
  from ph_facts(2) [OF I, of i] p have "ph_point_ok g p"
    and "(\<exists>x. wanted p = Some x \<and> a = A_mutex_lock (fork_at g x)) \<or> (\<exists>q t w. p = PH_driver q \<and> a = A_join t w)" by auto
  from this(2) show "ph_inv (ps(i := Done p)) M' S' g"
  proof
    assume "\<exists>x. wanted p = Some x \<and> a = A_mutex_lock (fork_at g x)"
    with ph_pick_up [OF I, of i _ p] p x show ?thesis by (auto simp: ph_inv_def split: if_splits)
  next
    assume "\<exists>q t w. p = PH_driver q \<and> a = A_join t w"
    with p x \<open>ph_point_ok g p\<close> show ?thesis by (intro ph_quiet [OF I]) auto
  qed
next
  fix ps M S g i p r
  assume I: "ph_inv ps M S g" and p: "ps i = Done p"
  with ph_facts(2) [OF I, of i] show "ph_inv (ps(i := At (ph_ret p r))) M S g" by (intro ph_quiet [OF I]) auto
next
  fix ps M S g i p j t
  assume I: "ph_inv ps M S g" and p: "ps i = Made t p"
  with ph_facts(2) [OF I, of i] show "ph_inv (ps(i := At (ph_ret p (RetTid j)))) M S g" by (intro ph_quiet [OF I]) auto
next
  fix ps M S g i fn arg
  assume I: "ph_inv ps M S g" and p: "ps i = New fn arg"
  then show "ph_inv (ps(i := At (ph_start fn arg))) M S g" by (intro ph_quiet [OF I]) (auto simp: ph_start_def split: if_splits)
next
  fix ps M S g i p e v g'
  assume I: "ph_inv ps M S g" and p: "ps i = At p" and c: "ph_code argv e p g = Ok (Finish v g')" and i: "i \<noteq> UTH_TID_INVALID"
  have m: "\<not> ph_at_main (At p)" using ph_facts(1) [OF I, of i] p i by simp
  then have "inited (ps i) \<noteq> Some k" for k using alone_main(1,2) [of "ps i"] p by auto
  with p m ph_finish [OF c m] show "ph_inv (ps(i := Ended)) M S g'" by (intro ph_quiet [OF I]) auto
next
  fix ps M S g p e g' p'
  assume I: "ph_inv ps M S g" and p: "ps UTH_TID_INVALID = At p" and c: "ph_code argv e p g = Ok (RunSched g' p')"
  obtain q where q: "p = PH_main q" using ph_facts(1) [OF I, of UTH_TID_INVALID] p by auto
  with c have "q = PM_run" "p' = PH_main PM_print" "g' = g" by (cases q; auto simp: c_iff split: if_splits)+
  with p q show "ph_inv (ps(UTH_TID_INVALID := InRun p')) M S g'" by (intro ph_quiet [OF I]) auto
next
  fix ps :: "u32 \<Rightarrow> ph_point pos" and M S g p
  assume I: "ph_inv ps M S g" and p: "ps UTH_TID_INVALID = InRun p"
  with ph_facts(2) [OF I, of UTH_TID_INVALID] show "ph_inv (ps(UTH_TID_INVALID := At (ph_ret p RetVoid))) M S g" by (intro ph_quiet [OF I]) auto
qed

section \<open>Exclusion and deadlock\<close>

fun eats :: "ph_point pos \<Rightarrow> ph_locals option" where
  "eats (At (PH_philosopher (PH_eat l k))) = Some l"
| "eats (Done (PH_philosopher (PH_eat l k))) = Some l"
| "eats _ = None"

lemma eats_holds:
  assumes "eats q = Some l" and "ph_pos_ok g q"
  shows "holds_forks q = {ph_id l, (ph_id l + 1) mod ph_N g}" "fork_order g l"
  using assms by (cases q rule: eats.cases; auto simp: fork_order_def)+

lemma held_in_table:
  assumes "ph_pos_ok g q" and "x \<in> holds_forks q"
  shows "0 \<le> x" "x < ph_N g"
proof -
  have h: "x \<in> holding p \<Longrightarrow> ph_point_ok g p \<Longrightarrow> 0 \<le> x \<and> x < ph_N g" for p
    by (cases p rule: holding.cases) (auto simp: fork_order_def)
  show "0 \<le> x" "x < ph_N g" using assms h by (cases q; auto)+
qed

lemma forks_disjoint:
  assumes I: "ph_inv ps M S g" and "i \<noteq> j"
  shows "holds_forks (ps i) \<inter> holds_forks (ps j) = {}"
proof -
  have "x \<notin> holds_forks (ps j)" if x: "x \<in> holds_forks (ps i)" for x
  proof -
    note t = held_in_table [OF ph_facts(2) [OF I, of i] x]
    show ?thesis using ph_facts(5) [OF I t, of i] ph_facts(5) [OF I t, of j] x assms(2) by auto
  qed
  then show ?thesis by blast
qed

lemma awaits_above:
  assumes "ph_pos_ok g q" and "awaits_fork q = Some y" and "x \<in> holds_forks q"
  shows "x < y"
proof -
  from assms obtain l where "q = Await (A_mutex_lock (fork_at g (ph_second l))) (PH_philosopher (PH_picked l))" "y = ph_second l" "x = ph_first l" "fork_order g l"
    by (cases q) (auto elim!: wanted.elims)
  then show ?thesis by (simp add: fork_order_def)
qed

lemma awaits_in_table:
  assumes "ph_pos_ok g q" and "awaits_fork q = Some y"
  shows "0 \<le> y" "y < ph_N g"
  using assms by (cases q; auto simp: fork_order_def elim!: wanted.elims)+

text \<open>
  Among the forks that are waited for and held, take the greatest: its holder does not wait for a held fork.
\<close>

lemma no_circular_wait:
  assumes I: "ph_inv ps M S g" and w: "awaits_fork (ps i) = Some x"
  shows "\<exists>j y. awaits_fork (ps j) = Some y \<and> M (fork_at g y) = Some None \<or> awaits_fork (ps j) = None \<and> holds_forks (ps j) \<noteq> {}"
proof (rule ccontr)
  assume none: "\<not> ?thesis"
  define W where "W = {y. \<exists>j. awaits_fork (ps j) = Some y}"
  have fin: "finite W"
  proof (rule finite_subset)
    show "W \<subseteq> {0..ph_N g}" using awaits_in_table [OF ph_facts(2) [OF I]] by (fastforce simp: W_def)
  qed simp
  have ne: "W \<noteq> {}" using w by (auto simp: W_def)
  obtain j where j: "awaits_fork (ps j) = Some (Max W)" using Max_in [OF fin ne] by (auto simp: W_def)
  note t = awaits_in_table [OF ph_facts(2) [OF I, of j] j]
  have "\<not> alone (ps UTH_TID_INVALID)"
  proof
    assume "alone (ps UTH_TID_INVALID)"
    with ph_facts(3) [OF I, of j] j have "j = UTH_TID_INVALID" by (cases "j = UTH_TID_INVALID") auto
    with \<open>alone (ps UTH_TID_INVALID)\<close> j show False by (cases "ps j") auto
  qed
  then have "M (fork_at g (Max W)) \<noteq> None" using I t alone_main(2) by (auto simp: ph_inv_def ph_forks_def)
  moreover have "M (fork_at g (Max W)) \<noteq> Some None" using none j by blast
  ultimately obtain k where k: "M (fork_at g (Max W)) = Some (Some k)" by (cases "M (fork_at g (Max W))") auto
  then have h: "Max W \<in> holds_forks (ps k)" using ph_facts(5) [OF I t, of k] by simp
  then have "holds_forks (ps k) \<noteq> {}" by auto
  then have "awaits_fork (ps k) \<noteq> None" using none by metis
  then obtain y where y: "awaits_fork (ps k) = Some y" by blast
  have "y \<le> Max W" using y by (intro Max_ge [OF fin]) (auto simp: W_def)
  with awaits_above [OF ph_facts(2) [OF I, of k] y h] show False by simp
qed

end
