(* ===== verification/Uth_Anchor.thy ===== *)
theory Uth_Anchor
  imports Uth_Sim
begin

text \<open>
  Blocked threads stay reachable for those who have to wake them: a thread that is blocked on an object is in the wait queue of this object, and
  a thread that is blocked in \<open>uth_join\<close> is the joiner of its target. Two misuses of the interface break this: the initialisation of an object
  that has waiters, and a second \<open>uth_join\<close> on a thread.
\<close>

section \<open>Moored threads\<close>

fun clobbers :: "api \<Rightarrow> sys \<Rightarrow> bool" where
  "clobbers (A_mutex_init m) s = has_waiters (obj_at (MutexWaiters m) s)"
| "clobbers (A_ticket_init m) s = has_waiters (obj_at (TicketWaiters m) s)"
| "clobbers (A_cond_init m) s = has_waiters (obj_at (CondWaiters m) s)"
| "clobbers (A_sem_init m v) s = has_waiters (obj_at (SemWaiters m) s)"
| "clobbers (A_join tid want) s = (\<exists>y u. heap s y = Some u \<and> tcb_tid u = tid \<and> tcb_joiner u \<noteq> NULL)"
| "clobbers _ s = False"

text \<open>
  \<open>moors s s'\<close>: from \<open>s\<close> to \<open>s'\<close> a waiting thread keeps its place or becomes ready, and if the current thread of \<open>s\<close>
  is blocked in \<open>s'\<close>, it has a place in a queue or it is inside \<open>uth_join\<close>.
\<close>

definition berthed :: "ptr \<Rightarrow> (tcb_pp \<Rightarrow> ptr list) \<Rightarrow> sys \<Rightarrow> bool" where
  "berthed x wq s \<longleftrightarrow> (\<forall>t. heap s x = Some t \<longrightarrow> tcb_state t = UTH_STATE_BLOCKED \<longrightarrow>
     (\<exists>q. x \<in> set (wq q)) \<or> (\<exists>tid want old. uc_frames (tcb_ctx t) = [F_join tid want old]))"

definition moors :: "sys \<Rightarrow> sys \<Rightarrow> bool" where
  "moors s s' \<longleftrightarrow> (\<forall>rq wq. lib_inv s rq wq \<longrightarrow>
     (\<exists>rq' wq'. lib_inv s' rq' wq' \<and> (\<forall>q. set (wq q) \<subseteq> set (wq' q) \<union> set rq') \<and> berthed (uth_current s) wq' s'))"

lemma moorsI:
  assumes "lib_inv s rq wq" and "lib_inv s' rq' wq'" and "\<And>q. set (wq q) \<subseteq> set (wq' q) \<union> set rq'" and "berthed (uth_current s) wq' s'"
  shows "moors s s'"
  unfolding moors_def using assms shape_unique(2) [OF lib_invD(1) [OF assms(1)] lib_invD(1)] by metis

lemma berthed_stays:
  assumes "lib_inv s rq wq" and "caller s" and "lib_inv s' rq' wq'" and "stays s s'"
  shows "berthed (uth_current s) wq' s'"
proof (cases "uth_current s = NULL")
  case True
  with lib_heap_not_NULL [OF assms(3)] show ?thesis by (auto simp: berthed_def)
next
  case False
  with assms(2,4) have "running s' (uth_current s)" by (simp add: caller_def stays_def)
  then show ?thesis by (auto simp: running_def berthed_def)
qed

lemma moors_return:
  assumes "lib_inv s rq wq" and "caller s" and "lib_inv s' rq' wq'" and "stays s s'" and "\<And>q. set (wq q) \<subseteq> set (wq' q) \<union> set rq'"
  shows "moors s s'"
  by (rule moorsI [OF assms(1,3,5) berthed_stays [OF assms(1-4)]])

lemma moors_same: "\<lbrakk>lib_inv s rq wq; caller s; lib_inv s' rq wq; stays s s'\<rbrakk> \<Longrightarrow> moors s s'"
  by (rule moors_return) auto

lemma moors_refl: "\<lbrakk>lib_inv s rq wq; caller s\<rbrakk> \<Longrightarrow> moors s s"
  by (rule moors_same) auto

lemma moors_sigmask [simp]: "moors (s\<lparr>sigmask := b\<rparr>) s' = moors s s'" "moors s (s'\<lparr>sigmask := b\<rparr>) = moors s s'"
  by (auto simp: moors_def berthed_def)

lemma moors_switched:
  assumes "lib_inv s rq wq" and "lib_inv s' rq' wq'" and "\<And>q. set (wq q) \<subseteq> set (wq' q) \<union> set rq'"
    and e: "erase s' = switched st x k a" and x: "heap a x \<noteq> None" "x = uth_current s"
    and st: "st = UTH_STATE_BLOCKED \<Longrightarrow> (\<exists>q. x \<in> set (wq' q)) \<or> (\<exists>tid want old. k = [F_join tid want old])"
  shows "moors s s'"
proof (rule moorsI [OF assms(1-3)])
  from x(1) obtain t where "heap a x = Some t" by blast
  then obtain t' where "heap s' x = Some t'" "tcb_state t' = st" "uc_frames (tcb_ctx t') = k" by (rule switched_tcb [OF e])
  with st x(2) show "berthed (uth_current s) wq' s'" by (auto simp: berthed_def)
qed

lemma moors_first:
  assumes inv: "lib_inv s rq wq" and inv1: "lib_inv s1 rq wq" "uth_current s1 = uth_current s" and m: "moors s1 s'"
  shows "moors s s'"
  using m inv1 unfolding moors_def by (metis moorsI [OF inv] moors_def)

lemma berthed_queued: "x \<in> set (wq q) \<Longrightarrow> berthed x wq s"
  by (auto simp: berthed_def)

lemma woken_sets: "set (wq q) \<subseteq> set ((wq(p := tl (wq p))) q) \<union> set (rq @ take 1 (wq p))"
  by (cases "q = p"; cases "wq p") auto

lemma moors_wakes:
  assumes "lib_inv s rq wq" and "caller s" and "lib_inv s' (rq @ take 1 (wq p)) (wq(p := tl (wq p)))" and "stays s s'"
  shows "moors s s'"
  by (rule moors_return [OF assms]) (rule woken_sets)

section \<open>The calls\<close>

context blocking_wait
begin

lemma moors:
  assumes inv: "lib_inv s rq wq" and c: "caller s" and m: "sigmask s" and k: "caller_ok old k" and res: "loop old k s = Ok (d, s')"
  shows "moors s s'"
proof -
  have v: "valid s" using loop_invalid res by fastforce
  show ?thesis
  proof (cases "avail s")
    case True
    have "s' = (acquire s)\<lparr>sigmask := old\<rparr>" using loop_avail [OF c v True] res by simp
    with acquire_inv [OF inv v True] show ?thesis by (auto intro: moors_same [OF inv c])
  next
    case False
    have nz: "uth_current s \<noteq> NULL" using loop_outside [OF _ v False] res by fastforce
    from caller_runs [OF c nz] obtain t where r: "runs s (uth_current s) t" by blast
    from waits [OF inv r v False m k] res have "lib_inv s' rq (wq(q := wq q @ [uth_current s]))" by auto
    then show ?thesis by (rule moorsI [OF inv]) (auto intro: berthed_queued [of _ _ q])
  qed
qed

end

lemma mutex_lock_moors:
  assumes "lib_inv s rq wq" and "caller s" and "caller_ok (sigmask s) k" and "uth_mutex_lock m k s = Ok (c, s')"
  shows "moors s s'"
  using mutex_wait.moors [of "s\<lparr>sigmask := True\<rparr>" rq wq "sigmask s" k m c s'] assms by (simp add: uth_mutex_lock_def uth_preempt_off_def)

lemma sem_wait_moors:
  assumes "lib_inv s rq wq" and "caller s" and "caller_ok (sigmask s) k" and "uth_sem_wait p k s = Ok (c, s')"
  shows "moors s s'"
  using sem_wait.moors [of "s\<lparr>sigmask := True\<rparr>" rq wq "sigmask s" k p c s'] assms by (simp add: uth_sem_wait_def uth_preempt_off_def)

lemma ticket_lock_moors:
  assumes "lib_inv s rq wq" and "caller s" and "caller_ok (sigmask s) k" and res: "uth_ticket_lock p k s = Ok (c, s')"
  shows "moors s s'"
proof -
  obtain x where x: "tickets s p = Some x" using res by (auto simp: uth_ticket_lock_def uth_preempt_off_def ok_iff)
  let ?s = "set_ticket p (x\<lparr>tk_next_ticket := tk_next_ticket x + 1\<rparr>) (s\<lparr>sigmask := True\<rparr>)"
  have "ticket_lock_loop p (tk_next_ticket x) (sigmask s) k ?s = Ok (c, s')"
    using res x by (simp add: uth_ticket_lock_def uth_preempt_off_def)
  from ticket_wait.moors [OF _ _ _ assms(3) this, of rq wq] assms(1,2) x
  show ?thesis by (intro moors_first [OF assms(1), of ?s]) simp_all
qed

lemma yield_moors:
  assumes inv: "lib_inv s rq wq" and c: "caller s" and k: "caller_ok (sigmask s) k" and res: "uth_yield k s = Ok (c, s')"
  shows "moors s s'"
proof (cases "uth_current s = NULL")
  case True
  with res moors_refl [OF inv c] show ?thesis by (simp add: uth_yield_outside)
next
  case False
  from caller_runs [OF c False] obtain t where r: "runs s (uth_current s) t" by blast
  from uth_yield_ok [OF inv r k] res have y: "lib_inv s' (rq @ [uth_current s]) wq"
      "erase s' = switched UTH_STATE_READY (uth_current s) (F_yield (sigmask s) # k) ((erase s)\<lparr>sigmask := True\<rparr>)" by auto
  from moors_switched [OF inv y(1) _ y(2)] runs_mask(1) [OF r] show ?thesis by auto
qed

lemma spin_lock_moors:
  assumes inv: "lib_inv s rq wq" and c: "caller s" and res: "uth_spin_lock p [] s = Ok (c, s')"
  shows "moors s s'"
proof -
  obtain x where x: "spins s p = Some x"
    using res by (cases "spins s p") (simp_all add: uth_spin_lock_def spin_lock_loop.simps get_spin_def)
  show ?thesis
  proof (cases "spin_flag x")
    case False
    with spin_lock_free [OF x False, of "[]"] res inv show ?thesis by (auto intro: moors_same [OF inv c])
  next
    case True
    have nz: "uth_current s \<noteq> NULL" using spin_lock_outside [OF _ x True] res by fastforce
    from caller_runs [OF c nz] obtain t where r: "runs s (uth_current s) t" by blast
    from spin_lock_taken [OF inv r x True] res have y: "lib_inv s' (rq @ [uth_current s]) wq"
        "erase s' = switched UTH_STATE_READY (uth_current s) [F_yield (sigmask s), F_spin_lock p] ((erase s)\<lparr>sigmask := True\<rparr>)" by auto
    from moors_switched [OF inv y(1) _ y(2)] runs_mask(1) [OF r] show ?thesis by auto
  qed
qed

lemma exit_moors:
  assumes inv: "lib_inv s rq wq" and c: "caller s" and res: "uth_exit v k s = Ok (c, s')"
  shows "moors s s'"
proof -
  have nz: "uth_current s \<noteq> NULL" using uth_exit_outside res by fastforce
  from caller_runs [OF c nz] obtain t where r: "runs s (uth_current s) t" by blast
  from uth_exit_ok [OF inv r refl, of v k] res obtain j where e: "lib_inv s' (if j = NULL then rq else rq @ [j]) wq"
      "erase s' = exited v (uth_current s) j (F_exit # k) ((erase s)\<lparr>sigmask := True\<rparr>)" by auto
  show ?thesis by (rule moors_switched [OF inv e(1) _ e(2) [unfolded exited_def]]) (use runs_mask(1) [OF r, of True] in \<open>auto simp: heap_upd_tcb\<close>)
qed

lemma join_moors:
  assumes inv: "lib_inv s rq wq" and c: "caller s" and res: "uth_join tid want [] s = Ok (c, s')"
  shows "moors s s'"
proof (cases rule: tcb_find_cases [OF lib_invD(3) [OF inv], of tid])
  case 2
  with uth_join_miss [OF lib_invD(3) [OF inv] 2(2)] res moors_refl [OF inv c] show ?thesis by simp
next
  case (1 y u)
  show ?thesis
  proof (cases "tcb_state u = UTH_STATE_ZOMBIE")
    case True
    with uth_join_zombie [OF lib_invD(3) [OF inv] 1(3,4) True, of want "[]"] res lib_inv_remove [OF inv 1(3) True] remove_stays [OF 1(3) True]
    show ?thesis by (auto intro: moors_same [OF inv c])
  next
    case False
    have nz: "uth_current s \<noteq> NULL" using uth_join_outside [OF lib_invD(3) [OF inv] _ 1(3,4) False] res by fastforce
    from caller_runs [OF c nz] obtain t where r: "runs s (uth_current s) t" by blast
    from uth_join_block [OF inv r 1(3,4) False, of want] res have j: "lib_inv s' rq wq"
        "erase s' = switched UTH_STATE_BLOCKED (uth_current s) [F_join tid want (sigmask s)]
          (upd_tcb y (\<lambda>t. t\<lparr>tcb_joiner := uth_current s\<rparr>) ((erase s)\<lparr>sigmask := True\<rparr>))" by auto
    show ?thesis by (rule moors_switched [OF inv j(1) _ j(2)]) (use runs_mask(1) [OF r, of True] in \<open>auto simp: heap_upd_tcb\<close>)
  qed
qed

lemma mutex_unlock_moors:
  assumes inv: "lib_inv s rq wq" and c: "caller s" and res: "uth_mutex_unlock m s = Ok (d, s')"
  shows "\<exists>rq' wq'. lib_inv s' rq' wq' \<and> set rq \<subseteq> set rq' \<and> (\<forall>q. set (wq q) \<subseteq> set (wq' q) \<union> set rq') \<and> moors s s'"
proof -
  obtain x where x: "mutexes s m = Some x" using res by (auto simp: uth_mutex_unlock_def uth_preempt_off_def ok_iff)
  have own: "mtx_owner x = self_tid s" using mutex_unlock_foreign [OF c x] res by fastforce
  from mutex_unlock_ok [OF inv c x own] res have u:
    "lib_inv s' (rq @ take 1 (wq (MutexWaiters m))) (wq(MutexWaiters m := tl (wq (MutexWaiters m))))" "stays s s'" by auto
  note sets = woken_sets [of wq _ "MutexWaiters m" rq]
  have "set rq \<subseteq> set (rq @ take 1 (wq (MutexWaiters m)))" by simp
  with u(1) sets moors_return [OF inv c u sets] show ?thesis by blast
qed

lemma cond_wait_moors:
  assumes inv: "lib_inv s rq wq" and c: "caller s" and res: "uth_cond_wait cv m [] s = Ok (d, s')"
  shows "moors s s'"
proof -
  let ?s = "s\<lparr>sigmask := True\<rparr>" and ?q = "CondWaiters cv"
  have inv0: "lib_inv ?s rq wq" and c0: "caller ?s" using inv c by simp_all
  obtain r s1 where s1: "uth_mutex_unlock m ?s = Ok (r, s1)" "uth_block ?q [F_cond_wait cv m (sigmask s)] s1 = Ok (d, s')"
    using res by (auto simp: uth_cond_wait_def uth_preempt_off_def ok_iff)
  have st: "stays ?s s1" "sigmask s1" using mutex_unlock_post [OF inv0 c0 s1(1)] by simp_all
  obtain rq1 wq1 where inv1: "lib_inv s1 rq1 wq1" "\<And>q. set (wq q) \<subseteq> set (wq1 q) \<union> set rq1"
    using mutex_unlock_moors [OF inv0 c0 s1(1)] by blast
  have nz: "uth_current s1 \<noteq> NULL" using uth_block_outside s1(2) by fastforce
  from caller_runs [OF caller_stays [OF c0 st(1)] nz] obtain t where r: "runs s1 (uth_current s1) t" by blast
  have "mapped ?q s1" using uth_block_unmapped [of ?q s1] s1(2) by auto
  from uth_block_ok [OF inv1(1) r this, of "F_cond_wait cv m (sigmask s)" "[]"] st(2) s1(2)
  have b: "lib_inv s' rq1 (wq1(?q := wq1 ?q @ [uth_current s1]))" by auto
  show ?thesis
  proof (rule moorsI [OF inv b])
    show "set (wq q) \<subseteq> set ((wq1(?q := wq1 ?q @ [uth_current s1])) q) \<union> set rq1" for q using inv1(2) [of q] by (cases "q = ?q") auto
    have "uth_current s1 = uth_current s" using st(1) by (simp add: stays_def)
    then show "berthed (uth_current s) (wq1(?q := wq1 ?q @ [uth_current s1])) s'" by (intro berthed_queued [of _ _ ?q]) simp
  qed
qed

lemma ticket_unlock_moors:
  assumes inv: "lib_inv s rq wq" and c: "caller s" and res: "uth_ticket_unlock p s = Ok (d, s')"
  shows "moors s s'"
proof -
  obtain x where x: "tickets s p = Some x" using res by (auto simp: uth_ticket_unlock_def uth_preempt_off_def ok_iff)
  let ?q = "TicketWaiters p"
  show ?thesis
  proof (cases "\<exists>y \<in> set (wq ?q). holds_ticket s (tk_now_serving x + 1) y")
    case True
    from split_list_first_prop [OF this] obtain ys w zs where w: "wq ?q = ys @ w # zs" "holds_ticket s (tk_now_serving x + 1) w"
        "\<forall>y \<in> set ys. \<not> holds_ticket s (tk_now_serving x + 1) y" by blast
    from ticket_unlock_hit [OF inv x w(1,3,2)] res have u: "lib_inv s' (rq @ [w]) (wq(?q := ys @ zs))" "stays s s'" by auto
    have "set (wq q) \<subseteq> set ((wq(?q := ys @ zs)) q) \<union> set (rq @ [w])" for q using w(1) by (cases "q = ?q") auto
    from moors_return [OF inv c u this] show ?thesis .
  next
    case False
    with ticket_unlock_none [OF inv x] res have "s' = set_ticket p (x\<lparr>tk_now_serving := tk_now_serving x + 1\<rparr>) s" by simp
    with inv x show ?thesis by (auto intro: moors_same [OF inv c])
  qed
qed

lemma init_moors:
  assumes inv: "lib_inv s rq wq" and c: "caller s" and h: "\<not> has_waiters (obj_at q s)" and inv': "lib_inv s' rq (wq(q := []))" and st: "stays s s'"
  shows "moors s s'"
proof -
  have "wq(q := []) = wq" using has_waiters_iff [OF inv, of q] h by (simp add: fun_upd_idem)
  with inv' moors_same [OF inv c _ st] show ?thesis by simp
qed

lemma api_call_moors:
  assumes inv: "lib_inv s rq wq" and c: "caller s" and e: "env_ok a s" and res: "api_call a s = Ok (d, s')" and cl: "\<not> clobbers a s"
  shows "moors s s'"
proof (cases a)
  case (A_create fn arg ssize env)
  then have "heap s (env_calloc env) = None" "uth_create fn arg ssize env s = Ok (d, s')" using e res by simp_all
  note cr = this
  show ?thesis
  proof (cases rule: create_effect [OF inv cr])
    case (2 x stk sz)
    have "stays s s'" using api_call_post [OF inv c e res] 2(1) by (simp add: lib_post_def)
    from moors_return [OF inv c 2(2) this] show ?thesis by auto
  qed (use moors_refl [OF inv c] in simp)
next
  case A_yield
  with yield_moors [OF inv c, of "[]"] res show ?thesis by simp
next
  case (A_exit v)
  with exit_moors [OF inv c] res show ?thesis by simp
next
  case (A_join tid want)
  with join_moors [OF inv c] res show ?thesis by simp
next
  case (A_mutex_init m)
  with res cl show ?thesis by (auto simp: uth_mutex_init_def intro!: init_moors [OF inv c] lib_inv_init(1) [OF inv])
next
  case (A_ticket_init m)
  with res cl show ?thesis by (auto simp: uth_ticket_init_def intro!: init_moors [OF inv c] lib_inv_init(2) [OF inv])
next
  case (A_cond_init m)
  with res cl show ?thesis by (auto simp: uth_cond_init_def intro!: init_moors [OF inv c] lib_inv_init(3) [OF inv])
next
  case (A_sem_init m v)
  with res cl show ?thesis by (auto simp: uth_sem_init_def split: if_splits intro!: init_moors [OF inv c] lib_inv_init(4) [OF inv])
next
  case (A_mutex_lock m)
  with mutex_lock_moors [OF inv c, of "[]"] res show ?thesis by simp
next
  case (A_mutex_unlock m)
  with mutex_unlock_moors [OF inv c] res show ?thesis by auto
next
  case (A_spin_lock p)
  with spin_lock_moors [OF inv c] res show ?thesis by simp
next
  case (A_ticket_lock p)
  with ticket_lock_moors [OF inv c, of "[]"] res show ?thesis by simp
next
  case (A_ticket_unlock p)
  with ticket_unlock_moors [OF inv c] res show ?thesis by simp
next
  case (A_cond_wait cv m)
  with cond_wait_moors [OF inv c] res show ?thesis by simp
next
  case (A_sem_wait p)
  with sem_wait_moors [OF inv c, of "[]"] res show ?thesis by simp
next
  case (A_sem_post p)
  then obtain x where x: "sems s p = Some x" "sem_value x \<noteq> INT_MAX"
    using res by (auto simp: uth_sem_post_def uth_preempt_off_def ok_iff split: if_splits)
  from sem_post_ok [OF inv x] A_sem_post res show ?thesis by (auto intro: moors_wakes [OF inv c])
next
  case (A_cond_signal p)
  with res have "conds s p \<noteq> None"
    by (auto simp: uth_cond_signal_def uth_preempt_off_def uth_wake_one_def ok_iff pp_simps)
  from cond_signal_ok [OF inv this] A_cond_signal res show ?thesis by (auto intro: moors_wakes [OF inv c])
next
  case (A_cond_broadcast p)
  with res have "conds s p \<noteq> None"
    by (cases "conds s p") (simp_all add: uth_cond_broadcast_def uth_preempt_off_def uth_wake_all_def wake_all_loop.simps
      uth_wake_one_def pp_simps get_cond_def)
  from cond_broadcast_ok [OF inv this] A_cond_broadcast res have u: "lib_inv s' (rq @ wq (CondWaiters p)) (wq(CondWaiters p := []))" "stays s s'" by auto
  from moors_return [OF inv c u] show ?thesis by auto
next
  case (A_preempt_enable ms env)
  with res have "uth_preempt_enable ms env s = Ok (d, s')" by simp
  from preempt_enable_cases [OF this] obtain b where E: "d = Return RetVoid \<or> d = Remains F_preempt_enable"
      "s' = s \<or> s' = s\<lparr>alt_stack_mem := b, sigalrm_handler := True, itimer_usec := ucast (ms * 1000)\<rparr>" by blast
  have "stays s s'" using api_call_post [OF inv c e res] E(1) by (auto simp: lib_post_def)
  moreover have "lib_inv s' rq wq" using inv E(2) by auto
  ultimately show ?thesis using moors_same [OF inv c] by blast
next
  case A_preempt_disable
  with res have "s' = s" by (simp add: uth_preempt_disable_def)
  with moors_refl [OF inv c] show ?thesis by simp
next
  case (A_mutex_destroy m)
  with destroy_same(1) [of m s d s'] res moors_refl [OF inv c] show ?thesis by simp
next
  case (A_ticket_destroy m)
  with destroy_same(2) [of m s d s'] res moors_refl [OF inv c] show ?thesis by simp
next
  case (A_cond_destroy m)
  with destroy_same(3) [of m s d s'] res moors_refl [OF inv c] show ?thesis by simp
next
  case (A_sem_destroy m)
  with destroy_same(4) [of m s d s'] res moors_refl [OF inv c] show ?thesis by simp
next
  case (A_spin_init p)
  with res inv show ?thesis by (intro moors_same [OF inv c]) (auto simp: uth_spin_init_def intro: stays_heap)
next
  case (A_spin_unlock p)
  with res inv show ?thesis by (intro moors_same [OF inv c]) (auto simp: uth_spin_unlock_def ok_iff intro: stays_heap)
qed (use res moors_refl [OF inv c] in \<open>auto simp: ok_iff uth_init_def uth_spin_destroy_def uth_active_count_def\<close>)

lemma resume_frame_moors:
  assumes inv: "lib_inv s rq wq" and u: "user_inv (f # k) s" and res: "resume_frame f k s = Ok (d, s')"
  shows "moors s s'"
proof -
  note c = user_inv_caller [OF u]
  have st: "stack_ok (sigmask s) (f # k)" using u by (auto simp: user_inv_def ctx_ok_def split: if_splits)
  have ctx: "uth_current s \<noteq> NULL \<Longrightarrow> ctx_ok (erase s) True (uth_current s) (sigmask s) (f # k)" using u by (simp add: user_inv_def)
  show ?thesis
  proof (cases f)
    case (F_join tid want old)
    then have nz: "uth_current s \<noteq> NULL" using u by (auto simp: user_inv_def)
    from F_join ctx [OF nz] have z: "zombie_tid s tid" "k = []" by (auto simp: ctx_ok_def zombie_tid_erase)
    show ?thesis
    proof (cases rule: uth_join_resumed_cases [OF lib_invD(3) [OF inv] z(1), of want old])
      case 1
      with F_join res moors_refl [OF inv c] show ?thesis by auto
    next
      case (2 y u)
      with F_join res lib_inv_remove [OF inv 2(1,3)] remove_stays [OF 2(1,3)] show ?thesis by (auto intro: moors_same [OF inv c])
    qed
  next
    case (F_mutex_lock m old)
    with mutex_wait.moors [OF inv c _ _ res [unfolded F_mutex_lock resume_frame.simps]] st show ?thesis by auto
  next
    case (F_ticket_lock p tk old)
    with ticket_wait.moors [OF inv c _ _ res [unfolded F_ticket_lock resume_frame.simps]] st show ?thesis by auto
  next
    case (F_sem_wait p old)
    with sem_wait.moors [OF inv c _ _ res [unfolded F_sem_wait resume_frame.simps]] st show ?thesis by auto
  next
    case (F_spin_lock p)
    with st res spin_lock_moors [OF inv c, of p d s'] show ?thesis by auto
  next
    case (F_cond_wait cv m old)
    with st res obtain e s1 where s1: "uth_mutex_lock m [F_cond_relock old] s = Ok (e, s1)" "s' = s1 \<or> s' = s1\<lparr>sigmask := old\<rparr>" "sigmask s"
      by (auto simp: uth_cond_wait_resumed_def uth_cond_relocked_def uth_preempt_restore_def ok_iff split: if_splits)
    with mutex_lock_moors [OF inv c _ s1(1)] show ?thesis by auto
  next
    case F_preempt_enable
    with res inv show ?thesis by (intro moors_same [OF inv c]) (auto simp: preempt_enable_end_def intro: stays_heap)
  next
    case F_preempt_disable
    with res inv show ?thesis by (intro moors_same [OF inv c]) (auto simp: preempt_disable_end_def intro: stays_heap)
  qed (use res moors_refl [OF inv c] in \<open>auto simp: ok_iff thread_trampoline_def uth_create_ret_def uth_yield_resumed_def
      uth_cond_relocked_def uth_preempt_restore_def dest!: same_active_count\<close>)
qed

section \<open>Anchored threads\<close>

definition anchored :: "sys \<Rightarrow> bool" where
  "anchored s \<longleftrightarrow> (\<forall>x t. heap s x = Some t \<longrightarrow> tcb_state t = UTH_STATE_BLOCKED \<longrightarrow> (\<exists>q rq wq. lib_inv s rq wq \<and> x \<in> set (wq q)) \<or>
     (\<exists>tid want old y u. uc_frames (tcb_ctx t) = [F_join tid want old] \<and> heap s y = Some u \<and> tcb_tid u = tid \<and> tcb_joiner u = x))"

lemma anchored_cases:
  assumes "anchored s" and "lib_inv s rq wq" and "heap s x = Some t" and "tcb_state t = UTH_STATE_BLOCKED"
  obtains (queued) q f k where "x \<in> set (wq q)" "uc_frames (tcb_ctx t) = f # k" "waits_on f = Some q"
    | (joins) tid want old y u where "uc_frames (tcb_ctx t) = [F_join tid want old]" "heap s y = Some u" "tcb_tid u = tid" "tcb_joiner u = x"
proof -
  from assms(1,3,4) consider q rq2 wq2 where "lib_inv s rq2 wq2" "x \<in> set (wq2 q)"
    | "\<exists>tid want old y u. uc_frames (tcb_ctx t) = [F_join tid want old] \<and> heap s y = Some u \<and> tcb_tid u = tid \<and> tcb_joiner u = x"
    unfolding anchored_def by blast
  then show ?thesis
  proof cases
    case (1 q)
    have "wq2 = wq" by (rule shape_unique(2) [OF lib_invD(1) [OF 1(1)] lib_invD(1) [OF assms(2)]])
    with 1 have q: "x \<in> set (wq q)" by simp
    obtain t2 f k where "heap s x = Some t2" "uc_frames (tcb_ctx t2) = f # k" "waits_on f = Some q" by (rule lib_waitE [OF assms(2) q])
    with assms(3) q queued show ?thesis by simp
  qed (use joins in blast)
qed

text \<open>A step of the current thread that keeps every thread anchored.\<close>

definition tidy_step :: "sys \<Rightarrow> sys \<Rightarrow> bool" where
  "tidy_step s s' \<longleftrightarrow> settled s s' \<and> moors s s' \<and>
     (\<forall>y t'. heap s' y = Some t' \<longrightarrow> next_tid s \<le> tcb_tid t' \<longrightarrow> tcb_state t' \<noteq> UTH_STATE_BLOCKED) \<and>
     (\<forall>u. heap s (uth_current s) = Some u \<longrightarrow> (\<exists>u'. heap s' (uth_current s) = Some u' \<and> tcb_tid u' = tcb_tid u \<and>
        (tcb_state u' = UTH_STATE_ZOMBIE \<longrightarrow> (\<forall>t. heap s' (tcb_joiner u) = Some t \<longrightarrow> tcb_state t \<noteq> UTH_STATE_BLOCKED)))) \<and>
     (\<forall>t' tid want old. heap s' (uth_current s) = Some t' \<longrightarrow> tcb_state t' = UTH_STATE_BLOCKED \<longrightarrow> uc_frames (tcb_ctx t') = [F_join tid want old] \<longrightarrow>
        (\<exists>y u. heap s' y = Some u \<and> tcb_tid u = tid \<and> tcb_joiner u = uth_current s) \<and> (\<forall>y u. heap s y = Some u \<longrightarrow> tcb_tid u = tid \<longrightarrow> tcb_joiner u = NULL))"

lemma tidy_stepD:
  assumes "tidy_step s s'"
  shows "settled s s'" "moors s s'" "\<lbrakk>heap s' y = Some t'; next_tid s \<le> tcb_tid t'\<rbrakk> \<Longrightarrow> tcb_state t' \<noteq> UTH_STATE_BLOCKED"
    "heap s (uth_current s) = Some u \<Longrightarrow> \<exists>u'. heap s' (uth_current s) = Some u' \<and> tcb_tid u' = tcb_tid u \<and>
       (tcb_state u' = UTH_STATE_ZOMBIE \<longrightarrow> (\<forall>t. heap s' (tcb_joiner u) = Some t \<longrightarrow> tcb_state t \<noteq> UTH_STATE_BLOCKED))"
    "\<lbrakk>heap s' (uth_current s) = Some t'; tcb_state t' = UTH_STATE_BLOCKED; uc_frames (tcb_ctx t') = [F_join tid want old]\<rbrakk> \<Longrightarrow>
       (\<exists>y u. heap s' y = Some u \<and> tcb_tid u = tid \<and> tcb_joiner u = uth_current s) \<and> (\<forall>y u. heap s y = Some u \<longrightarrow> tcb_tid u = tid \<longrightarrow> tcb_joiner u = NULL)"
  using assms unfolding tidy_step_def by blast+

text \<open>A blocked thread other than the current one was blocked before, in the same frames.\<close>

lemma was_blocked:
  assumes inv: "lib_inv s rq wq" and st: "tidy_step s s'" and x: "heap s' x = Some t'" "tcb_state t' = UTH_STATE_BLOCKED" "x \<noteq> uth_current s"
  obtains t where "heap s x = Some t" "tcb_state t = UTH_STATE_BLOCKED" "tcb_ctx t = tcb_ctx t'"
proof -
  from settledD(2) [OF tidy_stepD(1) [OF st] x(1)] tidy_stepD(3) [OF st x(1)] x(2) obtain t where t: "heap s x = Some t" "kept t t'" by auto
  have "tcb_state t \<noteq> UTH_STATE_RUNNING" using lib_running [OF inv t(1)] x(3) by blast
  with t(2) x(2) have "tcb_state t = UTH_STATE_BLOCKED \<and> tcb_ctx t = tcb_ctx t'" by (cases "tcb_state t") (auto simp: kept_def)
  with t(1) that show ?thesis by blast
qed

text \<open>The target of a join that still waits.\<close>

lemma target_stays:
  assumes inv: "lib_inv s rq wq" and st: "tidy_step s s'"
    and y: "heap s y = Some u" "tcb_joiner u = x" "x \<noteq> NULL" and x: "heap s' x = Some t'" "tcb_state t' = UTH_STATE_BLOCKED"
  obtains u' where "heap s' y = Some u'" "kept u u'" "tcb_state u' \<noteq> UTH_STATE_ZOMBIE"
proof (cases "y = uth_current s")
  case True
  with tidy_stepD(4) [OF st, of u] y(1) obtain u' where u': "heap s' y = Some u'" "tcb_tid u' = tcb_tid u"
      "tcb_state u' = UTH_STATE_ZOMBIE \<longrightarrow> (\<forall>t. heap s' (tcb_joiner u) = Some t \<longrightarrow> tcb_state t \<noteq> UTH_STATE_BLOCKED)" by blast
  have "kept u u'" using settledD(2) [OF tidy_stepD(1) [OF st] u'(1)] u'(2) tid_bounds(2) [OF inv y(1)] y(1) by auto
  with that u' y(2) x show ?thesis by blast
next
  case False
  obtain v want old where "tcb_state (u\<lparr>tcb_next := NULL\<rparr>) \<noteq> UTH_STATE_ZOMBIE"
    by (rule joinerE [OF lib_invD(2) [OF inv] heap_erase [OF y(1)]]) (use y in auto)
  moreover have "tcb_state u \<noteq> UTH_STATE_RUNNING" using lib_running [OF inv y(1)] False by blast
  ultimately have r: "tcb_state u = UTH_STATE_READY \<or> tcb_state u = UTH_STATE_BLOCKED" by (cases "tcb_state u") auto
  from settledD(3) [OF tidy_stepD(1) [OF st] y(1) r] obtain u' where "heap s' y = Some u'" "kept u u'" by blast
  moreover from this r have "tcb_state u' \<noteq> UTH_STATE_ZOMBIE" by (auto simp: kept_def)
  ultimately show ?thesis by (rule that)
qed

lemma joiner_stays:
  assumes inv: "lib_inv s rq wq" and inv': "lib_inv s' rq' wq'" and A: "anchored s" and st: "tidy_step s s'"
    and y: "heap s y = Some u" "tcb_joiner u = x" "x \<noteq> NULL" and x: "heap s' x = Some t'" "tcb_state t' = UTH_STATE_BLOCKED"
  shows "\<exists>u'. heap s' y = Some u' \<and> tcb_tid u' = tcb_tid u \<and> tcb_joiner u' = x"
proof -
  obtain u' where u': "heap s' y = Some u'" "kept u u'" "tcb_state u' \<noteq> UTH_STATE_ZOMBIE" by (rule target_stays [OF inv st y x])
  let ?j = "tcb_joiner u'"
  have tid: "tcb_tid u' = tcb_tid u" and nz: "?j \<noteq> NULL" using u' y by (auto simp: kept_def)
  obtain v want old where "heap (erase s') ?j = Some v" "tcb_state v = UTH_STATE_BLOCKED" "uc_frames (tcb_ctx v) = [F_join (tcb_tid u) want old]"
    by (rule joinerE [OF lib_invD(2) [OF inv'] heap_erase [OF u'(1)]]) (use nz tid in auto)
  then obtain w where w: "heap s' ?j = Some w" "tcb_state w = UTH_STATE_BLOCKED" "uc_frames (tcb_ctx w) = [F_join (tcb_tid u) want old]"
    by (auto simp: heap_erase_iff)
  have "?j = x"
  proof (cases "?j = uth_current s")
    case True
    with tidy_stepD(5) [OF st, of w] w y show ?thesis by auto
  next
    case False
    obtain v where v: "heap s ?j = Some v" "tcb_state v = UTH_STATE_BLOCKED" "tcb_ctx v = tcb_ctx w" by (rule was_blocked [OF inv st w(1,2) False])
    obtain z r where z: "heap s z = Some r" "tcb_tid r = tcb_tid u" "tcb_joiner r = ?j"
      by (rule anchored_cases [OF A inv v(1,2)]) (use v(3) w(3) in auto)
    from tid_unique [OF lib_invD(3) [OF inv] z(1) y(1) z(2)] z(1,3) y show ?thesis by simp
  qed
  with u'(1) tid show ?thesis by blast
qed

lemma anchored_step:
  assumes inv: "lib_inv s rq wq" and A: "anchored s" and st: "tidy_step s s'"
  shows "anchored s'"
  unfolding anchored_def
proof (intro allI impI)
  fix x t'
  assume x: "heap s' x = Some t'" "tcb_state t' = UTH_STATE_BLOCKED"
  from tidy_stepD(2) [OF st] inv obtain rq' wq' where m: "lib_inv s' rq' wq'" "\<And>q. set (wq q) \<subseteq> set (wq' q) \<union> set rq'" "berthed (uth_current s) wq' s'"
    unfolding moors_def by blast
  have nr: "x \<notin> set rq'" using lib_ready_iff [OF m(1) x(1)] x(2) by simp
  have "(\<exists>q. x \<in> set (wq' q)) \<or> (\<exists>tid want old y u. uc_frames (tcb_ctx t') = [F_join tid want old] \<and> heap s' y = Some u \<and> tcb_tid u = tid \<and> tcb_joiner u = x)"
  proof (cases "x = uth_current s")
    case True
    with m(3) x consider q where "x \<in> set (wq' q)" | tid want old where "uc_frames (tcb_ctx t') = [F_join tid want old]" unfolding berthed_def by blast
    then show ?thesis using tidy_stepD(5) [OF st, of t'] x True by cases blast+
  next
    case False
    obtain t where t: "heap s x = Some t" "tcb_state t = UTH_STATE_BLOCKED" "tcb_ctx t = tcb_ctx t'" by (rule was_blocked [OF inv st x(1,2) False])
    show ?thesis
    proof (cases rule: anchored_cases [OF A inv t(1,2)])
      case (1 q f k)
      with m(2) nr show ?thesis by blast
    next
      case (2 tid want old y u)
      have "x \<noteq> NULL" by (rule lib_heap_not_NULL [OF inv t(1)])
      from joiner_stays [OF inv m(1) A st 2(2,4) this x(1,2)] 2(1,3) t(3) show ?thesis by auto
    qed
  qed
  with m(1) show "(\<exists>q rq wq. lib_inv s' rq wq \<and> x \<in> set (wq q)) \<or>
      (\<exists>tid want old y u. uc_frames (tcb_ctx t') = [F_join tid want old] \<and> heap s' y = Some u \<and> tcb_tid u = tid \<and> tcb_joiner u = x)" by blast
qed

text \<open>A step of the scheduler, or of the handler, moves one thread, which is not blocked afterwards.\<close>

lemma anchored_move:
  assumes inv: "lib_inv s rq wq" and inv': "lib_inv s' rq' wq" and A: "anchored s"
    and same: "\<And>y. y \<noteq> x \<Longrightarrow> heap (erase s') y = heap (erase s) y"
    and x: "heap (erase s) x = Some t" "heap (erase s') x = Some t'" "tcb_state t' \<noteq> UTH_STATE_BLOCKED" "tcb_tid t' = tcb_tid t" "tcb_joiner t' = tcb_joiner t"
  shows "anchored s'"
  unfolding anchored_def
proof (intro allI impI)
  fix y v assume v: "heap s' y = Some v" "tcb_state v = UTH_STATE_BLOCKED"
  have "y \<noteq> x" using x(2,3) heap_erase [OF v(1)] v(2) by auto
  with same [OF this] heap_erase [OF v(1)] have "heap (erase s) y = Some (v\<lparr>tcb_next := NULL\<rparr>)" by simp
  then obtain u where u: "heap s y = Some u" "u\<lparr>tcb_next := NULL\<rparr> = v\<lparr>tcb_next := NULL\<rparr>" unfolding heap_erase_iff by metis
  have f: "tcb_state u = UTH_STATE_BLOCKED" "tcb_ctx u = tcb_ctx v"
    using arg_cong [OF u(2), of tcb_state] arg_cong [OF u(2), of tcb_ctx] v(2) by simp_all
  have target: "\<exists>w. heap s' z = Some w \<and> tcb_tid w = tcb_tid r \<and> tcb_joiner w = tcb_joiner r" if r: "heap s z = Some r" for z r
  proof -
    have "\<exists>w. heap (erase s') z = Some w \<and> tcb_tid w = tcb_tid r \<and> tcb_joiner w = tcb_joiner r"
      using same [of z] x heap_erase [OF r] by (cases "z = x") auto
    then show ?thesis by (auto simp: heap_erase_iff)
  qed
  show "(\<exists>q rq wq. lib_inv s' rq wq \<and> y \<in> set (wq q)) \<or>
      (\<exists>tid want old z r. uc_frames (tcb_ctx v) = [F_join tid want old] \<and> heap s' z = Some r \<and> tcb_tid r = tid \<and> tcb_joiner r = y)"
    by (rule anchored_cases [OF A inv u(1) f(1)]) (use inv' f(2) target in fastforce)+
qed

lemma anchored_same: "\<lbrakk>anchored s; heap s' = heap s; \<And>rq wq. lib_inv s rq wq \<Longrightarrow> lib_inv s' rq wq\<rbrakk> \<Longrightarrow> anchored s'"
  unfolding anchored_def by (simp, blast)

section \<open>Steps are tidy\<close>

text \<open>New threads are not blocked.\<close>

definition fresh_ready :: "sys \<Rightarrow> sys \<Rightarrow> bool" where
  "fresh_ready s s' \<longleftrightarrow> (\<forall>y t'. heap s' y = Some t' \<longrightarrow> next_tid s \<le> tcb_tid t' \<longrightarrow> heap s y = None \<and> tcb_state t' \<noteq> UTH_STATE_BLOCKED)"

lemma fresh_ready_same:
  assumes "lib_inv s' rq' wq'" and "next_tid s' = next_tid s"
  shows "fresh_ready s s'"
  unfolding fresh_ready_def using tid_bounds(2) [OF assms(1)] assms(2) by (metis leD)

lemma call_fresh_ready:
  assumes inv: "lib_inv s rq wq" and c: "caller s" and e: "env_ok a s" and res: "api_call a s = Ok (d, s')"
  shows "fresh_ready s s'"
proof -
  obtain rq' wq' where inv': "lib_inv s' rq' wq'" using api_call_post [OF inv c e res] by (auto simp: lib_post_def elim: lib_okE)
  show ?thesis
  proof (cases "is_create a")
    case True
    then obtain fn arg n env where a: "a = A_create fn arg n env" by (rule is_createE)
    then have cr: "heap s (env_calloc env) = None" "uth_create fn arg n env s = Ok (d, s')" using e res by simp_all
    show ?thesis
    proof (cases rule: create_effect [OF inv cr])
      case (2 x stk sz)
      show ?thesis unfolding fresh_ready_def
      proof (intro allI impI)
        fix y t' assume y: "heap s' y = Some t'" "next_tid s \<le> tcb_tid t'"
        have "y = x"
        proof (rule ccontr)
          assume "y \<noteq> x"
          with 2(9) heap_erase [OF y(1)] obtain t where "heap s y = Some t" "tcb_tid t = tcb_tid t'" by (auto simp: heap_erase_iff dest!: arg_cong [where f = tcb_tid])
          with tid_bounds(2) [OF inv] y(2) show False by (metis leD)
        qed
        with 2(2,3) lib_ready_iff [OF 2(2) y(1)] show "heap s y = None \<and> tcb_state t' \<noteq> UTH_STATE_BLOCKED" by simp
      qed
    qed (use fresh_ready_same [OF inv'] in simp)
  next
    case False
    from fresh_ready_same [OF inv' objs_offD(2) [OF call_frame [OF res False]]] show ?thesis .
  qed
qed

lemma current_kept:
  assumes "settled s s'" and "fresh_ready s s'" and "heap s x = Some u" and "heap s' x = Some u'"
  shows "tcb_tid u' = tcb_tid u"
  using settledD(2) [OF assms(1,4)] assms(2-4) by (auto simp: fresh_ready_def kept_def)

lemma tidy_stepI:
  assumes st: "settled s s'" and m: "moors s s'" and new: "fresh_ready s s'"
    and cur: "\<And>u. heap s (uth_current s) = Some u \<Longrightarrow> \<exists>u'. heap s' (uth_current s) = Some u' \<and>
      (tcb_state u' = UTH_STATE_ZOMBIE \<longrightarrow> (\<forall>t. heap s' (tcb_joiner u) = Some t \<longrightarrow> tcb_state t \<noteq> UTH_STATE_BLOCKED))"
    and join: "\<And>t' tid want old. \<lbrakk>heap s' (uth_current s) = Some t'; tcb_state t' = UTH_STATE_BLOCKED; uc_frames (tcb_ctx t') = [F_join tid want old]\<rbrakk> \<Longrightarrow>
      (\<exists>y u. heap s' y = Some u \<and> tcb_tid u = tid \<and> tcb_joiner u = uth_current s) \<and> (\<forall>y u. heap s y = Some u \<longrightarrow> tcb_tid u = tid \<longrightarrow> tcb_joiner u = NULL)"
  shows "tidy_step s s'"
  unfolding tidy_step_def
proof (intro conjI)
  show "\<forall>y t'. heap s' y = Some t' \<longrightarrow> next_tid s \<le> tcb_tid t' \<longrightarrow> tcb_state t' \<noteq> UTH_STATE_BLOCKED" using new unfolding fresh_ready_def by blast
  show "\<forall>u. heap s (uth_current s) = Some u \<longrightarrow> (\<exists>u'. heap s' (uth_current s) = Some u' \<and> tcb_tid u' = tcb_tid u \<and>
      (tcb_state u' = UTH_STATE_ZOMBIE \<longrightarrow> (\<forall>t. heap s' (tcb_joiner u) = Some t \<longrightarrow> tcb_state t \<noteq> UTH_STATE_BLOCKED)))"
    using cur current_kept [OF st new] by blast
  show "\<forall>t' tid want old. heap s' (uth_current s) = Some t' \<longrightarrow> tcb_state t' = UTH_STATE_BLOCKED \<longrightarrow> uc_frames (tcb_ctx t') = [F_join tid want old] \<longrightarrow>
      (\<exists>y u. heap s' y = Some u \<and> tcb_tid u = tid \<and> tcb_joiner u = uth_current s) \<and> (\<forall>y u. heap s y = Some u \<longrightarrow> tcb_tid u = tid \<longrightarrow> tcb_joiner u = NULL)"
    using join by blast
qed (fact st m)+

lemma tidy_stay:
  assumes inv: "lib_inv s rq wq" and c: "caller s" and st: "settled s s'" "stays s s'" and m: "moors s s'" and new: "fresh_ready s s'"
  shows "tidy_step s s'"
proof (rule tidy_stepI [OF st(1) m new])
  from m inv obtain rq' wq' where inv': "lib_inv s' rq' wq'" unfolding moors_def by blast
  have r: "running s' (uth_current s)" if "uth_current s \<noteq> NULL" using st(2) c that by (simp add: caller_def stays_def)
  show "\<exists>u'. heap s' (uth_current s) = Some u' \<and>
      (tcb_state u' = UTH_STATE_ZOMBIE \<longrightarrow> (\<forall>t. heap s' (tcb_joiner u) = Some t \<longrightarrow> tcb_state t \<noteq> UTH_STATE_BLOCKED))" if "heap s (uth_current s) = Some u" for u
    using r [OF lib_heap_not_NULL [OF inv that]] by (auto simp: running_def)
  fix t' tid want old
  assume "heap s' (uth_current s) = Some t'" "tcb_state t' = UTH_STATE_BLOCKED"
  with r [OF lib_heap_not_NULL [OF inv' this(1)]] have False by (simp add: running_def)
  then show "(\<exists>y u. heap s' y = Some u \<and> tcb_tid u = tid \<and> tcb_joiner u = uth_current s) \<and> (\<forall>y u. heap s y = Some u \<longrightarrow> tcb_tid u = tid \<longrightarrow> tcb_joiner u = NULL)" ..
qed

lemma tidy_parked:
  assumes st: "settled s s'" and m: "moors s s'" and new: "fresh_ready s s'" and p: "parked k s s'" and k: "\<And>tid want old. k \<noteq> [F_join tid want old]"
  shows "tidy_step s s'"
proof -
  from p obtain u' where u': "heap s' (uth_current s) = Some u'" "tcb_state u' \<noteq> UTH_STATE_ZOMBIE" "uc_frames (tcb_ctx u') = k" by (auto simp: parked_def)
  show ?thesis by (rule tidy_stepI [OF st m new]) (use u' k in \<open>simp, metis option.inject\<close>)
qed

lemma tidy_exit:
  assumes inv: "lib_inv s rq wq" and c: "caller s" and res: "uth_exit v k s = Ok (d, s')"
    and st: "settled s s'" and m: "moors s s'" and new: "fresh_ready s s'"
  shows "tidy_step s s'"
proof -
  have nz: "uth_current s \<noteq> NULL" using uth_exit_outside res by fastforce
  from caller_runs [OF c nz] obtain t where r: "runs s (uth_current s) t" by blast
  from uth_exit_ok [OF inv r refl, of v k] res have e: "lib_inv s' (if tcb_joiner t = NULL then rq else rq @ [tcb_joiner t]) wq" by auto
  have h: "heap s (uth_current s) = Some t" using r by (simp add: runs_def)
  from exit_parks [OF inv c res] obtain u' where u': "heap s' (uth_current s) = Some u'" "tcb_state u' = UTH_STATE_ZOMBIE" by blast
  have "tcb_state w \<noteq> UTH_STATE_BLOCKED" if w: "heap s' (tcb_joiner t) = Some w" for w
    using lib_ready_iff [OF e w] lib_heap_not_NULL [OF e w] by simp
  with h u' show ?thesis by (intro tidy_stepI [OF st m new]) auto
qed

lemma tidy_join:
  assumes inv: "lib_inv s rq wq" and c: "caller s" and res: "uth_join tid want [] s = Ok (Switched, s')" and cl: "\<not> clobbers (A_join tid want) s"
    and st: "settled s s'" and m: "moors s s'" and new: "fresh_ready s s'"
  shows "tidy_step s s'"
proof -
  obtain y u where y: "heap s y = Some u" "tcb_tid u = tid" "tcb_state u \<noteq> UTH_STATE_ZOMBIE"
  proof (cases rule: tcb_find_cases [OF lib_invD(3) [OF inv], of tid])
    case 2
    with uth_join_miss [OF lib_invD(3) [OF inv] 2(2)] res show ?thesis by simp
  next
    case (1 y u)
    with uth_join_zombie [OF lib_invD(3) [OF inv] 1(3,4), of want "[]"] res that show ?thesis by fastforce
  qed
  have nz: "uth_current s \<noteq> NULL" using uth_join_outside [OF lib_invD(3) [OF inv] _ y] res by fastforce
  from caller_runs [OF c nz] obtain t where r: "runs s (uth_current s) t" by blast
  from uth_join_block [OF inv r y, of want] res have e: "erase s' = switched UTH_STATE_BLOCKED (uth_current s) [F_join tid want (sigmask s)]
      (upd_tcb y (\<lambda>t. t\<lparr>tcb_joiner := uth_current s\<rparr>) ((erase s)\<lparr>sigmask := True\<rparr>))" by auto
  have "\<exists>w. heap (erase s') y = Some w \<and> tcb_tid w = tid \<and> tcb_joiner w = uth_current s"
    unfolding e switched_def using heap_erase [OF y(1)] y(2) by (auto simp: heap_upd_tcb)
  then obtain w where "heap s' y = Some w" "tcb_tid w = tid" "tcb_joiner w = uth_current s" by (auto simp: heap_erase_iff)
  then have j: "\<exists>y u. heap s' y = Some u \<and> tcb_tid u = tid \<and> tcb_joiner u = uth_current s" by blast
  from join_parks [OF inv c res] obtain u' where u': "heap s' (uth_current s) = Some u'" "tcb_state u' \<noteq> UTH_STATE_ZOMBIE"
      "uc_frames (tcb_ctx u') = [F_join tid want (sigmask s)]" by (auto simp: parked_def)
  have none: "\<forall>y u. heap s y = Some u \<longrightarrow> tcb_tid u = tid \<longrightarrow> tcb_joiner u = NULL" using cl by auto
  from u' j none show ?thesis by (intro tidy_stepI [OF st m new]) auto
qed

lemma call_tidy:
  assumes inv: "lib_inv s rq wq" and c: "caller s" and e: "env_ok a s" and res: "api_call a s = Ok (d, s')" and cl: "\<not> clobbers a s"
  shows "tidy_step s s'"
proof -
  note P = api_call_post [OF inv c e res] and m = api_call_moors [OF inv c e res cl] and new = call_fresh_ready [OF inv c e res]
  have st: "settled s s'" using P by (simp add: lib_post_def)
  show ?thesis
  proof (cases "d = Switched")
    case False
    with P have "stays s s'" by (cases d) (simp_all add: lib_post_def)
    from tidy_stay [OF inv c st this m new] show ?thesis .
  next
    case True
    consider v where "a = A_exit v" | tid want where "a = A_join tid want" | "\<And>v. a \<noteq> A_exit v" "\<And>tid want. a \<noteq> A_join tid want" by blast
    then show ?thesis
    proof cases
      case (1 v)
      with res tidy_exit [OF inv c _ st m new] show ?thesis by simp
    next
      case (2 tid want)
      with res True cl tidy_join [OF inv c _ _ st m new] show ?thesis by simp
    next
      case 3
      from call_parks [OF inv c e res [unfolded True] 3(1), of undefined undefined "undefined :: nat"]
      obtain k where k: "parked k s s'" "pos_ok undefined undefined k (issued a (undefined :: nat))" by blast
      have "k \<noteq> [F_join tid want old]" for tid want old using k(2) 3(2) by (cases a) auto
      with tidy_parked [OF st m new k(1)] show ?thesis by blast
    qed
  qed
qed

lemma resume_tidy:
  assumes inv: "lib_inv s rq wq" and u: "user_inv (f # k) s" and res: "resume_frame f k s = Ok (d, s')" and q: "pos_ok fn arg (f # k) q"
  shows "tidy_step s s'"
proof -
  note c = user_inv_caller [OF u] and m = resume_frame_moors [OF inv u res]
  from resume_frame_post [OF inv u res] have P: "lib_post s (frame_mask (sigmask s) f) d s'" by blast
  then obtain rq' wq' where "lib_inv s' rq' wq'" by (auto simp: lib_post_def elim: lib_okE)
  note new = fresh_ready_same [OF this objs_offD(2) [OF resume_frame_frame [OF res]]]
  have st: "settled s s'" using P by (simp add: lib_post_def)
  show ?thesis
  proof (cases "d = Switched")
    case False
    with P have "stays s s'" by (cases d) (simp_all add: lib_post_def)
    from tidy_stay [OF inv c st this m new] show ?thesis .
  next
    case True
    from resume_parks [OF inv u res [unfolded True], of fn arg q] q obtain k' where k': "parked k' s s'" "pos_ok fn arg k' q" by blast
    have "k' \<noteq> [F_join tid want old]" for tid want old
    proof
      assume "k' = [F_join tid want old]"
      with k'(2) obtain p where "q = Await (A_join tid want) p" by auto
      with q obtain old' where "f = F_join tid want old'" by (cases f) (auto split: list.splits frame.splits if_splits)
      with res True show False by (auto simp: uth_join_resumed_def uth_join_collect_def ok_iff Let_def split: if_splits)
    qed
    with tidy_parked [OF st m new k'(1)] show ?thesis by blast
  qed
qed

lemma tick_anchored:
  assumes t: "tick_pending s" and ucp: "uc_sigmask ucp = sigmask s" "uc_frames ucp = frames_at l"
    and res: "uth_preempt_handler ucp s = Ok (d, s')" and I: "cfg_inv (l, s)" and A: "anchored s"
  shows "anchored s'"
proof (cases "uth_current s = NULL")
  case True
  with handler_idle [OF True] res A show ?thesis by simp
next
  case False
  obtain k where l: "l = User k" using I t False by (cases l) (simp_all add: tick_pending_def)
  with I obtain rq wq where inv: "lib_inv s rq wq" and u: "user_inv k s" by (auto elim: lib_okE)
  obtain x where r: "runs s (uth_current s) x" using caller_runs [OF user_inv_caller [OF u] False] by blast
  have "ctx_ok (erase s) True (uth_current s) (uc_sigmask ucp) (uc_frames ucp)"
    using u False ucp l by (simp add: user_inv_def)
  from handler_preempts [OF inv r this] res have p: "lib_inv s' (rq @ [uth_current s]) wq" "erase s' = preempted ucp (uth_current s) (erase s)" by auto
  show ?thesis
    by (rule anchored_move [OF inv p(1) A, of "uth_current s" "x\<lparr>tcb_next := NULL\<rparr>"
          "x\<lparr>tcb_next := NULL, tcb_state := UTH_STATE_READY, tcb_ctx := ucp\<lparr>uc_fpregs := uth_current s\<rparr>\<rparr>"])
      (use runs_erase(1) [OF r] in \<open>simp_all add: p(2) preempted_def heap_upd_tcb\<close>)
qed

lemma pick_anchored:
  assumes I: "cfg_inv (SchedTop, s)" and res: "scheduler_round s = Ok (SchedRun k, s')" and A: "anchored s"
  shows "anchored s'"
proof -
  from I obtain rq wq where inv: "lib_inv s rq wq" and nr: "no_running s" by (auto elim: lib_okE)
  show ?thesis
  proof (cases rule: scheduler_round_cases [OF inv nr])
    case (3 x rq' t s1 t')
    with res have s1: "s1 = s'" by simp
    show ?thesis
      by (rule anchored_move [OF inv 3(5) [unfolded s1] A, of x "t\<lparr>tcb_next := NULL\<rparr>" "t\<lparr>tcb_next := NULL, tcb_state := UTH_STATE_RUNNING\<rparr>"])
        (use heap_erase [OF 3(2)] 3(7) s1 in \<open>simp_all add: resumed_def heap_upd_tcb\<close>)
  qed (use res in simp_all)
qed

end
