(* ===== verification/Uth_Deadlock.thy ===== *)
theory Uth_Deadlock
  imports Uth_Anchor Uth_Wakeup
begin

text \<open>
  Deadlocks of programs on the library: when the scheduler finds no ready thread, every thread that has not ended is in a call that cannot take
  effect. This needs that no wake-up is lost and that every blocked thread is known to those who have to wake it.
\<close>

section \<open>Tidy programs\<close>

text \<open>
  A program is tidy if it initialises no object that a thread waits on, and joins no thread that another thread is waiting for. On the library, the
  blocked threads of such a program are anchored.
\<close>

fun conflicts :: "api \<Rightarrow> api \<Rightarrow> bool" where
  "conflicts (A_mutex_init m) b = (case b of A_mutex_lock m' \<Rightarrow> m = m' | A_cond_wait c m' \<Rightarrow> m = m' | _ \<Rightarrow> False)"
| "conflicts (A_ticket_init m) b = (case b of A_ticket_lock m' \<Rightarrow> m = m' | _ \<Rightarrow> False)"
| "conflicts (A_cond_init c) b = (case b of A_cond_wait c' m \<Rightarrow> c = c' | _ \<Rightarrow> False)"
| "conflicts (A_sem_init m v) b = (case b of A_sem_wait m' \<Rightarrow> m = m' | _ \<Rightarrow> False)"
| "conflicts (A_join tid want) b = (case b of A_join tid' want' \<Rightarrow> tid = tid' | _ \<Rightarrow> False)"
| "conflicts _ b = False"

lemma waits_conflict:
  assumes "pos_ok fn arg (f # k) q" and "waits_on f = Some w"
  shows "\<exists>b p. q = Await b p \<and> (w = MutexWaiters m \<longrightarrow> conflicts (A_mutex_init m) b) \<and> (w = TicketWaiters m \<longrightarrow> conflicts (A_ticket_init m) b) \<and>
     (w = CondWaiters m \<longrightarrow> conflicts (A_cond_init m) b) \<and> (w = SemWaiters m \<longrightarrow> conflicts (A_sem_init m v) b)"
  using assms by (cases f) (auto split: if_splits)

lemma waiter_position:
  assumes C: "coupled ((l, s), ps, g)" and h: "has_waiters (obj_at w s)"
  shows "\<exists>j b p. ps j = Await b p \<and> (w = MutexWaiters m \<longrightarrow> conflicts (A_mutex_init m) b) \<and> (w = TicketWaiters m \<longrightarrow> conflicts (A_ticket_init m) b) \<and>
     (w = CondWaiters m \<longrightarrow> conflicts (A_cond_init m) b) \<and> (w = SemWaiters m \<longrightarrow> conflicts (A_sem_init m v) b)"
proof -
  have "lib_ok s" using coupledD(1) [OF C] by (cases l) simp_all
  then obtain rq wq where inv: "lib_inv s rq wq" by (rule lib_okE)
  from h has_waiters_iff [OF inv] obtain x where "x \<in> set (wq w)" by (cases "wq w") auto
  then obtain t f k where t: "heap s x = Some t" "tcb_state t = UTH_STATE_BLOCKED" "uc_frames (tcb_ctx t) = f # k" "waits_on f = Some w" by (rule lib_waitE [OF inv])
  from coupledD(2) [OF C t(1)] t(2,3) have "pos_ok (tcb_fn t) (tcb_arg t) (f # k) (ps (tcb_tid t))" by (simp add: thread_ok_def frames_of_def)
  from waits_conflict [OF this t(4), of m v] show ?thesis by blast
qed

lemma clobbers_conflict:
  assumes C: "coupled ((l, s), ps, g)" and cl: "clobbers a s"
  shows "\<exists>j b p. ps j = Await b p \<and> conflicts a b"
proof (cases a)
  case (A_join tid want)
  have "lib_ok s" using coupledD(1) [OF C] by (cases l) simp_all
  then obtain rq wq where inv: "lib_inv s rq wq" by (rule lib_okE)
  from cl A_join obtain y u where y: "heap s y = Some u" "tcb_tid u = tid" "tcb_joiner u \<noteq> NULL" by auto
  obtain v want' old where "heap (erase s) (tcb_joiner u) = Some v" "tcb_state v = UTH_STATE_BLOCKED" "uc_frames (tcb_ctx v) = [F_join tid want' old]"
    by (rule joinerE [OF lib_invD(2) [OF inv] heap_erase [OF y(1)]]) (use y in auto)
  then obtain w where w: "heap s (tcb_joiner u) = Some w" "tcb_state w = UTH_STATE_BLOCKED" "uc_frames (tcb_ctx w) = [F_join tid want' old]"
    by (auto simp: heap_erase_iff)
  from coupledD(2) [OF C w(1)] w(2,3) obtain p where "ps (tcb_tid w) = Await (A_join tid want') p" by (auto simp: thread_ok_def frames_of_def)
  with A_join show ?thesis by fastforce
next
  case (A_mutex_init m)
  with waiter_position [OF C, of "MutexWaiters m" m] cl show ?thesis by auto
next
  case (A_ticket_init m)
  with waiter_position [OF C, of "TicketWaiters m" m] cl show ?thesis by auto
next
  case (A_cond_init m)
  with waiter_position [OF C, of "CondWaiters m" m] cl show ?thesis by auto
next
  case (A_sem_init m v)
  with waiter_position [OF C, of "SemWaiters m" m v] cl show ?thesis by auto
qed (use cl in simp_all)

text \<open>The steps around the scheduler leave the heap and the queues alone.\<close>

lemma quiet_anchored:
  assumes "anchored s"
  shows "uth_run bp sp s = (c, s') \<Longrightarrow> anchored s'" "uth_run_linked bp sp s = (c, s') \<Longrightarrow> anchored s'"
    "anchored (scheduler_entry s)" "no_running s \<Longrightarrow> anchored (scheduler_swapped s)"
  using assms by (auto simp: uth_run_def uth_run_linked_def uth_run_body_def scheduler_entry_def lib_inv_swapped elim!: anchored_same split: if_splits)
    (simp add: scheduler_swapped_def)

lemmas creachable_cfg = coupledD(1) [OF creachable_coupled]

text \<open>
  A thread is unserved if it is in a call that has not taken effect and, as far as the interface says, cannot take effect now. A thread in
  \<open>uth_cond_wait\<close> waits for a signal, one in \<open>uth_ticket_lock\<close> for its turn.
\<close>

definition unserved :: "u32 \<Rightarrow> (u32 \<Rightarrow> 'p pos) \<Rightarrow> objects \<Rightarrow> bool" where
  "unserved i ps x \<longleftrightarrow> (\<exists>a p. ps i = Await a p \<and>
     ((\<exists>c m. a = A_cond_wait c m) \<or> (\<exists>m. a = A_ticket_lock m) \<or> \<not> join_ok a ps \<or> complete i a x = None))"

text \<open>With no ready thread nobody is about to take the mutex or the permit, so there is none to take.\<close>

lemma idle_units:
  assumes r: "reachable (SchedTop, s)" and inv: "lib_inv s [] wq" and x: "x \<in> set (wq w)"
  shows "units (obj_at w s) \<le> 0"
proof -
  have "retrying w s = {}" using lib_ready_iff [OF inv] by (auto simp: retrying_def)
  moreover have "has_waiters (obj_at w s)" using has_waiters_iff [OF inv, of w] x by auto
  ultimately show ?thesis using wake.reachable_inv [OF r] by (auto simp: wake_inv_def wake_ok_def takers_def)
qed

lemma unserved_waiter:
  assumes u: "units (obj_at w s) \<le> 0" and q: "pos_ok fn arg (f # k) (ps i)" and w: "waits_on f = Some w"
  shows "unserved i ps (views s)"
proof (cases f)
  case (F_mutex_lock m old)
  with u w have "mtx_view s m \<noteq> Some None" by (cases "mutexes s m") (auto simp: mtx_view_def split: if_splits)
  with q F_mutex_lock show ?thesis by (auto simp: unserved_def views_def split: if_splits)
next
  case (F_sem_wait p old)
  with u w have "sem_view s p = Some v \<Longrightarrow> v \<le> 0" for v by (cases "sems s p") (auto simp: sem_view_def)
  with q F_sem_wait show ?thesis by (fastforce simp: unserved_def views_def split: option.splits)
qed (use q w in \<open>auto simp: unserved_def\<close>)

lemma live_unfinished:
  assumes C: "coupled ((l, s), ps, g)" and inv: "lib_inv s rq wq" and y: "heap s y = Some u" and z: "tcb_state u \<noteq> UTH_STATE_ZOMBIE"
  shows "\<not> finished (tcb_tid u) ps"
proof -
  from coupledD(2) [OF C y] z have "pos_ok (tcb_fn u) (tcb_arg u) (frames_of l u) (ps (tcb_tid u))" by (simp add: thread_ok_def)
  then have "ps (tcb_tid u) \<noteq> Unborn \<and> ps (tcb_tid u) \<noteq> Ended"
    by (cases "(tcb_fn u, tcb_arg u, frames_of l u, ps (tcb_tid u))" rule: pos_ok.cases) (auto split: if_splits list.splits frame.splits)
  with tid_bounds(1) [OF inv y] show ?thesis by (simp add: finished_def)
qed

text \<open>The scheduler idles only while some thread has not ended.\<close>

lemma idle_live:
  assumes C: "coupled ((SchedTop, s), ps, g)" and idle: "scheduler_round s = Ok (SchedContinue, s')"
  shows "\<exists>i. i \<noteq> UTH_TID_INVALID \<and> ps i \<noteq> Unborn \<and> ps i \<noteq> Ended"
proof -
  from coupledD(1) [OF C] obtain rq wq where inv: "lib_inv s rq wq" by (auto elim: lib_okE)
  obtain x t where t: "heap s x = Some t" "tcb_state t \<noteq> UTH_STATE_ZOMBIE" using scheduler_break [OF inv] idle by auto
  with live_unfinished [OF C inv t] show ?thesis by (auto simp: finished_def)
qed

locale tidy_program =
  fixes P :: "('p, 'g) prog" and p0 :: 'p and g0 :: 'g
  assumes tidy: "\<lbrakk>creachable P p0 g0 ((User [], s), ps, g); ps (self_tid s) = At p; p_code P e p g = Ok (Call a g' p'); ps j = Await b q\<rbrakk> \<Longrightarrow>
    \<not> conflicts a b"
begin

lemma anchored_step_of:
  assumes r: "creachable P p0 g0 c" and st: "cstep P c c'" and A: "anchored (snd (fst c))"
  shows "anchored (snd (fst c'))"
  using st
proof (cases rule: cstep.cases)
  case (c_call ps s p e g a g' p' d s')
  have C: "coupled ((User [], s), ps, g)" using creachable_coupled [OF r] c_call(1) by simp
  from coupledD(1) [OF C] obtain rq wq where inv: "lib_inv s rq wq" and u: "user_inv [] s" by (auto elim: lib_okE)
  have "\<not> clobbers a s"
  proof
    assume "clobbers a s"
    with clobbers_conflict [OF C] obtain j b q where "ps j = Await b q" "conflicts a b" by blast
    with tidy [OF r [unfolded c_call(1)] c_call(3,4)] show False by blast
  qed
  from anchored_step [OF inv _ call_tidy [OF inv user_inv_caller [OF u] c_call(5,6) this]] A c_call(1,2) show ?thesis by simp
next
  case (c_exit ps s p e g v g' d s')
  from creachable_cfg [OF r [unfolded c_exit(1)]] obtain rq wq where inv: "lib_inv s rq wq" and u: "user_inv [] s" by (auto elim: lib_okE)
  from anchored_step [OF inv _ call_tidy [OF inv user_inv_caller [OF u] _ c_exit(6)]] A c_exit(1,2) show ?thesis by simp
next
  case (c_resume f k s d s' ps g)
  have C: "coupled ((User (f # k), s), ps, g)" using creachable_coupled [OF r] c_resume(1) by simp
  from coupledD(1) [OF C] obtain rq wq where inv: "lib_inv s rq wq" and u: "user_inv (f # k) s" by (auto elim: lib_okE)
  obtain fn arg where "pos_ok fn arg (f # k) (ps (self_tid s))" by (rule coupled_current [OF C]) blast+
  from anchored_step [OF inv _ resume_tidy [OF inv u c_resume(3) this]] A c_resume(1,2) show ?thesis by simp
next
  case (c_pick s k s' ps g)
  from pick_anchored [OF creachable_cfg [OF r [unfolded c_pick(1)]] c_pick(3)] A c_pick(1,2) show ?thesis by simp
next
  case (c_idle s s' ps g)
  from pick_inv(2) [OF creachable_cfg [OF r [unfolded c_idle(1)]] c_idle(3)] A c_idle(1,2) show ?thesis by simp
next
  case (c_finish s s1 bp sp s' ps p g)
  from pick_inv(3) [OF creachable_cfg [OF r [unfolded c_finish(1)]] c_finish(3)] quiet_anchored(2) [OF _ c_finish(4)] A c_finish(1,2) show ?thesis by simp
next
  case (c_back s ps g)
  from quiet_anchored(4) [of s] creachable_cfg [OF r [unfolded c_back(1)]] A c_back show ?thesis by simp
next
  case (c_tick s ucp l d s' ps g)
  from tick_anchored [OF c_tick(3-6) creachable_cfg [OF r [unfolded c_tick(1)]]] A c_tick(1,2) show ?thesis by simp
qed (use A in \<open>auto intro: quiet_anchored\<close>)

lemma creachable_anchored: "creachable P p0 g0 c \<Longrightarrow> anchored (snd (fst c))"
proof (induction rule: creachable.induct)
  case c_start
  then show ?case by (simp add: cinit_def anchored_def sys0_def)
next
  case (c_next c c')
  show ?case by (rule anchored_step_of [OF c_next])
qed

text \<open>
  When the scheduler finds no ready thread and yet some thread has not ended, every such thread is in a call that it cannot complete: no wake-up
  is outstanding, and none was lost.
\<close>

lemma idle_unserved:
  assumes r: "creachable P p0 g0 ((SchedTop, s), ps, g)" and idle: "scheduler_round s = Ok (SchedContinue, s')"
    and i: "i \<noteq> UTH_TID_INVALID" "ps i \<noteq> Unborn" "ps i \<noteq> Ended"
  shows "unserved i ps (views s)"
proof -
  note C = creachable_coupled [OF r]
  from coupledD(1) [OF C] obtain rq wq where inv: "lib_inv s rq wq" and nr: "no_running s" by (auto elim: lib_okE)
  have rq: "rq = []" by (rule scheduler_round_cases [OF inv nr]) (use idle in simp_all)
  from coupledD(4) [OF C i] obtain x t where t: "heap s x = Some t" "tcb_tid t = i" by blast
  have z: "tcb_state t \<noteq> UTH_STATE_ZOMBIE" using coupledD(2) [OF C t(1)] t(2) i(3) by (auto simp: thread_ok_def)
  have b: "tcb_state t = UTH_STATE_BLOCKED"
    using z nr t(1) lib_ready_iff [OF inv t(1)] rq by (cases "tcb_state t") (auto simp: no_running_def)
  with coupledD(2) [OF C t(1)] t(2) have q: "pos_ok (tcb_fn t) (tcb_arg t) (uc_frames (tcb_ctx t)) (ps i)" by (simp add: thread_ok_def frames_of_def)
  have A: "anchored s" using creachable_anchored [OF r] by simp
  show ?thesis
  proof (cases rule: anchored_cases [OF A inv t(1) b])
    case (1 w f k)
    have "units (obj_at w s) \<le> 0"
      by (rule idle_units [OF _ inv [unfolded rq] 1(1)]) (use creachable_reachable [OF r] in simp)
    from unserved_waiter [of w s _ _ f k ps i, OF this q [unfolded 1(2)] 1(3)] show ?thesis .
  next
    case (2 tid want old y u)
    with q obtain p where p: "ps i = Await (A_join tid want) p" by auto
    from live_unfinished [OF C inv 2(2)] joinerE [OF lib_invD(2) [OF inv] heap_erase [OF 2(2)]] 2(3,4) lib_heap_not_NULL [OF inv t(1)]
    have "\<not> finished tid ps" by auto
    with p show ?thesis by (simp add: unserved_def)
  qed
qed

end

end
