(* ===== verification/Uth_Philosophers_Live.thy ===== *)
theory Uth_Philosophers_Live
  imports Uth_Philosophers_Inv Uth_Deadlock
begin

text \<open>
  \<open>philosophers.c\<close> does not deadlock: as long as a thread has not ended, the scheduler finds a ready thread. The forks are ordered, there is one
  driver, and the driver joins philosophers only.
\<close>

section \<open>The driver and its philosophers\<close>

text \<open>There is one driver, or \<open>main\<close> has yet to create it.\<close>

fun drives :: "ph_point pos \<Rightarrow> bool" where
  "drives (New fn arg) = (fn = ph_driver_fn)"
| "drives (At p) = (\<exists>q. p = PH_driver q)"
| "drives (Done p) = (\<exists>q. p = PH_driver q)"
| "drives (Made j p) = (\<exists>q. p = PH_driver q)"
| "drives (Await a p) = (\<exists>q. p = PH_driver q)"
| "drives q = False"

definition ph_token :: "ph_point pos \<Rightarrow> bool" where
  "ph_token q \<longleftrightarrow> drives q \<or> alone q"

text \<open>The thread ids that the driver keeps belong to philosophers.\<close>

fun is_phil :: "ph_point pos \<Rightarrow> bool" where
  "is_phil (New fn arg) = (fn = philosopher_fn)"
| "is_phil (At p) = (\<exists>q. p = PH_philosopher q)"
| "is_phil (Done p) = (\<exists>q. p = PH_philosopher q)"
| "is_phil (Made j p) = (\<exists>q. p = PH_philosopher q)"
| "is_phil (Await a p) = (\<exists>q. p = PH_philosopher q)"
| "is_phil Ended = True"
| "is_phil q = False"

definition crew :: "(u32 \<Rightarrow> ph_point pos) \<Rightarrow> u32 \<Rightarrow> bool" where
  "crew ps t \<longleftrightarrow> t = UTH_TID_INVALID \<or> is_phil (ps t)"

fun storing :: "ph_point \<Rightarrow> u32 option" where
  "storing (PH_driver (PD_made a k t)) = Some t"
| "storing p = None"

fun refs_ok :: "(u32 \<Rightarrow> ph_point pos) \<Rightarrow> ph_point pos \<Rightarrow> bool" where
  "refs_ok ps (At p) = pred_option (crew ps) (storing p)"
| "refs_ok ps (Done p) = (storing p = None)"
| "refs_ok ps (Made j p) = (\<not> alone (At p) \<and> (drives (At p) \<longrightarrow> crew ps j))"
| "refs_ok ps (InRun p) = (p = PH_main PM_print)"
| "refs_ok ps (Await a p) = (storing p = None \<and> \<not> alone (At p) \<and> (\<forall>t w. a = A_join t w \<longrightarrow> crew ps t))"
| "refs_ok ps q = True"

definition ph_crew :: "(u32 \<Rightarrow> ph_point pos) \<Rightarrow> (ptr \<rightharpoonup> u32 option) \<Rightarrow> (ptr \<rightharpoonup> int) \<Rightarrow> ph_globals \<Rightarrow> bool" where
  "ph_crew ps M S g \<longleftrightarrow> (\<forall>i j. ph_token (ps i) \<longrightarrow> ph_token (ps j) \<longrightarrow> i = j) \<and> (\<forall>i. refs_ok ps (ps i)) \<and>
     (\<forall>k t. ph_tids g k = Some t \<longrightarrow> crew ps t)"

lemma ph_crewD:
  assumes "ph_crew ps M S g"
  shows "ph_token (ps i) \<Longrightarrow> ph_token (ps j) \<Longrightarrow> i = j" "refs_ok ps (ps i)" "ph_tids g k = Some t \<Longrightarrow> crew ps t"
  using assms by (auto simp: ph_crew_def)

lemma refs_ok_mono: "\<lbrakk>refs_ok ps q; \<And>t. crew ps t \<Longrightarrow> crew ps' t\<rbrakk> \<Longrightarrow> refs_ok ps' q"
  by (cases "(ps, q)" rule: refs_ok.cases) (auto elim: option.pred_mono_strong)

lemma ph_crew_upd:
  assumes I: "ph_crew ps M S g" and q: "is_phil (ps i) \<Longrightarrow> is_phil q" "ph_token q \<Longrightarrow> ph_token (ps i)" "refs_ok ps q"
    and g: "\<And>k t. ph_tids g' k = Some t \<Longrightarrow> crew ps t"
  shows "ph_crew (ps(i := q)) M' S' g'"
proof -
  have m: "crew ps t \<Longrightarrow> crew (ps(i := q)) t" for t using q(1) by (auto simp: crew_def)
  have "ph_token ((ps(i := q)) j) \<Longrightarrow> ph_token (ps j)" for j using q(2) by (cases "j = i") auto
  moreover have "refs_ok (ps(i := q)) ((ps(i := q)) j)" for j
    using refs_ok_mono [OF _ m] q(3) ph_crewD(2) [OF I, of j] by (cases "j = i") auto
  ultimately show ?thesis using ph_crewD(1) [OF I] g m unfolding ph_crew_def by blast
qed

text \<open>A step between two pieces of code of the same function.\<close>

lemma same_function:
  assumes "ph_code argv e p g = Ok (Compute g' p') \<or> ph_code argv e p g = Ok (Call a g' p') \<or> ph_code argv e p g = Ok (RunSched g' p')"
  shows "(\<exists>q. p' = PH_philosopher q) \<longleftrightarrow> (\<exists>q. p = PH_philosopher q)" "(\<exists>q. p' = PH_driver q) \<longleftrightarrow> (\<exists>q. p = PH_driver q)"
    "alone (At p') \<Longrightarrow> alone (At p)"
proof -
  have "((\<exists>q. p' = PH_philosopher q) \<longleftrightarrow> (\<exists>q. p = PH_philosopher q)) \<and> ((\<exists>q. p' = PH_driver q) \<longleftrightarrow> (\<exists>q. p = PH_driver q)) \<and> (alone (At p') \<longrightarrow> alone (At p))"
  proof (cases p)
    case (PH_main q)
    with assms show ?thesis by (cases q) (auto simp: c_iff split: if_splits)
  qed (use assms in auto)
  then show "(\<exists>q. p' = PH_philosopher q) \<longleftrightarrow> (\<exists>q. p = PH_philosopher q)" "(\<exists>q. p' = PH_driver q) \<longleftrightarrow> (\<exists>q. p = PH_driver q)"
    "alone (At p') \<Longrightarrow> alone (At p)" by blast+
qed

text \<open>What a piece of code does to the thread ids.\<close>

lemma ph_print_tids [simp]: "ph_tids (ph_print ev g) = ph_tids g"
  by (simp add: ph_print_def)

lemma philosopher_tids: "philosopher q g = Ok x \<Longrightarrow> ph_tids (act_glob x) = ph_tids g"
  by (cases q) (auto simp: think_def eat_def c_iff split: if_splits)

lemma driver_tids: "\<lbrakk>ph_driver e q g = Ok x; ph_tids (act_glob x) k = Some t\<rbrakk> \<Longrightarrow> ph_tids g k = Some t \<or> storing (PH_driver q) = Some t"
  by (cases q) (auto simp: c_iff split: if_splits)

lemma main_tids: "ph_main argv e q g = Ok x \<Longrightarrow> ph_tids (act_glob x) = ph_tids g"
  by (cases q) (auto simp: c_iff split: if_splits)

lemma code_tids:
  assumes "ph_code argv e p g = Ok x" and "ph_tids (act_glob x) k = Some t"
  shows "ph_tids g k = Some t \<or> storing p = Some t"
  using assms by (cases p) (auto dest!: within_ok dest: philosopher_tids driver_tids main_tids)

lemma code_storing:
  assumes "ph_code argv e p g = Ok (Compute g' p') \<or> ph_code argv e p g = Ok (RunSched g' p') \<or> ph_code argv e p g = Ok (Call a g' p') \<and> \<not> is_create a"
  shows "storing p' = None"
proof (cases p)
  case (PH_driver q)
  with assms show ?thesis by (cases q) (auto simp: c_iff split: if_splits)
qed (use assms in auto)

text \<open>The calls of each function.\<close>

lemma ph_call_cases:
  assumes "ph_code argv e p g = Ok (Call a g' p')"
  obtains (philosopher) q m where "p = PH_philosopher q" "a = A_yield \<or> a = A_mutex_lock m \<or> a = A_mutex_unlock m"
    | (join) q t k where "p = PH_driver q" "a = A_join t False" "ph_tids g k = Some t"
    | (create) q arg env where "p = PH_driver q" "a = A_create philosopher_fn arg 0 env"
    | (fork) k where "p = PH_main (PM_forks k)" "a = A_mutex_init (fork_at g k)"
    | (main) m env where "a = A_init \<or> a = A_create ph_driver_fn 0 0 env \<or> a = A_mutex_destroy m" "\<not> alone (At p') \<or> a = A_init"
proof (cases p)
  case (PH_philosopher q)
  then obtain q' where "philosopher q g = Ok (Call a g' q')" using assms by auto
  then have "\<exists>m. a = A_yield \<or> a = A_mutex_lock m \<or> a = A_mutex_unlock m" by (cases q) (auto simp: think_def eat_def c_iff split: if_splits)
  with PH_philosopher philosopher show ?thesis by blast
next
  case (PH_driver q)
  with assms join create show ?thesis by (cases q) (auto simp: c_iff split: if_splits)
next
  case (PH_main q)
  with assms fork main show ?thesis by (cases q) (auto simp: c_iff split: if_splits)
qed (use assms in simp)

lemma code_not_alone:
  assumes "ph_code argv e p g = Ok (Call a g' p')" and "issued a p' = Await a p' \<or> is_create a"
  shows "\<not> alone (At p')"
  using assms(1)
proof (cases rule: ph_call_cases)
  case (main m env)
  with assms(2) show ?thesis by auto
qed (use assms in auto)

lemma cooperative_philosophers: "cooperative (philosophers argv)"
proof -
  have "\<not> is_preempt_enable a" if "ph_code argv e p g = Ok (Call a g' p')" for e p g a g' p'
    using that by (cases rule: ph_call_cases) auto
  then show ?thesis by (auto simp: cooperative_def philosophers_def)
qed

lemma code_run:
  assumes "ph_code argv e p g = Ok (RunSched g' p')"
  shows "p = PH_main PM_run" "p' = PH_main PM_print"
proof -
  have "p = PH_main PM_run \<and> p' = PH_main PM_print"
  proof (cases p)
    case (PH_philosopher q)
    with assms show ?thesis by (cases q) (auto simp: think_def eat_def c_iff split: if_splits)
  next
    case (PH_driver q)
    with assms show ?thesis by (cases q) (auto simp: c_iff split: if_splits)
  next
    case (PH_main q)
    with assms show ?thesis by (cases q) (auto simp: c_iff split: if_splits)
  qed (use assms in simp)
  then show "p = PH_main PM_run" "p' = PH_main PM_print" by simp_all
qed

lemma step_tids:
  assumes I: "ph_crew ps M S g" and p: "ps i = At p" and c: "ph_code argv e p g = Ok x" and t: "ph_tids (act_glob x) k = Some t"
  shows "crew ps t"
  using code_tids [OF c t] ph_crewD(3) [OF I] ph_crewD(2) [OF I, of i] p by auto

lemma crew_created:
  assumes I: "ph_crew ps M S g" and p: "ps i = At p" and c: "ph_code argv e p g = Ok (Call (A_create fn arg n env) g' p')"
    and j: "ps j = Unborn" "j \<noteq> i"
  shows "ph_crew (ps(i := Made j p', j := New fn arg)) M S g'"
proof -
  note t = step_tids [OF I p c, simplified]
  from ph_creates [OF c] consider q where "p = PH_driver q" | "p = PH_main PM_create" "p' = PH_main PM_run" by blast
  then show ?thesis
  proof cases
    case (1 q)
    with c obtain q' where q': "p' = PH_driver q'" by auto
    have fn: "fn = philosopher_fn" using 1 c by (cases q) (auto simp: c_iff split: if_splits)
    have I': "ph_crew (ps(j := New fn arg)) M S g'"
      by (rule ph_crew_upd [OF I]) (use j fn t in \<open>auto simp: ph_token_def philosopher_fn_def ph_driver_fn_def\<close>)
    have "ph_crew (ps(j := New fn arg, i := Made j p')) M S g'"
      by (rule ph_crew_upd [OF I']) (use j fn p 1 q' ph_crewD(3) [OF I'] in \<open>auto simp: ph_token_def crew_def\<close>)
    with j(2) show ?thesis by (simp add: fun_upd_twist)
  next
    case 2
    have I': "ph_crew (ps(i := Made j p')) M S g'"
      by (rule ph_crew_upd [OF I]) (use p 2 t in \<open>auto simp: ph_token_def\<close>)
    have none: "\<not> ph_token ((ps(i := Made j p')) x)" for x
      using ph_crewD(1) [OF I, of x i] p 2 by (auto simp: ph_token_def)
    have m: "crew (ps(i := Made j p')) x \<Longrightarrow> crew (ps(i := Made j p', j := New fn arg)) x" for x using j by (auto simp: crew_def)
    have "refs_ok (ps(i := Made j p', j := New fn arg)) ((ps(i := Made j p', j := New fn arg)) x)" for x
      using refs_ok_mono [OF _ m] ph_crewD(2) [OF I', of x] by (cases "x = j") auto
    with none ph_crewD(3) [OF I'] m show ?thesis unfolding ph_crew_def by (metis fun_upd_apply)
  qed
qed

lemma ph_ret_function [simp]:
  "(\<exists>q. ph_ret p r = PH_philosopher q) \<longleftrightarrow> (\<exists>q. p = PH_philosopher q)" "(\<exists>q. ph_ret p r = PH_driver q) \<longleftrightarrow> (\<exists>q. p = PH_driver q)"
  by (cases "(p, r)" rule: ph_ret.cases; simp)+

lemma ph_ret_storing [simp]: "storing (ph_ret p (RetTid t)) = map_option (\<lambda>_. t) (storing p)" "storing p = None \<Longrightarrow> storing (ph_ret p r) = None"
  by (cases "(p, RetTid t)" rule: ph_ret.cases; simp) (cases "(p, r)" rule: ph_ret.cases; simp)

lemma storing_driver: "storing p = Some t \<Longrightarrow> \<exists>q. p = PH_driver q"
  by (cases p rule: storing.cases) simp_all

interpretation phc: client_rules "philosophers argv" "PH_main PM_entry" ph_globals0 ph_crew for argv
proof (unfold_locales, unfold philosophers_def prog.simps)
  show "ph_crew ((\<lambda>_. Unborn)(UTH_TID_INVALID := At (PH_main PM_entry))) (\<lambda>_. None) (\<lambda>_. None) ph_globals0"
    by (simp add: ph_crew_def ph_globals0_def ph_token_def)
next
  fix ps M S g i p e g' p'
  assume I: "ph_crew ps M S g" and p: "ps i = At p" and c: "ph_code argv e p g = Ok (Compute g' p')"
  from same_function [of argv e p g g' p'] c code_storing [of argv e p g g' p'] p step_tids [OF I p c]
  show "ph_crew (ps(i := At p')) M S g'" by (intro ph_crew_upd [OF I]) (auto simp: ph_token_def)
next
  fix ps M S g i p e a g' p' M' S'
  assume I: "ph_crew ps M S g" and p: "ps i = At p" and c: "ph_code argv e p g = Ok (Call a g' p')" and nc: "\<not> is_create a"
  have "is_phil (issued a p') = is_phil (At p') \<or> is_phil (issued a p')" "ph_token (issued a p') \<Longrightarrow> ph_token (At p')"
    by (cases a; simp add: ph_token_def)+
  moreover have st: "storing p' = None" using code_storing [of argv e p g g' p' a] c nc by blast
  have "refs_ok ps (issued a p')" by (rule ph_call_cases [OF c]) (use st code_not_alone [OF c] nc ph_crewD(3) [OF I] in auto)
  ultimately show "ph_crew (ps(i := issued a p')) M' S' g'"
    using same_function [of argv e p g g' p' a] c p step_tids [OF I p c] by (intro ph_crew_upd [OF I]) (auto simp: ph_token_def)
next
  fix ps M S g i p e fn arg n env g' p' j
  assume "ph_crew ps M S g" "ps i = At p" "ph_code argv e p g = Ok (Call (A_create fn arg n env) g' p')" "ps j = Unborn" "j \<noteq> i"
  then show "ph_crew (ps(i := Made j p', j := New fn arg)) M S g'" by (rule crew_created)
next
  fix ps M S g i p e fn arg n env g' p'
  assume I: "ph_crew ps M S g" and p: "ps i = At p" and c: "ph_code argv e p g = Ok (Call (A_create fn arg n env) g' p')"
  from same_function [of argv e p g g' p'] c p step_tids [OF I p c]
  show "ph_crew (ps(i := At (ph_ret p' (RetTid UTH_TID_INVALID)))) M S g'"
    by (intro ph_crew_upd [OF I]) (auto simp: ph_token_def crew_def option.pred_set)
next
  fix ps M S g i a p M' S'
  assume I: "ph_crew ps M S g" and p: "ps i = Await a p"
  with ph_crewD(2) [OF I, of i] ph_crewD(3) [OF I] show "ph_crew (ps(i := Done p)) M' S' g" by (intro ph_crew_upd [OF I]) (auto simp: ph_token_def)
next
  fix ps M S g i p r
  assume I: "ph_crew ps M S g" and p: "ps i = Done p"
  with ph_crewD(2) [OF I, of i] ph_crewD(3) [OF I] show "ph_crew (ps(i := At (ph_ret p r))) M S g" by (intro ph_crew_upd [OF I]) (auto simp: ph_token_def)
next
  fix ps M S g i p j t
  assume I: "ph_crew ps M S g" and p: "ps i = Made t p" and j: "cooperative \<lparr>p_start = ph_start, p_code = ph_code argv, p_ret = ph_ret\<rparr> \<Longrightarrow> j = t"
  have "j = t" using j cooperative_philosophers [of argv] by (simp add: philosophers_def)
  with p ph_crewD(2) [OF I, of i] ph_crewD(3) [OF I] show "ph_crew (ps(i := At (ph_ret p (RetTid j)))) M S g"
    by (intro ph_crew_upd [OF I]) (auto simp: ph_token_def option.pred_set dest: storing_driver)
next
  fix ps M S g i fn arg
  assume I: "ph_crew ps M S g" and p: "ps i = New fn arg"
  with ph_crewD(3) [OF I] show "ph_crew (ps(i := At (ph_start fn arg))) M S g"
    by (intro ph_crew_upd [OF I]) (auto simp: ph_start_def ph_token_def split: if_splits)
next
  fix ps M S g i p e v g'
  assume I: "ph_crew ps M S g" and p: "ps i = At p" and c: "ph_code argv e p g = Ok (Finish v g')"
  with step_tids [OF I p c] show "ph_crew (ps(i := Ended)) M S g'" by (intro ph_crew_upd [OF I]) (auto simp: ph_token_def)
next
  fix ps M S g p e g' p'
  assume I: "ph_crew ps M S g" and p: "ps UTH_TID_INVALID = At p" and c: "ph_code argv e p g = Ok (RunSched g' p')"
  with code_run [OF c] step_tids [OF I p c] show "ph_crew (ps(UTH_TID_INVALID := InRun p')) M S g'"
    by (intro ph_crew_upd [OF I]) (auto simp: ph_token_def)
next
  fix ps :: "u32 \<Rightarrow> ph_point pos" and M S g p
  assume I: "ph_crew ps M S g" and p: "ps UTH_TID_INVALID = InRun p"
  with ph_crewD(2) [OF I, of UTH_TID_INVALID] ph_crewD(3) [OF I] show "ph_crew (ps(UTH_TID_INVALID := At (ph_ret p RetVoid))) M S g" by (intro ph_crew_upd [OF I]) (auto simp: ph_token_def)
qed

section \<open>No deadlock\<close>

text \<open>\<open>main\<close> initialises the forks before there is another thread, and only the driver joins.\<close>

lemma awaits_join_drives: "\<lbrakk>ph_pos_ok g (Await a p); a = A_join t w\<rbrakk> \<Longrightarrow> drives (Await a p)"
  by auto

interpretation ph_tidy: tidy_program "philosophers argv" "PH_main PM_entry" ph_globals0 for argv
proof
  fix s ps g p e a g' p' j b q
  assume r: "creachable (philosophers argv) (PH_main PM_entry) ph_globals0 ((User [], s), ps, g)" and p: "ps (self_tid s) = At p"
    and c: "p_code (philosophers argv) e p g = Ok (Call a g' p')" and j: "ps j = Await b q"
  have I: "ph_inv ps (mtx_view s) (sem_view s) g" and C: "ph_crew ps (mtx_view s) (sem_view s) g"
    using ph.creachable_inv [OF r] phc.creachable_inv [OF r] by simp_all
  from c have "ph_code argv e p g = Ok (Call a g' p')" by (simp add: philosophers_def)
  then show "\<not> conflicts a b"
  proof (cases rule: ph_call_cases)
    case (join q' t k)
    have "drives (ps (self_tid s))" using p join by simp
    then have "\<not> drives (ps j)" using ph_crewD(1) [OF C, of "self_tid s" j] p j by (auto simp: ph_token_def)
    with awaits_join_drives [of g b q] ph_facts(2) [OF I, of j] j join(2) show ?thesis by (auto split: api.splits)
  next
    case (fork k)
    have "alone (ps (self_tid s))" using p fork by simp
    with alone_main(1) [OF this] ph_facts(1) [OF I, of "self_tid s"] have "self_tid s = UTH_TID_INVALID" "alone (ps UTH_TID_INVALID)" by simp_all
    with ph_facts(3) [OF I, of j] p j show ?thesis by (cases "j = UTH_TID_INVALID") auto
  qed auto
qed

text \<open>If every thread is unserved, some philosopher waits for a fork, although no philosopher is in the way.\<close>

lemma ph_live_fork:
  assumes I: "ph_inv ps M S g" and C: "ph_crew ps M S g" and i: "i \<noteq> UTH_TID_INVALID" "ps i \<noteq> Unborn" "ps i \<noteq> Ended"
    and u: "\<And>i. \<lbrakk>i \<noteq> UTH_TID_INVALID; ps i \<noteq> Unborn; ps i \<noteq> Ended\<rbrakk> \<Longrightarrow> unserved i ps (M, S)"
  shows "\<exists>j x. awaits_fork (ps j) = Some x"
proof -
  from u [OF i] obtain a p where p: "ps i = Await a p" by (auto simp: unserved_def)
  from ph_facts(2) [OF I, of i] p consider x where "awaits_fork (ps i) = Some x" | q t w where "p = PH_driver q" "a = A_join t w" by auto
  then show ?thesis
  proof cases
    case (2 q t w)
    with u [OF i] p have t: "t \<noteq> UTH_TID_INVALID" "ps t \<noteq> Unborn" "ps t \<noteq> Ended" by (auto simp: unserved_def finished_def)
    from u [OF this] obtain b p' where b: "ps t = Await b p'" by (auto simp: unserved_def)
    have "crew ps t" using ph_crewD(2) [OF C, of i] p 2 by auto
    then obtain q' where "p' = PH_philosopher q'" using b t(1) by (auto simp: crew_def)
    with ph_facts(2) [OF I, of t] b have "awaits_fork (ps t) \<noteq> None" by auto
    then show ?thesis by blast
  qed blast
qed

lemma ph_served:
  assumes I: "ph_inv ps M S g" and C: "ph_crew ps M S g" and i: "i \<noteq> UTH_TID_INVALID" "ps i \<noteq> Unborn" "ps i \<noteq> Ended"
  shows "\<exists>j. j \<noteq> UTH_TID_INVALID \<and> ps j \<noteq> Unborn \<and> ps j \<noteq> Ended \<and> \<not> unserved j ps (M, S)"
proof (rule ccontr)
  assume "\<not> ?thesis"
  then have u: "\<And>i. \<lbrakk>i \<noteq> UTH_TID_INVALID; ps i \<noteq> Unborn; ps i \<noteq> Ended\<rbrakk> \<Longrightarrow> unserved i ps (M, S)" by blast
  from ph_live_fork [OF I C i u] obtain j x where "awaits_fork (ps j) = Some x" by blast
  from no_circular_wait [OF I this] obtain k where k: "(\<exists>y. awaits_fork (ps k) = Some y \<and> M (fork_at g y) = Some None) \<or> awaits_fork (ps k) = None \<and> holds_forks (ps k) \<noteq> {}" by blast
  have "\<not> ph_at_main (ps k)" using k alone_main(3) [of "ps k"] by (cases "ps k") auto
  then have "k \<noteq> UTH_TID_INVALID" using ph_facts(1) [OF I, of k] by simp
  moreover have "ps k \<noteq> Unborn" "ps k \<noteq> Ended" using k by auto
  ultimately have uk: "unserved k ps (M, S)" by (rule u)
  then obtain a p where p: "ps k = Await a p" by (auto simp: unserved_def)
  from ph_facts(2) [OF I, of k] p have ok: "(\<exists>x. wanted p = Some x \<and> a = A_mutex_lock (fork_at g x)) \<or> (\<exists>q t w. p = PH_driver q \<and> a = A_join t w)" by simp
  from k show False
  proof
    assume "\<exists>y. awaits_fork (ps k) = Some y \<and> M (fork_at g y) = Some None"
    with uk p ok show False by (auto simp: unserved_def)
  next
    assume "awaits_fork (ps k) = None \<and> holds_forks (ps k) \<noteq> {}"
    with p ok show False by auto
  qed
qed

lemma ph_never_idle:
  assumes r: "creachable (philosophers argv) (PH_main PM_entry) ph_globals0 ((SchedTop, s), ps, g)"
  shows "scheduler_round s \<noteq> Ok (SchedContinue, s')"
proof
  assume idle: "scheduler_round s = Ok (SchedContinue, s')"
  have I: "ph_inv ps (mtx_view s) (sem_view s) g" and C: "ph_crew ps (mtx_view s) (sem_view s) g"
    using ph.creachable_inv [OF r] phc.creachable_inv [OF r] by simp_all
  from idle_live [OF creachable_coupled [OF r] idle] obtain i where "i \<noteq> UTH_TID_INVALID" "ps i \<noteq> Unborn" "ps i \<noteq> Ended" by blast
  from ph_served [OF I C this] ph_tidy.idle_unserved [OF r idle] show False by (auto simp: views_def)
qed

end
