(* ===== verification/Uth_Terminate.thy ===== *)
theory Uth_Terminate
  imports Uth_Deadlock
begin

text \<open>
  Programs that end. If the work that is left on the abstract machine becomes less in each of its steps, then a program that never idles has no infinite
  run on the library: between two steps of the abstract machine, the scheduler can only hand the processor to the finitely many ready threads, and a
  woken thread that finds its lock taken blocks again.
\<close>

section \<open>The run queue\<close>

definition queued :: "sys \<Rightarrow> nat" where
  "queued s = (THE n. \<exists>rq wq. lib_inv s rq wq \<and> n = length rq)"

lemma queued_eq:
  assumes "lib_inv s rq wq"
  shows "queued s = length rq"
  unfolding queued_def using assms shape_unique(1) [OF lib_invD(1) lib_invD(1)] by (intro the_equality) metis+

lemma queued_same: "\<lbrakk>lib_inv s rq wq; lib_inv s' rq wq'\<rbrakk> \<Longrightarrow> queued s' = queued s"
  by (simp add: queued_eq)

text \<open>A call that has to wait again leaves the run queue as it is.\<close>

context blocking_wait
begin

lemma waits_queued:
  assumes inv: "lib_inv s rq wq" and c: "caller s" and m: "sigmask s" and k: "caller_ok old k" and res: "loop old k s = Ok (Switched, s')"
  shows "queued s' = queued s"
proof -
  have v: "valid s" using loop_invalid res by fastforce
  have a: "\<not> avail s" using loop_avail [OF c v] res by fastforce
  have nz: "uth_current s \<noteq> NULL" using loop_outside [OF _ v a] res by fastforce
  from caller_runs [OF c nz] obtain t where r: "runs s (uth_current s) t" by blast
  from waits [OF inv r v a m k] res show ?thesis by (auto intro: queued_same [OF inv])
qed

end

lemma retry_queued:
  assumes inv: "lib_inv s rq wq" and u: "user_inv (f # k) s" and res: "resume_frame f k s = Ok (Switched, s')" and f: "\<And>m. f \<noteq> F_spin_lock m"
  shows "queued s' = queued s"
proof -
  note c = user_inv_caller [OF u]
  have st: "stack_ok (sigmask s) (f # k)" using u by (auto simp: user_inv_def ctx_ok_def split: if_splits)
  show ?thesis
  proof (cases f)
    case (F_mutex_lock m old)
    with mutex_wait.waits_queued [OF inv c _ _ res [unfolded F_mutex_lock resume_frame.simps]] st show ?thesis by auto
  next
    case (F_ticket_lock p tk old)
    with ticket_wait.waits_queued [OF inv c _ _ res [unfolded F_ticket_lock resume_frame.simps]] st show ?thesis by auto
  next
    case (F_sem_wait p old)
    with sem_wait.waits_queued [OF inv c _ _ res [unfolded F_sem_wait resume_frame.simps]] st show ?thesis by auto
  next
    case (F_cond_wait cv m old)
    with st res have s1: "uth_mutex_lock m [F_cond_relock old] s = Ok (Switched, s')" "sigmask s"
      by (auto simp: uth_cond_wait_resumed_def uth_cond_relocked_def ok_iff split: if_splits)
    have "s\<lparr>sigmask := True\<rparr> = s" using s1(2) by simp
    with s1 mutex_wait.waits_queued [OF inv c s1(2), of True "[F_cond_relock old]" m s'] show ?thesis by (simp add: uth_mutex_lock_def uth_preempt_off_def)
  next
    case (F_spin_lock m)
    with f show ?thesis by blast
  qed (use res in \<open>auto simp: ok_iff thread_trampoline_def uth_create_ret_def uth_yield_resumed_def
      uth_cond_relocked_def uth_join_resumed_def uth_join_collect_def active_count_loop_def active_count_at_def preempt_enable_end_def
      preempt_disable_end_def Let_def split: if_splits\<close>)
qed

section \<open>Decreasing work\<close>

text \<open>The rank of a place of control; a scan of the table has two steps to make for each entry that is left.\<close>

fun scan_rank :: "nat \<Rightarrow> frame list \<Rightarrow> nat" where
  "scan_rank n [F_count i c] = 2 * (n - i)"
| "scan_rank n [F_count_at i c t] = Suc (2 * (n - Suc i))"
| "scan_rank n _ = 0"

fun loc_rank :: "config \<Rightarrow> nat" where
  "loc_rank (User k, s) = 2 + length k + scan_rank (unat (tcb_count s)) k"
| "loc_rank (SchedBack, s) = 1"
| "loc_rank (SchedEntry, s) = 1"
| "loc_rank (SchedTop, s) = 0"

lemma scan_rank_less:
  assumes "resume_frame f [] s = Ok (Remains g, s')" and "\<exists>i n x. f = F_count i n \<or> f = F_count_at i n x"
  shows "loc_rank (User [g], s) < loc_rank (User [f], s)"
  using assms by (auto simp: active_count_loop_def active_count_at_def ok_iff split: if_splits)

text \<open>
  \<open>work\<close> measures what is left to do; \<open>busy\<close> says that the scheduler never idles; a spinlock would make its waiters yield for ever.
\<close>

locale terminating_program =
  fixes P :: "('p, 'g) prog" and p0 :: 'p and g0 :: 'g and work :: "('p, 'g) astate \<Rightarrow> nat"
  assumes coop: "cooperative P"
    and work_decreases: "\<lbrakk>areachable P p0 g0 A; astep P A A'\<rbrakk> \<Longrightarrow> work A' < work A"
    and busy: "creachable P p0 g0 ((SchedTop, s), ps, g) \<Longrightarrow> scheduler_round s \<noteq> Ok (SchedContinue, s')"
    and no_spin: "p_code P e p g = Ok (Call a g' p') \<Longrightarrow> a \<noteq> A_spin_lock m"
begin

definition lower :: "('p, 'g) cconfig \<Rightarrow> ('p, 'g) cconfig \<Rightarrow> bool" where
  "lower c c' \<longleftrightarrow> (c, c') \<in> measures [\<lambda>c. work (abstr c), \<lambda>c. queued (snd (fst c)), \<lambda>c. loc_rank (fst c)]"

lemma steps_work: "\<lbrakk>(astep P)\<^sup>*\<^sup>* A A'; areachable P p0 g0 A\<rbrakk> \<Longrightarrow> work A' \<le> work A \<and> (A' \<noteq> A \<longrightarrow> work A' < work A)"
proof (induction rule: rtranclp_induct)
  case (step A1 A2)
  from work_decreases [OF asteps_areachable [OF step(1,4)] step(2)] step(3) [OF step(4)] show ?case by linarith
qed simp

lemma steps1_work:
  assumes "(astep P)\<^sup>+\<^sup>+ A A'" and r: "areachable P p0 g0 A"
  shows "work A' < work A"
proof -
  from tranclpD [OF assms(1)] obtain B where B: "astep P A B" "(astep P)\<^sup>*\<^sup>* B A'" by blast
  have "work A' \<le> work B" using steps_work [OF B(2) ar_next [OF r B(1)]] by blast
  also have "\<dots> < work A" by (rule work_decreases [OF r B(1)])
  finally show ?thesis .
qed

lemma no_spin_waiter: "areachable P p0 g0 A \<Longrightarrow> a_pos A i \<noteq> Await (A_spin_lock m) p"
proof (induction arbitrary: i p rule: areachable.induct)
  case ar_start
  then show ?case by (simp add: ainit_def)
next
  case (ar_next A A')
  from ar_next(2) show ?case
  proof (cases rule: astep.cases)
    case (a_issue j q e a g' q' x)
    have "issued a q' \<noteq> Await (A_spin_lock m) p" using no_spin [OF a_issue(3)] by (cases a) auto
    with a_issue(1) ar_next(3) show ?thesis by (simp add: place_def with_objects_def)
  qed (use ar_next(3) in \<open>simp_all add: place_def with_objects_def\<close>)
qed

lemma lower_work: "work (abstr c') < work (abstr c) \<Longrightarrow> lower c' c"
  by (simp add: lower_def)

lemma lower_moved:
  assumes "creachable P p0 g0 c" and "cstep P c c'" and "abstr c' \<noteq> abstr c"
  shows "lower c' c"
proof -
  have "objects_ok (snd (fst c))" using objects.reachable_inv [OF creachable_reachable [OF assms(1)]] by (simp add: objects_inv_def objects_ok_def)
  from sim_step [OF assms(2) creachable_coupled [OF assms(1)] creachable_prompt [OF assms(1)] this]
    steps_work [OF _ creachable_areachable [OF assms(1)]] assms(3) show ?thesis by (blast intro: lower_work)
qed

lemma lower_resume:
  assumes r: "creachable P p0 g0 ((User (f # k), s), ps, g)" and res: "resume_frame f k s = Ok (d, s')"
    and st: "cstep P ((User (f # k), s), ps, g) c'" and c': "c' = ((transfer d k, s'), ps(self_tid s := after P (next_tid s) d k (ps (self_tid s))), g)"
  shows "lower c' ((User (f # k), s), ps, g)"
proof (cases "abstr c' = abstr ((User (f # k), s), ps, g)")
  case False
  with lower_moved [OF r st] show ?thesis .
next
  case True
  let ?i = "self_tid s"
  note C = creachable_coupled [OF r]
  from coupledD(1) [OF C] obtain rq wq where inv: "lib_inv s rq wq" and u: "user_inv (f # k) s" by (auto elim: lib_okE)
  have q0: "after P (next_tid s) d k (ps ?i) = ps ?i" using True c' by (auto simp: fun_eq_iff split: if_splits)
  obtain fn arg where q: "pos_ok fn arg (f # k) (ps ?i)" by (rule coupled_current [OF C]) blast+
  have nspin: "ps ?i \<noteq> Await (A_spin_lock m) p" for m p using no_spin_waiter [OF creachable_areachable [OF r], of ?i m p] by simp
  have st: "stack_ok (sigmask s) (f # k)" using u by (auto simp: user_inv_def ctx_ok_def split: if_splits)
  show ?thesis
  proof (cases rule: resume_ctl [OF inv u res])
    case 1
    have "f \<noteq> F_spin_lock m" for m using q nspin by auto
    with retry_queued [OF inv u res [unfolded 1]] True c' 1 show ?thesis by (simp add: lower_def)
  next
    case (2 x)
    have "after P (next_tid s) (Return x) k (ps ?i) \<noteq> ps ?i \<or> (\<exists>old. f = F_yield old)"
      using q nspin st 2(2) by (cases f; cases k) (auto split: list.splits frame.splits if_splits)
    with q0 2 res obtain old where y: "f = F_yield old" "s' = s\<lparr>sigmask := old\<rparr>" by (auto simp: uth_yield_resumed_def uth_preempt_restore_def)
    have "scan_rank n k = 0" for n using st y(1) by (auto elim: caller_ok_cases)
    with y(2) queued_same [OF inv, of s'] inv True c' 2 show ?thesis by (simp add: lower_def)
  next
    case (3 hi lo fn arg)
    with q q0 show ?thesis by auto
  next
    case (4 h)
    from scan_rank_less [of f s h s'] res 4 True c' show ?thesis by (simp add: lower_def)
  qed
qed

lemma lower_call:
  assumes r: "creachable P p0 g0 ((User [], s), ps, g)" and p: "ps (self_tid s) = At p" and c: "p_code P e p g = Ok (Call a g' p')"
    and en: "env_ok a s" and res: "api_call a s = Ok (d, s')"
  shows "lower ((transfer d [], s'), spawn a d (next_tid s) (ps(self_tid s := after P (next_tid s) d [] (issued a p'))), g') ((User [], s), ps, g)"
proof -
  note C = creachable_coupled [OF r] and A = creachable_areachable [OF r]
  show ?thesis
  proof (cases "is_create a")
    case True
    then obtain fn arg n env where "a = A_create fn arg n env" by (rule is_createE)
    from work_decreases [OF A sim_create [OF C p c this en res]] show ?thesis by (rule lower_work)
  next
    case False
    have "objects_ok s" using objects.reachable_inv [OF creachable_reachable [OF r]] by (simp add: objects_inv_def objects_ok_def)
    from steps1_work [OF sim_call [OF C this p c False en res] A] have
      "lower ((transfer d [], s'), ps(self_tid s := after P (next_tid s) d [] (issued a p')), g') ((User [], s), ps, g)" by (rule lower_work)
    moreover have "spawn a d (next_tid s) ps' = ps'" for ps' :: "u32 \<Rightarrow> 'p pos" using False by (cases a) simp_all
    ultimately show ?thesis by simp
  qed
qed

lemma step_lower:
  assumes r: "creachable P p0 g0 c" and st: "cstep P c c'"
  shows "lower c' c"
proof -
  note moved = lower_moved [OF r st] and prompt = creachable_prompt [OF r coop]
  from st show ?thesis
  proof (cases rule: cstep.cases)
    case (c_compute ps s p e g g' p')
    from work_decreases [OF creachable_areachable [OF r], of "abstr c'"] a_compute [of "abstr c" "self_tid s" p P e g' p'] c_compute
    show ?thesis by (intro lower_work) (simp add: place_def)
  next
    case (c_call ps s p e g a g' p' d s')
    with lower_call r show ?thesis by simp
  next
    case (c_exit ps s p e g v g' d s')
    then have "abstr c' \<noteq> abstr c" by (auto simp: fun_eq_iff)
    then show ?thesis by (rule moved)
  next
    case (c_resume f k s d s' ps g)
    from lower_resume [OF r [unfolded c_resume(1)] c_resume(3) st [unfolded c_resume(1)] c_resume(2)] c_resume(1) show ?thesis by simp
  next
    case (c_run ps s p e g g' p' bp sp s')
    then have "abstr c' \<noteq> abstr c" by (auto simp: fun_eq_iff)
    then show ?thesis by (rule moved)
  next
    case (c_entry s ps g)
    then obtain rq wq where inv: "lib_inv s rq wq" using creachable_cfg [OF r [unfolded c_entry(1)]] by (auto elim: lib_okE)
    then have "queued (scheduler_entry s) = queued s" by (rule queued_same) (use inv in \<open>simp add: scheduler_entry_def\<close>)
    with moved c_entry show ?thesis by (cases "abstr c' = abstr c") (simp_all add: lower_def)
  next
    case (c_pick s k s' ps g)
    then obtain rq wq where inv: "lib_inv s rq wq" and nr: "no_running s" using creachable_cfg [OF r [unfolded c_pick(1)]] by (auto elim: lib_okE)
    have "queued s' < queued s" by (rule scheduler_round_cases [OF inv nr]) (use c_pick(3) queued_eq [OF inv] queued_eq [of s'] in auto)
    with moved c_pick show ?thesis by (cases "abstr c' = abstr c") (simp_all add: lower_def)
  next
    case (c_idle s s' ps g)
    with busy [OF r [unfolded c_idle(1)]] show ?thesis by blast
  next
    case (c_finish s s1 bp sp s' ps p g)
    then have "abstr c' \<noteq> abstr c" by (auto simp: fun_eq_iff)
    then show ?thesis by (rule moved)
  next
    case (c_back s ps g)
    then obtain rq wq where inv: "lib_inv s rq wq" and nr: "no_running s" using creachable_cfg [OF r [unfolded c_back(1)]] by (auto elim: lib_okE)
    then have "queued (scheduler_swapped s) = queued s" by (intro queued_same) (simp_all add: lib_inv_swapped)
    with moved c_back show ?thesis by (cases "abstr c' = abstr c") (simp_all add: lower_def)
  next
    case (c_tick s ucp l d s' ps g)
    with promptD(1) [of l s ps g] prompt show ?thesis by (simp add: tick_pending_def)
  qed
qed

lemma no_infinite_run:
  assumes "f 0 = cinit p0 g0"
  shows "\<exists>n. \<not> cstep P (f n) (f (Suc n))"
proof (rule ccontr)
  assume "\<not> ?thesis"
  then have st: "cstep P (f n) (f (Suc n))" for n by blast
  have r: "creachable P p0 g0 (f n)" for n by (induction n) (use assms st in \<open>auto intro: creachable.intros\<close>)
  have "lower (f (Suc n)) (f n)" for n by (rule step_lower [OF r st])
  then show False using wf_measures unfolding lower_def wf_iff_no_infinite_down_chain by blast
qed

end

end
