(* ===== verification/Uth_Philosophers_End.thy ===== *)
theory Uth_Philosophers_End
  imports Uth_Philosophers_Live Uth_Terminate
begin

text \<open>
  \<open>philosophers.c\<close> ends: the steps that are left, counted on the abstract machine, become fewer in every step.
\<close>

section \<open>The work that is left\<close>

text \<open>The meals that a philosopher still has to eat; a meal takes at most 25 steps.\<close>

definition hungry :: "ph_globals \<Rightarrow> int \<Rightarrow> nat" where
  "hungry g i = nat (total_meals g - (if nat i < length (meals g) then meals g ! nat i else 0))"

fun phil_work :: "ph_globals \<Rightarrow> philosopher_point \<Rightarrow> nat" where
  "phil_work g (PH_entry a) = 25 * nat (total_meals g) + 2"
| "phil_work g (PH_loop l) = 25 * hungry g (ph_id l) + 1"
| "phil_work g (PH_think l k) = 25 * (hungry g (ph_id l) - 1) + 19 + 2 * (3 - k)"
| "phil_work g (PH_first l) = 25 * (hungry g (ph_id l) - 1) + 16"
| "phil_work g (PH_second l) = 25 * (hungry g (ph_id l) - 1) + 14"
| "phil_work g (PH_picked l) = 25 * (hungry g (ph_id l) - 1) + 11"
| "phil_work g (PH_eat l k) = 25 * (hungry g (ph_id l) - 1) + 6 + 2 * (2 - k)"
| "phil_work g (PH_put l) = 25 * hungry g (ph_id l) + 4"
| "phil_work g (PH_down l) = 25 * hungry g (ph_id l) + 2"

text \<open>The driver creates \<open>n\<close> philosophers with \<open>t\<close> meals each and joins them.\<close>

definition crew_work :: "int \<Rightarrow> int \<Rightarrow> nat" where
  "crew_work n t = 3 + 3 * nat n + nat n * (25 * nat t + 6)"

fun driver_work :: "ph_globals \<Rightarrow> ph_driver_point \<Rightarrow> nat" where
  "driver_work g (PD_join a k) = 1 + 3 * nat (ph_N g - k)"
| "driver_work g (PD_create a k) = 2 + 3 * nat (ph_N g) + nat (ph_N g - k) * (25 * nat (total_meals g) + 6)"
| "driver_work g (PD_made a k t) = 3 + 3 * nat (ph_N g) + nat (ph_N g - (k + 1)) * (25 * nat (total_meals g) + 6)"
| "driver_work g PD_entry = crew_work (ph_N g) (total_meals g)"

fun main_work :: "int list \<Rightarrow> ph_globals \<Rightarrow> ph_main_point \<Rightarrow> nat" where
  "main_work argv g (PM_destroy k) = 2 * nat (ph_N g - k)"
| "main_work argv g (PM_sum k t) = 1 + 2 * nat (ph_N g) + nat (ph_N g - k)"
| "main_work argv g PM_print = 2 + 3 * nat (ph_N g)"
| "main_work argv g PM_run = 4 + 3 * nat (ph_N g)"
| "main_work argv g PM_create = 7 + 3 * nat (ph_N g) + crew_work (ph_N g) (total_meals g)"
| "main_work argv g (PM_forks k) = 9 + 3 * nat (ph_N g) + crew_work (ph_N g) (total_meals g) + 2 * nat (ph_N g - k)"
| "main_work argv g PM_entry = (case (arg_or argv 1 5, arg_or argv 2 3) of
     (Ok n, Ok t) \<Rightarrow> 10 + 3 * nat n + crew_work n t + 2 * nat n | _ \<Rightarrow> 0)"

fun point_work :: "int list \<Rightarrow> ph_globals \<Rightarrow> ph_point \<Rightarrow> nat" where
  "point_work argv g (PH_philosopher p) = phil_work g p"
| "point_work argv g (PH_driver p) = driver_work g p"
| "point_work argv g (PH_main p) = main_work argv g p"
| "point_work argv g PH_nowhere = 0"

text \<open>A call takes up to two further steps: its effect and its return.\<close>

fun pos_work :: "int list \<Rightarrow> ph_globals \<Rightarrow> ph_point pos \<Rightarrow> nat" where
  "pos_work argv g (New fn arg) = Suc (point_work argv g (ph_start fn arg))"
| "pos_work argv g (At p) = point_work argv g p"
| "pos_work argv g (Await a p) = point_work argv g p + 2"
| "pos_work argv g (Done p) = Suc (point_work argv g p)"
| "pos_work argv g (Made j p) = Suc (point_work argv g p)"
| "pos_work argv g (InRun p) = Suc (point_work argv g p)"
| "pos_work argv g q = 0"

definition ph_work :: "int list \<Rightarrow> (ph_point, ph_globals) astate \<Rightarrow> nat" where
  "ph_work argv A = (\<Sum>i\<in>UNIV. pos_work argv (a_glob A) (a_pos A i))"

section \<open>Every piece of code does some of it\<close>

fun act_work :: "int list \<Rightarrow> (ph_point, ph_globals) act \<Rightarrow> nat" where
  "act_work argv (Compute g p) = point_work argv g p"
| "act_work argv (Call a g p) = (case a of A_create fn arg n env \<Rightarrow> Suc (point_work argv g p) + pos_work argv g (New fn arg) | _ \<Rightarrow> pos_work argv g (issued a p))"
| "act_work argv (Finish v g) = 0"
| "act_work argv (RunSched g p) = Suc (point_work argv g p)"

lemma hungry_print [simp]: "hungry (ph_print ev g) i = hungry g i" "total_meals (ph_print ev g) = total_meals g" "meals (ph_print ev g) = meals g" "ph_N (ph_print ev g) = ph_N g"
  by (simp_all add: hungry_def ph_print_def)

lemma phil_work_print [simp]: "phil_work (ph_print ev g) p = phil_work g p"
  by (cases p) simp_all

lemma nat_left: "k < n \<Longrightarrow> nat (n - k) = Suc (nat (n - (k + 1)))" for k n :: int
  by simp

lemma hungry_eaten:
  assumes "arr_get (meals g) i = Ok m" and "arr_put (meals g) i n = Ok ms" and "c_int (m + 1) = Ok n"
  shows "hungry (g\<lparr>meals := ms\<rparr>) i = hungry g i - 1"
proof -
  have "nat (a - (b + 1)) = nat (a - b) - 1" for a b :: int by arith
  with assms show ?thesis by (auto simp: hungry_def c_iff)
qed

lemma hungry_bound: "(\<And>m. m \<in> set (meals g) \<Longrightarrow> 0 \<le> m) \<Longrightarrow> hungry g i \<le> nat (total_meals g)"
  by (simp add: hungry_def nat_mono)

lemma phil_code_work:
  assumes "philosopher p g = Ok x" and "\<And>m. m \<in> set (meals g) \<Longrightarrow> 0 \<le> m"
  shows "act_work argv (map_act PH_philosopher id x) < phil_work g p"
  using assms(1)
proof (cases p)
  case (PH_entry a)
  with assms(1) hungry_bound [OF assms(2)] show ?thesis by (auto simp: c_iff le_imp_less_Suc)
next
  case (PH_loop l)
  show ?thesis
  proof (cases "meals g ! nat (ph_id l) < total_meals g")
    case True
    with PH_loop assms(1) have "0 < hungry g (ph_id l)" by (auto simp: hungry_def c_iff)
    with True PH_loop assms(1) show ?thesis by (auto simp: c_iff)
  qed (use PH_loop assms(1) in \<open>auto simp: c_iff\<close>)
next
  case (PH_eat l k)
  then show ?thesis using assms hungry_eaten [of g "ph_id l"] by (cases "k < 2") (auto simp: eat_def c_iff)
qed (auto simp: think_def c_iff split: if_splits)

lemma driver_code_work:
  assumes "ph_driver e p g = Ok x"
  shows "act_work argv (map_act PH_driver id x) < driver_work g p"
proof (cases p)
  case (PD_create a k)
  show ?thesis
  proof (cases "k < ph_N g")
    case True
    with nat_left [OF True] PD_create assms show ?thesis by (auto simp: ph_start_def)
  qed (use PD_create assms in auto)
next
  case (PD_join a k)
  show ?thesis
  proof (cases "k < ph_N g")
    case True
    with nat_left [OF True] PD_join assms show ?thesis by (auto simp: c_iff)
  qed (use PD_join assms in auto)
qed (use assms in \<open>auto simp: crew_work_def\<close>)

lemma main_code_work:
  assumes "ph_main argv e p g = Ok x" and "act_point x \<noteq> None"
  shows "act_work argv (map_act PH_main id x) < main_work argv g p"
proof (cases p)
  case (PM_forks k)
  show ?thesis
  proof (cases "k < ph_N g")
    case True
    with nat_left [OF True] PM_forks assms show ?thesis by auto
  qed (use PM_forks assms in auto)
next
  case (PM_sum k t)
  show ?thesis
  proof (cases "k < ph_N g")
    case True
    with nat_left [OF True] PM_sum assms show ?thesis by (auto simp: c_iff)
  qed (use PM_sum assms in \<open>auto simp: c_iff\<close>)
next
  case (PM_destroy k)
  show ?thesis
  proof (cases "k < ph_N g")
    case True
    with nat_left [OF True] PM_destroy assms show ?thesis by auto
  qed (use PM_destroy assms in auto)
qed (use assms in \<open>auto simp: ok_iff ph_start_def ph_driver_fn_def philosopher_fn_def split: if_splits\<close>)

lemma code_work:
  assumes c: "ph_code argv e p g = Ok x" and m: "\<And>m. m \<in> set (meals g) \<Longrightarrow> 0 \<le> m" and f: "ph_at_main (At p) \<Longrightarrow> act_point x \<noteq> None"
  shows "act_work argv x < point_work argv g p"
proof (cases p)
  case (PH_philosopher q)
  with c obtain y where y: "philosopher q g = Ok y" "x = map_act PH_philosopher id y" by (cases "philosopher q g") auto
  from phil_code_work [OF y(1) m] y(2) PH_philosopher show ?thesis by simp
next
  case (PH_driver q)
  with c obtain y where y: "ph_driver e q g = Ok y" "x = map_act PH_driver id y" by (cases "ph_driver e q g") auto
  from driver_code_work [OF y(1)] y(2) PH_driver show ?thesis by simp
next
  case (PH_main q)
  with c obtain y where y: "ph_main argv e q g = Ok y" "x = map_act PH_main id y" by (cases "ph_main argv e q g") auto
  with f PH_main have "act_point y \<noteq> None" by (cases y) auto
  from main_code_work [OF y(1) this] y(2) PH_main show ?thesis by simp
qed (use c in simp)

text \<open>The other threads have no more to do than before.\<close>

definition milder :: "ph_globals \<Rightarrow> ph_globals \<Rightarrow> bool" where
  "milder g g' \<longleftrightarrow> ph_N g' = ph_N g \<and> total_meals g' = total_meals g \<and> (\<forall>i. hungry g' i \<le> hungry g i)"

lemma milder_point: "milder g g' \<Longrightarrow> point_work argv g' p \<le> point_work argv g p"
proof (cases p)
  case (PH_philosopher q)
  assume m: "milder g g'"
  then have "25 * hungry g' i \<le> 25 * hungry g i" "25 * (hungry g' i - 1) \<le> 25 * (hungry g i - 1)" for i by (simp_all add: milder_def diff_le_mono)
  with m PH_philosopher show ?thesis by (cases q) (simp_all add: milder_def)
next
  case (PH_driver q)
  assume "milder g g'"
  with PH_driver show ?thesis by (cases q) (simp_all add: milder_def)
next
  case (PH_main q)
  assume "milder g g'"
  with PH_main show ?thesis by (cases q) (simp_all add: milder_def)
qed simp

lemma milder_pos: "milder g g' \<Longrightarrow> pos_work argv g' q \<le> pos_work argv g q"
  by (cases q) (simp_all add: milder_point)

lemma milder_refl [simp]: "milder g g" "milder g (ph_print ev g') = milder g g'"
  by (simp_all add: milder_def)

lemma milder_globals: "milder g (g\<lparr>ph_args := as, ph_tids := ts\<rparr>)" "milder g (g\<lparr>ph_args := as\<rparr>)" "milder g (g\<lparr>ph_tids := ts\<rparr>)"
  by (simp_all add: milder_def hungry_def)

lemma milder_eaten: "arr_put (meals g) i (meals g ! nat i + 1) = Ok ms \<Longrightarrow> milder g (g\<lparr>meals := ms\<rparr>)"
  by (auto simp: milder_def hungry_def arr_put_iff nth_list_update)

lemma code_milder:
  assumes c: "ph_code argv e p g = Ok x" and e: "p \<noteq> PH_main PM_entry" and f: "ph_at_main (At p) \<Longrightarrow> act_point x \<noteq> None"
  shows "milder g (act_glob x)"
proof (cases p)
  case (PH_philosopher q)
  with c obtain y where y: "philosopher q g = Ok y" "act_glob x = act_glob y" by (auto dest!: within_ok)
  then show ?thesis by (cases q) (auto simp: think_def eat_def ok_iff c_int_iff arr_get_iff mem_get_iff milder_eaten split: if_splits)
next
  case (PH_driver q)
  with c obtain y where y: "ph_driver e q g = Ok y" "act_glob x = act_glob y" by (auto dest!: within_ok)
  then show ?thesis by (cases q) (auto simp: c_iff milder_globals split: if_splits)
next
  case (PH_main q)
  with c f obtain y where y: "ph_main argv e q g = Ok y" "act_glob x = act_glob y" "act_point y \<noteq> None" by (auto dest!: within_ok)
  with e PH_main show ?thesis by (cases q) (auto simp: c_iff split: if_splits)
qed (use c in simp)

section \<open>The sum over all threads\<close>

text \<open>One thread has less to do than before and the others no more; or a thread and the one it creates together.\<close>

lemma sum_less:
  fixes v v' :: "u32 \<Rightarrow> nat"
  assumes "\<And>j. j \<noteq> i \<Longrightarrow> v' j \<le> v j" and "v' i < v i"
  shows "sum v' UNIV < sum v UNIV"
proof (rule sum_strict_mono_ex1)
  show "\<forall>j\<in>UNIV. v' j \<le> v j" using assms less_imp_le by metis
qed (use assms(2) in auto)

lemma sum_less_two:
  fixes v v' :: "u32 \<Rightarrow> nat"
  assumes "\<And>k. \<lbrakk>k \<noteq> i; k \<noteq> j\<rbrakk> \<Longrightarrow> v' k \<le> v k" and "v' i + v' j < v i" and "i \<noteq> j"
  shows "sum v' UNIV < sum v UNIV"
proof -
  have split: "sum u UNIV = u i + u j + sum u (UNIV - {i, j})" for u :: "u32 \<Rightarrow> nat"
    using sum.subset_diff [of "{i, j}" UNIV u] assms(3) by simp
  have "sum v' (UNIV - {i, j}) \<le> sum v (UNIV - {i, j})" by (rule sum_mono) (use assms(1) in auto)
  with assms(2) show ?thesis unfolding split [of v] split [of v'] by linarith
qed

lemma astep_globals: "astep P A A' \<Longrightarrow> a_glob A' = a_glob A \<or> (\<exists>e p x. p_code P e p (a_glob A) = Ok x \<and> a_glob A' = act_glob x)"
  by (cases rule: astep.cases) (force simp: place_def with_objects_def)+

definition meals_ok :: "ph_globals \<Rightarrow> bool" where
  "meals_ok g \<longleftrightarrow> (\<forall>m\<in>set (meals g). 0 \<le> m)"

lemma code_meals_ok:
  assumes c: "ph_code argv e p g = Ok x" and m: "meals_ok g"
  shows "meals_ok (act_glob x)"
proof (cases p)
  case (PH_philosopher q)
  with c obtain y where y: "philosopher q g = Ok y" "act_glob x = act_glob y" by (auto dest!: within_ok)
  with m show ?thesis by (cases q) (auto simp: think_def eat_def c_iff meals_ok_def dest!: set_update_subset_insert [THEN subsetD] split: if_splits)
next
  case (PH_driver q)
  with c obtain y where y: "ph_driver e q g = Ok y" "act_glob x = act_glob y" by (auto dest!: within_ok)
  with m show ?thesis by (cases q) (auto simp: c_iff meals_ok_def split: if_splits)
next
  case (PH_main q)
  with c obtain y where y: "ph_main argv e q g = Ok y" "act_glob x = act_glob y" by (auto dest!: within_ok)
  with m show ?thesis by (cases q) (auto simp: c_iff meals_ok_def split: if_splits)
qed (use c in simp)

interpretation ph_meals: client_invariant "philosophers argv" "PH_main PM_entry" ph_globals0 "\<lambda>A. meals_ok (a_glob A)" for argv
proof
  show "meals_ok (a_glob (ainit (PH_main PM_entry) ph_globals0))" by (simp add: ainit_def ph_globals0_def meals_ok_def)
  show "meals_ok (a_glob A')" if "meals_ok (a_glob A)" "astep (philosophers argv) A A'" for A A'
    using astep_globals [OF that(2)] code_meals_ok that(1) by (auto simp: philosophers_def)
qed

section \<open>Every step does some of the work\<close>

lemma work_upd:
  assumes "a_pos A' = (a_pos A)(i := q)" and "pos_work argv (a_glob A') q < pos_work argv (a_glob A) (a_pos A i)"
    and "\<And>j. j \<noteq> i \<Longrightarrow> pos_work argv (a_glob A') (a_pos A j) \<le> pos_work argv (a_glob A) (a_pos A j)"
  shows "ph_work argv A' < ph_work argv A"
  unfolding ph_work_def by (rule sum_less [of i]) (use assms in auto)

lemma others_work:
  assumes I: "ph_inv ps M S g" and p: "ps i = At p" and c: "ph_code argv e p g = Ok x" and f: "ph_at_main (At p) \<Longrightarrow> act_point x \<noteq> None" and j: "j \<noteq> i"
  shows "pos_work argv (act_glob x) (ps j) \<le> pos_work argv g (ps j)"
proof (cases "p = PH_main PM_entry")
  case True
  with p ph_facts(1) [OF I, of i] have "i = UTH_TID_INVALID" by auto
  with ph_facts(3) [OF I, of j] j p True have "ps j = Unborn" by simp
  then show ?thesis by simp
next
  case False
  from milder_pos [OF code_milder [OF c False f]] show ?thesis by blast
qed

lemma point_work_ret [simp]: "point_work argv g (ph_ret p r) = point_work argv g p"
  by (cases "(p, r)" rule: ph_ret.cases) simp_all

lemma issued_work: "\<not> is_create a \<Longrightarrow> act_work argv (Call a g p) = pos_work argv g (issued a p)"
  by (cases a) simp_all

lemma ph_work_step:
  assumes r: "areachable (philosophers argv) (PH_main PM_entry) ph_globals0 A" and st: "astep (philosophers argv) A A'"
  shows "ph_work argv A' < ph_work argv A"
proof -
  note I = ph.areachable_inv [OF r]
  have m: "m \<in> set (meals (a_glob A)) \<Longrightarrow> 0 \<le> m" for m using ph_meals.areachable_inv [OF r] by (auto simp: meals_ok_def)
  have code: "ph_code argv e p g = Ok x" if "p_code (philosophers argv) e p g = Ok x" for e p g x using that by (simp add: philosophers_def)
  note work = code_work [OF code m] and others = others_work [OF I _ code]
  from st show ?thesis
  proof (cases rule: astep.cases)
    case (a_compute i p e g' p')
    from work [OF a_compute(3)] others [OF a_compute(2,3)] a_compute show ?thesis by (intro work_upd [of A' A i "At p'"]) (simp_all add: place_def)
  next
    case (a_issue i p e a g' p' x)
    from work [OF a_issue(3)] others [OF a_issue(2,3)] issued_work [OF a_issue(4)] a_issue(1,2) show ?thesis
      by (intro work_upd [of A' A i "issued a p'"]) (simp_all add: place_def with_objects_def del: act_work.simps)
  next
    case (a_create i p e fn arg n env g' p' j)
    have "i \<noteq> j" using a_create(2,4) by auto
    with work [OF a_create(3)] others [OF a_create(2,3)] a_create show ?thesis unfolding ph_work_def
      by (intro sum_less_two [of i j]) (auto simp: place_def)
  next
    case (a_no_create i p e fn arg n env g' p')
    from work [OF a_no_create(3)] others [OF a_no_create(2,3)] a_no_create(1,2) show ?thesis
      by (intro work_upd [of A' A i "At (p_ret (philosophers argv) p' (RetTid UTH_TID_INVALID))"]) (simp_all add: place_def philosophers_def)
  next
    case (a_created i j p r)
    then show ?thesis by (intro work_upd [of A' A i "At (p_ret (philosophers argv) p (RetTid r))"]) (simp_all add: place_def philosophers_def)
  next
    case (a_complete i a p x)
    then show ?thesis by (intro work_upd [of A' A i "Done p"]) (simp_all add: place_def with_objects_def)
  next
    case (a_return i p r)
    then show ?thesis by (intro work_upd [of A' A i "At (p_ret (philosophers argv) p r)"]) (simp_all add: place_def philosophers_def)
  next
    case (a_start i fn arg)
    then show ?thesis by (intro work_upd [of A' A i "At (p_start (philosophers argv) fn arg)"]) (simp_all add: place_def philosophers_def)
  next
    case (a_exit i p e v g')
    have "\<not> ph_at_main (At p)" using ph_facts(1) [OF I, of i] a_exit(2,4) by simp
    with work [OF a_exit(3)] others [OF a_exit(2,3)] a_exit(1,2) show ?thesis by (intro work_upd [of A' A i Ended]) (simp_all add: place_def)
  next
    case (a_run p e g' p')
    from work [OF a_run(3)] others [OF a_run(2,3)] a_run(1,2) show ?thesis
      by (intro work_upd [of A' A UTH_TID_INVALID "InRun p'"]) (simp_all add: place_def)
  next
    case (a_run_return p)
    then show ?thesis by (intro work_upd [of A' A UTH_TID_INVALID "At (p_ret (philosophers argv) p RetVoid)"]) (simp_all add: place_def philosophers_def)
  qed
qed

interpretation ph_end: terminating_program "philosophers argv" "PH_main PM_entry" ph_globals0 "ph_work argv" for argv
proof
  show "cooperative (philosophers argv)" by (rule cooperative_philosophers)
  show "ph_work argv A' < ph_work argv A" if "areachable (philosophers argv) (PH_main PM_entry) ph_globals0 A" "astep (philosophers argv) A A'" for A A'
    using that by (rule ph_work_step)
  show "scheduler_round s \<noteq> Ok (SchedContinue, s')" if "creachable (philosophers argv) (PH_main PM_entry) ph_globals0 ((SchedTop, s), ps, g)" for s ps g s'
    using that by (rule ph_never_idle)
  show "a \<noteq> A_spin_lock m" if "p_code (philosophers argv) e p g = Ok (Call a g' p')" for e p g a g' p' m
    by (rule ph_call_cases [of argv e p g a g' p']) (use that in \<open>auto simp: philosophers_def\<close>)
qed

end
