(* ===== verification/Uth_Philosophers_Fed.thy ===== *)
theory Uth_Philosophers_Fed
  imports Uth_Philosophers_End
begin

text \<open>
  The philosophers eat: no philosopher eats more than \<open>total_meals\<close> times, and a philosopher that has ended has eaten exactly so often. The driver
  keeps the books: it gives each seat to one thread and frees the arguments only after all philosophers have ended.
\<close>

section \<open>Seats\<close>

text \<open>The meals of a philosopher in the loop; between the test of the loop and the end of the meal, one more fits.\<close>

definition meal_cap :: "ph_globals \<Rightarrow> int" where
  "meal_cap g = max 0 (total_meals g)"

definition may_eat :: "ph_globals \<Rightarrow> int \<Rightarrow> bool" where
  "may_eat g k \<longleftrightarrow> meals g ! nat k < total_meals g"

fun point_seat :: "ph_globals \<Rightarrow> int \<Rightarrow> ph_point \<Rightarrow> bool" where
  "point_seat g k (PH_philosopher p) =
     (case p of
        PH_entry a \<Rightarrow> ph_args g a = Some k | PH_loop l \<Rightarrow> ph_id l = k | PH_think l n \<Rightarrow> ph_id l = k \<and> may_eat g k
      | PH_first l \<Rightarrow> ph_id l = k \<and> may_eat g k | PH_second l \<Rightarrow> ph_id l = k \<and> may_eat g k | PH_picked l \<Rightarrow> ph_id l = k \<and> may_eat g k
      | PH_eat l n \<Rightarrow> ph_id l = k \<and> may_eat g k | PH_put l \<Rightarrow> ph_id l = k | PH_down l \<Rightarrow> ph_id l = k)"
| "point_seat g k p = False"

fun at_seat :: "ph_globals \<Rightarrow> int \<Rightarrow> ph_point pos \<Rightarrow> bool" where
  "at_seat g k (New fn a) = (fn = philosopher_fn \<and> ph_args g a = Some k)"
| "at_seat g k (At p) = point_seat g k p"
| "at_seat g k (Done p) = point_seat g k p"
| "at_seat g k (Made j p) = point_seat g k p"
| "at_seat g k (Await a p) = point_seat g k p"
| "at_seat g k Ended = (meals g ! nat k = meal_cap g)"
| "at_seat g k q = False"

text \<open>The argument that a philosopher has not read yet.\<close>

fun point_raw :: "ph_point \<Rightarrow> ptr option" where
  "point_raw (PH_philosopher (PH_entry a)) = Some a"
| "point_raw p = None"

fun raw :: "ph_point pos \<Rightarrow> ptr option" where
  "raw (New fn a) = (if fn = philosopher_fn then Some a else None)"
| "raw (At p) = point_raw p"
| "raw (Done p) = point_raw p"
| "raw (Made j p) = point_raw p"
| "raw (Await a p) = point_raw p"
| "raw q = None"

lemma at_seat_cong:
  assumes "at_seat g k q" and "\<And>b. raw q = Some b \<Longrightarrow> ph_args g' b = ph_args g b" and "total_meals g' = total_meals g"
    and "meals g' ! nat k = meals g ! nat k"
  shows "at_seat g' k q"
proof -
  have p: "point_seat g k p \<Longrightarrow> (\<And>b. point_raw p = Some b \<Longrightarrow> ph_args g' b = ph_args g b) \<Longrightarrow> point_seat g' k p" for p
    using assms(3,4) by (cases p) (auto simp: may_eat_def split: philosopher_point.splits)
  show ?thesis using assms p by (cases q) (auto simp: meal_cap_def)
qed

section \<open>The books of the driver\<close>

text \<open>The thread that has just been created for a seat, before the driver stores its id.\<close>

fun pend :: "ph_point pos \<Rightarrow> (int \<times> u32) option" where
  "pend (At (PH_driver (PD_made a k t))) = Some (k, t)"
| "pend (Made t (PH_driver (PD_made a k u))) = Some (k, t)"
| "pend q = None"

definition booked :: "(u32 \<Rightarrow> ph_point pos) \<Rightarrow> ph_globals \<Rightarrow> int \<Rightarrow> u32 \<Rightarrow> bool" where
  "booked ps g k t \<longleftrightarrow> ph_tids g k = Some t \<or> (\<exists>i. pend (ps i) = Some (k, t))"

text \<open>How many seats are taken, and where the arguments are, while the driver creates philosophers.\<close>

fun point_bound :: "ph_point \<Rightarrow> int option" where
  "point_bound (PH_driver PD_entry) = Some 0"
| "point_bound (PH_driver (PD_create a k)) = Some k"
| "point_bound (PH_driver (PD_made a k t)) = Some (k + 1)"
| "point_bound p = None"

fun bound :: "ph_point pos \<Rightarrow> int option" where
  "bound (New fn a) = (if fn = ph_driver_fn then Some 0 else None)"
| "bound (At p) = (if alone (At p) then Some 0 else point_bound p)"
| "bound (Done p) = (if alone (At p) then Some 0 else point_bound p)"
| "bound (Made j p) = point_bound p"
| "bound q = None"

fun array_of :: "ph_point pos \<Rightarrow> ptr option" where
  "array_of (At (PH_driver (PD_create a k))) = Some a"
| "array_of (At (PH_driver (PD_made a k t))) = Some a"
| "array_of (Done (PH_driver (PD_create a k))) = Some a"
| "array_of (Made j (PH_driver (PD_made a k t))) = Some a"
| "array_of q = None"

text \<open>The seats up to \<open>c\<close> whose threads the driver has joined.\<close>

definition joined :: "(u32 \<Rightarrow> ph_point pos) \<Rightarrow> ph_globals \<Rightarrow> int \<Rightarrow> bool" where
  "joined ps g c \<longleftrightarrow> (\<forall>k t. k < c \<longrightarrow> ph_tids g k = Some t \<longrightarrow> finished t ps)"

fun joins_ok :: "(u32 \<Rightarrow> ph_point pos) \<Rightarrow> ph_globals \<Rightarrow> ph_point pos \<Rightarrow> bool" where
  "joins_ok ps g (At (PH_driver (PD_join a c))) = joined ps g c"
| "joins_ok ps g (Done (PH_driver (PD_join a c))) = joined ps g c"
| "joins_ok ps g (Await b (PH_driver p)) = (\<exists>a c t w. p = PD_join a (c + 1) \<and> b = A_join t w \<and> ph_tids g c = Some t \<and> joined ps g c)"
| "joins_ok ps g (Made j (PH_driver p)) = (\<exists>a k t. p = PD_made a k t)"
| "joins_ok ps g q = True"

definition ph_fed :: "(u32 \<Rightarrow> ph_point pos) \<Rightarrow> ph_globals \<Rightarrow> bool" where
  "ph_fed ps g \<longleftrightarrow>
     (\<forall>k t. booked ps g k t \<longrightarrow> 0 \<le> k \<and> k < ph_N g \<and> (t = UTH_TID_INVALID \<or> at_seat g k (ps t))) \<and>
     (\<forall>k t t'. booked ps g k t \<longrightarrow> booked ps g k t' \<longrightarrow> t = t') \<and>
     (\<forall>j. is_phil (ps j) \<longrightarrow> ps j \<noteq> Ended \<longrightarrow> (\<exists>k. booked ps g k j)) \<and>
     (\<forall>i b k t. bound (ps i) = Some b \<longrightarrow> booked ps g k t \<longrightarrow> k < b) \<and>
     (\<forall>i a j k b. array_of (ps i) = Some a \<longrightarrow> booked ps g k j \<longrightarrow> raw (ps j) = Some b \<longrightarrow> b = elem_at a 4 k) \<and>
     (\<forall>i. joins_ok ps g (ps i)) \<and>
     (\<forall>m\<in>set (meals g). m \<le> meal_cap g)"

lemma ph_fedD:
  assumes "ph_fed ps g"
  shows "booked ps g k t \<Longrightarrow> 0 \<le> k" "booked ps g k t \<Longrightarrow> k < ph_N g" "booked ps g k t \<Longrightarrow> t = UTH_TID_INVALID \<or> at_seat g k (ps t)"
    "booked ps g k t \<Longrightarrow> booked ps g k t' \<Longrightarrow> t = t'" "is_phil (ps j) \<Longrightarrow> ps j \<noteq> Ended \<Longrightarrow> \<exists>k. booked ps g k j"
    "bound (ps i) = Some b \<Longrightarrow> booked ps g k t \<Longrightarrow> k < b"
    "array_of (ps i) = Some a \<Longrightarrow> booked ps g k j \<Longrightarrow> raw (ps j) = Some b' \<Longrightarrow> b' = elem_at a 4 k"
    "joins_ok ps g (ps i)" "m \<in> set (meals g) \<Longrightarrow> m \<le> meal_cap g"
  using assms unfolding ph_fed_def by blast+

lemma ph_fedI:
  assumes "\<And>k t. booked ps g k t \<Longrightarrow> 0 \<le> k \<and> k < ph_N g \<and> (t = UTH_TID_INVALID \<or> at_seat g k (ps t))"
    and "\<And>k t t'. booked ps g k t \<Longrightarrow> booked ps g k t' \<Longrightarrow> t = t'" and "\<And>j. is_phil (ps j) \<Longrightarrow> ps j \<noteq> Ended \<Longrightarrow> \<exists>k. booked ps g k j"
    and "\<And>i b k t. bound (ps i) = Some b \<Longrightarrow> booked ps g k t \<Longrightarrow> k < b"
    and "\<And>i a j k b. array_of (ps i) = Some a \<Longrightarrow> booked ps g k j \<Longrightarrow> raw (ps j) = Some b \<Longrightarrow> b = elem_at a 4 k"
    and "\<And>i. joins_ok ps g (ps i)" and "\<And>m. m \<in> set (meals g) \<Longrightarrow> m \<le> meal_cap g"
  shows "ph_fed ps g"
  using assms unfolding ph_fed_def by blast

lemma joins_ok_mono:
  assumes "joins_ok ps g q" and "ph_tids g' = ph_tids g" and "\<And>t. finished t ps \<Longrightarrow> finished t ps'"
  shows "joins_ok ps' g' q"
  using assms by (cases "(ps, g, q)" rule: joins_ok.cases) (auto simp: joined_def)

lemma fed_upd:
  assumes F: "ph_fed ps g" and B: "\<And>k t. booked (ps(i := q)) g' k t \<longleftrightarrow> booked ps g k t" and N: "ph_N g' = ph_N g"
    and seat: "\<And>k. booked ps g k i \<Longrightarrow> at_seat g k (ps i) \<Longrightarrow> at_seat g' k q"
      "\<And>k j. \<lbrakk>j \<noteq> i; booked ps g k j; at_seat g k (ps j)\<rbrakk> \<Longrightarrow> at_seat g' k (ps j)"
    and phil: "is_phil q \<Longrightarrow> q \<noteq> Ended \<Longrightarrow> is_phil (ps i) \<and> ps i \<noteq> Ended"
    and bnd: "\<And>b k t. bound q = Some b \<Longrightarrow> booked ps g k t \<Longrightarrow> k < b"
    and arr: "\<And>a. array_of q = Some a \<Longrightarrow> array_of (ps i) = Some a \<or> (\<forall>k t. \<not> booked ps g k t)" and raw: "\<And>b. raw q = Some b \<Longrightarrow> raw (ps i) = Some b"
    and j: "joins_ok (ps(i := q)) g' q" "\<And>j. j \<noteq> i \<Longrightarrow> joins_ok (ps(i := q)) g' (ps j)"
    and m: "\<And>m. m \<in> set (meals g') \<Longrightarrow> m \<le> meal_cap g'"
  shows "ph_fed (ps(i := q)) g'"
proof (rule ph_fedI, unfold B)
  note D = ph_fedD [OF F]
  have r: "raw ((ps(i := q)) x) = Some b \<Longrightarrow> raw (ps x) = Some b" for x b using raw by (auto split: if_splits)
  show "0 \<le> k \<and> k < ph_N g' \<and> (t = UTH_TID_INVALID \<or> at_seat g' k ((ps(i := q)) t))" if "booked ps g k t" for k t
    using D(1-3) [OF that] seat that N by auto
  show "t = t'" if "booked ps g k t" "booked ps g k t'" for k t t' using D(4) that .
  show "\<exists>k. booked ps g k x" if "is_phil ((ps(i := q)) x)" "(ps(i := q)) x \<noteq> Ended" for x
    using that phil D(5) [of x] by (auto split: if_splits)
  show "k < b" if "bound ((ps(i := q)) x) = Some b" "booked ps g k t" for x b k t
    using that bnd D(6) [of x] by (auto split: if_splits)
  show "b = elem_at a 4 k" if "array_of ((ps(i := q)) x) = Some a" "booked ps g k y" "raw ((ps(i := q)) y) = Some b" for x a y k b
    using that(1) arr D(7) [OF _ that(2) r [OF that(3)]] that(2) by (auto split: if_splits)
  show "joins_ok (ps(i := q)) g' ((ps(i := q)) x)" for x using j by simp
qed (fact m)

text \<open>A step that leaves the books alone.\<close>

definition same_books :: "ph_globals \<Rightarrow> ph_globals \<Rightarrow> bool" where
  "same_books g g' \<longleftrightarrow> ph_N g' = ph_N g \<and> total_meals g' = total_meals g \<and> meals g' = meals g \<and> ph_args g' = ph_args g \<and> ph_tids g' = ph_tids g"

lemma same_books_simps [simp]: "same_books g g" "same_books g (ph_print ev g') = same_books g g'"
  by (simp_all add: same_books_def ph_print_def)

lemma finished_upd: "\<lbrakk>finished t ps; ps i \<noteq> Unborn; ps i \<noteq> Ended\<rbrakk> \<Longrightarrow> finished t (ps(i := q))"
  by (auto simp: finished_def)

lemma booked_upd: "\<lbrakk>pend q = pend (ps i); ph_tids g' = ph_tids g\<rbrakk> \<Longrightarrow> booked (ps(i := q)) g' k t \<longleftrightarrow> booked ps g k t"
  unfolding booked_def by (metis fun_upd_apply)

lemma fed_quiet:
  assumes F: "ph_fed ps g" and g: "same_books g g'" and l: "ps i \<noteq> Unborn" "ps i \<noteq> Ended" and p: "pend q = pend (ps i)"
    and seat: "\<And>k. at_seat g k (ps i) \<Longrightarrow> at_seat g k q" and phil: "is_phil q \<Longrightarrow> q \<noteq> Ended \<Longrightarrow> is_phil (ps i)"
    and bnd: "bound q = None \<or> bound q = bound (ps i)" and arr: "array_of q = None \<or> array_of q = array_of (ps i)" and raw: "raw q = None \<or> raw q = raw (ps i)"
    and j: "joins_ok ps g q"
  shows "ph_fed (ps(i := q)) g'"
proof (rule fed_upd [OF F])
  note D = ph_fedD [OF F]
  have s: "at_seat g k x \<Longrightarrow> at_seat g' k x" for k x by (erule at_seat_cong) (use g in \<open>simp_all add: same_books_def\<close>)
  have t: "ph_tids g' = ph_tids g" using g by (simp add: same_books_def)
  show "booked (ps(i := q)) g' k t \<longleftrightarrow> booked ps g k t" for k t by (rule booked_upd [of q ps i g' g, OF p t])
  show "ph_N g' = ph_N g" using g by (simp add: same_books_def)
  show "at_seat g' k q" if "at_seat g k (ps i)" for k using s seat [OF that] .
  show "at_seat g' k (ps j)" if "at_seat g k (ps j)" for k j using s [OF that] .
  show "is_phil (ps i) \<and> ps i \<noteq> Ended" if "is_phil q" "q \<noteq> Ended" using phil [OF that] l by simp
  show "k < b" if "bound q = Some b" "booked ps g k t" for b k t using bnd D(6) [OF _ that(2), of i b] that(1) by auto
  show "array_of (ps i) = Some a \<or> (\<forall>k t. \<not> booked ps g k t)" if "array_of q = Some a" for a using arr that by auto
  show "raw (ps i) = Some b" if "raw q = Some b" for b using raw that by auto
  show "joins_ok (ps(i := q)) g' q" using joins_ok_mono [OF j t finished_upd [of _ ps i, OF _ l]] .
  show "joins_ok (ps(i := q)) g' (ps j)" for j using joins_ok_mono [OF D(8) t finished_upd [of _ ps i, OF _ l]] .
  show "m \<le> meal_cap g'" if "m \<in> set (meals g')" for m using that D(9) g by (simp add: same_books_def meal_cap_def)
qed

section \<open>The steps of a philosopher\<close>

lemma own_seat:
  assumes F: "ph_fed ps g" and i: "i \<noteq> UTH_TID_INVALID" "is_phil (ps i)" "ps i \<noteq> Ended"
  obtains k where "booked ps g k i" "at_seat g k (ps i)"
  using ph_fedD(5) [OF F i(2,3)] ph_fedD(3) [OF F] i(1) by blast

lemma fed_eaten:
  assumes F: "ph_fed ps g" and i: "i \<noteq> UTH_TID_INVALID" and p: "ps i = At (PH_philosopher (PH_eat l n))"
    and put: "arr_put (meals g) (ph_id l) (meals g ! nat (ph_id l) + 1) = Ok ms"
  shows "ph_fed (ps(i := Done (PH_philosopher (PH_put l)))) (g\<lparr>meals := ms\<rparr>)"
proof -
  note D = ph_fedD [OF F]
  let ?k = "ph_id l"
  have live: "ps i \<noteq> Unborn" "ps i \<noteq> Ended" using p by simp_all
  obtain k where k: "booked ps g k i" "at_seat g k (ps i)" by (rule own_seat [OF F i]) (use p in auto)
  then have own: "booked ps g ?k i" "may_eat g ?k" using p by auto
  have ms: "ms = (meals g)[nat ?k := meals g ! nat ?k + 1]" "0 \<le> ?k" using put by (auto simp: arr_put_iff)
  show ?thesis
  proof (rule fed_upd [OF F])
    show "booked (ps(i := Done (PH_philosopher (PH_put l)))) (g\<lparr>meals := ms\<rparr>) k t \<longleftrightarrow> booked ps g k t" for k t by (rule booked_upd) (simp_all add: p)
    show "at_seat (g\<lparr>meals := ms\<rparr>) k (ps j)" if j: "j \<noteq> i" "booked ps g k j" "at_seat g k (ps j)" for k j
    proof (rule at_seat_cong [OF j(3)])
      have "k \<noteq> ?k" using D(4) [OF j(2), of i] own(1) j(1) by auto
      then have "nat k \<noteq> nat ?k" using D(1) [OF j(2)] ms(2) by auto
      then show "meals (g\<lparr>meals := ms\<rparr>) ! nat k = meals g ! nat k" by (simp add: ms(1))
    qed simp_all
    show "m \<le> meal_cap (g\<lparr>meals := ms\<rparr>)" if "m \<in> set (meals (g\<lparr>meals := ms\<rparr>))" for m
      using set_update_subset_insert [THEN subsetD, OF that [simplified ms(1), simplified]] D(9) own(2) by (auto simp: meal_cap_def may_eat_def)
    show "joins_ok (ps(i := Done (PH_philosopher (PH_put l)))) (g\<lparr>meals := ms\<rparr>) (ps j)" for j using joins_ok_mono [OF D(8) _ finished_upd [of _ ps i, OF _ live]] by simp
  qed (use p in auto)
qed

lemma philosopher_books:
  assumes "philosopher p g = Ok x" and "\<And>l n. p = PH_eat l n \<Longrightarrow> n < 2"
  shows "same_books g (act_glob x)"
  using assms by (cases p) (auto simp: think_def eat_def c_iff split: if_splits)

lemma philosopher_compute:
  assumes "philosopher q g = Ok (Compute g' q')"
  obtains (entry) a k l where "q = PH_entry a" "ph_args g a = Some k" "ph_id l = k" "q' = PH_loop l" "g' = g"
    | (test) l where "q = PH_loop l" "q' = PH_think l 0" "may_eat g (ph_id l)" "g' = ph_print (Ev_thinking (ph_id l)) g"
    | (picked) l n where "q = PH_picked l" "q' = PH_eat l 0" "g' = ph_print (Ev_eating (ph_id l) n) (ph_print (Ev_picked (ph_id l) (ph_second l)) g)"
    | (down) l where "q = PH_down l" "q' = PH_loop l" "g' = ph_print (Ev_put_down (ph_id l)) g"
proof (cases q)
  case (PH_entry a)
  with assms have "\<exists>l. ph_args g a = Some (ph_id l) \<and> q' = PH_loop l \<and> g' = g" by (auto simp: c_iff)
  with PH_entry entry show ?thesis by blast
next
  case (PH_loop l)
  with assms test show ?thesis by (auto simp: c_iff may_eat_def split: if_splits)
next
  case (PH_picked l)
  with assms picked show ?thesis by (auto simp: c_iff)
next
  case (PH_down l)
  with assms down show ?thesis by simp
qed (use assms in \<open>auto simp: think_def eat_def c_iff split: if_splits\<close>)

lemma fed_phil_compute:
  assumes F: "ph_fed ps g" and p: "ps i = At (PH_philosopher q)" and c: "philosopher q g = Ok (Compute g' q')"
  shows "ph_fed (ps(i := At (PH_philosopher q'))) g'"
  by (rule philosopher_compute [OF c]) (rule fed_quiet [OF F]; use p in auto)+

lemma fed_phil_call:
  assumes F: "ph_fed ps g" and i: "i \<noteq> UTH_TID_INVALID" and p: "ps i = At (PH_philosopher q)" and c: "philosopher q g = Ok (Call a g' q')"
  shows "ph_fed (ps(i := issued a (PH_philosopher q'))) g'"
proof (cases "\<exists>l n. q = PH_eat l n \<and> \<not> n < 2")
  case True
  with c p fed_eaten [OF F i] show ?thesis by (auto simp: eat_def ok_iff c_int_iff arr_get_iff)
next
  case False
  have a: "a = A_yield \<or> (\<exists>m. a = A_mutex_lock m) \<or> (\<exists>m. a = A_mutex_unlock m)" and n: "point_raw (PH_philosopher q') = None"
    using c by (cases q; auto simp: think_def eat_def c_iff split: if_splits)+
  show ?thesis
  proof (rule fed_quiet [OF F])
    show "same_books g g'" using philosopher_books [OF c] False by auto
    show "at_seat g k (issued a (PH_philosopher q'))" if "at_seat g k (ps i)" for k
      using that p c False by (cases q) (auto simp: think_def eat_def c_iff split: if_splits)
  qed (use p a n in \<open>auto split: philosopher_point.splits\<close>)
qed

lemma fed_phil_exit:
  assumes F: "ph_fed ps g" and M: "meals_ok g" and p: "ps i = At (PH_philosopher q)" and c: "philosopher q g = Ok (Finish v g')"
  shows "ph_fed (ps(i := Ended)) g'"
proof (rule fed_quiet [OF F])
  from c obtain l where q: "q = PH_loop l" "\<not> meals g ! nat (ph_id l) < total_meals g" "nat (ph_id l) < length (meals g)" "same_books g g'"
    by (cases q) (auto simp: think_def eat_def c_iff split: if_splits)
  then show "same_books g g'" by simp
  have "meals g ! nat (ph_id l) = meal_cap g"
    using ph_fedD(9) [OF F nth_mem [OF q(3)]] M nth_mem [OF q(3)] q(2) by (auto simp: meal_cap_def meals_ok_def)
  then show "at_seat g k Ended" if "at_seat g k (ps i)" for k using that p q(1) by simp
qed (use p in auto)

section \<open>The steps of the driver\<close>

text \<open>Only the driver has books to keep, or \<open>main\<close> before there is a driver.\<close>

lemma token_books:
  assumes "\<not> ph_token q"
  shows "pend q = None" "bound q = None" "array_of q = None" "joins_ok ps g q"
proof -
  have b: "\<forall>q. p \<noteq> PH_driver q \<Longrightarrow> point_bound p = None" for p by (cases p rule: point_bound.cases) auto
  show "pend q = None" using assms by (cases q rule: pend.cases) (auto simp: ph_token_def)
  show "bound q = None" using assms b by (cases q) (auto simp: ph_token_def)
  show "array_of q = None" using assms by (cases q rule: array_of.cases) (auto simp: ph_token_def)
  show "joins_ok ps g q" using assms by (cases "(ps, g, q)" rule: joins_ok.cases) (auto simp: ph_token_def)
qed

lemma others_books:
  assumes C: "ph_crew ps M S g" and i: "ph_token (ps i)" and j: "j \<noteq> i"
  shows "pend (ps j) = None" "bound (ps j) = None" "array_of (ps j) = None" "joins_ok ps' g' (ps j)"
  using token_books [of "ps j"] ph_crewD(1) [OF C i, of j] j by blast+

lemma driver_token: "ps i = At (PH_driver q) \<Longrightarrow> ph_token (ps i)"
  by (simp add: ph_token_def)

lemma no_books:
  assumes "ph_fed ps g" and "bound (ps i) = Some 0"
  shows "\<not> booked ps g k t"
  using ph_fedD(1,6) [OF assms(1)] assms(2) by fastforce

lemma fed_driver_compute:
  assumes F: "ph_fed ps g" and C: "ph_crew ps M S g" and p: "ps i = At (PH_driver q)" and c: "ph_driver e q g = Ok (Compute g' q')"
  shows "ph_fed (ps(i := At (PH_driver q'))) g'"
proof (cases q)
  case PD_entry
  with c obtain a where g': "g' = g" "q' = PD_create a 0" by auto
  show ?thesis
  proof (rule fed_upd [OF F])
    show "booked (ps(i := At (PH_driver q'))) g' k t \<longleftrightarrow> booked ps g k t" for k t by (rule booked_upd) (simp_all add: p PD_entry g')
    show "joins_ok (ps(i := At (PH_driver q'))) g' (ps j)" if "j \<noteq> i" for j using others_books(4) [OF C driver_token [of ps, OF p] that] .
  qed (use no_books [OF F, of i] p PD_entry g' ph_fedD(9) [OF F] in auto)
next
  case (PD_create a k)
  with c have "g' = g" "q' = PD_join a 0" by (auto split: if_splits)
  moreover have "joined ps g 0" unfolding joined_def using ph_fedD(1) [OF F] by (fastforce simp: booked_def)
  ultimately show ?thesis by (intro fed_quiet [OF F]) (use p PD_create in auto)
next
  case (PD_made a k t)
  with c have g': "g' = g\<lparr>ph_tids := (ph_tids g)(k \<mapsto> t)\<rparr>" "q' = PD_create a (k + 1)" by auto
  have kt: "booked ps g k t" using p PD_made by (auto simp: booked_def intro: exI [of _ i])
  show ?thesis
  proof (rule fed_upd [OF F])
    show "booked (ps(i := At (PH_driver q'))) g' k' t' \<longleftrightarrow> booked ps g k' t'" for k' t'
    proof
      assume "booked (ps(i := At (PH_driver q'))) g' k' t'"
      with g' kt show "booked ps g k' t'" by (auto simp: booked_def split: if_splits)
    next
      assume b: "booked ps g k' t'"
      show "booked (ps(i := At (PH_driver q'))) g' k' t'"
      proof (cases "k' = k")
        case True
        with ph_fedD(4) [OF F b] kt g' show ?thesis by (auto simp: booked_def)
      next
        case False
        with b g' p PD_made show ?thesis by (auto simp: booked_def) (metis False option.inject prod.inject pend.simps(1))
      qed
    qed
    show "joins_ok (ps(i := At (PH_driver q'))) g' (ps j)" if "j \<noteq> i" for j using others_books(4) [OF C driver_token [of ps, OF p] that] .
    show "at_seat g' k' (ps j)" if "at_seat g k' (ps j)" for k' j by (rule at_seat_cong [OF that]) (simp_all add: g')
  qed (use p PD_made g' ph_fedD(6) [OF F, of i] ph_fedD(9) [OF F] in \<open>auto simp: meal_cap_def\<close>)
next
  case (PD_join a k)
  with c show ?thesis by (auto simp: c_iff split: if_splits)
qed

lemma fed_driver_call:
  assumes F: "ph_fed ps g" and p: "ps i = At (PH_driver q)" and c: "ph_driver e q g = Ok (Call a g' q')" and nc: "\<not> is_create a"
  shows "ph_fed (ps(i := issued a (PH_driver q'))) g'"
proof (cases q)
  case (PD_join b k)
  with c obtain t where t: "ph_tids g k = Some t" "a = A_join t False" "g' = g" "q' = PD_join b (k + 1)" by (auto simp: c_iff split: if_splits)
  moreover have "joined ps g k" using ph_fedD(8) [OF F, of i] p PD_join by simp
  ultimately show ?thesis by (intro fed_quiet [OF F]) (use p PD_join in auto)
qed (use c nc in \<open>auto split: if_splits\<close>)

lemma raw_phil: "raw q = Some b \<Longrightarrow> is_phil q \<and> \<not> ph_at_main q"
proof -
  have "point_raw p = Some b \<Longrightarrow> \<exists>q. p = PH_philosopher q" for p by (cases p rule: point_raw.cases) auto
  then show "raw q = Some b \<Longrightarrow> is_phil q \<and> \<not> ph_at_main q" by (cases q) (auto split: if_splits)
qed

lemma main_raw: "ph_inv ps M S g \<Longrightarrow> raw (ps UTH_TID_INVALID) = None"
  using raw_phil [of "ps UTH_TID_INVALID"] ph_facts(1) [of ps M S g UTH_TID_INVALID] by (cases "raw (ps UTH_TID_INVALID)") auto

lemma fed_driver_exit:
  assumes F: "ph_fed ps g" and I: "ph_inv ps M S g" and C: "ph_crew ps M S g" and p: "ps i = At (PH_driver q)" and c: "ph_driver e q g = Ok (Finish v g')"
  shows "ph_fed (ps(i := Ended)) g'"
proof (cases q)
  case (PD_join a c)
  with c have g': "g' = g\<lparr>ph_args := ph_free a (ph_N g) (ph_args g)\<rparr>" "ph_N g \<le> c" by (auto simp: c_iff split: if_splits)
  note D = ph_fedD [OF F] and O = others_books [OF C driver_token [of ps, OF p]]
  have live: "ps i \<noteq> Unborn" "ps i \<noteq> Ended" using p by simp_all
  have fin: "finished j ps" if b: "booked ps g k j" for k j
  proof -
    have "pend (ps x) = None" for x using O(1) [of x] p PD_join by (cases "x = i") simp_all
    with b have "ph_tids g k = Some j" by (simp add: booked_def)
    moreover have "k < c" using D(2) [OF b] g'(2) by linarith
    ultimately show ?thesis using D(8) [of i] p PD_join by (simp add: joined_def)
  qed
  show ?thesis
  proof (rule fed_upd [OF F])
    show "booked (ps(i := Ended)) g' k t \<longleftrightarrow> booked ps g k t" for k t by (rule booked_upd) (simp_all add: p PD_join g')
    show "joins_ok (ps(i := Ended)) g' (ps j)" if "j \<noteq> i" for j using O(4) [OF that] .
    show "at_seat g' k (ps j)" if j: "booked ps g k j" "at_seat g k (ps j)" for k j
    proof (rule at_seat_cong [OF j(2)])
      have "raw (ps j) = None" using fin [OF j(1)] main_raw [OF I] by (cases "j = UTH_TID_INVALID") (auto simp: finished_def)
      then show "raw (ps j) = Some b \<Longrightarrow> ph_args g' b = ph_args g b" for b by simp
    qed (simp_all add: g')
  qed (use p g' D(9) in \<open>auto simp: meal_cap_def\<close>)
qed (use c in \<open>auto split: if_splits\<close>)

text \<open>A new booking, with or without a thread.\<close>

lemma fed_book:
  assumes F: "ph_fed ps g" and I: "ph_inv ps M S g" and C: "ph_crew ps M S g" and p: "ps i = At (PH_driver (PD_create a c))" and c: "0 \<le> c" "c < ph_N g" "ph_N g \<le> INT_MAX"
    and g': "g' = g\<lparr>ph_args := (ph_args g)(elem_at a 4 c \<mapsto> c)\<rparr>"
    and q: "ps' i = q" "pend q = Some (c, t)" "bound q = Some (c + 1)" "array_of q = Some a" "\<not> is_phil q" "joins_ok ps' g' q"
    and same: "\<And>x. \<lbrakk>x \<noteq> i; t = UTH_TID_INVALID \<or> x \<noteq> t\<rbrakk> \<Longrightarrow> ps' x = ps x"
    and new: "t \<noteq> UTH_TID_INVALID \<Longrightarrow> t \<noteq> i \<and> ps t = Unborn \<and> ps' t = New philosopher_fn (elem_at a 4 c)"
  shows "ph_fed ps' g'"
proof -
  note D = ph_fedD [OF F] and O = others_books [OF C driver_token [of ps, OF p]]
  have nd: "philosopher_fn \<noteq> ph_driver_fn" by (simp add: philosopher_fn_def ph_driver_fn_def)
  have pos: "x = i \<and> ps' x = q \<or> x \<noteq> i \<and> ps' x = ps x \<or> x \<noteq> i \<and> x = t \<and> t \<noteq> UTH_TID_INVALID \<and> ps x = Unborn \<and> ps' x = New philosopher_fn (elem_at a 4 c)" for x
    using q(1) same [of x] new by blast
  have quiet: "pend (ps' x) = None" "bound (ps' x) = None" "array_of (ps' x) = None" "joins_ok ps' g' (ps' x)" if "x \<noteq> i" for x
    using pos [of x] that O [OF that] nd by auto
  have B: "booked ps' g' k s \<longleftrightarrow> booked ps g k s \<or> k = c \<and> s = t" for k s
  proof -
    have "(\<exists>x. pend (ps' x) = Some (k, s)) \<longleftrightarrow> k = c \<and> s = t" using quiet(1) q(1,2) by (metis option.distinct(1) option.inject prod.inject)
    moreover have "pend (ps x) = None" for x using O(1) [of x] p by (cases "x = i") simp_all
    ultimately show ?thesis by (auto simp: booked_def g')
  qed
  have k: "k < c" if "booked ps g k s" for k s using D(6) [of i c, OF _ that] p by simp
  have seat: "at_seat g' k (ps' s)" if s: "booked ps g k s" "at_seat g k (ps s)" for k s
  proof -
    have "ps' s = ps s" using pos [of s] s(2) p by auto
    moreover have "at_seat g' k (ps s)"
    proof (rule at_seat_cong [OF s(2)])
      fix b assume "raw (ps s) = Some b"
      with D(7) [of i a, OF _ s(1)] p have "b = elem_at a 4 k" by simp
      with elem_at_inj [of a 4 k c, OF _ D(1,2) [OF s(1)] c] k [OF s(1)] show "ph_args g' b = ph_args g b" by (auto simp: g')
    qed (simp_all add: g')
    ultimately show ?thesis by simp
  qed
  show ?thesis
  proof (rule ph_fedI, unfold B)
    show "0 \<le> k \<and> k < ph_N g' \<and> (s = UTH_TID_INVALID \<or> at_seat g' k (ps' s))" if "booked ps g k s \<or> k = c \<and> s = t" for k s
      using that
    proof
      assume b: "booked ps g k s"
      with D(1-3) [OF b] seat [OF b] show ?thesis by (auto simp: g')
    next
      assume "k = c \<and> s = t"
      with c new show ?thesis by (cases "t = UTH_TID_INVALID") (auto simp: g')
    qed
    show "s = s'" if "booked ps g k s \<or> k = c \<and> s = t" "booked ps g k s' \<or> k = c \<and> s' = t" for k s s'
      using that D(4) k by blast
    show "\<exists>k. booked ps g k x \<or> k = c \<and> x = t" if "is_phil (ps' x)" "ps' x \<noteq> Ended" for x
      using pos [of x] that q(5) D(5) [of x] by auto
    show "k < b" if "bound (ps' x) = Some b" "booked ps g k s \<or> k = c \<and> s = t" for x b k s
      using quiet(2) [of x] that q(1,3) k by fastforce
    show "b = elem_at a' 4 k" if "array_of (ps' x) = Some a'" "booked ps g k y \<or> k = c \<and> y = t" "raw (ps' y) = Some b" for x a' y k b
    proof -
      have "a' = a" using quiet(3) [of x] that(1) q(1,4) by (cases "x = i") auto
      moreover have "b = elem_at a 4 k" using pos [of y]
      proof (elim disjE conjE)
        assume "ps' y = q"
        with that(3) raw_phil q(5) show ?thesis by blast
      next
        assume y: "ps' y = ps y"
        with that(3) main_raw [OF I] have "y \<noteq> UTH_TID_INVALID" by auto
        with y new that(3) have "y \<noteq> t" by auto
        with that(2) D(7) [of i a k y b] p y that(3) show ?thesis by simp
      next
        assume y: "y = t" "t \<noteq> UTH_TID_INVALID" "ps y = Unborn" "ps' y = New philosopher_fn (elem_at a 4 c)"
        with D(3) [of k y] that(2,3) show ?thesis by auto
      qed
      ultimately show ?thesis by simp
    qed
    show "joins_ok ps' g' (ps' x)" for x using quiet(4) [of x] q(1,6) by (cases "x = i") auto
  qed (use D(9) g' in \<open>auto simp: meal_cap_def\<close>)
qed

section \<open>The steps of main\<close>

lemma fed_main_entry:
  assumes F: "ph_fed ps g" and I: "ph_inv ps M S g" and p: "ps i = At (PH_main PM_entry)" and c: "ph_main argv e PM_entry g = Ok (Compute g' q')"
  shows "ph_fed (ps(i := At (PH_main q'))) g'"
proof -
  from c obtain n t where g': "g' = g\<lparr>ph_N := n, total_meals := t, forks := os_malloc e 0, meals := replicate (nat n) 0\<rparr>" "q' = PM_forks 0"
    by (auto simp: ok_iff split: if_splits)
  have i: "i = UTH_TID_INVALID" using ph_facts(1) [OF I, of i] p by simp
  have others: "ps j = Unborn" if "j \<noteq> i" for j using ph_facts(3) [OF I, of j] p that i by simp
  have b: "\<not> booked (ps(i := At (PH_main q'))) g' k s" for k s
    using no_books [OF F, of i k s] booked_upd [of "At (PH_main q')" ps i g' g k s] p g' by simp
  show ?thesis
  proof (rule ph_fedI)
    show "\<exists>k. booked (ps(i := At (PH_main q'))) g' k j" if "is_phil ((ps(i := At (PH_main q'))) j)" for j using that others [of j] by (cases "j = i") auto
    show "joins_ok (ps(i := At (PH_main q'))) g' ((ps(i := At (PH_main q'))) j)" for j using others [of j] by (cases "j = i") auto
  qed (use b g' in \<open>auto simp: meal_cap_def\<close>)
qed

lemma main_books:
  assumes "ph_main argv e q g = Ok x" and "q \<noteq> PM_entry" and "act_point x \<noteq> None"
  shows "same_books g (act_glob x)"
  using assms by (cases q) (auto simp: c_iff split: if_splits)

lemma fed_main_quiet:
  assumes F: "ph_fed ps g" and p: "ps i = At (PH_main q)" and c: "ph_main argv e q g = Ok x" and e: "q \<noteq> PM_entry" and x: "act_point x = Some q'"
    and r: "r = At (PH_main q') \<or> r = Done (PH_main q') \<or> r = Made j (PH_main q') \<or> r = InRun (PH_main q')"
  shows "ph_fed (ps(i := r)) (act_glob x)"
proof (rule fed_quiet [OF F])
  show "same_books g (act_glob x)" by (rule main_books [OF c e]) (use x in simp)
  have "alone (At (PH_main q')) \<Longrightarrow> alone (At (PH_main q))" using c e x by (cases q) (auto simp: c_iff split: if_splits)
  with r p show "bound r = None \<or> bound r = bound (ps i)" by (auto simp del: alone.simps)
qed (use p r in auto)

lemma fed_main_create:
  assumes F: "ph_fed ps g" and I: "ph_inv ps M S g" and p: "ps i = At (PH_main PM_create)" and j: "ps j = Unborn" "j \<noteq> i"
  shows "ph_fed (ps(i := Made j (PH_main PM_run), j := New ph_driver_fn 0)) g"
proof -
  let ?ps = "ps(i := Made j (PH_main PM_run), j := New ph_driver_fn 0)"
  have i: "i = UTH_TID_INVALID" using ph_facts(1) [OF I, of i] p by simp
  have others: "ps x = Unborn" if "x \<noteq> i" for x using ph_facts(3) [OF I, of x] p that i by simp
  have pos: "x = i \<and> ?ps x = Made j (PH_main PM_run) \<or> x = j \<and> ?ps x = New ph_driver_fn 0 \<or> ?ps x = Unborn" for x using others [of x] j(2) by auto
  have "pend (?ps x) = None" for x using pos [of x] by auto
  then have b: "\<not> booked ?ps g k s" for k s using no_books [OF F, of i k s] p by (auto simp: booked_def)
  show ?thesis
  proof (rule ph_fedI)
    show "\<exists>k. booked ?ps g k x" if "is_phil (?ps x)" for x using that pos [of x] by (auto simp: philosopher_fn_def ph_driver_fn_def)
    show "joins_ok ?ps g (?ps x)" for x using pos [of x] by (elim disjE conjE) (simp_all only: joins_ok.simps)
  qed (use b ph_fedD(9) [OF F] in auto)
qed

section \<open>The program\<close>

definition ph_all :: "(u32 \<Rightarrow> ph_point pos) \<Rightarrow> (ptr \<rightharpoonup> u32 option) \<Rightarrow> (ptr \<rightharpoonup> int) \<Rightarrow> ph_globals \<Rightarrow> bool" where
  "ph_all ps M S g \<longleftrightarrow> ph_inv ps M S g \<and> ph_crew ps M S g \<and> meals_ok g \<and> ph_fed ps g"

lemma fed_compute:
  assumes A: "ph_all ps M S g" and p: "ps i = At p" and c: "ph_code argv e p g = Ok (Compute g' p')"
  shows "ph_fed (ps(i := At p')) g'"
proof -
  from A have I: "ph_inv ps M S g" and C: "ph_crew ps M S g" and F: "ph_fed ps g" by (simp_all add: ph_all_def)
  show ?thesis
  proof (cases p)
    case (PH_philosopher q)
    with c p fed_phil_compute [OF F] show ?thesis by auto
  next
    case (PH_driver q)
    with c p fed_driver_compute [OF F C] show ?thesis by auto
  next
    case (PH_main q)
    with c obtain q' where q': "ph_main argv e q g = Ok (Compute g' q')" "p' = PH_main q'" by auto
    show ?thesis
    proof (cases "q = PM_entry")
      case True
      with fed_main_entry [OF F I] p PH_main q' show ?thesis by simp
    next
      case False
      from fed_main_quiet [OF F p [unfolded PH_main] q'(1) False] q'(2) show ?thesis by simp
    qed
  qed (use c in simp)
qed

lemma fed_call:
  assumes A: "ph_all ps M S g" and p: "ps i = At p" and c: "ph_code argv e p g = Ok (Call a g' p')" and nc: "\<not> is_create a"
  shows "ph_fed (ps(i := issued a p')) g'"
proof -
  from A have I: "ph_inv ps M S g" and F: "ph_fed ps g" by (simp_all add: ph_all_def)
  show ?thesis
  proof (cases p)
    case (PH_philosopher q)
    with p ph_facts(1) [OF I, of i] have "i \<noteq> UTH_TID_INVALID" by auto
    with c p PH_philosopher fed_phil_call [OF F] show ?thesis by auto
  next
    case (PH_driver q)
    with c p nc fed_driver_call [OF F] show ?thesis by auto
  next
    case (PH_main q)
    with c obtain q' where q': "ph_main argv e q g = Ok (Call a g' q')" "p' = PH_main q'" by auto
    then have "q \<noteq> PM_entry" "issued a p' = Done p'" using nc by (cases q; auto simp: c_iff split: if_splits)+
    with fed_main_quiet [OF F p [unfolded PH_main] q'(1)] q'(2) show ?thesis by simp
  qed (use c in simp)
qed

lemma fed_create:
  assumes A: "ph_all ps M S g" and p: "ps i = At p" and c: "ph_code argv e p g = Ok (Call (A_create fn arg n env) g' p')"
  shows "\<lbrakk>ps j = Unborn; j \<noteq> i\<rbrakk> \<Longrightarrow> ph_fed (ps(i := Made j p', j := New fn arg)) g'" (is "_ \<Longrightarrow> _ \<Longrightarrow> ?made")
    "ph_fed (ps(i := At (ph_ret p' (RetTid UTH_TID_INVALID)))) g'" (is ?none)
proof -
  from A have I: "ph_inv ps M S g" and C: "ph_crew ps M S g" and F: "ph_fed ps g" by (simp_all add: ph_all_def)
  from ph_creates [OF c] consider q where "p = PH_driver q" | "p = PH_main PM_create" "p' = PH_main PM_run" by blast
  then have "(ps j = Unborn \<longrightarrow> j \<noteq> i \<longrightarrow> ?made) \<and> ?none"
  proof cases
    case (1 q)
    with c obtain a k where q: "q = PD_create a k" "k < ph_N g" "fn = philosopher_fn" "arg = elem_at a 4 k" "p' = PH_driver (PD_made a k 0)"
        "g' = g\<lparr>ph_args := (ph_args g)(elem_at a 4 k \<mapsto> k)\<rparr>" by (cases q) (auto simp: c_iff split: if_splits)
    have i: "i \<noteq> UTH_TID_INVALID" using ph_facts(1) [OF I, of i] p 1 by auto
    have k: "0 \<le> k" "ph_N g \<le> INT_MAX" using ph_facts(2) [OF I, of i] ph_facts(4) [OF I i] p 1 q(1) by auto
    note book = fed_book [OF F I C p [unfolded 1 q(1)] k(1) q(2) k(2) q(6)]
    have ?made if j: "ps j = Unborn" "j \<noteq> i"
    proof -
      have "j \<noteq> UTH_TID_INVALID" using ph_facts(1) [OF I, of j] j(1) by auto
      with j show ?thesis by (intro book [where t = j]) (auto simp: q)
    qed
    moreover have ?none by (intro book [where t = UTH_TID_INVALID]) (auto simp: q)
    ultimately show ?thesis by blast
  next
    case 2
    with c have g': "g' = g" "fn = ph_driver_fn" "arg = 0" by auto
    from c 2 have m: "ph_main argv e PM_create g = Ok (Call (A_create fn arg n env) g' PM_run)" by simp
    from fed_main_create [OF F I p [unfolded 2], of j] fed_main_quiet [OF F p [unfolded 2] m, of PM_run "At p'"] 2 g' show ?thesis by simp
  qed
  then show "\<lbrakk>ps j = Unborn; j \<noteq> i\<rbrakk> \<Longrightarrow> ?made" ?none by blast+
qed

lemma fed_effect:
  assumes A: "ph_all ps M S g" and p: "ps i = Await a p" and j: "join_ok a ps"
  shows "ph_fed (ps(i := Done p)) g"
proof -
  from A have I: "ph_inv ps M S g" and C: "ph_crew ps M S g" and F: "ph_fed ps g" by (simp_all add: ph_all_def)
  from ph_facts(2) [OF I, of i] p consider q where "p = PH_philosopher q" | q t w where "p = PH_driver q" "a = A_join t w"
    by (auto elim!: wanted.elims)
  then show ?thesis
  proof cases
    case 1
    with p show ?thesis by (intro fed_quiet [OF F]) auto
  next
    case (2 q t w)
    with ph_fedD(8) [OF F, of i] p obtain b c where c: "q = PD_join b (c + 1)" "ph_tids g c = Some t" "joined ps g c" by auto
    have "finished s ps" if k: "k < c + 1" "ph_tids g k = Some s" for k s
    proof (cases "k = c")
      case False
      with k(1) have "k < c" by simp
      with c(3) k(2) show ?thesis by (simp add: joined_def)
    qed (use k(2) c(2) j 2(2) in simp)
    then have "joined ps g (c + 1)" unfolding joined_def by blast
    with p 2 c show ?thesis by (intro fed_quiet [OF F]) auto
  qed
qed

lemma fed_return:
  assumes A: "ph_all ps M S g" and p: "ps i = Done p"
  shows "ph_fed (ps(i := At (ph_ret p r))) g"
proof -
  from A have F: "ph_fed ps g" and C: "ph_crew ps M S g" by (simp_all add: ph_all_def)
  have "storing p = None" using ph_crewD(2) [OF C, of i] p by simp
  then have "ph_ret p r = p" by (cases "(p, r)" rule: ph_ret.cases) auto
  moreover have "pend (At p) = None" using \<open>storing p = None\<close> by (cases "At p" rule: pend.cases) auto
  moreover have "array_of (At p) = None \<or> array_of (At p) = array_of (Done p)" using \<open>storing p = None\<close> by (cases "At p" rule: array_of.cases) auto
  moreover have "joins_ok ps g (At p)" using ph_fedD(8) [OF F, of i] p by (cases "(ps, g, At p)" rule: joins_ok.cases) auto
  ultimately show ?thesis using p by (intro fed_quiet [OF F]) auto
qed

lemma fed_created:
  assumes A: "ph_all ps M S g" and p: "ps i = Made t p"
  shows "ph_fed (ps(i := At (ph_ret p (RetTid t)))) g"
proof -
  from A have I: "ph_inv ps M S g" and F: "ph_fed ps g" by (simp_all add: ph_all_def)
  from ph_facts(2) [OF I, of i] p have "p = PH_main PM_run \<or> (\<exists>q. p = PH_driver q)" by auto
  then show ?thesis
  proof
    assume "\<exists>q. p = PH_driver q"
    with ph_fedD(8) [OF F, of i] p obtain a k u where "p = PH_driver (PD_made a k u)" by auto
    with p show ?thesis by (intro fed_quiet [OF F]) auto
  qed (use p in \<open>intro fed_quiet [OF F], auto\<close>)
qed

lemma fed_thread:
  assumes F: "ph_fed ps g" and p: "ps i = New fn arg"
  shows "ph_fed (ps(i := At (ph_start fn arg))) g"
  by (rule fed_quiet [OF F]) (use p in \<open>auto simp: ph_start_def philosopher_fn_def ph_driver_fn_def split: if_splits\<close>)

lemma fed_exit:
  assumes A: "ph_all ps M S g" and p: "ps i = At p" and c: "ph_code argv e p g = Ok (Finish v g')" and i: "i \<noteq> UTH_TID_INVALID"
  shows "ph_fed (ps(i := Ended)) g'"
proof -
  from A have I: "ph_inv ps M S g" and C: "ph_crew ps M S g" and M: "meals_ok g" and F: "ph_fed ps g" by (simp_all add: ph_all_def)
  show ?thesis
  proof (cases p)
    case (PH_main q)
    with ph_facts(1) [OF I, of i] p i show ?thesis by simp
  qed (use c p fed_phil_exit [OF F M] fed_driver_exit [OF F I C] in auto)
qed

interpretation phf: client_rules "philosophers argv" "PH_main PM_entry" ph_globals0 ph_all for argv
proof
  show "ph_all ((\<lambda>_. Unborn)(UTH_TID_INVALID := At (PH_main PM_entry))) (\<lambda>_. None) (\<lambda>_. None) ph_globals0"
    using ph.start phc.start
    by (auto simp: ph_all_def meals_ok_def ph_globals0_def ph_fed_def booked_def)
next
  fix ps M S g i p e g' p'
  assume A: "ph_all ps M S g" and p: "ps i = At p" and c: "p_code (philosophers argv) e p g = Ok (Compute g' p')"
  from A have I: "ph_inv ps M S g" and C: "ph_crew ps M S g" and F: "ph_fed ps g" and m: "meals_ok g" by (simp_all add: ph_all_def)
  from c have c': "ph_code argv e p g = Ok (Compute g' p')" by (simp add: philosophers_def)
  from ph.compute [OF I p c] phc.compute [OF C p c] code_meals_ok [OF c' m] fed_compute [OF A p c']
  show "ph_all (ps(i := At p')) M S g'" by (simp add: ph_all_def)
next
  fix ps M S g i p e a g' p' M' S'
  assume A: "ph_all ps M S g" and p: "ps i = At p" and c: "p_code (philosophers argv) e p g = Ok (Call a g' p')" and nc: "\<not> is_create a"
    and x: "issue i a (M, S) = Some (M', S')"
  from A have I: "ph_inv ps M S g" and C: "ph_crew ps M S g" and F: "ph_fed ps g" and m: "meals_ok g" by (simp_all add: ph_all_def)
  from c have c': "ph_code argv e p g = Ok (Call a g' p')" by (simp add: philosophers_def)
  from ph.call [OF I p c nc x] phc.call [OF C p c nc x] code_meals_ok [OF c' m] fed_call [OF A p c' nc]
  show "ph_all (ps(i := issued a p')) M' S' g'" by (simp add: ph_all_def)
next
  fix ps M S g i p e fn arg n env g' p' j
  assume A: "ph_all ps M S g" and p: "ps i = At p" and c: "p_code (philosophers argv) e p g = Ok (Call (A_create fn arg n env) g' p')"
    and j: "ps j = Unborn" "j \<noteq> i"
  from A have I: "ph_inv ps M S g" and C: "ph_crew ps M S g" and F: "ph_fed ps g" and m: "meals_ok g" by (simp_all add: ph_all_def)
  from c have c': "ph_code argv e p g = Ok (Call (A_create fn arg n env) g' p')" by (simp add: philosophers_def)
  from ph.create [OF I p c j] phc.create [OF C p c j] code_meals_ok [OF c' m] fed_create(1) [OF A p c' j]
  show "ph_all (ps(i := Made j p', j := New fn arg)) M S g'" by (simp add: ph_all_def)
next
  fix ps M S g i p e fn arg n env g' p'
  assume A: "ph_all ps M S g" and p: "ps i = At p" and c: "p_code (philosophers argv) e p g = Ok (Call (A_create fn arg n env) g' p')"
  from A have I: "ph_inv ps M S g" and C: "ph_crew ps M S g" and F: "ph_fed ps g" and m: "meals_ok g" by (simp_all add: ph_all_def)
  from c have c': "ph_code argv e p g = Ok (Call (A_create fn arg n env) g' p')" by (simp add: philosophers_def)
  from ph.no_create [OF I p c] phc.no_create [OF C p c] code_meals_ok [OF c' m] fed_create(2) [OF A p c']
  show "ph_all (ps(i := At (p_ret (philosophers argv) p' (RetTid UTH_TID_INVALID)))) M S g'" by (simp add: ph_all_def philosophers_def)
next
  fix ps M S g i a p M' S'
  assume A: "ph_all ps M S g" and p: "ps i = Await a p" and j: "join_ok a ps" and x: "complete i a (M, S) = Some (M', S')"
  from A have I: "ph_inv ps M S g" and C: "ph_crew ps M S g" and F: "ph_fed ps g" and m: "meals_ok g" by (simp_all add: ph_all_def)
  with ph.effect [OF I p j x] phc.effect [OF C p j x] fed_effect [OF A p j] show "ph_all (ps(i := Done p)) M' S' g" by (simp add: ph_all_def)
next
  fix ps M S g i p r
  assume A: "ph_all ps M S g" and p: "ps i = Done p"
  from A have I: "ph_inv ps M S g" and C: "ph_crew ps M S g" and F: "ph_fed ps g" and m: "meals_ok g" by (simp_all add: ph_all_def)
  with ph.return [OF I p] phc.return [OF C p] fed_return [OF A p]
  show "ph_all (ps(i := At (p_ret (philosophers argv) p r))) M S g" by (simp add: ph_all_def philosophers_def)
next
  fix ps M S g i j p k
  assume A: "ph_all ps M S g" and p: "ps i = Made j p" and k: "k \<noteq> UTH_TID_INVALID" "cooperative (philosophers argv) \<Longrightarrow> k = j"
  from A have I: "ph_inv ps M S g" and C: "ph_crew ps M S g" and F: "ph_fed ps g" and m: "meals_ok g" by (simp_all add: ph_all_def)
  have "k = j" by (rule k(2) [OF cooperative_philosophers])
  with ph.created [of ps M S g i j p k argv, OF I p k] phc.created [of ps M S g i j p k argv, OF C p k] fed_created [OF A p] m
  show "ph_all (ps(i := At (p_ret (philosophers argv) p (RetTid k)))) M S g" by (simp add: ph_all_def philosophers_def)
next
  fix ps M S g i fn arg
  assume A: "ph_all ps M S g" and p: "ps i = New fn arg"
  from A have I: "ph_inv ps M S g" and C: "ph_crew ps M S g" and F: "ph_fed ps g" and m: "meals_ok g" by (simp_all add: ph_all_def)
  with ph.thread [OF I p] phc.thread [OF C p] fed_thread [OF F p]
  show "ph_all (ps(i := At (p_start (philosophers argv) fn arg))) M S g" by (simp add: ph_all_def philosophers_def)
next
  fix ps M S g i p e v g'
  assume A: "ph_all ps M S g" and p: "ps i = At p" and c: "p_code (philosophers argv) e p g = Ok (Finish v g')" and i: "i \<noteq> UTH_TID_INVALID"
  from A have I: "ph_inv ps M S g" and C: "ph_crew ps M S g" and F: "ph_fed ps g" and m: "meals_ok g" by (simp_all add: ph_all_def)
  from c have c': "ph_code argv e p g = Ok (Finish v g')" by (simp add: philosophers_def)
  from ph.exit [OF I p c i] phc.exit [OF C p c i] code_meals_ok [OF c' m] fed_exit [OF A p c' i]
  show "ph_all (ps(i := Ended)) M S g'" by (simp add: ph_all_def)
next
  fix ps M S g p e g' p'
  assume A: "ph_all ps M S g" and p: "ps UTH_TID_INVALID = At p" and c: "p_code (philosophers argv) e p g = Ok (RunSched g' p')"
  from A have I: "ph_inv ps M S g" and C: "ph_crew ps M S g" and F: "ph_fed ps g" and m: "meals_ok g" by (simp_all add: ph_all_def)
  from c have c': "ph_code argv e p g = Ok (RunSched g' p')" by (simp add: philosophers_def)
  note q = code_run [OF c']
  have run: "ph_main argv e PM_run g = Ok (RunSched g' PM_print)" using c' q by simp
  from fed_main_quiet [OF F p [unfolded q(1)] run, of PM_print "InRun p'"] q(2) have "ph_fed (ps(UTH_TID_INVALID := InRun p')) g'" by simp
  with ph.run [OF I p c] phc.run [OF C p c] code_meals_ok [OF c' m] show "ph_all (ps(UTH_TID_INVALID := InRun p')) M S g'" by (simp add: ph_all_def)
next
  fix ps :: "u32 \<Rightarrow> ph_point pos" and M S g p
  assume A: "ph_all ps M S g" and p: "ps UTH_TID_INVALID = InRun p" and e: "\<And>i. i \<noteq> UTH_TID_INVALID \<Longrightarrow> ps i = Unborn \<or> ps i = Ended"
  from A have I: "ph_inv ps M S g" and C: "ph_crew ps M S g" and F: "ph_fed ps g" and m: "meals_ok g" by (simp_all add: ph_all_def)
  have "p = PH_main PM_print" using ph_facts(2) [OF I, of UTH_TID_INVALID] p by simp
  with p have "ph_fed (ps(UTH_TID_INVALID := At (ph_ret p RetVoid))) g" by (intro fed_quiet [OF F]) auto
  with ph.run_return [OF I p e] phc.run_return [OF C p e] m
  show "ph_all (ps(UTH_TID_INVALID := At (p_ret (philosophers argv) p RetVoid))) M S g" by (simp add: ph_all_def philosophers_def)
qed

end
