(* ===== verification/Uth_Preempt_Demo.thy ===== *)
theory Uth_Preempt_Demo
  imports Uth_Clib
begin

text \<open>
  \<open>examples/preempt_demo.c\<close>: two threads that never yield, with preemption enabled. Here \<open>SIGALRM\<close> may
  arrive anywhere, so every access to a shared variable and every iteration of the busy loop is a step of its own.
\<close>

section \<open>The program\<close>

definition WORK_ITERS :: int where
  "WORK_ITERS = 5"

text \<open>Thread \<open>a\<close> is \<open>False\<close>, thread \<open>b\<close> is \<open>True\<close>.\<close>

datatype pd_event = Ev_banner | Ev_progress bool int int | Ev_pd_final int int | Ev_verdict bool

record pd_globals =
  progress :: "bool \<Rightarrow> int"
  pd_log :: "pd_event list"

definition thread_a_fn :: ptr where "thread_a_fn = 1"
definition thread_b_fn :: ptr where "thread_b_fn = 2"
definition pd_driver_fn :: ptr where "pd_driver_fn = 3"

text \<open>\<open>atomic_fetch_add\<close> wraps around.\<close>

definition wrap_int :: "int \<Rightarrow> int" where
  "wrap_int v = (v + 2 ^ 31) mod 2 ^ 32 - 2 ^ 31"

text \<open>One iteration of the loop of \<open>cpu_burn\<close> at \<open>i = n\<close>.\<close>

definition cpu_burn :: "int \<Rightarrow> (int \<Rightarrow> int \<Rightarrow> 'p) \<Rightarrow> 'p \<Rightarrow> int \<Rightarrow> int \<Rightarrow> 'g \<Rightarrow> ('p, 'g) act res" where
  "cpu_burn millions again burnt n x g =
     (if n < millions * 1000000 then
        and_then (c_long (n * 3)) (\<lambda>m. and_then (c_long (m + 1)) (\<lambda>d. and_then (c_long (x + d)) (\<lambda>x'. Ok (Compute g (again (n + 1) x')))))
      else Ok (Compute g burnt))"

datatype pd_thread_point = TH_loop int | TH_burn int int int | TH_add int | TH_load int int | TH_print int int int

text \<open>The two thread functions are the same code with the counters exchanged.\<close>

fun pd_thread :: "bool \<Rightarrow> pd_thread_point \<Rightarrow> pd_globals \<Rightarrow> (pd_thread_point, pd_globals) act res" where
  "pd_thread w (TH_loop i) g = (if i < WORK_ITERS then Ok (Compute g (TH_burn i 0 0)) else Ok (Finish 0 g))"
| "pd_thread w (TH_burn i n x) g = cpu_burn 50 (TH_burn i) (TH_add i) n x g"
| "pd_thread w (TH_add i) g =
     and_then (c_int (progress g w + 1)) (\<lambda>p. Ok (Compute (g\<lparr>progress := (progress g)(w := wrap_int (progress g w + 1))\<rparr>) (TH_load i p)))"
| "pd_thread w (TH_load i p) g = Ok (Compute g (TH_print i p (progress g (\<not> w))))"
| "pd_thread w (TH_print i p q) g = Ok (Compute (g\<lparr>pd_log := pd_log g @ [Ev_progress w p q]\<rparr>) (TH_loop (i + 1)))"

definition thread_a :: "pd_thread_point \<Rightarrow> pd_globals \<Rightarrow> (pd_thread_point, pd_globals) act res" where
  "thread_a = pd_thread False"

definition thread_b :: "pd_thread_point \<Rightarrow> pd_globals \<Rightarrow> (pd_thread_point, pd_globals) act res" where
  "thread_b = pd_thread True"

datatype pd_driver_point = DV_a | DV_b u32 | DV_join_a u32 u32 | DV_join_b u32 | DV_return

fun pd_driver :: "os_choice \<Rightarrow> pd_driver_point \<Rightarrow> pd_globals \<Rightarrow> (pd_driver_point, pd_globals) act res" where
  "pd_driver e DV_a g = Ok (Call (A_create thread_a_fn 0 0 (os_create e)) g (DV_b 0))"
| "pd_driver e (DV_b a) g = Ok (Call (A_create thread_b_fn 0 0 (os_create e)) g (DV_join_a a 0))"
| "pd_driver e (DV_join_a a b) g = Ok (Call (A_join a False) g (DV_join_b b))"
| "pd_driver e (DV_join_b b) g = Ok (Call (A_join b False) g DV_return)"
| "pd_driver e DV_return g = Ok (Finish 0 g)"

datatype pd_main_point = DM_entry | DM_enable | DM_create | DM_run | DM_disable | DM_print | DM_verdict bool

fun pd_main :: "os_choice \<Rightarrow> pd_main_point \<Rightarrow> pd_globals \<Rightarrow> (pd_main_point, pd_globals) act res" where
  "pd_main e DM_entry g = Ok (Call A_init (g\<lparr>pd_log := pd_log g @ [Ev_banner]\<rparr>) DM_enable)"
| "pd_main e DM_enable g = Ok (Call (A_preempt_enable 10 (os_preempt e)) g DM_create)"
| "pd_main e DM_create g = Ok (Call (A_create pd_driver_fn 0 0 (os_create e)) g DM_run)"
| "pd_main e DM_run g = Ok (RunSched g DM_disable)"
| "pd_main e DM_disable g = Ok (Call A_preempt_disable g DM_print)"
| "pd_main e DM_print g =
     Ok (Compute (g\<lparr>pd_log := pd_log g @ [Ev_pd_final (progress g False) (progress g True)]\<rparr>)
       (DM_verdict (progress g False = WORK_ITERS \<and> progress g True = WORK_ITERS)))"
| "pd_main e (DM_verdict ok) g = Ok (Finish (if ok then 0 else 1) (g\<lparr>pd_log := pd_log g @ [Ev_verdict ok]\<rparr>))"

datatype pd_point = PD_thread bool pd_thread_point | PD_driver pd_driver_point | PD_main pd_main_point | PD_nowhere

fun pd_code :: "os_choice \<Rightarrow> pd_point \<Rightarrow> pd_globals \<Rightarrow> (pd_point, pd_globals) act res" where
  "pd_code e (PD_thread w p) g = within (PD_thread w) (if w then thread_b p g else thread_a p g)"
| "pd_code e (PD_driver p) g = within PD_driver (pd_driver e p g)"
| "pd_code e (PD_main p) g = within PD_main (pd_main e p g)"
| "pd_code e PD_nowhere g = Fault Unreachable"

definition pd_start :: "ptr \<Rightarrow> val \<Rightarrow> pd_point" where
  "pd_start fn arg =
     (if fn = thread_a_fn then PD_thread False (TH_loop 0)
      else if fn = thread_b_fn then PD_thread True (TH_loop 0)
      else if fn = pd_driver_fn then PD_driver DV_a
      else PD_nowhere)"

fun pd_ret :: "pd_point \<Rightarrow> ret \<Rightarrow> pd_point" where
  "pd_ret (PD_driver (DV_b a)) (RetTid j) = PD_driver (DV_b j)"
| "pd_ret (PD_driver (DV_join_a a b)) (RetTid j) = PD_driver (DV_join_a a j)"
| "pd_ret p r = p"

definition preempt_demo :: "(pd_point, pd_globals) prog" where
  "preempt_demo = \<lparr>p_start = pd_start, p_code = pd_code, p_ret = pd_ret\<rparr>"

definition pd_globals0 :: pd_globals where
  "pd_globals0 = \<lparr>progress = (\<lambda>_. 0), pd_log = []\<rparr>"

section \<open>Counting the progress\<close>

text \<open>
  Each of the two threads is made at most once. Its token goes from \<open>main\<close> to the driver and to the thread itself; who has it
  knows how often the thread has counted and printed.
\<close>

fun pd_stage_of :: "bool \<Rightarrow> pd_point \<Rightarrow> (int \<times> int) option" where
  "pd_stage_of w (PD_thread v p) =
     (if v = w then Some (case p of TH_loop i \<Rightarrow> (i, i) | TH_burn i n x \<Rightarrow> (i, i) | TH_add i \<Rightarrow> (i, i) | TH_load i p \<Rightarrow> (i + 1, i) | TH_print i p q \<Rightarrow> (i + 1, i))
      else None)"
| "pd_stage_of w (PD_driver q) = (if q = DV_a \<or> w \<and> (\<exists>a. q = DV_b a) then Some (0, 0) else None)"
| "pd_stage_of w (PD_main m) = (if m \<in> {DM_entry, DM_enable, DM_create} then Some (0, 0) else None)"
| "pd_stage_of w PD_nowhere = None"

fun pd_stage :: "bool \<Rightarrow> pd_point pos \<Rightarrow> (int \<times> int) option" where
  "pd_stage w (At p) = pd_stage_of w p"
| "pd_stage w (Done p) = pd_stage_of w p"
| "pd_stage w (Made j p) = pd_stage_of w p"
| "pd_stage w (Await a p) = pd_stage_of w p"
| "pd_stage w (New fn arg) = (if fn = pd_driver_fn \<or> fn = (if w then thread_b_fn else thread_a_fn) then Some (0, 0) else None)"
| "pd_stage w q = None"

fun pd_lines :: "bool \<Rightarrow> pd_event list \<Rightarrow> int list" where
  "pd_lines w [] = []"
| "pd_lines w (Ev_progress v p q # es) = (if v = w then p # pd_lines w es else pd_lines w es)"
| "pd_lines w (_ # es) = pd_lines w es"

lemma pd_lines_append [simp]: "pd_lines w (es @ es') = pd_lines w es @ pd_lines w es'"
  by (induction w es rule: pd_lines.induct) simp_all

text \<open>The counter values that are still in the registers of a thread, and the bounds of its loop.\<close>

fun pd_pos_ok :: "pd_point pos \<Rightarrow> bool" where
  "pd_pos_ok (At (PD_thread w p)) =
     (case p of TH_loop i \<Rightarrow> 0 \<le> i \<and> i \<le> WORK_ITERS | TH_burn i n x \<Rightarrow> 0 \<le> i \<and> i < WORK_ITERS | TH_add i \<Rightarrow> 0 \<le> i \<and> i < WORK_ITERS
      | TH_load i p \<Rightarrow> 0 \<le> i \<and> i < WORK_ITERS \<and> p = i + 1 | TH_print i p q \<Rightarrow> 0 \<le> i \<and> i < WORK_ITERS \<and> p = i + 1)"
| "pd_pos_ok (Done (PD_thread w p)) = False"
| "pd_pos_ok (Made j (PD_thread w p)) = False"
| "pd_pos_ok (Await a (PD_thread w p)) = False"
| "pd_pos_ok (InRun p) = (p = PD_main DM_disable)"
| "pd_pos_ok q = True"

definition pd_inv :: "(u32 \<Rightarrow> pd_point pos) \<Rightarrow> (ptr \<rightharpoonup> u32 option) \<Rightarrow> (ptr \<rightharpoonup> int) \<Rightarrow> pd_globals \<Rightarrow> bool" where
  "pd_inv ps M S g \<longleftrightarrow> (\<forall>i. pd_pos_ok (ps i)) \<and>
     (\<forall>w. tally (\<lambda>q. if pd_stage w q = None then 0 else 1) ps \<le> 1 \<and> 0 \<le> progress g w \<and> progress g w \<le> WORK_ITERS \<and>
        (\<exists>n. 0 \<le> n \<and> n \<le> progress g w \<and> progress g w \<le> n + 1 \<and> pd_lines w (pd_log g) = [1..n]) \<and>
        (\<forall>i k n. pd_stage w (ps i) = Some (k, n) \<longrightarrow> progress g w = k \<and> pd_lines w (pd_log g) = [1..n]))"

abbreviation pd_token :: "bool \<Rightarrow> pd_point pos \<Rightarrow> int" where
  "pd_token w q \<equiv> if pd_stage w q = None then 0 else 1"

definition pd_data :: "pd_globals \<Rightarrow> bool \<Rightarrow> int \<times> int list" where
  "pd_data g w = (progress g w, pd_lines w (pd_log g))"

fun pd_data_ok :: "int \<times> int list \<Rightarrow> bool" where
  "pd_data_ok (p, ls) = (0 \<le> p \<and> p \<le> WORK_ITERS \<and> (\<exists>n. 0 \<le> n \<and> n \<le> p \<and> p \<le> n + 1 \<and> ls = [1..n]))"

lemma pd_inv_alt: "pd_inv ps M S g \<longleftrightarrow> (\<forall>i. pd_pos_ok (ps i)) \<and>
    (\<forall>w. tally (pd_token w) ps \<le> 1 \<and> pd_data_ok (pd_data g w) \<and> (\<forall>i k n. pd_stage w (ps i) = Some (k, n) \<longrightarrow> pd_data g w = (k, [1..n])))"
  by (simp add: pd_inv_def pd_data_def)

lemma pd_staged: "\<lbrakk>pd_inv ps M S g; pd_stage w (ps i) = Some (k, n)\<rbrakk> \<Longrightarrow> pd_data g w = (k, [1..n])"
  by (simp add: pd_inv_alt)

lemma pd_unique:
  assumes "pd_inv ps M S g" and "pd_stage w (ps i) \<noteq> None" and "i \<noteq> j"
  shows "pd_stage w (ps j) = None"
proof (rule ccontr)
  assume "pd_stage w (ps j) \<noteq> None"
  moreover have "pd_token w (ps i) + pd_token w (ps j) \<le> tally (pd_token w) ps" by (rule tally_ge_two) (use assms(3) in simp_all)
  ultimately have "2 \<le> tally (pd_token w) ps" using assms(2) by (auto split: if_splits)
  with assms(1) show False by (auto simp: pd_inv_def dest: spec [of _ w])
qed

text \<open>A step of thread \<open>i\<close>: only who has the token of a thread changes its counter and prints its lines.\<close>

lemma pd_upd:
  assumes I: "pd_inv ps M S g" and q: "pd_pos_ok q" "\<And>w. pd_stage w q \<noteq> None \<Longrightarrow> pd_stage w (ps i) \<noteq> None"
    and d: "\<And>w. pd_data g' w = pd_data g w \<or> pd_stage w (ps i) \<noteq> None \<and> pd_data_ok (pd_data g' w)"
    and e: "\<And>w k n. pd_stage w q = Some (k, n) \<Longrightarrow> pd_data g' w = (k, [1..n])"
  shows "pd_inv (ps(i := q)) M' S' g'"
  unfolding pd_inv_alt
proof (intro conjI allI impI)
  show "pd_pos_ok ((ps(i := q)) j)" for j using I q(1) by (simp add: pd_inv_def)
  fix w
  show "tally (pd_token w) (ps(i := q)) \<le> 1" using I q(2) [of w] by (auto simp: pd_inv_def dest: spec [of _ w])
  show "pd_data_ok (pd_data g' w)" using I d [of w] by (auto simp: pd_inv_alt)
  fix j k n assume j: "pd_stage w ((ps(i := q)) j) = Some (k, n)"
  show "pd_data g' w = (k, [1..n])"
  proof (cases "j = i")
    case True
    with e j show ?thesis by simp
  next
    case False
    with j have "pd_stage w (ps i) = None" using pd_unique [OF I, of w i j] by fastforce
    with d [of w] I j False show ?thesis by (auto simp: pd_inv_alt)
  qed
qed

lemma pd_quiet:
  assumes I: "pd_inv ps M S g" and "pd_pos_ok q" and q: "\<And>w. pd_stage w q = pd_stage w (ps i) \<or> pd_stage w q = None" and g: "\<And>w. pd_data g' w = pd_data g w"
  shows "pd_inv (ps(i := q)) M' S' g'"
proof (rule pd_upd [OF I assms(2)])
  show "pd_stage w q \<noteq> None \<Longrightarrow> pd_stage w (ps i) \<noteq> None" for w using q [of w] by auto
  fix w k n assume "pd_stage w q = Some (k, n)"
  with q [of w] I g show "pd_data g' w = (k, [1..n])" by (auto simp: pd_inv_alt)
qed (use g in simp)

lemma pd_thread_step:
  assumes I: "pd_inv ps M S g" and p: "ps i = At (PD_thread w q)" and c: "pd_thread w q g = Ok (Compute g' q')"
  shows "pd_inv (ps(i := At (PD_thread w q'))) M' S' g'"
proof -
  have ok: "pd_pos_ok (At (PD_thread w q))" using I p by (simp add: pd_inv_def flip: p)
  have D: "pd_stage w (At (PD_thread w q)) = Some (k, n) \<Longrightarrow> pd_data g w = (k, [1..n])" for k n
    using I p unfolding pd_inv_alt by (metis (no_types, lifting))
  show ?thesis
  proof (cases q)
    case (TH_add k)
    with ok have "wrap_int (k + 1) = k + 1" by (simp add: wrap_int_def WORK_ITERS_def)
    with c D TH_add have g: "g' = g\<lparr>progress := (progress g)(w := k + 1)\<rparr>" "q' = TH_load k (k + 1)"
      by (auto simp: c_iff pd_data_def)
    show ?thesis by (rule pd_upd [OF I]) (use p ok D TH_add g in \<open>auto simp: pd_data_def split: if_splits\<close>)
  next
    case (TH_print k m b)
    with c have g: "g' = g\<lparr>pd_log := pd_log g @ [Ev_progress w m b]\<rparr>" "q' = TH_loop (k + 1)" by auto
    have "[1..k + 1] = [1..k] @ [k + 1]" using ok TH_print by (simp add: upto_rec2)
    then show ?thesis
      by (intro pd_upd [OF I]) (use p ok D TH_print g in \<open>auto simp: pd_data_def split: if_splits intro!: exI [of _ "k + 1"]\<close>)
  qed (use p ok c in \<open>auto intro!: pd_quiet [OF I] simp: cpu_burn_def c_iff split: if_splits\<close>)
qed

text \<open>The driver and \<open>main\<close>.\<close>

lemma pd_other_code:
  assumes "pd_code e p g = Ok x" and "\<And>w q. p \<noteq> PD_thread w q"
  shows "pd_data (act_glob x) w = pd_data g w"
    "act_point x = Some p' \<Longrightarrow> (\<forall>w q. p' \<noteq> PD_thread w q) \<and> (pd_stage_of w p' = pd_stage_of w p \<or> pd_stage_of w p' = None)"
    "x = RunSched g' p' \<Longrightarrow> p' = PD_main DM_disable"
    "x = Call (A_create fn arg n env) g' p' \<Longrightarrow> pd_stage w (New fn arg) = None \<or> pd_stage_of w p \<noteq> None \<and> pd_stage_of w p' = None"
proof -
  have "pd_data (act_glob x) w = pd_data g w \<and>
    (\<forall>p'. act_point x = Some p' \<longrightarrow> (\<forall>w q. p' \<noteq> PD_thread w q) \<and> (pd_stage_of w p' = pd_stage_of w p \<or> pd_stage_of w p' = None)) \<and>
    (\<forall>g' p'. x = RunSched g' p' \<longrightarrow> p' = PD_main DM_disable) \<and>
    (\<forall>fn arg n env g' p'. x = Call (A_create fn arg n env) g' p' \<longrightarrow> pd_stage w (New fn arg) = None \<or> pd_stage_of w p \<noteq> None \<and> pd_stage_of w p' = None)"
  proof (cases p)
    case (PD_driver q)
    with assms(1) show ?thesis by (cases q; cases x) (auto simp: thread_a_fn_def thread_b_fn_def pd_driver_fn_def split: if_splits)
  next
    case (PD_main q)
    with assms(1) show ?thesis by (cases q; cases x) (auto simp: pd_data_def)
  qed (use assms in auto)
  note * = this
  show "pd_data (act_glob x) w = pd_data g w" using * by simp
  show "act_point x = Some p' \<Longrightarrow> (\<forall>w q. p' \<noteq> PD_thread w q) \<and> (pd_stage_of w p' = pd_stage_of w p \<or> pd_stage_of w p' = None)" using * by simp
  show "x = RunSched g' p' \<Longrightarrow> p' = PD_main DM_disable" using * by simp
  show "x = Call (A_create fn arg n env) g' p' \<Longrightarrow> pd_stage w (New fn arg) = None \<or> pd_stage_of w p \<noteq> None \<and> pd_stage_of w p' = None" using * by simp
qed

lemma pd_ret_stage [simp]: "pd_stage_of w (pd_ret p r) = pd_stage_of w p" "pd_ret p r = PD_thread v q \<longleftrightarrow> p = PD_thread v q"
  by (cases "(p, r)" rule: pd_ret.cases; simp)+

lemma pd_pos_okI: "(\<And>w q. p \<noteq> PD_thread w q) \<Longrightarrow> pd_pos_ok (At p) \<and> pd_pos_ok (Done p) \<and> pd_pos_ok (Made j p) \<and> pd_pos_ok (Await a p)"
  by (cases p) auto

lemma pd_pos_okD: "pd_pos_ok (Done p) \<or> pd_pos_ok (Made j p) \<or> pd_pos_ok (Await a p) \<Longrightarrow> p \<noteq> PD_thread w q"
  by auto

lemma pd_thread_acts:
  assumes "pd_code e (PD_thread w q) g = Ok x"
  obtains g' q' where "x = Compute g' (PD_thread w q')" "pd_thread w q g = Ok (Compute g' q')" | v where "x = Finish v g"
  using assms by (cases q; cases x) (auto simp: thread_a_def thread_b_def cpu_burn_def c_iff split: if_splits)

lemma pd_no_call: "pd_code e p g = Ok (Call a g' p') \<Longrightarrow> p \<noteq> PD_thread w q" "pd_code e p g = Ok (RunSched g' p') \<Longrightarrow> p \<noteq> PD_thread w q"
  by (auto elim!: pd_thread_acts simp del: pd_code.simps)

lemma pd_inv_create:
  assumes I: "pd_inv ps M S g" and p: "ps i = At p" and c: "pd_code e p g = Ok (Call (A_create fn arg n env) g' p')" and j: "ps j = Unborn" "j \<noteq> i"
  shows "pd_inv (ps(i := Made j p', j := New fn arg)) M S g'"
proof -
  note o = pd_no_call(1) [OF c]
  have I1: "pd_inv (ps(i := Made j p')) M S g'"
    using pd_other_code(1,2) [OF c o] p pd_pos_okI [of p'] by (intro pd_quiet [OF I]) auto
  have g: "pd_data g' w = pd_data g w" for w using pd_other_code(1) [OF c o] by simp
  have new: "pd_stage w (New fn arg) = None \<or> pd_stage_of w p \<noteq> None \<and> pd_stage_of w p' = None" for w using pd_other_code(4) [OF c o] by simp
  have z: "pd_stage w (New fn arg) = Some (k, n) \<Longrightarrow> k = 0 \<and> n = 0" for w k n by (auto split: if_splits)
  have p0: "pd_stage_of w p = Some y \<Longrightarrow> y = (0, 0)" for w y using o by (cases p) (auto split: if_splits)
  show ?thesis unfolding pd_inv_alt
  proof (intro conjI allI impI)
    show "pd_pos_ok ((ps(i := Made j p', j := New fn arg)) k)" for k using I1 by (simp add: pd_inv_def)
    fix w
    have "pd_token w (ps j) = 0" "pd_token w (ps i) = (if pd_stage_of w p = None then 0 else 1)" "pd_token w (Made j p') \<le> pd_token w (ps i)"
      using j p pd_other_code(2) [OF c o, of p' w] by auto
    moreover have "tally (pd_token w) (ps(i := Made j p', j := New fn arg)) =
        tally (pd_token w) ps - pd_token w (ps i) + pd_token w (Made j p') - pd_token w (ps j) + pd_token w (New fn arg)"
      using j(2) by (simp only: tally_upd fun_upd_apply if_False)
    moreover have "pd_token w (New fn arg) + pd_token w (Made j p') \<le> pd_token w (ps i) \<or> pd_token w (New fn arg) = 0"
      using new [of w] p by (auto simp del: pd_stage.simps(5))
    moreover have "tally (pd_token w) ps \<le> 1" using I by (simp add: pd_inv_alt)
    ultimately show "tally (pd_token w) (ps(i := Made j p', j := New fn arg)) \<le> 1" by linarith
    show "pd_data_ok (pd_data g' w)" using I1 by (simp add: pd_inv_alt)
    fix k a b assume k: "pd_stage w ((ps(i := Made j p', j := New fn arg)) k) = Some (a, b)"
    show "pd_data g' w = (a, [1..b])"
    proof (cases "k = j")
      case False
      with k pd_staged [OF I1, of w k a b] show ?thesis by simp
    next
      case True
      with k z have ab: "a = 0" "b = 0" "pd_stage w (New fn arg) \<noteq> None" by (auto simp del: pd_stage.simps(5))
      with new [of w] p0 [of w] have "pd_stage w (ps i) = Some (0, 0)" using p by auto
      from pd_staged [OF I this] ab g show ?thesis by simp
    qed
  qed
qed

interpretation pd: client_rules preempt_demo "PD_main DM_entry" pd_globals0 pd_inv
proof (unfold_locales, unfold preempt_demo_def prog.simps)
  show "pd_inv ((\<lambda>_. Unborn)(UTH_TID_INVALID := At (PD_main DM_entry))) (\<lambda>_. None) (\<lambda>_. None) pd_globals0"
    by (auto simp: pd_inv_alt pd_globals0_def pd_data_def WORK_ITERS_def split: if_splits)
next
  fix ps M S g i p e g' p'
  assume I: "pd_inv ps M S g" and p: "ps i = At p" and c: "pd_code e p g = Ok (Compute g' p')"
  show "pd_inv (ps(i := At p')) M S g'"
  proof (cases "\<exists>w q. p = PD_thread w q")
    case True
    then obtain w q where q: "p = PD_thread w q" by blast
    with c obtain q' where "p' = PD_thread w q'" "pd_thread w q g = Ok (Compute g' q')" by (auto elim: pd_thread_acts simp del: pd_code.simps)
    with q p pd_thread_step [OF I, of i w q g' q'] show ?thesis by simp
  next
    case False
    with pd_other_code(1,2) [OF c] p pd_pos_okI [of p'] show ?thesis by (intro pd_quiet [OF I]) auto
  qed
next
  fix ps M S g i p e a g' p' M' S'
  assume I: "pd_inv ps M S g" and p: "ps i = At p" and c: "pd_code e p g = Ok (Call a g' p')"
  note o = pd_no_call(1) [OF c]
  from pd_other_code(1,2) [OF c o] p pd_pos_okI [where p = p' and a = a] show "pd_inv (ps(i := issued a p')) M' S' g'"
    by (intro pd_quiet [OF I]; cases rule: issued_cases [of a p']) auto
next
  fix ps M S g i p e fn arg n env g' p' j
  assume I: "pd_inv ps M S g" and p: "ps i = At p" and c: "pd_code e p g = Ok (Call (A_create fn arg n env) g' p')" and j: "ps j = Unborn" "j \<noteq> i"
  from pd_inv_create [OF this] show "pd_inv (ps(i := Made j p', j := New fn arg)) M S g'" .
next
  fix ps M S g i p e fn arg n env g' p'
  assume I: "pd_inv ps M S g" and p: "ps i = At p" and c: "pd_code e p g = Ok (Call (A_create fn arg n env) g' p')"
  note o = pd_no_call(1) [OF c]
  show "pd_inv (ps(i := At (pd_ret p' (RetTid UTH_TID_INVALID)))) M S g'"
    using pd_other_code(1,2) [OF c o] p pd_pos_okI [of "pd_ret p' (RetTid UTH_TID_INVALID)"] by (intro pd_quiet [OF I]) auto
next
  fix ps M S g i a p M' S'
  assume I: "pd_inv ps M S g" and p: "ps i = Await a p"
  then have "pd_pos_ok (Await a p)" by (metis pd_inv_def)
  with p pd_pos_okD [where p = p and a = a] pd_pos_okI [of p] show "pd_inv (ps(i := Done p)) M' S' g" by (intro pd_quiet [OF I]) auto
next
  fix ps M S g i p r
  assume I: "pd_inv ps M S g" and p: "ps i = Done p"
  then have "pd_pos_ok (Done p)" by (metis pd_inv_def)
  with p pd_pos_okD [of p] pd_pos_okI [of "pd_ret p r"] show "pd_inv (ps(i := At (pd_ret p r))) M S g" by (intro pd_quiet [OF I]) auto
next
  fix ps M S g i p j t
  assume I: "pd_inv ps M S g" and p: "ps i = Made t p"
  then have "pd_pos_ok (Made t p)" by (metis pd_inv_def)
  with p pd_pos_okD [where p = p and j = t] pd_pos_okI [of "pd_ret p (RetTid j)"] show "pd_inv (ps(i := At (pd_ret p (RetTid j)))) M S g" by (intro pd_quiet [OF I]) auto
next
  fix ps M S g i fn arg
  assume I: "pd_inv ps M S g" and p: "ps i = New fn arg"
  then show "pd_inv (ps(i := At (pd_start fn arg))) M S g"
    by (intro pd_quiet [OF I]) (auto simp: pd_start_def WORK_ITERS_def thread_a_fn_def thread_b_fn_def pd_driver_fn_def split: if_splits)
next
  fix ps M S g i p e v g'
  assume I: "pd_inv ps M S g" and p: "ps i = At p" and c: "pd_code e p g = Ok (Finish v g')"
  have "pd_data g' w = pd_data g w" for w
  proof (cases "\<exists>w q. p = PD_thread w q")
    case True
    with c show ?thesis by (auto elim: pd_thread_acts simp del: pd_code.simps)
  next
    case False
    with pd_other_code(1) [OF c] show ?thesis by simp
  qed
  with p show "pd_inv (ps(i := Ended)) M S g'" by (intro pd_quiet [OF I]) auto
next
  fix ps M S g p e g' p'
  assume I: "pd_inv ps M S g" and p: "ps UTH_TID_INVALID = At p" and c: "pd_code e p g = Ok (RunSched g' p')"
  note o = pd_no_call(2) [OF c]
  from pd_other_code(1,3) [OF c o] p show "pd_inv (ps(UTH_TID_INVALID := InRun p')) M S g'" by (intro pd_quiet [OF I]) auto
next
  fix ps :: "u32 \<Rightarrow> pd_point pos" and M S g p
  assume I: "pd_inv ps M S g" and p: "ps UTH_TID_INVALID = InRun p"
  then have "pd_pos_ok (InRun p)" by (metis pd_inv_def)
  with p show "pd_inv (ps(UTH_TID_INVALID := At (pd_ret p RetVoid))) M S g" by (intro pd_quiet [OF I]) auto
qed

section \<open>Runs through the busy loop\<close>

text \<open>The sum that \<open>cpu_burn\<close> computes stays far below the range of \<open>long\<close>, so the loop ends.\<close>

definition burn_sum :: "nat \<Rightarrow> int" where
  "burn_sum n = int n + 3 * (int n * (int n - 1) div 2)"

lemma burn_sum_Suc: "burn_sum (Suc n) = burn_sum n + (int n * 3 + 1)"
proof -
  have "int (Suc n) * (int (Suc n) - 1) = 2 * int n + int n * (int n - 1)" by (simp add: algebra_simps)
  then have "int (Suc n) * (int (Suc n) - 1) div 2 = int n + int n * (int n - 1) div 2" by simp
  then show ?thesis by (simp add: burn_sum_def)
qed

lemma burn_sum_range:
  assumes "n \<le> 50000000"
  shows "0 \<le> burn_sum n \<and> burn_sum n \<le> 4000000000000000"
proof -
  have "0 \<le> int n * (int n - 1)" by (cases n) simp_all
  moreover have "int n * (int n - 1) \<le> 50000000 * 50000000" using assms by (intro order_trans [OF mult_left_mono [of _ 50000000] mult_right_mono]) auto
  ultimately show ?thesis using assms by (simp add: burn_sum_def)
qed

lemma pd_compute_step:
  assumes "creachable preempt_demo p0 g0 ((User [], s), ps, g)" and "ps (self_tid s) = At (PD_thread w q)" and "pd_thread w q g = Ok (Compute g' q')"
  shows "creachable preempt_demo p0 g0 ((User [], s), ps(self_tid s := At (PD_thread w q')), g')"
proof -
  have "p_code preempt_demo e (PD_thread w q) g = Ok (Compute g' (PD_thread w q'))" for e
    using assms(3) by (cases w) (simp_all add: preempt_demo_def thread_a_def thread_b_def)
  with c_next [OF assms(1) c_compute [of ps s _ preempt_demo undefined g g' "PD_thread w q'"]] assms(2) show ?thesis by simp
qed

lemma burn_step:
  assumes "n < 50000000"
  shows "pd_thread w (TH_burn i (int n) (burn_sum n)) g = Ok (Compute g (TH_burn i (int (Suc n)) (burn_sum (Suc n))))"
  using assms burn_sum_range [of n] burn_sum_range [of "Suc n"] by (simp add: cpu_burn_def c_long_def burn_sum_Suc add.commute [of 1])

lemma burn_runs:
  assumes "creachable preempt_demo p0 g0 ((User [], s), ps, g)" and "ps (self_tid s) = At (PD_thread w (TH_burn i (int n) (burn_sum n)))" and "n + k = 50000000"
  shows "creachable preempt_demo p0 g0 ((User [], s), ps(self_tid s := At (PD_thread w (TH_add i))), g)"
  using assms
proof (induction k arbitrary: n ps)
  case 0
  then have "pd_thread w (TH_burn i (int n) (burn_sum n)) g = Ok (Compute g (TH_add i))" by (simp add: cpu_burn_def)
  from pd_compute_step [OF 0(1,2) this] show ?case .
next
  case (Suc k)
  then have "n < 50000000" "Suc n + k = 50000000" by simp_all
  from Suc.IH [OF pd_compute_step [OF Suc.prems(1,2) burn_step [OF this(1)]] _ this(2)] show ?case unfolding fun_upd_upd by simp
qed

lemma line_printed:
  assumes r: "creachable preempt_demo p0 g0 ((User [], s), ps, g)" and p: "ps (self_tid s) = At (PD_thread w (TH_burn i 0 0))" "progress g w = 0"
  obtains ps' g' where "creachable preempt_demo p0 g0 ((User [], s), ps', g')" "progress g' w = 1" "progress g' (\<not> w) = progress g (\<not> w)" "pd_log g' = pd_log g @ [Ev_progress w 1 (progress g (\<not> w))]"
proof -
  have "ps (self_tid s) = At (PD_thread w (TH_burn i (int 0) (burn_sum 0)))" using p(1) by (simp add: burn_sum_def)
  note r1 = burn_runs [OF r this, of 50000000, simplified]
  let ?g = "g\<lparr>progress := (progress g)(w := 1)\<rparr>"
  have "pd_thread w (TH_add i) g = Ok (Compute ?g (TH_load i 1))" by (simp add: p(2) c_int_def INT_MAX_def wrap_int_def)
  note r2 = pd_compute_step [OF r1 _ this]
  have "pd_thread w (TH_load i 1) ?g = Ok (Compute ?g (TH_print i 1 (progress g (\<not> w))))" by simp
  note r3 = pd_compute_step [OF r2 _ this]
  have "pd_thread w (TH_print i 1 (progress g (\<not> w))) ?g = Ok (Compute (?g\<lparr>pd_log := pd_log g @ [Ev_progress w 1 (progress g (\<not> w))]\<rparr>) (TH_loop (i + 1)))" by simp
  note r4 = pd_compute_step [OF r3 _ this]
  from that [OF r4] show ?thesis by simp
qed

end
