(* ===== verification/Uth_Bench.thy ===== *)
theory Uth_Bench
  imports Uth_Clib
begin

text \<open>
  \<open>bench/bench.c\<close>, compiled for \<open>uthreads\<close>: thread creation, mutex contention and a semaphore ping-pong. The measured times
  have no influence on the rest of the program and are left out. \<open>contend_counter++\<close> is a load and a store, which are two steps. A local variable whose address is
  given to a thread has an address of its own in \<open>b_ints\<close> while its function is active.
\<close>

section \<open>The program\<close>

definition CONTENTION_THREADS :: int where "CONTENTION_THREADS = 4"
definition CONTENTION_ROUNDS :: int where "CONTENTION_ROUNDS = 100000"
definition PING_ROUNDS :: int where "PING_ROUNDS = 50000"

datatype bench_event =
    Ev_suite | Ev_section nat | Ev_create_join int | Ev_contention int int int | Ev_switches int | Ev_bench_done

record bench_globals =
  contend_counter :: int
  b_ints :: "ptr \<rightharpoonup> int"
  b_log :: "bench_event list"

definition b_print :: "bench_event \<Rightarrow> bench_globals \<Rightarrow> bench_globals" where
  "b_print ev g = g\<lparr>b_log := b_log g @ [ev]\<rparr>"

definition contend_mutex_at :: ptr where "contend_mutex_at = 1"
definition ping_sem_at :: ptr where "ping_sem_at = 2"
definition pong_sem_at :: ptr where "pong_sem_at = 3"
definition noop_fn :: ptr where "noop_fn = 1"
definition contend_fn :: ptr where "contend_fn = 2"
definition ping_fn :: ptr where "ping_fn = 3"
definition pong_fn :: ptr where "pong_fn = 4"
definition bench_main_fn :: ptr where "bench_main_fn = 5"

type_synonym tid_array = "int \<rightharpoonup> u32"

subsection \<open>The thread functions\<close>

definition noop_thread :: "bench_globals \<Rightarrow> ('p, bench_globals) act res" where
  "noop_thread g = Ok (Finish 0 g)"

datatype contend_point = CT_entry ptr | CT_loop int int | CT_load int int | CT_store int int int

fun contend_thread :: "contend_point \<Rightarrow> bench_globals \<Rightarrow> (contend_point, bench_globals) act res" where
  "contend_thread (CT_entry a) g = and_then (mem_get (b_ints g) a) (\<lambda>rounds. Ok (Compute g (CT_loop rounds 0)))"
| "contend_thread (CT_loop rounds i) g =
     (if i < rounds then Ok (Call (A_mutex_lock contend_mutex_at) g (CT_load rounds i)) else Ok (Finish 0 g))"
| "contend_thread (CT_load rounds i) g = Ok (Compute g (CT_store rounds i (contend_counter g)))"
| "contend_thread (CT_store rounds i v) g =
     and_then (c_long (v + 1)) (\<lambda>n. Ok (Call (A_mutex_unlock contend_mutex_at) (g\<lparr>contend_counter := n\<rparr>) (CT_loop rounds (i + 1))))"

text \<open>\<open>ping_thread\<close> and \<open>pong_thread\<close> differ in the order of the semaphores only.\<close>

datatype pp_point = PP_entry ptr | PP_wait int int | PP_post int int

fun pp_thread :: "ptr \<Rightarrow> ptr \<Rightarrow> pp_point \<Rightarrow> bench_globals \<Rightarrow> (pp_point, bench_globals) act res" where
  "pp_thread mine other (PP_entry a) g = and_then (mem_get (b_ints g) a) (\<lambda>rounds. Ok (Compute g (PP_wait rounds 0)))"
| "pp_thread mine other (PP_wait rounds i) g =
     (if i < rounds then Ok (Call (A_sem_wait mine) g (PP_post rounds i)) else Ok (Finish 0 g))"
| "pp_thread mine other (PP_post rounds i) g = Ok (Call (A_sem_post other) g (PP_wait rounds (i + 1)))"

definition ping_thread :: "pp_point \<Rightarrow> bench_globals \<Rightarrow> (pp_point, bench_globals) act res" where
  "ping_thread = pp_thread ping_sem_at pong_sem_at"

definition pong_thread :: "pp_point \<Rightarrow> bench_globals \<Rightarrow> (pp_point, bench_globals) act res" where
  "pong_thread = pp_thread pong_sem_at ping_sem_at"

subsection \<open>The benchmarks\<close>

text \<open>Each benchmark is a function that \<open>bench_main_thread\<close> calls; \<open>here\<close> are its own points and \<open>back\<close> is the point after the call.\<close>

datatype bc_point = BC_create int int tid_array | BC_made int int tid_array u32 | BC_join int int tid_array

fun bench_create :: "os_choice \<Rightarrow> (bc_point \<Rightarrow> 'p) \<Rightarrow> 'p \<Rightarrow> bc_point \<Rightarrow> bench_globals \<Rightarrow> ('p, bench_globals) act res" where
  "bench_create e here back (BC_create n i tids) g =
     (if i < n then Ok (Call (A_create noop_fn 0 0 (os_create e)) g (here (BC_made n i tids 0))) else Ok (Compute g (here (BC_join n 0 tids))))"
| "bench_create e here back (BC_made n i tids t) g = Ok (Compute g (here (BC_create n (i + 1) (tids(i \<mapsto> t)))))"
| "bench_create e here back (BC_join n i tids) g =
     (if i < n then and_then (mem_get tids i) (\<lambda>t. Ok (Call (A_join t False) g (here (BC_join n (i + 1) tids))))
      else Ok (Compute (b_print (Ev_create_join n) g) back))"

datatype bm_point =
    BM_entry | BM_reset ptr | BM_create ptr int tid_array | BM_made ptr int tid_array u32 | BM_join ptr int tid_array | BM_return ptr

fun bench_mutex :: "os_choice \<Rightarrow> (bm_point \<Rightarrow> 'p) \<Rightarrow> 'p \<Rightarrow> bm_point \<Rightarrow> bench_globals \<Rightarrow> ('p, bench_globals) act res" where
  "bench_mutex e here back BM_entry g =
     Ok (Call (A_mutex_init contend_mutex_at) (g\<lparr>b_ints := (b_ints g)(os_malloc e 0 \<mapsto> CONTENTION_ROUNDS)\<rparr>) (here (BM_reset (os_malloc e 0))))"
| "bench_mutex e here back (BM_reset a) g = Ok (Compute (g\<lparr>contend_counter := 0\<rparr>) (here (BM_create a 0 (\<lambda>_. None))))"
| "bench_mutex e here back (BM_create a i tids) g =
     (if i < CONTENTION_THREADS then Ok (Call (A_create contend_fn a 0 (os_create e)) g (here (BM_made a i tids 0)))
      else Ok (Compute g (here (BM_join a 0 tids))))"
| "bench_mutex e here back (BM_made a i tids t) g = Ok (Compute g (here (BM_create a (i + 1) (tids(i \<mapsto> t)))))"
| "bench_mutex e here back (BM_join a i tids) g =
     (if i < CONTENTION_THREADS then and_then (mem_get tids i) (\<lambda>t. Ok (Call (A_join t False) g (here (BM_join a (i + 1) tids))))
      else
        and_then (c_long (CONTENTION_THREADS * CONTENTION_ROUNDS)) (\<lambda>total_ops.
          Ok (Call (A_mutex_destroy contend_mutex_at) (b_print (Ev_contention total_ops (contend_counter g) total_ops) g) (here (BM_return a)))))"
| "bench_mutex e here back (BM_return a) g = Ok (Compute (g\<lparr>b_ints := (b_ints g)(a := None)\<rparr>) back)"

datatype bx_point =
    BX_entry | BX_pong ptr | BX_t1 ptr | BX_t2 ptr u32 | BX_join1 ptr u32 u32 | BX_join2 ptr u32 | BX_print ptr | BX_destroy ptr | BX_return ptr

fun bench_ctxswitch :: "os_choice \<Rightarrow> (bx_point \<Rightarrow> 'p) \<Rightarrow> 'p \<Rightarrow> bx_point \<Rightarrow> bench_globals \<Rightarrow> ('p, bench_globals) act res" where
  "bench_ctxswitch e here back BX_entry g =
     Ok (Call (A_sem_init ping_sem_at 1) (g\<lparr>b_ints := (b_ints g)(os_malloc e 0 \<mapsto> PING_ROUNDS)\<rparr>) (here (BX_pong (os_malloc e 0))))"
| "bench_ctxswitch e here back (BX_pong a) g = Ok (Call (A_sem_init pong_sem_at 0) g (here (BX_t1 a)))"
| "bench_ctxswitch e here back (BX_t1 a) g = Ok (Call (A_create ping_fn a 0 (os_create e)) g (here (BX_t2 a 0)))"
| "bench_ctxswitch e here back (BX_t2 a t1) g = Ok (Call (A_create pong_fn a 0 (os_create e)) g (here (BX_join1 a t1 0)))"
| "bench_ctxswitch e here back (BX_join1 a t1 t2) g = Ok (Call (A_join t1 False) g (here (BX_join2 a t2)))"
| "bench_ctxswitch e here back (BX_join2 a t2) g = Ok (Call (A_join t2 False) g (here (BX_print a)))"
| "bench_ctxswitch e here back (BX_print a) g =
     and_then (c_long (PING_ROUNDS * 2)) (\<lambda>switches. Ok (Call (A_sem_destroy ping_sem_at) (b_print (Ev_switches switches) g) (here (BX_destroy a))))"
| "bench_ctxswitch e here back (BX_destroy a) g = Ok (Call (A_sem_destroy pong_sem_at) g (here (BX_return a)))"
| "bench_ctxswitch e here back (BX_return a) g = Ok (Compute (g\<lparr>b_ints := (b_ints g)(a := None)\<rparr>) back)"

datatype bt_point = BT_entry | BT_create1 bc_point | BT_create2 bc_point | BT_mid1 | BT_mutex bm_point | BT_mid2 | BT_ctx bx_point | BT_end

fun bench_main_thread :: "os_choice \<Rightarrow> bt_point \<Rightarrow> bench_globals \<Rightarrow> (bt_point, bench_globals) act res" where
  "bench_main_thread e BT_entry g = Ok (Compute (b_print (Ev_section 1) g) (BT_create1 (BC_create 100 0 (\<lambda>_. None))))"
| "bench_main_thread e (BT_create1 p) g = bench_create e BT_create1 (BT_create2 (BC_create 500 0 (\<lambda>_. None))) p g"
| "bench_main_thread e (BT_create2 p) g = bench_create e BT_create2 BT_mid1 p g"
| "bench_main_thread e BT_mid1 g = Ok (Compute (b_print (Ev_section 2) g) (BT_mutex BM_entry))"
| "bench_main_thread e (BT_mutex p) g = bench_mutex e BT_mutex BT_mid2 p g"
| "bench_main_thread e BT_mid2 g = Ok (Compute (b_print (Ev_section 3) g) (BT_ctx BX_entry))"
| "bench_main_thread e (BT_ctx p) g = bench_ctxswitch e BT_ctx BT_end p g"
| "bench_main_thread e BT_end g = Ok (Finish 0 (b_print Ev_bench_done g))"

datatype bench_main_point = BN_entry | BN_create | BN_run u32 | BN_join u32 | BN_return

fun bench_main :: "os_choice \<Rightarrow> bench_main_point \<Rightarrow> bench_globals \<Rightarrow> (bench_main_point, bench_globals) act res" where
  "bench_main e BN_entry g = Ok (Call A_init (b_print Ev_suite g) BN_create)"
| "bench_main e BN_create g = Ok (Call (A_create bench_main_fn 0 0 (os_create e)) g (BN_run 0))"
| "bench_main e (BN_run t) g = Ok (RunSched g (BN_join t))"
| "bench_main e (BN_join t) g = Ok (Call (A_join t False) g BN_return)"
| "bench_main e BN_return g = Ok (Finish 0 g)"

subsection \<open>The whole program\<close>

datatype bench_point =
    B_noop | B_contend contend_point | B_ping pp_point | B_pong pp_point | B_thread bt_point | B_main bench_main_point | B_nowhere

fun bench_code :: "os_choice \<Rightarrow> bench_point \<Rightarrow> bench_globals \<Rightarrow> (bench_point, bench_globals) act res" where
  "bench_code e B_noop g = noop_thread g"
| "bench_code e (B_contend p) g = within B_contend (contend_thread p g)"
| "bench_code e (B_ping p) g = within B_ping (ping_thread p g)"
| "bench_code e (B_pong p) g = within B_pong (pong_thread p g)"
| "bench_code e (B_thread p) g = within B_thread (bench_main_thread e p g)"
| "bench_code e (B_main p) g = within B_main (bench_main e p g)"
| "bench_code e B_nowhere g = Fault Unreachable"

definition bench_start :: "ptr \<Rightarrow> val \<Rightarrow> bench_point" where
  "bench_start fn arg =
     (if fn = noop_fn then B_noop
      else if fn = contend_fn then B_contend (CT_entry arg)
      else if fn = ping_fn then B_ping (PP_entry arg)
      else if fn = pong_fn then B_pong (PP_entry arg)
      else if fn = bench_main_fn then B_thread BT_entry
      else B_nowhere)"

text \<open>The places that store the result of \<open>uth_create\<close>.\<close>

fun bench_ret :: "bench_point \<Rightarrow> ret \<Rightarrow> bench_point" where
  "bench_ret (B_thread (BT_create1 (BC_made n i tids t))) (RetTid j) = B_thread (BT_create1 (BC_made n i tids j))"
| "bench_ret (B_thread (BT_create2 (BC_made n i tids t))) (RetTid j) = B_thread (BT_create2 (BC_made n i tids j))"
| "bench_ret (B_thread (BT_mutex (BM_made a i tids t))) (RetTid j) = B_thread (BT_mutex (BM_made a i tids j))"
| "bench_ret (B_thread (BT_ctx (BX_t2 a t))) (RetTid j) = B_thread (BT_ctx (BX_t2 a j))"
| "bench_ret (B_thread (BT_ctx (BX_join1 a t1 t))) (RetTid j) = B_thread (BT_ctx (BX_join1 a t1 j))"
| "bench_ret (B_main (BN_run t)) (RetTid j) = B_main (BN_run j)"
| "bench_ret p r = p"

definition bench :: "(bench_point, bench_globals) prog" where
  "bench = \<lparr>p_start = bench_start, p_code = bench_code, p_ret = bench_ret\<rparr>"

definition bench_globals0 :: bench_globals where
  "bench_globals0 = \<lparr>contend_counter = 0, b_ints = (\<lambda>_. None), b_log = []\<rparr>"

end
