(* ===== verification/Uth_Bench_Inv.thy ===== *)
theory Uth_Bench_Inv
  imports Uth_Bench
begin

text \<open>
  The mutex benchmark counts exactly: a thread that adds to \<open>contend_counter\<close> holds \<open>contend_mutex\<close>, so no addition is lost, and
  \<open>bench_mutex\<close> waits for all threads it made before it prints the counter. The proof is on the abstract machine.
\<close>

section \<open>Where threads are\<close>

text \<open>A function of the program point of a thread that has one.\<close>

fun on_point :: "'a \<Rightarrow> ('p \<Rightarrow> 'a) \<Rightarrow> 'p pos \<Rightarrow> 'a" where
  "on_point d f (At p) = f p"
| "on_point d f (Done p) = f p"
| "on_point d f (Made j p) = f p"
| "on_point d f (Await a p) = f p"
| "on_point d f _ = d"

text \<open>The rounds that are still to come, of a thread and of a thread that is not started.\<close>

fun ct_rest :: "contend_point \<Rightarrow> int" where
  "ct_rest (CT_entry a) = CONTENTION_ROUNDS"
| "ct_rest (CT_loop r i) = r - i"
| "ct_rest (CT_load r i) = r - i"
| "ct_rest (CT_store r i v) = r - i"

fun rest_of :: "bench_point \<Rightarrow> int" where
  "rest_of (B_contend p) = ct_rest p"
| "rest_of _ = 0"

fun is_contend :: "bench_point \<Rightarrow> bool" where
  "is_contend (B_contend p) = True"
| "is_contend _ = False"

fun is_bench :: "bench_point \<Rightarrow> bool" where
  "is_bench (B_thread p) = True"
| "is_bench (B_main m) = (m = BN_entry \<or> m = BN_create)"
| "is_bench _ = False"

definition rest :: "bench_point pos \<Rightarrow> int" where
  "rest q = (case q of New fn arg \<Rightarrow> if fn = contend_fn then CONTENTION_ROUNDS else 0 | _ \<Rightarrow> on_point 0 rest_of q)"

definition contends :: "bench_point pos \<Rightarrow> bool" where
  "contends q = (case q of New fn arg \<Rightarrow> fn = contend_fn | _ \<Rightarrow> on_point False is_contend q)"

definition benches :: "bench_point pos \<Rightarrow> bool" where
  "benches q = (case q of New fn arg \<Rightarrow> fn = bench_main_fn | _ \<Rightarrow> on_point False is_bench q)"

abbreviation bench_token :: "bench_point pos \<Rightarrow> int" where
  "bench_token q \<equiv> if benches q then 1 else 0"

text \<open>The threads that \<open>bench_mutex\<close> has made and not joined, and how many it has made.\<close>

definition stored :: "int \<Rightarrow> int \<Rightarrow> tid_array \<Rightarrow> u32 set" where
  "stored i n tids = {t. \<exists>k. i \<le> k \<and> k < n \<and> tids k = Some t}"

definition successes :: "int \<Rightarrow> tid_array \<Rightarrow> int" where
  "successes n tids = (\<Sum>k\<in>{0..<n}. if tids k = Some UTH_TID_INVALID then 0 else 1)"

fun bm_live :: "bm_point \<Rightarrow> u32 set" where
  "bm_live (BM_create a i tids) = stored 0 i tids"
| "bm_live (BM_made a i tids t) = insert t (stored 0 i tids)"
| "bm_live (BM_join a i tids) = stored i CONTENTION_THREADS tids"
| "bm_live _ = {}"

fun bm_count :: "bm_point \<Rightarrow> int option" where
  "bm_count (BM_create a i tids) = Some (successes i tids)"
| "bm_count (BM_made a i tids t) = Some (successes i tids + (if t = UTH_TID_INVALID then 0 else 1))"
| "bm_count (BM_join a i tids) = Some (successes CONTENTION_THREADS tids)"
| "bm_count _ = None"

fun bm_rounds :: "bm_point \<Rightarrow> ptr option" where
  "bm_rounds BM_entry = None"
| "bm_rounds (BM_reset a) = Some a"
| "bm_rounds (BM_create a i tids) = Some a"
| "bm_rounds (BM_made a i tids t) = Some a"
| "bm_rounds (BM_join a i tids) = Some a"
| "bm_rounds (BM_return a) = Some a"

fun in_mutex :: "'a \<Rightarrow> (bm_point \<Rightarrow> 'a) \<Rightarrow> bench_point \<Rightarrow> 'a" where
  "in_mutex d f (B_thread (BT_mutex m)) = f m"
| "in_mutex d f _ = d"

definition live :: "bench_point pos \<Rightarrow> u32 set" where
  "live q = on_point {} (in_mutex {} bm_live) q \<union>
     (case q of Made j p \<Rightarrow> if in_mutex False (\<lambda>_. True) p then {j} else {}
      | Await (A_join t want) p \<Rightarrow> if in_mutex False (\<lambda>_. True) p then {t} else {} | _ \<Rightarrow> {})"

definition counted :: "bench_point pos \<Rightarrow> int option" where
  "counted q = (case q of Made j p \<Rightarrow> map_option ((+) 1) (in_mutex None bm_count p) | _ \<Rightarrow> on_point None (in_mutex None bm_count) q)"

definition rounds_at :: "bench_point pos \<Rightarrow> ptr option" where
  "rounds_at q = on_point None (in_mutex None bm_rounds) q"

fun arg_at :: "bench_point pos \<Rightarrow> ptr option" where
  "arg_at (New fn arg) = (if fn = contend_fn then Some arg else None)"
| "arg_at (At (B_contend (CT_entry a))) = Some a"
| "arg_at _ = None"

fun critical :: "bench_point pos \<Rightarrow> bool" where
  "critical (Done (B_contend (CT_load r i))) = True"
| "critical (At (B_contend (CT_load r i))) = True"
| "critical (At (B_contend (CT_store r i v))) = True"
| "critical _ = False"

fun loaded :: "bench_point pos \<Rightarrow> int option" where
  "loaded (At (B_contend (CT_store r i v))) = Some v"
| "loaded _ = None"

fun ct_ok :: "contend_point \<Rightarrow> bool" where
  "ct_ok (CT_entry a) = True"
| "ct_ok (CT_loop r i) = (r = CONTENTION_ROUNDS \<and> 0 \<le> i \<and> i \<le> r)"
| "ct_ok (CT_load r i) = (r = CONTENTION_ROUNDS \<and> 0 \<le> i \<and> i < r)"
| "ct_ok (CT_store r i v) = (r = CONTENTION_ROUNDS \<and> 0 \<le> i \<and> i < r)"

fun bm_ok :: "bm_point \<Rightarrow> bool" where
  "bm_ok (BM_create a i tids) = (0 \<le> i \<and> i \<le> CONTENTION_THREADS)"
| "bm_ok (BM_made a i tids t) = (0 \<le> i \<and> i < CONTENTION_THREADS)"
| "bm_ok (BM_join a i tids) = (0 \<le> i \<and> i \<le> CONTENTION_THREADS)"
| "bm_ok _ = True"

fun point_ok :: "bench_point \<Rightarrow> bool" where
  "point_ok (B_contend p) = ct_ok p"
| "point_ok (B_thread (BT_mutex m)) = bm_ok m"
| "point_ok _ = True"

fun b_pos_ok :: "bench_point pos \<Rightarrow> bool" where
  "b_pos_ok (At p) = point_ok p"
| "b_pos_ok (Done p) = (point_ok p \<and> (case p of B_contend c \<Rightarrow> (\<exists>r i. c = CT_load r i \<or> c = CT_loop r i) | B_thread (BT_mutex (BM_made a i tids t)) \<Rightarrow> False | _ \<Rightarrow> True))"
| "b_pos_ok (Made j p) = (point_ok p \<and> \<not> is_contend p \<and> (\<forall>m. p = B_thread (BT_mutex m) \<longrightarrow> (\<exists>a i tids. m = BM_made a i tids UTH_TID_INVALID)))"
| "b_pos_ok (Await a p) = (point_ok p \<and>
     (case a of A_mutex_lock m \<Rightarrow> m = contend_mutex_at \<and> (\<exists>r i. p = B_contend (CT_load r i))
      | A_cond_wait c m \<Rightarrow> False
      | A_join t want \<Rightarrow> \<not> is_contend p \<and> (\<forall>m. p = B_thread (BT_mutex m) \<longrightarrow> (\<exists>b i tids. m = BM_join b i tids))
      | _ \<Rightarrow> \<not> is_contend p \<and> (\<forall>m. p \<noteq> B_thread (BT_mutex m))))"
| "b_pos_ok (InRun p) = (\<exists>t. p = B_main (BN_join t))"
| "b_pos_ok q = True"

definition contend_ok :: "(u32 \<Rightarrow> bench_point pos) \<Rightarrow> bool" where
  "contend_ok ps \<longleftrightarrow> (\<forall>j. contends (ps j) \<longrightarrow> (\<exists>b. j \<in> live (ps b) \<and> (\<forall>a. arg_at (ps j) = Some a \<longrightarrow> rounds_at (ps b) = Some a)))"

definition bench_inv :: "(u32 \<Rightarrow> bench_point pos) \<Rightarrow> (ptr \<rightharpoonup> u32 option) \<Rightarrow> (ptr \<rightharpoonup> int) \<Rightarrow> bench_globals \<Rightarrow> bool" where
  "bench_inv ps M S g \<longleftrightarrow> (\<forall>i. b_pos_ok (ps i)) \<and> ps UTH_TID_INVALID \<noteq> Unborn \<and> \<not> contends (ps UTH_TID_INVALID) \<and>
     tally bench_token ps \<le> 1 \<and> contend_ok ps \<and>
     (\<forall>b n. counted (ps b) = Some n \<longrightarrow> contend_counter g + tally rest ps = CONTENTION_ROUNDS * n) \<and>
     (\<forall>b a. rounds_at (ps b) = Some a \<longrightarrow> b_ints g a = Some CONTENTION_ROUNDS) \<and>
     (\<forall>i. critical (ps i) \<longrightarrow> M contend_mutex_at = Some (Some i)) \<and>
     (\<forall>i v. loaded (ps i) = Some v \<longrightarrow> v = contend_counter g)"


lemma bench_invD:
  assumes "bench_inv ps M S g"
  shows "b_pos_ok (ps i)" "ps UTH_TID_INVALID \<noteq> Unborn" "\<not> contends (ps UTH_TID_INVALID)" "tally bench_token ps \<le> 1" "contend_ok ps"
    "counted (ps b) = Some n \<Longrightarrow> contend_counter g + tally rest ps = CONTENTION_ROUNDS * n"
    "rounds_at (ps b) = Some a \<Longrightarrow> b_ints g a = Some CONTENTION_ROUNDS"
    "critical (ps i) \<Longrightarrow> M contend_mutex_at = Some (Some i)" "loaded (ps i) = Some v \<Longrightarrow> v = contend_counter g"
  using assms by (auto simp: bench_inv_def)

lemma bench_unique:
  assumes I: "bench_inv ps M S g" and "benches (ps i)" "benches (ps j)"
  shows "i = j"
proof (rule ccontr)
  assume "i \<noteq> j"
  have "bench_token (ps i) + bench_token (ps j) \<le> tally bench_token ps" by (rule tally_ge_two) (use \<open>i \<noteq> j\<close> in simp_all)
  with bench_invD(4) [OF I] assms(2,3) show False by simp
qed

lemma in_mutex_other [simp]: "(\<And>m. p \<noteq> B_thread (BT_mutex m)) \<Longrightarrow> in_mutex d f p = d"
  by (cases "(d, f, p)" rule: in_mutex.cases) auto

lemma in_mutex_bench: "in_mutex d f p \<noteq> d \<Longrightarrow> is_bench p"
  by (cases "(d, f, p)" rule: in_mutex.cases) auto

lemma benches_mutex:
  "t \<in> live q \<Longrightarrow> benches q" "counted q = Some n \<Longrightarrow> benches q" "rounds_at q = Some a \<Longrightarrow> benches q"
proof -
  note m = in_mutex_bench
  have l: "t \<in> in_mutex {} bm_live p \<Longrightarrow> is_bench p" for p using m [of "{}" bm_live p] by auto
  have j: "in_mutex False (\<lambda>_. True) p \<Longrightarrow> is_bench p" for p using m [of False "\<lambda>_. True" p] by auto
  have c: "in_mutex None bm_count p = Some k \<Longrightarrow> is_bench p" for p k using m [of None bm_count p] by auto
  have r: "in_mutex None bm_rounds p = Some a \<Longrightarrow> is_bench p" for p using m [of None bm_rounds p] by auto
  show "t \<in> live q \<Longrightarrow> benches q" using l j by (cases q) (auto simp: live_def benches_def split: if_splits api.splits)
  show "counted q = Some n \<Longrightarrow> benches q" using c by (cases q) (auto simp: counted_def benches_def)
  show "rounds_at q = Some a \<Longrightarrow> benches q" using r by (cases q) (auto simp: rounds_at_def benches_def)
qed

lemma not_both: "benches q \<Longrightarrow> \<not> contends q"
proof -
  have "is_bench p \<Longrightarrow> \<not> is_contend p" for p by (cases p) auto
  then show "benches q \<Longrightarrow> \<not> contends q" by (cases q) (auto simp: benches_def contends_def contend_fn_def bench_main_fn_def)
qed

lemma critical_contends: "critical q \<Longrightarrow> contends q"
  by (erule critical.elims(2)) (simp_all add: contends_def)

lemma loaded_critical: "loaded q = Some v \<Longrightarrow> critical q"
  by (erule loaded.elims) simp_all

lemma arg_contends: "arg_at q = Some a \<Longrightarrow> contends q"
  by (erule arg_at.elims) (simp_all add: contends_def split: if_splits)

lemma rest_of_other: "\<not> is_contend p \<Longrightarrow> rest_of p = 0"
  by (cases p) simp_all

lemma not_contends_rest: "\<not> contends q \<Longrightarrow> rest q = 0"
  by (cases q) (simp_all add: contends_def rest_def rest_of_other)

lemmas contends_parts = critical_contends loaded_critical arg_contends not_contends_rest

text \<open>A step of the thread \<open>i\<close>.\<close>

lemma bench_upd_core:
  assumes I: "bench_inv ps M S g" and q: "b_pos_ok q" "q \<noteq> Unborn" "tally bench_token (ps(i := q)) \<le> 1"
      "contends q \<Longrightarrow> contends (ps i) \<and> (\<forall>a. arg_at q = Some a \<longrightarrow> arg_at (ps i) = Some a)"
    and live: "\<And>j. \<lbrakk>j \<in> live (ps i); contends (ps j); j \<noteq> i\<rbrakk> \<Longrightarrow> j \<in> live q \<and> rounds_at q = rounds_at (ps i)"
    and count: "\<And>n. counted q = Some n \<Longrightarrow> contend_counter g' + tally rest (ps(i := q)) = CONTENTION_ROUNDS * n"
      "benches (ps i) \<or> contend_counter g' + rest q = contend_counter g + rest (ps i)"
    and mem: "\<And>a. rounds_at q = Some a \<Longrightarrow> b_ints g' a = Some CONTENTION_ROUNDS" "benches (ps i) \<or> b_ints g' = b_ints g"
    and crit: "critical q \<Longrightarrow> M' contend_mutex_at = Some (Some i)" "\<And>v. loaded q = Some v \<Longrightarrow> v = contend_counter g'"
      "\<And>j. \<lbrakk>critical (ps j); j \<noteq> i\<rbrakk> \<Longrightarrow> M' contend_mutex_at = M contend_mutex_at \<and> contend_counter g' = contend_counter g"
  shows "bench_inv (ps(i := q)) M' S' g'"
  unfolding bench_inv_def
proof (intro conjI allI impI)
  note D = bench_invD [OF I]
  show "b_pos_ok ((ps(i := q)) j)" for j using D(1) q(1) by simp
  show "(ps(i := q)) UTH_TID_INVALID \<noteq> Unborn" using D(2) q(2) by simp
  show "\<not> contends ((ps(i := q)) UTH_TID_INVALID)" using D(3) q(4) by (cases "i = UTH_TID_INVALID"; cases "contends q") simp_all
  show "tally bench_token (ps(i := q)) \<le> 1" by (rule q(3))
  show "contend_ok (ps(i := q))" unfolding contend_ok_def
  proof (intro allI impI)
    fix j assume "contends ((ps(i := q)) j)"
    then have j: "contends (ps j)" "arg_at ((ps(i := q)) j) = Some a \<Longrightarrow> arg_at (ps j) = Some a" for a using q(4) by (metis fun_upd_apply)+
    from D(5) j(1) obtain b where b: "j \<in> live (ps b)" "\<And>a. arg_at (ps j) = Some a \<Longrightarrow> rounds_at (ps b) = Some a" unfolding contend_ok_def by blast
    have "j \<noteq> b" using not_both [OF benches_mutex(1) [OF b(1)]] j(1) by metis
    with b live [of j] j(1) have l: "j \<in> live ((ps(i := q)) b)" "rounds_at ((ps(i := q)) b) = rounds_at (ps b)" by (metis fun_upd_apply)+
    have "rounds_at ((ps(i := q)) b) = Some a" if "arg_at ((ps(i := q)) j) = Some a" for a using b(2) [OF j(2) [OF that]] l(2) by simp
    with l(1) show "\<exists>b. j \<in> live ((ps(i := q)) b) \<and> (\<forall>a. arg_at ((ps(i := q)) j) = Some a \<longrightarrow> rounds_at ((ps(i := q)) b) = Some a)" by blast
  qed
  fix b n assume b: "counted ((ps(i := q)) b) = Some n"
  show "contend_counter g' + tally rest (ps(i := q)) = CONTENTION_ROUNDS * n"
  proof (cases "b = i")
    case False
    with b have "counted (ps b) = Some n" by simp
    moreover from this False have "\<not> benches (ps i)" using bench_unique [OF I, of i b] benches_mutex(2) [of "ps b" n] by auto
    ultimately show ?thesis using count(2) bench_invD(6) [OF I, of b n] by simp
  qed (use b count(1) in simp)
next
  fix b a assume b: "rounds_at ((ps(i := q)) b) = Some a"
  show "b_ints g' a = Some CONTENTION_ROUNDS"
  proof (cases "b = i")
    case False
    with b have "rounds_at (ps b) = Some a" by simp
    moreover from this False have "\<not> benches (ps i)" using bench_unique [OF I, of i b] benches_mutex(3) [of "ps b" a] by auto
    ultimately show ?thesis using mem(2) bench_invD(7) [OF I, of b a] by simp
  qed (use b mem(1) in simp)
next
  fix j assume "critical ((ps(i := q)) j)"
  with crit(1) crit(3) [of j] bench_invD(8) [OF I, of j] show "M' contend_mutex_at = Some (Some j)" by (cases "j = i") simp_all
next
  fix j v assume "loaded ((ps(i := q)) j) = Some v"
  with crit(2) crit(3) [of j] bench_invD(9) [OF I, of j v] loaded_critical [of "ps j" v] show "v = contend_counter g'" by (cases "j = i") simp_all
qed

lemma bench_upd:
  assumes I: "bench_inv ps M S g" and q: "b_pos_ok q" "q \<noteq> Unborn" "benches q \<Longrightarrow> benches (ps i)"
      "contends q \<Longrightarrow> contends (ps i) \<and> (\<forall>a. arg_at q = Some a \<longrightarrow> arg_at (ps i) = Some a)"
    and live: "\<And>j. \<lbrakk>j \<in> live (ps i); contends (ps j); j \<noteq> i\<rbrakk> \<Longrightarrow> j \<in> live q \<and> rounds_at q = rounds_at (ps i)"
    and count: "\<And>n. counted q = Some n \<Longrightarrow> contend_counter g' + tally rest (ps(i := q)) = CONTENTION_ROUNDS * n"
      "benches (ps i) \<or> contend_counter g' + rest q = contend_counter g + rest (ps i)"
    and mem: "\<And>a. rounds_at q = Some a \<Longrightarrow> b_ints g' a = Some CONTENTION_ROUNDS" "benches (ps i) \<or> b_ints g' = b_ints g"
    and crit: "critical q \<Longrightarrow> M' contend_mutex_at = Some (Some i)" "\<And>v. loaded q = Some v \<Longrightarrow> v = contend_counter g'"
      "\<And>j. \<lbrakk>critical (ps j); j \<noteq> i\<rbrakk> \<Longrightarrow> M' contend_mutex_at = M contend_mutex_at \<and> contend_counter g' = contend_counter g"
  shows "bench_inv (ps(i := q)) M' S' g'"
proof (rule bench_upd_core [OF I q(1,2)])
  show "tally bench_token (ps(i := q)) \<le> 1" using bench_invD(4) [OF I] q(3) by (cases "benches q") simp_all
qed (fact q live count mem crit)+

section \<open>Steps outside of the benchmark of the mutex\<close>

definition outside :: "bench_point \<Rightarrow> bool" where
  "outside p \<longleftrightarrow> \<not> is_contend p \<and> (\<forall>m. p \<noteq> B_thread (BT_mutex m))"

definition nothing :: "bench_point pos \<Rightarrow> bool" where
  "nothing q \<longleftrightarrow> \<not> contends q \<and> live q = {} \<and> counted q = None \<and> rounds_at q = None"

lemma outside_nothing:
  assumes "outside p"
  shows "nothing (At p)" "nothing (Done p)" "nothing (Made j p)" "nothing (Await a p)"
proof -
  have "in_mutex d f p = d" for d :: "'b" and f using assms by (simp add: outside_def)
  with assms show "nothing (At p)" "nothing (Done p)" "nothing (Made j p)" "nothing (Await a p)"
    by (simp_all add: nothing_def contends_def live_def counted_def rounds_at_def outside_def split: api.split)
qed

lemma outside_ok: "outside p \<Longrightarrow> b_pos_ok (At p) \<and> b_pos_ok (Done p) \<and> b_pos_ok (Made j p)"
  by (cases p rule: point_ok.cases) (auto simp: outside_def)

fun quiet_call :: "api \<Rightarrow> bool" where
  "quiet_call (A_mutex_init m) = False"
| "quiet_call (A_mutex_lock m) = False"
| "quiet_call (A_mutex_unlock m) = False"
| "quiet_call (A_cond_wait c m) = False"
| "quiet_call (A_exit v) = False"
| "quiet_call (A_preempt_enable ms env) = False"
| "quiet_call _ = True"

lemma quiet_await: "\<lbrakk>outside p; quiet_call a\<rbrakk> \<Longrightarrow> b_pos_ok (Await a p)"
proof -
  assume "outside p" "quiet_call a"
  moreover from this have "point_ok p" by (cases p rule: point_ok.cases) (auto simp: outside_def)
  ultimately show ?thesis by (cases a) (simp_all add: outside_def)
qed

lemma quiet_issue: "\<lbrakk>quiet_call a; issue i a (M, S) = Some (M', S')\<rbrakk> \<Longrightarrow> M' = M"
  by (cases a) (auto split: if_splits option.splits)

lemma quiet_complete: "\<lbrakk>\<And>m. a \<noteq> A_mutex_lock m; \<And>c m. a \<noteq> A_cond_wait c m; complete i a (M, S) = Some (M', S')\<rbrakk> \<Longrightarrow> M' = M"
  by (cases a) (auto split: if_splits option.splits)

lemma bench_quiet:
  assumes I: "bench_inv ps M S g" and i: "nothing (ps i)" and q: "nothing q" "b_pos_ok q" "q \<noteq> Unborn" "benches q \<Longrightarrow> benches (ps i)"
    and g: "contend_counter g' = contend_counter g" "benches (ps i) \<or> b_ints g' = b_ints g" "M' = M"
  shows "bench_inv (ps(i := q)) M' S' g'"
proof -
  have n: "\<not> contends q" "live (ps i) = {}" "counted q = None" "rounds_at q = None" "\<not> contends (ps i)" using i q(1) by (simp_all add: nothing_def)
  then have "rest q = 0" "rest (ps i) = 0" "\<not> critical q" using contends_parts by blast+
  moreover from this have "loaded q = None" using loaded_critical by (cases "loaded q") auto
  ultimately show ?thesis using n g by (intro bench_upd [OF I q(2,3,4)]) simp_all
qed

text \<open>The code of all functions but \<open>contend_thread\<close> and \<open>bench_mutex\<close>.\<close>

definition harmless :: "bench_point \<Rightarrow> bench_globals \<Rightarrow> (bench_point, bench_globals) act \<Rightarrow> bool" where
  "harmless p g x \<longleftrightarrow> contend_counter (act_glob x) = contend_counter g \<and> (b_ints (act_glob x) = b_ints g \<or> is_bench p) \<and>
     (\<forall>p'. act_point x = Some p' \<longrightarrow> (outside p' \<or> p' = B_thread (BT_mutex BM_entry) \<and> act_call x = None) \<and> (is_bench p' \<longrightarrow> is_bench p)) \<and>
     (\<forall>a. act_call x = Some a \<longrightarrow> quiet_call a) \<and> (\<forall>g' p'. x = RunSched g' p' \<longrightarrow> (\<exists>t. p' = B_main (BN_join t)))"

lemma bench_create_harmless:
  assumes "bench_create e here back q g = Ok x"
  shows "contend_counter (act_glob x) = contend_counter g \<and> b_ints (act_glob x) = b_ints g \<and>
     (act_point x = Some back \<and> act_call x = None \<or> (\<exists>q'. act_point x = Some (here q'))) \<and> (\<forall>a. act_call x = Some a \<longrightarrow> quiet_call a) \<and>
     (\<forall>g' p'. x \<noteq> RunSched g' p')"
  using assms by (cases q) (auto simp: c_iff b_print_def split: if_splits)

lemma bench_ctx_harmless:
  assumes "bench_ctxswitch e here back q g = Ok x"
  shows "contend_counter (act_glob x) = contend_counter g \<and>
     (act_point x = Some back \<and> act_call x = None \<or> (\<exists>q'. act_point x = Some (here q'))) \<and> (\<forall>a. act_call x = Some a \<longrightarrow> quiet_call a) \<and>
     (\<forall>g' p'. x \<noteq> RunSched g' p')"
  using assms by (cases q) (auto simp: c_iff c_long_iff b_print_def split: if_splits)

lemma bench_thread_harmless:
  assumes c: "bench_main_thread e q g = Ok x" and "\<And>m. q \<noteq> BT_mutex m"
  shows "contend_counter (act_glob x) = contend_counter g \<and> (\<forall>q'. act_point x = Some q' \<longrightarrow> (\<forall>m. q' = BT_mutex m \<longrightarrow> m = BM_entry \<and> act_call x = None)) \<and>
     (\<forall>a. act_call x = Some a \<longrightarrow> quiet_call a) \<and> (\<forall>g' p'. x \<noteq> RunSched g' p')"
proof (cases q)
  case (BT_create1 p)
  with bench_create_harmless [of e BT_create1 "BT_create2 (BC_create 500 0 (\<lambda>_. None))" p g x] c show ?thesis by auto
next
  case (BT_create2 p)
  with bench_create_harmless [of e BT_create2 BT_mid1 p g x] c show ?thesis by auto
next
  case (BT_ctx p)
  with bench_ctx_harmless [of e BT_ctx BT_end p g x] c show ?thesis by auto
qed (use assms in \<open>auto simp: b_print_def\<close>)

lemma pp_thread_harmless:
  assumes "pp_thread m k q g = Ok x"
  shows "act_glob x = g \<and> (\<forall>a. act_call x = Some a \<longrightarrow> quiet_call a) \<and> (\<forall>g' p'. x \<noteq> RunSched g' p')"
  using assms by (cases q) (auto simp: c_iff split: if_splits)

lemma outside_harmless:
  assumes c: "bench_code e p g = Ok x" and o: "outside p"
  shows "harmless p g x"
proof (cases p)
  case B_noop
  with c show ?thesis by (auto simp: harmless_def noop_thread_def)
next
  case (B_ping q)
  with c obtain y where "pp_thread ping_sem_at pong_sem_at q g = Ok y" and x: "x = map_act B_ping id y" by (cases "ping_thread q g") (auto simp: ping_thread_def)
  from pp_thread_harmless [OF this(1)] show ?thesis by (cases y) (auto simp: x harmless_def outside_def)
next
  case (B_pong q)
  with c obtain y where "pp_thread pong_sem_at ping_sem_at q g = Ok y" and x: "x = map_act B_pong id y" by (cases "pong_thread q g") (auto simp: pong_thread_def)
  from pp_thread_harmless [OF this(1)] show ?thesis by (cases y) (auto simp: x harmless_def outside_def)
next
  case (B_thread q)
  with c obtain y where y: "bench_main_thread e q g = Ok y" and x: "x = map_act B_thread id y" by (cases "bench_main_thread e q g") auto
  from bench_thread_harmless [OF y] o B_thread show ?thesis by (cases y) (auto simp: x harmless_def outside_def)
next
  case (B_main q)
  with c show ?thesis by (cases q) (auto simp: harmless_def b_print_def outside_def)
qed (use assms in \<open>simp_all add: outside_def\<close>)

lemma bench_cooperative: "cooperative bench"
  unfolding cooperative_def
proof (intro allI impI)
  fix e p g a g' p'
  assume "p_code bench e p g = Ok (Call a g' p')"
  then have c: "bench_code e p g = Ok (Call a g' p')" by (simp add: bench_def)
  show "\<not> is_preempt_enable a"
  proof (cases "outside p")
    case True
    from outside_harmless [OF c True] have "quiet_call a" by (simp add: harmless_def)
    then show ?thesis by (cases a) simp_all
  next
    case False
    then consider q where "p = B_contend q" | m where "p = B_thread (BT_mutex m)" by (cases p) (auto simp: outside_def)
    then show ?thesis
    proof cases
      case (1 q)
      with c show ?thesis by (cases q) (auto simp: c_iff c_long_iff split: if_splits)
    next
      case (2 m)
      with c show ?thesis by (cases m) (auto simp: c_iff c_long_iff split: if_splits)
    qed
  qed
qed

section \<open>Steps of the benchmark of the mutex\<close>

lemmas look_simps = rest_def contends_def benches_def live_def counted_def rounds_at_def

lemma stored_snoc: "0 \<le> i \<Longrightarrow> stored 0 (i + 1) (tids(i \<mapsto> t)) = insert t (stored 0 i tids)"
  by (auto simp: stored_def intro: exI [of _ i])

lemma stored_next: "\<lbrakk>tids i = Some t; i < n\<rbrakk> \<Longrightarrow> stored i n tids = insert t (stored (i + 1) n tids)"
proof -
  assume "tids i = Some t" "i < n"
  moreover have "i \<le> k \<longleftrightarrow> k = i \<or> i + 1 \<le> k" for k by auto
  ultimately show ?thesis by (auto simp: stored_def)
qed

lemma stored_none: "n \<le> i \<Longrightarrow> stored i n tids = {}"
  by (auto simp: stored_def)

lemma all_succeed:
  assumes "0 \<le> n"
  shows "successes n tids = n \<longleftrightarrow> (\<forall>k. 0 \<le> k \<and> k < n \<longrightarrow> tids k \<noteq> Some UTH_TID_INVALID)"
proof -
  let ?f = "\<lambda>k. if tids k = Some UTH_TID_INVALID then 1 else 0 :: int"
  have "successes n tids + (\<Sum>k\<in>{0..<n}. ?f k) = (\<Sum>k\<in>{0..<n}. 1)"
    unfolding successes_def sum.distrib [symmetric] by (rule sum.cong) auto
  also have "\<dots> = n" using assms by simp
  finally have "successes n tids = n \<longleftrightarrow> (\<Sum>k\<in>{0..<n}. ?f k) = 0" by linarith
  also have "\<dots> \<longleftrightarrow> (\<forall>k\<in>{0..<n}. ?f k = 0)" by (rule sum_nonneg_eq_0_iff) auto
  finally show ?thesis by auto
qed

lemma successes_0 [simp]: "successes 0 tids = 0"
  by (simp add: successes_def)

lemma successes_snoc:
  assumes "0 \<le> i"
  shows "successes (i + 1) (tids(i \<mapsto> t)) = successes i tids + (if t = UTH_TID_INVALID then 0 else 1)"
proof -
  have "{0..<i + 1} = insert i {0..<i}" using assms by auto
  moreover have "(\<Sum>k\<in>{0..<i}. if (tids(i \<mapsto> t)) k = Some UTH_TID_INVALID then 0 else 1) = successes i tids"
    unfolding successes_def by (rule sum.cong) auto
  ultimately show ?thesis by (simp add: successes_def)
qed

lemma no_contenders:
  assumes I: "bench_inv ps M S g" and "benches (ps i)" and "live (ps i) = {}"
  shows "\<not> contends (ps j)" "tally rest ps = 0"
proof -
  show n: "\<not> contends (ps j)" for j
  proof
    assume "contends (ps j)"
    with bench_invD(5) [OF I] obtain b where b: "j \<in> live (ps b)" unfolding contend_ok_def by blast
    from bench_unique [OF I assms(2) benches_mutex(1) [OF b]] b assms(3) show False by simp
  qed
  show "tally rest ps = 0" by (rule tally_zero) (use n not_contends_rest in blast)
qed

lemma only_critical:
  assumes I: "bench_inv ps M S g" and "critical (ps i)" "j \<noteq> i"
  shows "\<not> critical (ps j)"
  using bench_invD(8) [OF I assms(2)] bench_invD(8) [OF I, of j] assms(3) by auto

text \<open>The threads that contend for the mutex.\<close>

lemma contend_upd:
  assumes I: "bench_inv ps M S g" and i: "contends (ps i)" and q: "b_pos_ok q" "q \<noteq> Unborn" "nothing q \<or> contends q" "\<not> benches q" "arg_at q = None"
    and g: "contend_counter g' + rest q = contend_counter g + rest (ps i)" "b_ints g' = b_ints g"
    and crit: "critical q \<Longrightarrow> M' contend_mutex_at = Some (Some i)" "\<And>v. loaded q = Some v \<Longrightarrow> v = contend_counter g'"
      "\<And>j. \<lbrakk>critical (ps j); j \<noteq> i\<rbrakk> \<Longrightarrow> M' contend_mutex_at = M contend_mutex_at \<and> contend_counter g' = contend_counter g"
  shows "bench_inv (ps(i := q)) M' S' g'"
proof -
  have "\<not> benches (ps i)" using not_both i by blast
  then have l: "live (ps i) = {}" using benches_mutex(1) by blast
  have q': "live q = {}" "counted q = None" "rounds_at q = None"
    using q(4) benches_mutex(1) [of _ q] benches_mutex(2) [of q] benches_mutex(3) [of q] by (fast, metis not_None_eq, metis not_None_eq)
  show ?thesis
    by (rule bench_upd [OF I q(1,2)]) (use q q' g crit i l in simp_all)
qed

lemma contend_compute:
  assumes I: "bench_inv ps M S g" and p: "ps i = At (B_contend c)" and c: "contend_thread c g = Ok (Compute g' c')"
  shows "bench_inv (ps(i := At (B_contend c'))) M S g'"
proof -
  have k: "contends (ps i)" using p by (simp add: contends_def)
  have ok: "ct_ok c" using bench_invD(1) [OF I, of i] p by simp
  show ?thesis
  proof (cases c)
    case (CT_entry a)
    then have "arg_at (ps i) = Some a" using p by simp
    with bench_invD(5) [OF I] k obtain b where "rounds_at (ps b) = Some a" unfolding contend_ok_def by blast
    from bench_invD(7) [OF I this] c CT_entry have "c' = CT_loop CONTENTION_ROUNDS 0" "g' = g" by (simp_all add: c_iff)
    with p CT_entry k show ?thesis by (intro contend_upd [OF I k]) (simp_all add: look_simps CONTENTION_ROUNDS_def)
  next
    case (CT_load r n)
    with c have "c' = CT_store r n (contend_counter g)" "g' = g" by auto
    with p CT_load k ok bench_invD(8) [OF I, of i] show ?thesis by (intro contend_upd [OF I k]) (simp_all add: look_simps)
  qed (use c in \<open>auto simp: c_iff c_long_iff split: if_splits\<close>)
qed

lemma contend_call:
  assumes I: "bench_inv ps M S g" and p: "ps i = At (B_contend c)" and c: "contend_thread c g = Ok (Call a g' c')"
    and x: "issue i a (M, S) = Some (M', S')"
  shows "bench_inv (ps(i := issued a (B_contend c'))) M' S' g'"
proof -
  have k: "contends (ps i)" using p by (simp add: contends_def)
  have ok: "ct_ok c" using bench_invD(1) [OF I, of i] p by simp
  show ?thesis
  proof (cases c)
    case (CT_loop r n)
    with c have e: "a = A_mutex_lock contend_mutex_at" "c' = CT_load r n" "g' = g" "n < r" by (auto split: if_splits)
    with x have "M' = M" by simp
    with e p CT_loop k ok show ?thesis by (intro contend_upd [OF I k]) (simp_all add: look_simps)
  next
    case (CT_store r n v)
    with c have e: "a = A_mutex_unlock contend_mutex_at" "c' = CT_loop r (n + 1)" "g' = g\<lparr>contend_counter := v + 1\<rparr>" by (auto simp: c_iff c_long_iff)
    have v: "v = contend_counter g" and cr: "critical (ps i)" using bench_invD(9) [OF I, of i v] p CT_store by simp_all
    from only_critical [OF I cr] e p CT_store k ok v show ?thesis by (intro contend_upd [OF I k]) (auto simp: look_simps)
  qed (use c in \<open>auto simp: c_iff\<close>)
qed

lemma contend_finish:
  assumes I: "bench_inv ps M S g" and p: "ps i = At (B_contend c)" and c: "contend_thread c g = Ok (Finish v g')"
  shows "bench_inv (ps(i := Ended)) M S g'"
proof -
  have k: "contends (ps i)" using p by (simp add: contends_def)
  have ok: "ct_ok c" using bench_invD(1) [OF I, of i] p by simp
  from c obtain r n where "c = CT_loop r n" "g' = g" "\<not> n < r" by (cases c) (auto simp: c_iff c_long_iff split: if_splits)
  with p ok k show ?thesis by (intro contend_upd [OF I k]) (simp_all add: look_simps nothing_def)
qed

text \<open>The thread that runs the benchmarks.\<close>

lemma mutex_upd:
  assumes I: "bench_inv ps M S g" and i: "benches (ps i)" and q: "b_pos_ok q" "q \<noteq> Unborn" "\<not> contends q"
    and live: "\<And>j. \<lbrakk>j \<in> live (ps i); contends (ps j); j \<noteq> i\<rbrakk> \<Longrightarrow> j \<in> live q \<and> rounds_at q = rounds_at (ps i)"
    and count: "\<And>n. counted q = Some n \<Longrightarrow> contend_counter g' + tally rest ps = CONTENTION_ROUNDS * n"
    and mem: "\<And>a. rounds_at q = Some a \<Longrightarrow> b_ints g' a = Some CONTENTION_ROUNDS"
    and crit: "\<And>j. critical (ps j) \<Longrightarrow> M' contend_mutex_at = M contend_mutex_at \<and> contend_counter g' = contend_counter g"
  shows "bench_inv (ps(i := q)) M' S' g'"
proof -
  have "\<not> critical q" "rest q = 0" using q(3) contends_parts by blast+
  moreover from this(1) have "loaded q = None" using loaded_critical by (cases "loaded q") auto
  moreover have "rest (ps i) = 0" using not_contends_rest [OF not_both [OF i]] .
  ultimately show ?thesis using q live count mem crit i by (intro bench_upd [OF I q(1,2)]) simp_all
qed

abbreviation bm_at :: "bm_point \<Rightarrow> bench_point" where
  "bm_at m \<equiv> B_thread (BT_mutex m)"

lemma mutex_compute:
  assumes I: "bench_inv ps M S g" and p: "ps i = At (bm_at m)" and c: "bench_mutex e BT_mutex BT_mid2 m g = Ok (Compute g' q)"
  shows "bench_inv (ps(i := At (B_thread q))) M S g'"
proof -
  have k: "benches (ps i)" and ok: "bm_ok m" using bench_invD(1) [OF I, of i] p by (simp_all add: benches_def)
  note cnt = bench_invD(6) [OF I, of i] and mem = bench_invD(7) [OF I, of i]
  show ?thesis
  proof (cases m)
    case (BM_reset a)
    have "live (ps i) = {}" using p BM_reset by (simp add: live_def)
    note no = no_contenders [OF I k this]
    have e: "q = BT_mutex (BM_create a 0 (\<lambda>_. None))" "g' = g\<lparr>contend_counter := 0\<rparr>" using c BM_reset by auto
    have "\<not> critical (ps j)" for j using no(1) critical_contends by blast
    with no(2) e p BM_reset k ok mem [of a] show ?thesis by (intro mutex_upd [OF I k]) (auto simp: look_simps CONTENTION_THREADS_def)
  next
    case (BM_create a n tids)
    with c ok have e: "q = BT_mutex (BM_join a 0 tids)" "g' = g" "n = CONTENTION_THREADS" by (auto split: if_splits)
    with p BM_create k ok mem [of a] cnt show ?thesis by (intro mutex_upd [OF I k]) (auto simp: look_simps CONTENTION_THREADS_def)
  next
    case (BM_made a n tids t)
    with c have e: "q = BT_mutex (BM_create a (n + 1) (tids(n \<mapsto> t)))" "g' = g" by auto
    with p BM_made k ok mem [of a] cnt show ?thesis
      by (intro mutex_upd [OF I k]) (auto simp: look_simps stored_snoc successes_snoc)
  next
    case (BM_return a)
    then have "live (ps i) = {}" "q = BT_mid2" "contend_counter g' = contend_counter g" using c p by (auto simp: live_def)
    with p BM_return k show ?thesis by (intro mutex_upd [OF I k]) (auto simp: look_simps)
  qed (use c in \<open>auto simp: c_iff c_long_iff split: if_splits\<close>)
qed

lemma mutex_call:
  assumes I: "bench_inv ps M S g" and p: "ps i = At (bm_at m)" and c: "bench_mutex e BT_mutex BT_mid2 m g = Ok (Call a g' q)"
    and a: "\<not> is_create a" and x: "issue i a (M, S) = Some (M', S')"
  shows "bench_inv (ps(i := issued a (B_thread q))) M' S' g'"
proof -
  have k: "benches (ps i)" and ok: "bm_ok m" using bench_invD(1) [OF I, of i] p by (simp_all add: benches_def)
  note cnt = bench_invD(6) [OF I, of i] and mem = bench_invD(7) [OF I, of i]
  show ?thesis
  proof (cases m)
    case BM_entry
    have l: "live (ps i) = {}" using p BM_entry by (simp add: live_def)
    note no = no_contenders(1) [OF I k l]
    from c BM_entry obtain b where "a = A_mutex_init contend_mutex_at" "q = BT_mutex (BM_reset b)" "contend_counter g' = contend_counter g" "b_ints g' b = Some CONTENTION_ROUNDS" by auto
    moreover have "\<not> critical (ps j)" for j using no critical_contends by blast
    ultimately show ?thesis using l by (intro mutex_upd [OF I k]) (auto simp: look_simps)
  next
    case (BM_join b n tids)
    show ?thesis
    proof (cases "n < CONTENTION_THREADS")
      case True
      with c BM_join obtain t where e: "a = A_join t False" "q = BT_mutex (BM_join b (n + 1) tids)" "g' = g" "tids n = Some t" by (auto simp: c_iff)
      with x have "M' = M" by simp
      with e True p BM_join k ok mem [of b] cnt stored_next [of tids n t CONTENTION_THREADS] show ?thesis
        by (intro mutex_upd [OF I k]) (auto simp: look_simps)
    next
      case False
      with c BM_join have e: "a = A_mutex_destroy contend_mutex_at" "q = BT_mutex (BM_return b)" "contend_counter g' = contend_counter g" "b_ints g' = b_ints g"
        by (auto simp: c_iff c_long_iff b_print_def)
      with x have "M' = M" by simp
      with e False p BM_join k ok mem [of b] stored_none [of CONTENTION_THREADS n tids] show ?thesis
        by (intro mutex_upd [OF I k]) (auto simp: look_simps)
    qed
  qed (use c a in \<open>auto split: if_splits\<close>)
qed

lemma mutex_create_code:
  assumes "bench_mutex e BT_mutex BT_mid2 m g = Ok (Call (A_create fn arg n env) g' q)"
  obtains k tids where "m = BM_create arg k tids" "k < CONTENTION_THREADS" "fn = contend_fn" "g' = g" "q = BT_mutex (BM_made arg k tids UTH_TID_INVALID)"
  using assms by (cases m) (auto simp: c_iff c_long_iff split: if_splits)

lemma mutex_no_create:
  assumes I: "bench_inv ps M S g" and p: "ps i = At (bm_at (BM_create a n tids))" "n < CONTENTION_THREADS"
  shows "bench_inv (ps(i := At (bm_at (BM_made a n tids UTH_TID_INVALID)))) M S g"
proof -
  have k: "benches (ps i)" and ok: "0 \<le> n" using bench_invD(1) [OF I, of i] p by (simp_all add: benches_def)
  from p k ok bench_invD(6) [OF I, of i] bench_invD(7) [OF I, of i a] show ?thesis by (intro mutex_upd [OF I k]) (auto simp: look_simps)
qed

section \<open>New threads\<close>

lemma bench_birth:
  assumes I: "bench_inv ps M S g" and j: "ps j = Unborn" and fn: "fn \<noteq> contend_fn" and b: "fn = bench_main_fn \<Longrightarrow> tally bench_token ps \<le> 0"
  shows "bench_inv (ps(j := New fn arg)) M S g"
proof (rule bench_upd_core [OF I])
  have "tally bench_token (ps(j := New fn arg)) = tally bench_token ps + bench_token (New fn arg)" using j by (simp add: benches_def)
  with b bench_invD(4) [OF I] show "tally bench_token (ps(j := New fn arg)) \<le> 1" by (simp add: benches_def split: if_splits)
qed (use j fn in \<open>simp_all add: look_simps\<close>)

lemma contend_birth:
  assumes I: "bench_inv ps M S g" and p: "ps i = At (bm_at (BM_create a n tids))" "n < CONTENTION_THREADS" and j: "ps j = Unborn" "j \<noteq> i"
  shows "bench_inv (ps(i := Made j (bm_at (BM_made a n tids UTH_TID_INVALID)), j := New contend_fn a)) M S g"
proof -
  let ?q = "Made j (bm_at (BM_made a n tids UTH_TID_INVALID))" and ?ps = "ps(i := Made j (bm_at (BM_made a n tids UTH_TID_INVALID)), j := New contend_fn a)"
  note D = bench_invD [OF I]
  have k: "benches (ps i)" using p by (simp add: benches_def)
  have ok: "0 \<le> n" using D(1) [of i] p by simp
  have u: "b = i" if "benches (ps b)" for b using bench_unique [OF I that k] .
  have q: "live ?q = insert j (insert UTH_TID_INVALID (live (ps i)))" "rounds_at ?q = rounds_at (ps i)" "counted ?q = map_option ((+) 1) (counted (ps i))"
    using p by (auto simp: live_def rounds_at_def counted_def)
  have new: "contends (New contend_fn a)" "rest (New contend_fn a) = CONTENTION_ROUNDS" "live (New contend_fn a) = {}" "counted (New contend_fn a) = None"
    "rounds_at (New contend_fn a) = None" "rest ?q = 0" "rest (ps i) = 0" "rest (ps j) = 0" "\<not> contends ?q" "bench_token (New contend_fn a) = 0" "bench_token ?q = 1" "bench_token (ps j) = 0"
    using p j by (simp_all add: look_simps contend_fn_def bench_main_fn_def)
  have t: "tally rest ?ps = tally rest ps + CONTENTION_ROUNDS" "tally bench_token ?ps = tally bench_token ps"
    using j k new by simp_all
  show ?thesis unfolding bench_inv_def
  proof (intro conjI allI impI)
    show "b_pos_ok (?ps b)" for b using D(1) ok p(2) by simp
    have "j \<noteq> UTH_TID_INVALID" using D(2) j(1) by metis
    with D(2,3) new(9) show "?ps UTH_TID_INVALID \<noteq> Unborn" "\<not> contends (?ps UTH_TID_INVALID)" by simp_all
    show "tally bench_token ?ps \<le> 1" unfolding t(2) by (rule D(4))
    show "contend_ok ?ps" unfolding contend_ok_def
    proof (intro allI impI)
      fix c assume c: "contends (?ps c)"
      show "\<exists>b. c \<in> live (?ps b) \<and> (\<forall>d. arg_at (?ps c) = Some d \<longrightarrow> rounds_at (?ps b) = Some d)"
      proof (cases "c = j")
        case True
        with q p j show ?thesis by (intro exI [of _ i]) (simp add: rounds_at_def)
      next
        case False
        with c new(9) have c': "contends (ps c)" "c \<noteq> i" by (cases "c = i"; simp)+
        from D(5) c'(1) obtain b where b: "c \<in> live (ps b)" "\<forall>d. arg_at (ps c) = Some d \<longrightarrow> rounds_at (ps b) = Some d" unfolding contend_ok_def by blast
        from u [OF benches_mutex(1) [OF b(1)]] b q c' False j(2) show ?thesis by (intro exI [of _ i]) auto
      qed
    qed
    show "contend_counter g + tally rest ?ps = CONTENTION_ROUNDS * v" if "counted (?ps b) = Some v" for b v
    proof -
      have "b = i"
      proof (rule ccontr)
        assume "b \<noteq> i"
        with that new(4) have "counted (ps b) = Some v" by (cases "b = j") simp_all
        from u [OF benches_mutex(2) [OF this]] \<open>b \<noteq> i\<close> show False by simp
      qed
      with that q(3) j(2) obtain w where "counted (ps i) = Some w" "v = 1 + w" by auto
      with D(6) [of i w] t(1) show ?thesis by (simp add: algebra_simps)
    qed
    show "b_ints g d = Some CONTENTION_ROUNDS" if "rounds_at (?ps b) = Some d" for b d
      using that D(7) [of b d] D(7) [of i d] q(2) new(5) by (cases "b = i"; cases "b = j"; simp)
    show "M contend_mutex_at = Some (Some b)" if "critical (?ps b)" for b using that D(8) [of b] by (cases "b = i"; cases "b = j"; simp)
    show "v = contend_counter g" if "loaded (?ps b) = Some v" for b v using that D(9) [of b v] by (cases "b = i"; cases "b = j"; simp)
  qed
qed

lemma bench_ret_outside: "outside p \<Longrightarrow> outside (bench_ret p r) \<and> is_bench (bench_ret p r) = is_bench p"
  by (cases "(p, r)" rule: bench_ret.cases) (auto simp: outside_def)

lemma bench_ret_same: "bench_ret (B_contend c) r = B_contend c" "(\<And>a i tids t. m \<noteq> BM_made a i tids t) \<Longrightarrow> bench_ret (bm_at m) r = bm_at m"
  by simp (cases m; auto)

lemma point_cases:
  obtains "outside p" | c where "p = B_contend c" | m where "p = bm_at m"
  by (cases p) (auto simp: outside_def)

lemma benches_point [simp]: "benches (At p) = is_bench p" "benches (Done p) = is_bench p" "benches (Made j p) = is_bench p" "benches (Await a p) = is_bench p"
  by (simp_all add: benches_def)

lemma outside_create:
  assumes c: "bench_code e p g = Ok (Call (A_create fn arg n env) g' p')" and o: "outside p"
  shows "fn \<noteq> contend_fn \<and> (fn = bench_main_fn \<longrightarrow> is_bench p \<and> \<not> is_bench p')"
proof -
  note fns = noop_fn_def contend_fn_def ping_fn_def pong_fn_def bench_main_fn_def
  show ?thesis
  proof (cases p)
    case (B_thread q)
    with c obtain q' where y: "bench_main_thread e q g = Ok (Call (A_create fn arg n env) g' q')" by auto
    show ?thesis
    proof (cases q)
      case (BT_create1 r)
      with y show ?thesis by (cases r) (auto simp: fns c_iff split: if_splits)
    next
      case (BT_create2 r)
      with y show ?thesis by (cases r) (auto simp: fns c_iff split: if_splits)
    next
      case (BT_ctx r)
      with y show ?thesis by (cases r) (auto simp: fns c_iff c_long_iff)
    qed (use y o B_thread in \<open>auto simp: outside_def\<close>)
  next
    case (B_main q)
    with c show ?thesis by (cases q) (auto simp: fns)
  next
    case (B_ping q)
    with c show ?thesis by (cases q) (auto simp: ping_thread_def c_iff split: if_splits)
  next
    case (B_pong q)
    with c show ?thesis by (cases q) (auto simp: pong_thread_def c_iff split: if_splits)
  qed (use assms in \<open>simp_all add: outside_def noop_thread_def\<close>)
qed

lemma bench_inv_create:
  assumes I: "bench_inv ps M S g" and p: "ps i = At p" and c: "bench_code e p g = Ok (Call (A_create fn arg n env) g' p')" and j: "ps j = Unborn" "j \<noteq> i"
  shows "bench_inv (ps(i := Made j p', j := New fn arg)) M S g'"
proof (cases rule: point_cases [of p])
  case 1
  note h = outside_harmless [OF c 1, unfolded harmless_def, simplified]
  have o: "outside p'" using h by simp
  have "bench_inv (ps(i := Made j p')) M S g'"
    by (rule bench_quiet [OF I]) (use p h outside_nothing [OF 1] outside_nothing [OF o] outside_ok [OF o, of j] in auto)
  moreover have "tally bench_token (ps(i := Made j p')) \<le> 0" if "fn = bench_main_fn"
    using outside_create [OF c 1] that bench_invD(4) [OF I] p by simp
  ultimately show ?thesis using outside_create [OF c 1] j by (intro bench_birth) simp_all
next
  case (2 d)
  with c show ?thesis by (cases d) (auto simp: c_iff c_long_iff split: if_splits)
next
  case (3 m)
  with c obtain q where "bench_mutex e BT_mutex BT_mid2 m g = Ok (Call (A_create fn arg n env) g' q)" "p' = B_thread q" by auto
  with 3 p contend_birth [OF I _ _ j] show ?thesis by (elim mutex_create_code) auto
qed

section \<open>The invariant holds\<close>

lemma outside_move:
  assumes I: "bench_inv ps M S g" and i: "nothing (ps i)" "benches (ps i) = is_bench p" and c: "bench_code e p g = Ok x" and o: "outside p"
    and q: "nothing q" "b_pos_ok q" "q \<noteq> Unborn" "benches q \<Longrightarrow> is_bench p" and g: "g' = act_glob x" "M' = M"
  shows "bench_inv (ps(i := q)) M' S' g'"
  using outside_harmless [OF c o] by (intro bench_quiet [OF I i(1) q(1-3)]) (use i q(4) g in \<open>auto simp: harmless_def\<close>)

lemma bench_inv_call:
  assumes I: "bench_inv ps M S g" and p: "ps i = At p" and c: "bench_code e p g = Ok (Call a g' p')" and a: "\<not> is_create a"
    and x: "issue i a (M, S) = Some (M', S')"
  shows "bench_inv (ps(i := issued a p')) M' S' g'"
proof (cases rule: point_cases [of p])
  case 1
  have h: "outside p'" "quiet_call a" "is_bench p' \<longrightarrow> is_bench p" using outside_harmless [OF c 1] by (simp_all add: harmless_def)
  show ?thesis
    by (cases rule: issued_cases [of a p']; rule outside_move [OF I _ _ c 1])
      (use p h outside_nothing [OF 1] outside_nothing [OF h(1)] outside_ok [OF h(1)] quiet_await [OF h(1,2)] quiet_issue [OF h(2) x] in auto)
next
  case (2 d)
  with c obtain d' where "contend_thread d g = Ok (Call a g' d')" "p' = B_contend d'" by auto
  with contend_call [OF I _ this(1) x] p 2 show ?thesis by simp
next
  case (3 m)
  with c obtain q where "bench_mutex e BT_mutex BT_mid2 m g = Ok (Call a g' q)" "p' = B_thread q" by auto
  with mutex_call [OF I _ this(1) a x] p 3 show ?thesis by simp
qed

lemma bench_inv_effect:
  assumes I: "bench_inv ps M S g" and p: "ps i = Await a p" and j: "join_ok a ps" and x: "complete i a (M, S) = Some (M', S')"
  shows "bench_inv (ps(i := Done p)) M' S' g"
proof (cases rule: point_cases [of p])
  case 1
  have "b_pos_ok (Await a p)" using bench_invD(1) [OF I, of i] p by simp
  with 1 have "\<And>m. a \<noteq> A_mutex_lock m" "\<And>c m. a \<noteq> A_cond_wait c m" by (auto simp: outside_def)
  from quiet_complete [OF this x] p outside_nothing [OF 1] outside_ok [OF 1] show ?thesis by (intro bench_quiet [OF I]) auto
next
  case (2 d)
  have ok: "b_pos_ok (Await a p)" using bench_invD(1) [OF I, of i] p by simp
  then obtain r n where "d = CT_load r n" "a = A_mutex_lock contend_mutex_at" using 2 by (auto split: api.splits)
  moreover from this x have "M contend_mutex_at = Some None" "M' = M(contend_mutex_at \<mapsto> Some i)" by (auto split: if_splits)
  moreover from this(1) have "\<not> critical (ps j)" for j using bench_invD(8) [OF I, of j] by auto
  moreover have "contends (ps i)" using p 2 by (simp add: contends_def)
  ultimately show ?thesis using p 2 ok by (intro contend_upd [OF I]) (auto simp: look_simps)
next
  case (3 m)
  have ok: "b_pos_ok (Await a p)" and k: "benches (ps i)" using bench_invD(1) [OF I, of i] p 3 by simp_all
  then obtain t want b n tids where e: "a = A_join t want" "m = BM_join b n tids" using 3 by (auto split: api.splits)
  have "\<not> contends (ps t)" using j bench_invD(3) [OF I] e(1) by (auto simp: finished_def contends_def)
  with e x p 3 ok k bench_invD(6) [OF I, of i] bench_invD(7) [OF I, of i] show ?thesis by (intro mutex_upd [OF I k]) (auto simp: live_def counted_def rounds_at_def contends_def)
qed

lemma bench_inv_return:
  assumes I: "bench_inv ps M S g" and p: "ps i = Done p"
  shows "bench_inv (ps(i := At (bench_ret p r))) M S g"
proof (cases rule: point_cases [of p])
  case 1
  note o = bench_ret_outside [OF 1, of r]
  from p o outside_nothing [OF 1] outside_nothing [of "bench_ret p r"] outside_ok [of "bench_ret p r"] show ?thesis by (intro bench_quiet [OF I]) auto
next
  case (2 d)
  have ok: "b_pos_ok (Done p)" using bench_invD(1) [OF I, of i] p by simp
  then obtain r n where "d = CT_load r n \<or> d = CT_loop r n" using 2 by auto
  with p 2 ok bench_invD(8) [OF I, of i] show ?thesis by (intro contend_upd [OF I]) (auto simp: look_simps)
next
  case (3 m)
  have ok: "b_pos_ok (Done p)" and k: "benches (ps i)" using bench_invD(1) [OF I, of i] p 3 by simp_all
  then have "bench_ret p r = p" using 3 by (cases m) simp_all
  with p 3 ok k bench_invD(6) [OF I, of i] bench_invD(7) [OF I, of i] show ?thesis by (intro mutex_upd [OF I k]) (auto simp: live_def counted_def rounds_at_def contends_def)
qed

lemma bench_inv_created:
  assumes I: "bench_inv ps M S g" and p: "ps i = Made j p" and "j \<noteq> UTH_TID_INVALID"
  shows "bench_inv (ps(i := At (bench_ret p (RetTid j)))) M S g"
proof (cases rule: point_cases [of p])
  case 1
  note o = bench_ret_outside [OF 1, of "RetTid j"]
  from p o outside_nothing [OF 1] outside_nothing [of "bench_ret p (RetTid j)"] outside_ok [of "bench_ret p (RetTid j)"] show ?thesis by (intro bench_quiet [OF I]) auto
next
  case (2 d)
  then show ?thesis using bench_invD(1) [OF I, of i] p by simp
next
  case (3 m)
  have ok: "b_pos_ok (Made j p)" and k: "benches (ps i)" using bench_invD(1) [OF I, of i] p 3 by simp_all
  then obtain a n tids where m: "m = BM_made a n tids UTH_TID_INVALID" using 3 by auto
  have "\<not> contends (ps UTH_TID_INVALID)" by (rule bench_invD(3) [OF I])
  with m p 3 ok k assms(3) bench_invD(6) [OF I, of i] bench_invD(7) [OF I, of i] show ?thesis
    by (intro mutex_upd [OF I k]) (auto simp: live_def counted_def rounds_at_def contends_def)
qed

interpretation bm: client_rules bench "B_main BN_entry" bench_globals0 bench_inv
proof (unfold_locales, unfold bench_def prog.simps)
  show "bench_inv ((\<lambda>_. Unborn)(UTH_TID_INVALID := At (B_main BN_entry))) (\<lambda>_. None) (\<lambda>_. None) bench_globals0"
    by (auto simp: bench_inv_def contend_ok_def look_simps)
next
  fix ps M S g i p e g' p'
  assume I: "bench_inv ps M S g" and p: "ps i = At p" and c: "bench_code e p g = Ok (Compute g' p')"
  show "bench_inv (ps(i := At p')) M S g'"
  proof (cases rule: point_cases [of p])
    case 1
    have h: "outside p' \<or> p' = bm_at BM_entry" "is_bench p' \<longrightarrow> is_bench p" using outside_harmless [OF c 1] by (simp_all add: harmless_def)
    have "nothing (At p')" "b_pos_ok (At p')" using h(1) outside_nothing(1) outside_ok by (auto simp: nothing_def look_simps)
    with p h(2) outside_nothing [OF 1] show ?thesis by (intro outside_move [OF I _ _ c 1]) auto
  next
    case (2 d)
    with c obtain d' where "contend_thread d g = Ok (Compute g' d')" "p' = B_contend d'" by auto
    with contend_compute [OF I _ this(1)] p 2 show ?thesis by simp
  next
    case (3 m)
    with c obtain q where "bench_mutex e BT_mutex BT_mid2 m g = Ok (Compute g' q)" "p' = B_thread q" by auto
    with mutex_compute [OF I _ this(1)] p 3 show ?thesis by simp
  qed
next
  fix ps M S g i p e a g' p' M' S'
  assume "bench_inv ps M S g" "ps i = At p" "bench_code e p g = Ok (Call a g' p')" "\<not> is_create a" "issue i a (M, S) = Some (M', S')"
  then show "bench_inv (ps(i := issued a p')) M' S' g'" by (rule bench_inv_call)
next
  fix ps M S g i p e fn arg n env g' p' j
  assume "bench_inv ps M S g" "ps i = At p" "bench_code e p g = Ok (Call (A_create fn arg n env) g' p')" "ps j = Unborn" "j \<noteq> i"
  then show "bench_inv (ps(i := Made j p', j := New fn arg)) M S g'" by (rule bench_inv_create)
next
  fix ps M S g i p e fn arg n env g' p'
  assume I: "bench_inv ps M S g" and p: "ps i = At p" and c: "bench_code e p g = Ok (Call (A_create fn arg n env) g' p')"
  show "bench_inv (ps(i := At (bench_ret p' (RetTid UTH_TID_INVALID)))) M S g'"
  proof (cases rule: point_cases [of p])
    case 1
    have h: "outside p'" "is_bench p' \<longrightarrow> is_bench p" using outside_harmless [OF c 1] by (simp_all add: harmless_def)
    note o = bench_ret_outside [OF h(1), of "RetTid UTH_TID_INVALID"]
    have "outside (bench_ret p' (RetTid UTH_TID_INVALID))" using o by simp
    with p h(2) o outside_nothing [OF 1] outside_nothing [OF this] outside_ok [OF this] show ?thesis by (intro outside_move [OF I _ _ c 1]) auto
  next
    case (2 d)
    with c show ?thesis by (cases d) (auto simp: c_iff c_long_iff split: if_splits)
  next
    case (3 m)
    with c obtain q where "bench_mutex e BT_mutex BT_mid2 m g = Ok (Call (A_create fn arg n env) g' q)" "p' = B_thread q" by auto
    with 3 p mutex_no_create [OF I] show ?thesis by (elim mutex_create_code) auto
  qed
next
  fix ps M S g i a p M' S'
  assume "bench_inv ps M S g" "ps i = Await a p" "join_ok a ps" "complete i a (M, S) = Some (M', S')"
  then show "bench_inv (ps(i := Done p)) M' S' g" by (rule bench_inv_effect)
next
  fix ps M S g i p r
  assume "bench_inv ps M S g" "ps i = Done p"
  then show "bench_inv (ps(i := At (bench_ret p r))) M S g" by (rule bench_inv_return)
next
  fix ps M S g i p j k
  assume "bench_inv ps M S g" "ps i = Made j p" "k \<noteq> UTH_TID_INVALID" "cooperative \<lparr>p_start = bench_start, p_code = bench_code, p_ret = bench_ret\<rparr> \<Longrightarrow> k = j"
  moreover from this(4) have "k = j" using bench_cooperative by (simp add: bench_def)
  ultimately show "bench_inv (ps(i := At (bench_ret p (RetTid k)))) M S g" using bench_inv_created by blast
next
  fix ps M S g i fn arg
  assume I: "bench_inv ps M S g" and p: "ps i = New fn arg"
  show "bench_inv (ps(i := At (bench_start fn arg))) M S g"
  proof (cases "fn = contend_fn")
    case True
    with p have "contends (ps i)" by (simp add: contends_def)
    with p True not_both show ?thesis
      by (intro bench_upd [OF I]) (auto simp: look_simps bench_start_def contend_fn_def noop_fn_def bench_main_fn_def)
  next
    case False
    then have "outside (bench_start fn arg)" "is_bench (bench_start fn arg) \<longrightarrow> fn = bench_main_fn" by (auto simp: bench_start_def outside_def)
    with p False outside_nothing [OF this(1)] outside_ok [OF this(1)] show ?thesis
      by (intro bench_quiet [OF I]) (auto simp: nothing_def look_simps)
  qed
next
  fix ps M S g i p e v g'
  assume I: "bench_inv ps M S g" and p: "ps i = At p" and c: "bench_code e p g = Ok (Finish v g')"
  show "bench_inv (ps(i := Ended)) M S g'"
  proof (cases rule: point_cases [of p])
    case 1
    with p outside_nothing [OF 1] show ?thesis by (intro outside_move [OF I _ _ c 1]) (auto simp: nothing_def look_simps)
  next
    case (2 d)
    with contend_finish [OF I, of i d v g'] p c show ?thesis by simp
  next
    case (3 m)
    with c show ?thesis by (cases m) (auto simp: c_iff c_long_iff split: if_splits)
  qed
next
  fix ps M S g p e g' p'
  assume I: "bench_inv ps M S g" and p: "ps UTH_TID_INVALID = At p" and c: "bench_code e p g = Ok (RunSched g' p')"
  show "bench_inv (ps(UTH_TID_INVALID := InRun p')) M S g'"
  proof (cases rule: point_cases [of p])
    case 1
    have "\<exists>t. p' = B_main (BN_join t)" using outside_harmless [OF c 1] by (simp add: harmless_def)
    with p outside_nothing [OF 1] show ?thesis by (intro outside_move [OF I _ _ c 1]) (auto simp: nothing_def look_simps)
  next
    case (2 d)
    with c show ?thesis by (cases d) (auto simp: c_iff c_long_iff split: if_splits)
  next
    case (3 m)
    with c show ?thesis by (cases m) (auto simp: c_iff c_long_iff split: if_splits)
  qed
next
  fix ps :: "u32 \<Rightarrow> bench_point pos" and M S g p
  assume I: "bench_inv ps M S g" and p: "ps UTH_TID_INVALID = InRun p"
  from bench_invD(1) [OF I, of UTH_TID_INVALID] p obtain t where "p = B_main (BN_join t)" by auto
  with p show "bench_inv (ps(UTH_TID_INVALID := At (bench_ret p RetVoid))) M S g"
    by (intro bench_quiet [OF I]) (auto simp: nothing_def look_simps)
qed

text \<open>When \<open>bench_mutex\<close> has joined its threads, the counter is the number of rounds of all threads that it made.\<close>

lemma counter_exact:
  assumes I: "bench_inv ps M S g" and p: "ps b = At (bm_at (BM_join a CONTENTION_THREADS tids))"
  shows "contend_counter g = CONTENTION_ROUNDS * successes CONTENTION_THREADS tids"
proof -
  have "benches (ps b)" "live (ps b) = {}" using p by (simp_all add: live_def stored_none)
  from no_contenders(2) [OF I this] bench_invD(6) [OF I, of b] p show ?thesis by (simp add: counted_def)
qed

end
