(* ===== verification/Uth_Bench_Run.thy ===== *)
theory Uth_Bench_Run
  imports Uth_Bench_Inv
begin

text \<open>
  A run of the benchmark up to the result of \<open>bench_mutex\<close>, in which all but two calls of \<open>uth_create\<close> fail: the loops with many
  iterations are followed by induction, the rest by evaluation.
\<close>

section \<open>The loops\<close>

lemma bench_prog [simp]: "p_code bench = bench_code" "p_ret bench = bench_ret" "p_start bench = bench_start"
  by (simp_all add: bench_def)

lemma bc_creates:
  assumes here: "\<And>e q g. bench_main_thread e (here q) g = bench_create e here back q g"
    and ret: "\<And>n i ts t j. bench_ret (B_thread (here (BC_made n i ts t))) (RetTid j) = B_thread (here (BC_made n i ts j))"
    and "creachable bench p0 g0 ((User [], s), ps, g)" and "ps (self_tid s) = At (B_thread (here (BC_create n i ts)))"
    and "i + int k = n" "0 \<le> i" "\<forall>m. 0 \<le> m \<and> m < i \<longrightarrow> ts m = Some UTH_TID_INVALID"
  shows "\<exists>ts'. creachable bench p0 g0 ((User [], s), ps(self_tid s := At (B_thread (here (BC_join n 0 ts')))), g) \<and>
     (\<forall>m. 0 \<le> m \<and> m < n \<longrightarrow> ts' m = Some UTH_TID_INVALID)"
  using assms(3-)
proof (induction k arbitrary: i ts ps)
  case 0
  then have "bench_code os_fail (B_thread (here (BC_create n i ts))) g = Ok (Compute g (B_thread (here (BC_join n 0 ts))))" by (simp add: here)
  note c = code_computes [OF 0(1,2), unfolded bench_prog, OF this]
  have "i = n" using 0(3) by simp
  with c 0(5) show ?case by blast
next
  case (Suc k)
  obtain rq wq where inv: "lib_inv s rq wq" by (rule creachable_lib [OF Suc.prems(1)])
  have n: "heap s NULL = None" using lib_heap_not_NULL [OF inv] by (cases "heap s NULL") auto
  let ?a = "A_create noop_fn 0 0 (os_create os_fail)"
  have "bench_code os_fail (B_thread (here (BC_create n i ts))) g = Ok (Call ?a g (B_thread (here (BC_made n i ts UTH_TID_INVALID))))"
    using Suc.prems(3) by (simp add: here)
  moreover have "env_ok ?a s" "api_call ?a s = Ok (Return (RetTid UTH_TID_INVALID), s)" using n by (simp_all add: create_fails) (simp add: os_fail_def)
  ultimately have "creachable bench p0 g0 ((User [], s), ps(self_tid s := At (B_thread (here (BC_made n i ts UTH_TID_INVALID)))), g)"
    using call_returns [OF Suc.prems(1,2), unfolded bench_prog, of os_fail ?a g "B_thread (here (BC_made n i ts UTH_TID_INVALID))" "RetTid UTH_TID_INVALID" s]
    by (simp add: ret)
  moreover have "bench_code os_fail (B_thread (here (BC_made n i ts UTH_TID_INVALID))) g = Ok (Compute g (B_thread (here (BC_create n (i + 1) (ts(i \<mapsto> UTH_TID_INVALID))))))"
    by (simp add: here)
  ultimately have "creachable bench p0 g0 ((User [], s), ps(self_tid s := At (B_thread (here (BC_create n (i + 1) (ts(i \<mapsto> UTH_TID_INVALID)))))), g)"
    using code_computes [of bench p0 g0 s "ps(self_tid s := At (B_thread (here (BC_made n i ts UTH_TID_INVALID))))" g] by simp
  from Suc.IH [OF this, of "i + 1" "ts(i \<mapsto> UTH_TID_INVALID)", OF fun_upd_same] Suc.prems(3-) show ?case unfolding fun_upd_upd by fastforce
qed

lemma bc_joins:
  assumes here: "\<And>e q g. bench_main_thread e (here q) g = bench_create e here back q g"
    and ret: "\<And>n i ts r. bench_ret (B_thread (here (BC_join n i ts))) r = B_thread (here (BC_join n i ts))"
    and "creachable bench p0 g0 ((User [], s), ps, g)" and "ps (self_tid s) = At (B_thread (here (BC_join n i ts)))"
    and "i + int k = n" "0 \<le> i" "\<forall>m. 0 \<le> m \<and> m < n \<longrightarrow> ts m = Some UTH_TID_INVALID"
  shows "creachable bench p0 g0 ((User [], s), ps(self_tid s := At (B_thread back)), b_print (Ev_create_join n) g)"
  using assms(3-)
proof (induction k arbitrary: i ps)
  case 0
  then have "bench_code os_fail (B_thread (here (BC_join n i ts))) g = Ok (Compute (b_print (Ev_create_join n) g) (B_thread back))" by (simp add: here)
  from code_computes [OF 0(1,2), unfolded bench_prog, OF this] show ?case .
next
  case (Suc k)
  have "bench_code os_fail (B_thread (here (BC_join n i ts))) g = Ok (Call (A_join UTH_TID_INVALID False) g (B_thread (here (BC_join n (i + 1) ts))))"
    using Suc.prems(3-5) by (simp add: here c_iff)
  from call_returns [OF Suc.prems(1,2), unfolded bench_prog, OF this _ join_nobody [OF Suc.prems(1)]]
  have "creachable bench p0 g0 ((User [], s), ps(self_tid s := At (B_thread (here (BC_join n (i + 1) ts)))), g)" by (simp add: ret)
  from Suc.IH [OF this, unfolded fun_upd_upd, of "i + 1"] Suc.prems(3-) show ?case by simp
qed

text \<open>The first benchmark, when no thread can be made.\<close>

lemma bench_create_fails:
  assumes here: "\<And>e q g. bench_main_thread e (here q) g = bench_create e here back q g"
    and ret: "\<And>n i ts t j. bench_ret (B_thread (here (BC_made n i ts t))) (RetTid j) = B_thread (here (BC_made n i ts j))"
      "\<And>n i ts r. bench_ret (B_thread (here (BC_join n i ts))) r = B_thread (here (BC_join n i ts))"
    and r: "creachable bench p0 g0 ((User [], s), ps, g)" and p: "ps (self_tid s) = At (B_thread (here (BC_create n 0 ts)))" and n: "0 \<le> n"
  shows "creachable bench p0 g0 ((User [], s), ps(self_tid s := At (B_thread back)), b_print (Ev_create_join n) g)"
proof -
  obtain ts' where t: "creachable bench p0 g0 ((User [], s), ps(self_tid s := At (B_thread (here (BC_join n 0 ts')))), g)"
      "\<forall>m. 0 \<le> m \<and> m < n \<longrightarrow> ts' m = Some UTH_TID_INVALID"
    using bc_creates [OF here ret(1) r p, of "nat n"] n by fastforce
  from bc_joins [OF here ret(2) t(1), unfolded fun_upd_upd, of n 0 ts' "nat n"] t(2) n show ?thesis by simp
qed

text \<open>The rounds of one thread, when no other thread wants the mutex.\<close>

lemma rounds_run:
  assumes "creachable bench p0 g0 ((User [], s), ps, g)" and "ps (self_tid s) = At (B_contend (CT_loop r i))"
    and "mutexes s contend_mutex_at = Some \<lparr>mtx_locked = 0, mtx_owner = UTH_TID_INVALID, mtx_waiters = NULL\<rparr>"
    and "i + int k = r" "0 \<le> contend_counter g" "contend_counter g + int k < 2 ^ 63"
  shows "creachable bench p0 g0 ((User [], s), ps(self_tid s := At (B_contend (CT_loop r r))), g\<lparr>contend_counter := contend_counter g + int k\<rparr>)"
  using assms
proof (induction k arbitrary: i ps g)
  case 0
  then show ?case by (simp add: fun_upd_idem)
next
  case (Suc k)
  obtain rq wq where c: "caller s" by (rule creachable_lib [OF Suc.prems(1)])
  let ?i = "self_tid s" and ?m = contend_mutex_at and ?c = "contend_counter g"
  let ?s = "set_mutex ?m \<lparr>mtx_locked = 1, mtx_owner = self_tid s, mtx_waiters = NULL\<rparr> s"
  note m = mutex_round [OF c Suc.prems(3)]
  have "creachable bench p0 g0 ((User [], ?s), ps(?i := At (B_contend (CT_load r i))), g)"
    using call_returns [OF Suc.prems(1,2), of undefined "A_mutex_lock ?m" g "B_contend (CT_load r i)" RetVoid ?s] m(1) Suc.prems(4) by simp
  then have "creachable bench p0 g0 ((User [], ?s), ps(?i := At (B_contend (CT_store r i ?c))), g)"
    using code_computes [of bench p0 g0 ?s "ps(?i := At (B_contend (CT_load r i)))" g _ undefined g "B_contend (CT_store r i ?c)"] by simp
  then have "creachable bench p0 g0 ((User [], s), ps(?i := At (B_contend (CT_loop r (i + 1)))), g\<lparr>contend_counter := ?c + 1\<rparr>)"
    using call_returns [of bench p0 g0 ?s "ps(?i := At (B_contend (CT_store r i ?c)))" g "B_contend (CT_store r i ?c)" undefined "A_mutex_unlock ?m"
        "g\<lparr>contend_counter := ?c + 1\<rparr>" "B_contend (CT_loop r (i + 1))" RetVoid s] m(2) Suc.prems(5,6) by (simp add: c_long_def)
  from Suc.IH [OF this, unfolded fun_upd_upd, of "i + 1"] Suc.prems(3-) show ?case by (simp add: algebra_simps)
qed

section \<open>The run\<close>

definition bench_run1 :: "(bench_point, bench_globals) cconfig option" where
  "bench_run1 = do_cenvs bench (map os_at [1, 2, 3, 4, 5, 6, 7, 8]) (cinit (B_main BN_entry) bench_globals0)"

definition bench_run2 :: "(bench_point, bench_globals) cconfig option" where
  "bench_run2 = (case bench_run1 of None \<Rightarrow> None | Some ((l, s), ps, g) \<Rightarrow>
     do_cenvs bench (map os_at [11, 12, 13, 14, 15, 16] @ replicate 12 os_fail)
       ((User [], s), ps(self_tid s := At (B_thread BT_mid1)), b_print (Ev_create_join 500) (b_print (Ev_create_join 100) g)))"

definition bench_run3 :: "(bench_point, bench_globals) cconfig option" where
  "bench_run3 = (case bench_run2 of None \<Rightarrow> None | Some ((l, s), ps, g) \<Rightarrow>
     do_cenvs bench (replicate 7 os_fail)
       ((User [], s), ps(self_tid s := At (B_contend (CT_loop CONTENTION_ROUNDS CONTENTION_ROUNDS))), g\<lparr>contend_counter := CONTENTION_ROUNDS\<rparr>))"

fun at_first :: "bench_point pos \<Rightarrow> bool" where
  "at_first (At (B_thread (BT_create1 (BC_create n i tids)))) = (n = 100 \<and> i = 0)"
| "at_first _ = False"

fun at_rounds :: "bench_point pos \<Rightarrow> bool" where
  "at_rounds (At (B_contend (CT_loop r i))) = (r = CONTENTION_ROUNDS \<and> i = 0)"
| "at_rounds _ = False"

fun at_result :: "bench_point pos \<Rightarrow> bool" where
  "at_result (At (B_thread (BT_mutex (BM_join a i tids)))) = (i = CONTENTION_THREADS \<and> successes CONTENTION_THREADS tids = 1)"
| "at_result _ = False"

lemma bench_run_facts:
  "case bench_run1 of None \<Rightarrow> False | Some ((l, s), ps, g) \<Rightarrow> l = User [] \<and> at_first (ps (self_tid s))"
  "case bench_run2 of None \<Rightarrow> False | Some ((l, s), ps, g) \<Rightarrow> l = User [] \<and> contend_counter g = 0 \<and>
     mutexes s contend_mutex_at = Some \<lparr>mtx_locked = 0, mtx_owner = UTH_TID_INVALID, mtx_waiters = NULL\<rparr> \<and> at_rounds (ps (self_tid s))"
  "case bench_run3 of None \<Rightarrow> False | Some ((l, s), ps, g) \<Rightarrow> at_result (ps 1)"
  by code_simp+

abbreviation bench_reachable :: "(bench_point, bench_globals) cconfig \<Rightarrow> bool" where
  "bench_reachable \<equiv> creachable bench (B_main BN_entry) bench_globals0"

lemma bench_run1_reachable:
  assumes "bench_run1 = Some ((l, s), ps, g)"
  shows "bench_reachable ((User [], s), ps(self_tid s := At (B_thread BT_mid1)), b_print (Ev_create_join 500) (b_print (Ev_create_join 100) g))"
proof -
  have "l = User []" "at_first (ps (self_tid s))" using bench_run_facts(1) unfolding assms by simp_all
  then obtain ts where p: "l = User []" "ps (self_tid s) = At (B_thread (BT_create1 (BC_create 100 0 ts)))"
    by (auto elim!: at_first.elims(2))
  from do_cenvs_creachable [OF assms [unfolded bench_run1_def] c_start] p(1) have r: "bench_reachable ((User [], s), ps, g)" by simp
  have r2: "bench_reachable ((User [], s), ps(self_tid s := At (B_thread (BT_create2 (BC_create 500 0 (\<lambda>_. None))))), b_print (Ev_create_join 100) g)"
    by (rule bench_create_fails [where here = BT_create1, OF _ _ _ r p(2)]) simp_all
  have "bench_reachable ((User [], s), (ps(self_tid s := At (B_thread (BT_create2 (BC_create 500 0 (\<lambda>_. None))))))(self_tid s := At (B_thread BT_mid1)),
      b_print (Ev_create_join 500) (b_print (Ev_create_join 100) g))"
    by (rule bench_create_fails [where here = BT_create2, OF _ _ _ r2]) simp_all
  then show ?thesis by (simp only: fun_upd_upd)
qed

lemma bench_run2_reachable:
  assumes "bench_run2 = Some ((l, s), ps, g)"
  shows "bench_reachable ((User [], s), ps(self_tid s := At (B_contend (CT_loop CONTENTION_ROUNDS CONTENTION_ROUNDS))), g\<lparr>contend_counter := CONTENTION_ROUNDS\<rparr>)"
proof -
  from assms obtain l1 s1 ps1 g1 where r1: "bench_run1 = Some ((l1, s1), ps1, g1)" by (auto simp: bench_run2_def split: option.splits)
  have "l = User [] \<and> contend_counter g = 0 \<and>
      mutexes s contend_mutex_at = Some \<lparr>mtx_locked = 0, mtx_owner = UTH_TID_INVALID, mtx_waiters = NULL\<rparr> \<and> at_rounds (ps (self_tid s))"
    using bench_run_facts(2) unfolding assms by simp
  then have p: "l = User []" "ps (self_tid s) = At (B_contend (CT_loop CONTENTION_ROUNDS 0))" "contend_counter g = 0"
      "mutexes s contend_mutex_at = Some \<lparr>mtx_locked = 0, mtx_owner = UTH_TID_INVALID, mtx_waiters = NULL\<rparr>"
    by (auto elim!: at_rounds.elims(2))
  have "bench_reachable ((l, s), ps, g)"
    by (rule do_cenvs_creachable [OF _ bench_run1_reachable [OF r1]]) (use assms in \<open>simp only: bench_run2_def r1 option.case prod.case\<close>)
  with rounds_run [of "B_main BN_entry" bench_globals0 s ps g CONTENTION_ROUNDS 0 100000] p show ?thesis by (simp add: CONTENTION_ROUNDS_def)
qed

lemma bench_run_result:
  obtains l s ps g a tids where "bench_reachable ((l, s), ps, g)" "ps 1 = At (bm_at (BM_join a CONTENTION_THREADS tids))" "successes CONTENTION_THREADS tids = 1"
proof -
  from bench_run_facts(3) obtain l s ps g a tids where r: "bench_run3 = Some ((l, s), ps, g)"
      "ps 1 = At (bm_at (BM_join a CONTENTION_THREADS tids))" "successes CONTENTION_THREADS tids = 1"
    by (auto split: option.splits elim!: at_result.elims(2))
  from r(1) obtain l2 s2 ps2 g2 where r2: "bench_run2 = Some ((l2, s2), ps2, g2)" by (auto simp: bench_run3_def split: option.splits)
  have "bench_reachable ((l, s), ps, g)"
    by (rule do_cenvs_creachable [OF _ bench_run2_reachable [OF r2]]) (use r(1) in \<open>simp only: bench_run3_def r2 option.case prod.case\<close>)
  from that [OF this r(2,3)] show ?thesis .
qed

end
