(* ===== verification/Uth_Props_Client.thy ===== *)
theory Uth_Props_Client
  imports Uth_Prodcons_Inv Uth_Readwrite_Inv Uth_Philosophers_Fed Uth_Preempt_Demo Uth_Bench_Run
begin

text \<open>
  Properties of programs that run on the library: the library refines the abstract machine of mutexes and semaphores,
  and the example programs are correct on the library.
\<close>

text \<open>
  C9. The library refines the abstract machine: every step of a program on the library, the steps of the scheduler, of suspended
  calls and of the signal handler included, is a sequence of steps in which threads interleave and each call on a mutex or semaphore takes effect
  atomically; so what a program reaches on the library has its image among the states it reaches on the abstract machine.
\<close>

theorem library_refines_abstract_machine:
  assumes "creachable P p0 g0 c" and "cstep P c c'"
  shows "(astep P)\<^sup>*\<^sup>* (abstr c) (abstr c') \<and> areachable P p0 g0 (abstr c')"
proof
  have "objects_ok (snd (fst c))"
    using objects.reachable_inv [OF creachable_reachable [OF assms(1)]] by (simp add: objects_inv_def objects_ok_def)
  with sim_step [OF assms(2) creachable_coupled [OF assms(1)] creachable_prompt [OF assms(1)]] show "(astep P)\<^sup>*\<^sup>* (abstr c) (abstr c')" by blast
  show "areachable P p0 g0 (abstr c')" by (rule creachable_areachable [OF c_next [OF assms]])
qed

theorem library_refines_abstract_machine_witness:
  "\<exists>c c'. creachable (producer_consumer [1, 1, 1]) (PC_main M_entry) pc_globals0 c \<and> cstep (producer_consumer [1, 1, 1]) c c' \<and>
     (astep (producer_consumer [1, 1, 1]))\<^sup>*\<^sup>* (abstr c) (abstr c') \<and> areachable (producer_consumer [1, 1, 1]) (PC_main M_entry) pc_globals0 (abstr c')"
proof -
  let ?P = "producer_consumer [1, 1, 1]"
  have r: "creachable ?P (PC_main M_entry) pc_globals0 (cinit (PC_main M_entry) pc_globals0)" by (rule c_start)
  have "do_cstep ?P (os_at 0) (cinit (PC_main M_entry) pc_globals0) \<noteq> None" by code_simp
  then obtain c' where "cstep ?P (cinit (PC_main M_entry) pc_globals0) c'" using do_cstep_step by blast
  with library_refines_abstract_machine [OF r this] r show ?thesis by blast
qed

text \<open>
  C15. The bounded buffer of \<open>producer_consumer.c\<close> never overflows and never underflows: at any time the number of items
  produced but not consumed is between 0 and \<open>BUFFER_SIZE\<close>, and the two indices are inside the buffer, at the
  numbers of items produced and consumed modulo its size.
\<close>

theorem producer_consumer_bounded:
  assumes "creachable (producer_consumer argv) (PC_main M_entry) pc_globals0 ((l, s), ps, g)"
  shows "0 \<le> items_produced g - items_consumed g \<and> items_produced g - items_consumed g \<le> BUFFER_SIZE \<and>
     buf_in g = items_produced g mod BUFFER_SIZE \<and> buf_out g = items_consumed g mod BUFFER_SIZE"
proof (intro conjI)
  have I: "pc_inv ps (mtx_view s) (sem_view s) g" using pc.creachable_inv [OF assms] by simp
  then show "0 \<le> items_produced g - items_consumed g" "items_produced g - items_consumed g \<le> BUFFER_SIZE"
    using pc_counts_bounds(1,2) by (auto simp: pc_inv_def in_buffer_def)
  show "buf_in g = items_produced g mod BUFFER_SIZE" "buf_out g = items_consumed g mod BUFFER_SIZE"
    using I by (simp_all add: pc_inv_def pc_data_def)
qed

theorem producer_consumer_bounded_witness:
  "\<exists>l s ps g. creachable (producer_consumer [1, 1, 1]) (PC_main M_entry) pc_globals0 ((l, s), ps, g) \<and> items_produced g = 1 \<and>
     items_consumed g = 0 \<and> items_produced g - items_consumed g \<le> BUFFER_SIZE \<and> buf_in g = 1 mod BUFFER_SIZE"
proof -
  have "runs_to (producer_consumer [1, 1, 1]) (PC_main M_entry) pc_globals0 (replicate 30 False)
      (\<lambda>l ps g. items_produced g = 1 \<and> items_consumed g = 0)" by code_simp
  then obtain l s ps g where r: "creachable (producer_consumer [1, 1, 1]) (PC_main M_entry) pc_globals0 ((l, s), ps, g)"
      "items_produced g = 1" "items_consumed g = 0" by (rule runs_toE) blast
  from producer_consumer_bounded [OF r(1)] r show ?thesis by metis
qed

text \<open>
  C14. The bounded buffer is first in, first out: the items that consumers have printed are exactly the first items that producers
  have printed, in the same order, and there are as many of them as the counters say.
\<close>

theorem producer_consumer_fifo:
  assumes "creachable (producer_consumer argv) (PC_main M_entry) pc_globals0 ((l, s), ps, g)"
  shows "items_taken (pc_log g) = take (nat (items_consumed g)) (items_made (pc_log g)) \<and>
     int (length (items_made (pc_log g))) = items_produced g \<and> int (length (items_taken (pc_log g))) = items_consumed g"
proof (intro conjI)
  have D: "pc_data g" and C: "pc_counts ps (sem_view s) g" using pc.creachable_inv [OF assms] by (simp_all add: pc_inv_def)
  have b: "0 \<le> items_consumed g" "items_consumed g \<le> items_produced g"
    using D pc_counts_bounds(1) [OF C] by (simp_all add: pc_data_def in_buffer_def)
  show "items_taken (pc_log g) = take (nat (items_consumed g)) (items_made (pc_log g))" using D by (simp add: pc_data_def)
  show "int (length (items_made (pc_log g))) = items_produced g" "int (length (items_taken (pc_log g))) = items_consumed g"
    using D b by (simp_all add: pc_data_def min_absorb2)
qed

theorem producer_consumer_fifo_witness:
  "\<exists>l s ps g. creachable (producer_consumer [1, 1, 2]) (PC_main M_entry) pc_globals0 ((l, s), ps, g) \<and> items_consumed g = 1 \<and>
     items_taken (pc_log g) = take 1 (items_made (pc_log g)) \<and> int (length (items_made (pc_log g))) = items_produced g"
proof -
  have "runs_to (producer_consumer [1, 1, 2]) (PC_main M_entry) pc_globals0 (replicate 40 False) (\<lambda>l ps g. items_consumed g = 1)" by code_simp
  then obtain l s ps g where r: "creachable (producer_consumer [1, 1, 2]) (PC_main M_entry) pc_globals0 ((l, s), ps, g)"
      "items_consumed g = 1" by (rule runs_toE) blast
  from producer_consumer_fifo [OF r(1)] r(2) have "items_taken (pc_log g) = take 1 (items_made (pc_log g))"
    "int (length (items_made (pc_log g))) = items_produced g" by simp_all
  with r show ?thesis by blast
qed

text \<open>
  C16. The lock of \<open>readers_writers.c\<close> excludes: while a thread is between \<open>write_lock\<close> and \<open>write_unlock\<close>, no other
  thread is between \<open>write_lock\<close> and \<open>write_unlock\<close> or between \<open>read_lock\<close> and \<open>read_unlock\<close>; and
  \<open>active_readers\<close>, \<open>active_writers\<close> and \<open>waiting_writers\<close> are the numbers of threads they stand for.
\<close>

theorem readers_writers_exclusion:
  assumes "creachable (readers_writers argv) (RW_main RM_lock) rw_globals0 ((l, s), ps, g)"
  shows "(\<forall>i j. weigh writing (ps i) = 1 \<longrightarrow> i \<noteq> j \<longrightarrow> weigh writing (ps j) = 0 \<and> weigh reading (ps j) = 0) \<and>
     active_readers g = tally (weigh reading) ps \<and> active_writers g = tally (weigh writing) ps \<and> waiting_writers g = tally (weigh waiting) ps"
proof (intro conjI allI impI)
  have C: "rw_counts ps g" using rw.creachable_inv [OF assms] by (simp add: rw_inv_def)
  then show "active_readers g = tally (weigh reading) ps" "active_writers g = tally (weigh writing) ps" "waiting_writers g = tally (weigh waiting) ps"
    by (simp_all add: rw_counts_def)
  fix i j assume w: "weigh writing (ps i) = 1" "i \<noteq> j"
  from writer_excludes [OF C w] show "weigh writing (ps j) = 0" "weigh reading (ps j) = 0" by simp_all
qed

theorem readers_writers_exclusion_witness:
  "\<exists>l s ps g. creachable (readers_writers [1, 1, 1]) (RW_main RM_lock) rw_globals0 ((l, s), ps, g) \<and> weigh writing (ps 2) = 1 \<and>
     weigh writing (ps 3) = 0 \<and> weigh reading (ps 3) = 0 \<and> active_writers g = tally (weigh writing) ps"
proof -
  have "runs_to (readers_writers [1, 1, 1]) (RW_main RM_lock) rw_globals0 (replicate 30 False) (\<lambda>l ps g. weigh writing (ps 2) = 1)" by code_simp
  then obtain l s ps g where r: "creachable (readers_writers [1, 1, 1]) (RW_main RM_lock) rw_globals0 ((l, s), ps, g)"
      "weigh writing (ps 2) = 1" by (rule runs_toE) blast
  have "(2 :: u32) \<noteq> 3" by simp
  with readers_writers_exclusion [OF r(1)] r show ?thesis by blast
qed



text \<open>
  C13. Neighbours in \<open>philosophers.c\<close> never eat at the same time, and a philosopher that eats is the owner of
  the mutexes of its two forks.
\<close>

theorem philosophers_exclusion:
  assumes "creachable (philosophers argv) (PH_main PM_entry) ph_globals0 ((loc, s), ps, g)" and "eats (ps i) = Some l"
  shows "held_by (fork_at g (ph_id l)) i s \<and> held_by (fork_at g ((ph_id l + 1) mod ph_N g)) i s \<and>
     (\<forall>j l'. eats (ps j) = Some l' \<longrightarrow> i \<noteq> j \<longrightarrow> {ph_id l, (ph_id l + 1) mod ph_N g} \<inter> {ph_id l', (ph_id l' + 1) mod ph_N g} = {})"
proof (intro conjI allI impI)
  have I: "ph_inv ps (mtx_view s) (sem_view s) g" using ph.creachable_inv [OF assms(1)] by simp
  note e = eats_holds [OF assms(2) ph_facts(2) [OF I]]
  have held: "held_by (fork_at g x) i s" if "x \<in> holds_forks (ps i)" for x
    using ph_facts(5) [OF I held_in_table [OF ph_facts(2) [OF I] that], of i] that
    by (auto simp: mtx_view_def held_by_def split: if_splits)
  show "held_by (fork_at g (ph_id l)) i s" "held_by (fork_at g ((ph_id l + 1) mod ph_N g)) i s" using held e(1) by simp_all
  fix j l' assume "eats (ps j) = Some l'" and "i \<noteq> j"
  with eats_holds(1) [OF this(1) ph_facts(2) [OF I]] forks_disjoint [OF I \<open>i \<noteq> j\<close>] e(1)
  show "{ph_id l, (ph_id l + 1) mod ph_N g} \<inter> {ph_id l', (ph_id l' + 1) mod ph_N g} = {}" by simp
qed

theorem philosophers_exclusion_witness:
  "\<exists>loc s ps g l. creachable (philosophers [2, 1]) (PH_main PM_entry) ph_globals0 ((loc, s), ps, g) \<and> eats (ps 2) = Some l \<and>
     held_by (fork_at g (ph_id l)) 2 s \<and> held_by (fork_at g ((ph_id l + 1) mod ph_N g)) 2 s"
proof -
  have "runs_to (philosophers [2, 1]) (PH_main PM_entry) ph_globals0 (replicate 63 False) (\<lambda>l ps g. eats (ps 2) \<noteq> None)" by code_simp
  then obtain loc s ps g l where r: "creachable (philosophers [2, 1]) (PH_main PM_entry) ph_globals0 ((loc, s), ps, g)"
      "eats (ps 2) = Some l" by (rule runs_toE) blast
  from philosophers_exclusion [OF r] r show ?thesis by blast
qed

text \<open>
  C10. The philosophers never deadlock: whenever the scheduler looks for the next thread, it finds one to run, or all threads have ended and
  \<open>uth_run\<close> returns. It never finds every thread that is left blocked.
\<close>

theorem philosophers_never_deadlock:
  assumes r: "creachable (philosophers argv) (PH_main PM_entry) ph_globals0 ((SchedTop, s), ps, g)"
  shows "(\<exists>k s'. scheduler_round s = Ok (SchedRun k, s')) \<or>
     scheduler_round s = Ok (SchedBreak, s) \<and> (\<forall>i. i \<noteq> UTH_TID_INVALID \<longrightarrow> ps i = Unborn \<or> ps i = Ended)"
proof -
  from coupledD(1) [OF creachable_coupled [OF r]] obtain rq wq where inv: "lib_inv s rq wq" and nr: "no_running s" by (auto elim: lib_okE)
  show ?thesis
    by (rule scheduler_round_cases [OF inv nr]) (use ph_never_idle [OF r] finished_positions [OF creachable_coupled [OF r]] in auto)
qed

theorem philosophers_never_deadlock_witness:
  "\<exists>s ps g. creachable (philosophers [2, 1]) (PH_main PM_entry) ph_globals0 ((SchedTop, s), ps, g) \<and> awaits_fork (ps 3) = Some 0 \<and>
     (\<exists>k s'. scheduler_round s = Ok (SchedRun k, s'))"
proof -
  have "runs_to (philosophers [2, 1]) (PH_main PM_entry) ph_globals0 (replicate 63 False)
      (\<lambda>l ps g. (case l of SchedTop \<Rightarrow> True | _ \<Rightarrow> False) \<and> awaits_fork (ps 3) = Some 0)" by code_simp
  then obtain s ps g where r: "creachable (philosophers [2, 1]) (PH_main PM_entry) ph_globals0 ((SchedTop, s), ps, g)" "awaits_fork (ps 3) = Some 0"
    by (rule runs_toE) (auto split: loc.splits)
  then have "\<not> (ps 3 = Unborn \<or> ps 3 = Ended)" "(3 :: u32) \<noteq> UTH_TID_INVALID" by auto
  with philosophers_never_deadlock [OF r(1)] have "\<exists>k s'. scheduler_round s = Ok (SchedRun k, s')" by blast
  with r show ?thesis by blast
qed

text \<open>
  C11. The philosophers come to an end: no run of \<open>philosophers.c\<close> on the library is infinite. This includes the steps of the scheduler, and
  the philosophers that are woken for a fork and find it taken again.
\<close>

theorem philosophers_terminate:
  "\<not> (\<exists>f. f 0 = cinit (PH_main PM_entry) ph_globals0 \<and> (\<forall>n. cstep (philosophers argv) (f n) (f (Suc n))))"
  using ph_end.no_infinite_run by blast

text \<open>
  C12. The philosophers eat their meals: in every reachable state a counter of meals is between 0 and \<open>total_meals\<close>, and if the thread that the driver
  has created for seat \<open>k\<close> has ended, its counter is exactly \<open>total_meals\<close> (or 0, if this number is negative).
\<close>

theorem philosophers_eat_their_meals:
  assumes r: "creachable (philosophers argv) (PH_main PM_entry) ph_globals0 ((loc, s), ps, g)"
  shows "(\<forall>m\<in>set (meals g). 0 \<le> m \<and> m \<le> max 0 (total_meals g)) \<and>
     (\<forall>k t. ph_tids g k = Some t \<longrightarrow> t \<noteq> UTH_TID_INVALID \<longrightarrow> ps t = Ended \<longrightarrow> 0 \<le> k \<and> k < ph_N g \<and> meals g ! nat k = max 0 (total_meals g))"
proof -
  have F: "ph_fed ps g" and m: "meals_ok g" using phf.creachable_inv [OF r] by (simp_all add: ph_all_def)
  have "0 \<le> k \<and> k < ph_N g \<and> meals g ! nat k = max 0 (total_meals g)" if k: "ph_tids g k = Some t" "t \<noteq> UTH_TID_INVALID" "ps t = Ended" for k t
  proof -
    have b: "booked ps g k t" using k(1) by (simp add: booked_def)
    from ph_fedD(1-3) [OF F b] k(2,3) show ?thesis by (simp add: meal_cap_def)
  qed
  with ph_fedD(9) [OF F] m show ?thesis by (auto simp: meals_ok_def meal_cap_def)
qed

theorem philosophers_eat_their_meals_witness:
  "\<exists>loc s ps g. creachable (philosophers [2, 1]) (PH_main PM_entry) ph_globals0 ((loc, s), ps, g) \<and> ph_tids g 0 = Some 2 \<and> ps 2 = Ended \<and>
     meals g ! 0 = max 0 (total_meals g)"
proof -
  have "runs_to (philosophers [2, 1]) (PH_main PM_entry) ph_globals0 (replicate 73 False)
      (\<lambda>l ps g. (case ps 2 of Ended \<Rightarrow> True | _ \<Rightarrow> False) \<and> ph_tids g 0 = Some 2)" by code_simp
  then obtain loc s ps g where r: "creachable (philosophers [2, 1]) (PH_main PM_entry) ph_globals0 ((loc, s), ps, g)" "ps 2 = Ended" "ph_tids g 0 = Some 2"
    by (rule runs_toE) (auto split: pos.splits)
  moreover from philosophers_eat_their_meals [OF r(1)] r(2,3) have "meals g ! 0 = max 0 (total_meals g)" by force
  ultimately show ?thesis by blast
qed

text \<open>
  C18. With \<open>SIGALRM\<close> arriving anywhere, \<open>preempt_demo.c\<close> counts exactly: in every reachable state each progress counter is between 0 and
  \<open>WORK_ITERS\<close>, and the values that a thread has printed are 1, 2, 3, ... in this order, up to the counter or one less (the line
  for the last increment may still be unprinted).
\<close>

theorem preempt_demo_progress:
  assumes "creachable preempt_demo (PD_main DM_entry) pd_globals0 ((l, s), ps, g)"
  shows "0 \<le> progress g w \<and> progress g w \<le> WORK_ITERS \<and>
     (\<exists>n. 0 \<le> n \<and> n \<le> progress g w \<and> progress g w \<le> n + 1 \<and> pd_lines w (pd_log g) = [1..n])"
  using pd.creachable_inv [OF assms] by (simp add: pd_inv_def)

theorem preempt_demo_progress_witness:
  "\<exists>l s ps g. creachable preempt_demo (PD_main DM_entry) pd_globals0 ((l, s), ps, g) \<and> progress g True = 1 \<and> progress g False = 0 \<and>
     progress g True \<le> WORK_ITERS \<and> (\<exists>n. progress g True \<le> n + 1 \<and> pd_lines True (pd_log g) = [1..n])"
proof -
  have "runs_self preempt_demo (PD_main DM_entry) pd_globals0 (replicate 18 False @ [True] @ replicate 4 False) (PD_thread True (TH_burn 0 0 0))
      (\<lambda>g. progress g True = 0 \<and> progress g False = 0)" by code_simp
  then obtain s ps g where d: "creachable preempt_demo (PD_main DM_entry) pd_globals0 ((User [], s), ps, g)"
      "ps (self_tid s) = At (PD_thread True (TH_burn 0 0 0))" "progress g True = 0" "progress g False = 0"
    by (rule runs_selfE) blast
  obtain ps' g' where r: "creachable preempt_demo (PD_main DM_entry) pd_globals0 ((User [], s), ps', g')" "progress g' True = 1"
      "progress g' (\<not> True) = progress g (\<not> True)" by (rule line_printed [OF d(1-3)])
  from preempt_demo_progress [OF r(1), of True] r d(4) have "progress g' True \<le> WORK_ITERS"
    "\<exists>n. progress g' True \<le> n + 1 \<and> pd_lines True (pd_log g') = [1..n]" "progress g' False = 0" by auto
  with r(1,2) show ?thesis by blast
qed

text \<open>
  C19. The mutex benchmark of \<open>bench.c\<close> counts exactly: when \<open>bench_mutex\<close> has joined its threads and is about to print the result,
  \<open>contend_counter\<close> is \<open>CONTENTION_ROUNDS\<close> for each thread that could be created; the printed counter is the expected number if and
  only if every call of \<open>uth_create\<close> succeeded.
\<close>

theorem bench_counter_exact:
  assumes "creachable bench (B_main BN_entry) bench_globals0 ((l, s), ps, g)" and "ps i = At (B_thread (BT_mutex (BM_join a CONTENTION_THREADS tids)))"
  shows "contend_counter g = CONTENTION_ROUNDS * successes CONTENTION_THREADS tids \<and>
     (contend_counter g = CONTENTION_THREADS * CONTENTION_ROUNDS \<longleftrightarrow> (\<forall>k. 0 \<le> k \<and> k < CONTENTION_THREADS \<longrightarrow> tids k \<noteq> Some UTH_TID_INVALID))"
proof
  have I: "bench_inv ps (mtx_view s) (sem_view s) g" using bm.creachable_inv [OF assms(1)] by simp
  show c: "contend_counter g = CONTENTION_ROUNDS * successes CONTENTION_THREADS tids" by (rule counter_exact [OF I assms(2)])
  show "contend_counter g = CONTENTION_THREADS * CONTENTION_ROUNDS \<longleftrightarrow>
      (\<forall>k. 0 \<le> k \<and> k < CONTENTION_THREADS \<longrightarrow> tids k \<noteq> Some UTH_TID_INVALID)"
    unfolding c using all_succeed [of CONTENTION_THREADS tids] by (auto simp: CONTENTION_THREADS_def CONTENTION_ROUNDS_def)
qed

theorem bench_counter_exact_witness:
  "\<exists>l s ps g a tids. creachable bench (B_main BN_entry) bench_globals0 ((l, s), ps, g) \<and>
     ps 1 = At (B_thread (BT_mutex (BM_join a CONTENTION_THREADS tids))) \<and> successes CONTENTION_THREADS tids = 1 \<and> contend_counter g = 100000"
proof -
  obtain l s ps g a tids where r: "creachable bench (B_main BN_entry) bench_globals0 ((l, s), ps, g)"
      "ps 1 = At (B_thread (BT_mutex (BM_join a CONTENTION_THREADS tids)))" "successes CONTENTION_THREADS tids = 1" by (rule bench_run_result)
  from bench_counter_exact [OF r(1,2)] r(3) have "contend_counter g = 100000" by (simp add: CONTENTION_ROUNDS_def)
  with r show ?thesis by blast
qed

end
