(* ===== verification/Uth_Fair.thy ===== *)
theory Uth_Fair
  imports Uth_Exec
begin

text \<open>
  The order in which the scheduler serves the threads: the run queue changes only at its ends. A step puts threads at its tail, or it is a scheduling
  decision, which takes the first thread. So a thread that is \<open>READY\<close> is overtaken by nobody, and its position bounds how long it waits.
\<close>

section \<open>Scheduling decisions\<close>

definition picks :: "config \<Rightarrow> config \<Rightarrow> bool" where
  "picks c c' \<longleftrightarrow> fst c = SchedTop \<and> uth_current (snd c') \<noteq> NULL"

text \<open>\<open>decides n c c'\<close>: a run from \<open>c\<close> to \<open>c'\<close> with \<open>n\<close> scheduling decisions.\<close>

inductive decides :: "nat \<Rightarrow> config \<Rightarrow> config \<Rightarrow> bool" where
  decides_none: "decides 0 c c"
| decides_other: "\<lbrakk>decides n c d; step d e; \<not> picks d e\<rbrakk> \<Longrightarrow> decides n c e"
| decides_pick: "\<lbrakk>decides n c d; step d e; picks d e\<rbrakk> \<Longrightarrow> decides (Suc n) c e"

lemma decides_reachable: "\<lbrakk>decides n c c'; reachable c\<rbrakk> \<Longrightarrow> reachable c'"
  by (induction rule: decides.induct) (auto intro: next_step)

section \<open>One step\<close>

text \<open>What a step may do to the run queue.\<close>

definition served :: "config \<Rightarrow> config \<Rightarrow> bool" where
  "served c c' \<longleftrightarrow> (if picks c c' then \<forall>rq wq. lib_inv (snd c) rq wq \<longrightarrow>
       (\<exists>rq' wq'. lib_inv (snd c') rq' wq' \<and> rq = uth_current (snd c') # rq') else rq_grows (snd c) (snd c'))"

lemma served_grows: "\<lbrakk>rq_grows s s'; l \<noteq> SchedTop\<rbrakk> \<Longrightarrow> served (l, s) (l', s')"
  by (simp add: served_def picks_def)

lemma grows_same: "(\<And>rq wq. lib_inv s rq wq \<Longrightarrow> lib_inv s' rq wq) \<Longrightarrow> rq_grows s s'"
  unfolding rq_grows_def by blast

lemma run_grows: "uth_run bp sp s = (d, s') \<Longrightarrow> rq_grows s s'"
  by (rule grows_same) (auto simp: uth_run_def uth_run_body_def split: if_splits)

lemma tick_grows:
  assumes t: "tick_pending s" and ucp: "uc_sigmask ucp = sigmask s" "uc_frames ucp = frames_at l"
    and res: "uth_preempt_handler ucp s = Ok (d, s')" and I: "cfg_inv (l, s)"
  shows "l \<noteq> SchedTop \<and> rq_grows s s'"
proof
  show "l \<noteq> SchedTop" using I t by (auto simp: tick_pending_def)
  show "rq_grows s s'"
  proof (cases "uth_current s = NULL")
    case True
    with handler_idle [OF True] res show ?thesis by simp
  next
    case False
    obtain k where l: "l = User k" using I t False by (cases l) (simp_all add: tick_pending_def)
    with I obtain rq wq where inv: "lib_inv s rq wq" and u: "user_inv k s" by (auto elim: lib_okE)
    obtain x where r: "runs s (uth_current s) x" using caller_runs [OF user_inv_caller [OF u] False] by blast
    have "ctx_ok (erase s) True (uth_current s) (uc_sigmask ucp) (uc_frames ucp)"
      using u False ucp l by (simp add: user_inv_def)
    from handler_preempts [OF inv r this] res have "lib_inv s' (rq @ [uth_current s]) wq" by auto
    from rq_growsI [OF inv this] show ?thesis by simp
  qed
qed

lemma pick_served:
  assumes I: "cfg_inv (SchedTop, s)" and res: "scheduler_round s = Ok (SchedRun k, s')"
  shows "served (SchedTop, s) (User k, s')"
proof -
  from I obtain rq wq where inv: "lib_inv s rq wq" and nr: "no_running s" by (auto elim: lib_okE)
  show ?thesis
  proof (cases rule: scheduler_round_cases [OF inv nr])
    case (3 x rq' t s1 t')
    with res have s1: "s1 = s'" by simp
    have x: "x \<noteq> NULL" "uth_current s' = x" using runs_not_NULL [OF 3(5,6)] 3(6) s1 by (auto simp: runs_def)
    have "rq2 = x # rq'" if "lib_inv s rq2 wq2" for rq2 wq2
      using shape_unique(1) [OF lib_invD(1) [OF inv] lib_invD(1) [OF that]] 3(1) by simp
    with 3(5) s1 x show ?thesis by (auto simp: served_def picks_def)
  qed (use res in simp_all)
qed

lemma step_served: "\<lbrakk>step c c'; cfg_inv c\<rbrakk> \<Longrightarrow> served c c'"
proof (induction rule: step.induct)
  case (do_call a s d s')
  then obtain rq wq where inv: "lib_inv s rq wq" and u: "user_inv [] s" by (auto elim: lib_okE)
  from api_call_post [OF inv user_inv_caller [OF u] do_call(1,2)] show ?case by (intro served_grows) (simp_all add: lib_post_def)
next
  case (do_resume f k s d s')
  then obtain rq wq where inv: "lib_inv s rq wq" and u: "user_inv (f # k) s" by (auto elim: lib_okE)
  from resume_frame_post [OF inv u do_resume(1)] show ?case by (intro served_grows) (auto simp: lib_post_def)
next
  case (do_run s bp sp s')
  from run_grows [OF do_run(2)] show ?case by (intro served_grows) simp_all
next
  case (do_entry s)
  show ?case by (intro served_grows grows_same) (auto simp: scheduler_entry_def)
next
  case (do_pick s k s')
  from pick_served [OF do_pick(2,1)] show ?case .
next
  case (do_idle s s')
  from pick_inv(2) [OF do_idle(2,1) refl] do_idle(2) show ?case by (auto simp: served_def picks_def)
next
  case (do_finish s s1 bp sp s')
  from pick_inv(3) [OF do_finish(3,1) refl] do_finish(2,3) show ?case
    by (auto simp: served_def picks_def uth_run_linked_def uth_run_body_def)
next
  case (do_back s)
  then show ?case by (intro served_grows grows_same) (auto simp: lib_inv_swapped)
next
  case (do_tick s ucp l d s')
  from tick_grows [OF do_tick(1-4,5)] show ?case by (intro served_grows) simp_all
qed

section \<open>Runs\<close>

text \<open>After \<open>k\<close> decisions the thread at position \<open>n\<close> is at position \<open>n - k\<close>.\<close>

lemma decides_position:
  assumes "decides k c c'" and "reachable c" and "lib_inv (snd c) rq wq" and "n < length rq" and "k \<le> n"
  shows "\<exists>rq' wq'. lib_inv (snd c') rq' wq' \<and> n - k < length rq' \<and> rq' ! (n - k) = rq ! n"
  using assms
proof (induction rule: decides.induct)
  case (decides_other m c d e)
  from decides_other.IH [OF decides_other.prems] obtain rq' wq' where
    q: "lib_inv (snd d) rq' wq'" "n - m < length rq'" "rq' ! (n - m) = rq ! n" by blast
  have "served d e" by (rule step_served [OF decides_other(2) cfg.reachable_inv [OF decides_reachable [OF decides_other(1) decides_other.prems(1)]]])
  with decides_other(3) q(1) obtain rq2 wq2 where "lib_inv (snd e) rq2 wq2" "prefix rq' rq2"
    by (auto simp: served_def rq_grows_def)
  moreover from this(2) q(2,3) have "n - m < length rq2 \<and> rq2 ! (n - m) = rq ! n" by (auto simp: prefix_def nth_append)
  ultimately show ?case by blast
next
  case (decides_pick m c d e)
  from decides_pick.IH [OF decides_pick.prems(1-3)] decides_pick.prems(4) obtain rq' wq' where
    q: "lib_inv (snd d) rq' wq'" "n - m < length rq'" "rq' ! (n - m) = rq ! n" by auto
  have "served d e" by (rule step_served [OF decides_pick(2) cfg.reachable_inv [OF decides_reachable [OF decides_pick(1) decides_pick.prems(1)]]])
  with decides_pick(3) q(1) obtain rq2 wq2 where r: "lib_inv (snd e) rq2 wq2" "rq' = uth_current (snd e) # rq2" by (auto simp: served_def)
  have "n - m = Suc (n - Suc m)" using decides_pick.prems(4) by simp
  with q(2,3) r show ?case by (auto simp: nth_Cons intro!: exI)
qed auto

lemma decides_picks:
  assumes "decides n c d" and "reachable c" and "lib_inv (snd c) rq wq" and "n < length rq" and "step d e" and "picks d e"
  shows "uth_current (snd e) = rq ! n"
proof -
  from decides_position [OF assms(1-4)] obtain rq' wq' where q: "lib_inv (snd d) rq' wq'" "0 < length rq'" "rq' ! 0 = rq ! n" by auto
  have "served d e" by (rule step_served [OF assms(5) cfg.reachable_inv [OF decides_reachable [OF assms(1,2)]]])
  with assms(6) q show ?thesis by (auto simp: served_def)
qed

lemma chain_lib:
  assumes "reachable (l, s)" and "chain s RqHead rq"
  obtains wq where "lib_inv s rq wq"
proof -
  have "cfg_inv (l, s)" by (rule cfg.reachable_inv [OF assms(1)])
  then have "lib_ok s" by (cases l) simp_all
  then obtain rq' wq where inv: "lib_inv s rq' wq" by (auto elim: lib_okE)
  then have "rq' = rq" using lib_invD(1) [OF inv] assms(2) chain_unique [of s RqHead] by (auto simp: shape_def)
  with inv that show ?thesis by blast
qed

section \<open>Concrete runs\<close>

fun do_picks :: "move list \<Rightarrow> config \<Rightarrow> nat" where
  "do_picks [] c = 0"
| "do_picks (m # ms) c = (case do_move m c of None \<Rightarrow> 0 | Some c' \<Rightarrow> (if picks c c' then 1 else 0) + do_picks ms c')"

lemma decides_first: "\<lbrakk>decides n d e; step c d\<rbrakk> \<Longrightarrow> decides ((if picks c d then 1 else 0) + n) c e"
proof (induction rule: decides.induct)
  case (decides_none d)
  with decides.intros(1) [of c] show ?case using decides_pick [of 0 c c d] decides_other [of 0 c c d] by auto
next
  case (decides_other n c' d e)
  then show ?case by (auto intro: decides.decides_other)
next
  case (decides_pick n c' d e)
  from decides.decides_pick [OF decides_pick.IH [OF decides_pick.prems] decides_pick(2,3)] show ?case by simp
qed

lemma do_moves_decides: "do_moves ms c = Some c' \<Longrightarrow> decides (do_picks ms c) c c'"
proof (induction ms arbitrary: c)
  case (Cons m ms)
  then obtain d where "do_move m c = Some d" "do_moves ms d = Some c'" by (auto split: option.splits)
  with decides_first [OF Cons.IH do_move_step] show ?case by simp
qed (simp add: decides_none)

text \<open>Two threads get their turn and yield.\<close>

definition two_turns :: "move list" where
  "two_turns = [M_sched, M_resume, M_call A_yield, M_sched, M_sched, M_resume, M_call A_yield, M_sched]"

end
