(* ===== verification/Spec2Isabelle.thy ===== *)
theory Spec2Isabelle
  imports Uth_Props_Thread Uth_Props_Sync Uth_Props_Objects Uth_Props_Client Uth_Fair Uth_Resume
begin

text \<open>
  A verification of the green-threads library \<open>uthreads\<close>: the scheduler and thread calls of
  \<open>thread.c\<close>, the locks of \<open>src/mutex.c\<close>, the condition variable and the semaphore of \<open>src/sync.c\<close> and
  the preemption timer of \<open>src/preempt.c\<close>, with the data of \<open>uthreads.h\<close> and \<open>uthreads_internal.h\<close>, and of the programs
  that run on it: the four examples under \<open>examples/\<close> and the benchmark \<open>bench/bench.c\<close>.

  \<^bold>\<open>The program.\<close> Threads are TCBs on the heap, listed in a growing table. One FIFO run queue and one FIFO
  wait queue per synchronisation object are linked through the \<open>next\<close> fields of the TCBs. The scheduler
  runs on a context of its own; a thread gives up the processor by \<open>swapcontext\<close> inside a library call,
  or by the \<open>SIGALRM\<close> handler, which copies the interrupted context into the TCB. The calls that change the queues, the table or the state
  of an object block \<open>SIGALRM\<close> first and restore the mask of their caller at their end. Not protected in this way are the scan of \<open>uth_active_count\<close>, the last statement
  of \<open>uth_create\<close>, the spinlock, \<open>uth_self\<close>, the two functions that switch preemption on and off, and the initialisation and destruction of objects.

  \<^bold>\<open>The theories.\<close>
  \<^item> \<open>Uth_Prelude\<close>: machine types, the result type (\<open>Ok\<close>, \<open>Fault\<close>, \<open>NoReturn\<close>) and shared lemmas.
  \<^item> \<open>Uth_State\<close>: the structures as records, the process state \<open>sys\<close> (TCB heap, objects, globals, signal
    mask, timer), \<open>uth_tcb_t **\<close> cells with \<open>load_pp\<close> and \<open>store_pp\<close>, and \<open>erase\<close>, the state without its links.
  \<^item> \<open>Uth_Queue\<close>: \<open>queue_push\<close>, \<open>queue_pop\<close>, \<open>uth_enqueue\<close>, the append of \<open>uth_block\<close>, \<open>uth_wake_one\<close> and
    \<open>uth_wake_all\<close>. \<open>shape s rq wq\<close> says which lists the links represent; each operation is proved against it.
    The locale \<open>fifo_queue\<close> is the interface of both kinds of queue, interpreted as \<open>run_queue\<close> and \<open>wait_queue\<close>.
  \<^item> \<open>Uth_Table\<close>: \<open>tcb_alloc\<close>, \<open>tcb_find\<close>, \<open>tcb_free\<close> and the count of live threads, with the table invariant \<open>table_ok\<close>.
  \<^item> \<open>Uth_Inv\<close>: the invariant \<open>lib_inv\<close> of the scheduler (states, queues, saved call stacks, joiners, table)
    and one lemma for each kind of effect that keeps it.
  \<^item> \<open>Uth_Thread\<close>: \<open>uth_block\<close>, the scheduler loop, \<open>uth_run\<close>, and the thread calls, with their behaviour on \<open>lib_inv\<close>.
  \<^item> \<open>Uth_Wait\<close>: \<open>lib_post\<close>, the contract of every library call, and the locale \<open>blocking_wait\<close>, the contract of
    a waiting loop, interpreted for the mutex (\<open>mutex_wait\<close>), the ticket lock (\<open>ticket_wait\<close>) and the semaphore (\<open>sem_wait\<close>).
  \<^item> \<open>Uth_Mutex\<close>, \<open>Uth_Sync\<close>, \<open>Uth_Preempt\<close>: the operations of the three other source files and their behaviour.
  \<^item> \<open>Uth_Machine\<close>: the library as a transition system under an arbitrary client: any interface call from user code,
    the continuation of suspended calls, the scheduler, and \<open>SIGALRM\<close> whenever it is not blocked; \<open>cfg_inv\<close> is an
    invariant of it (locale \<open>machine_invariant\<close>, interpreted as \<open>cfg\<close>).
  \<^item> \<open>Uth_Frame\<close>: which objects each function may change (\<open>footprint\<close>), and that only \<open>uth_create\<close> draws a thread id.
  \<^item> \<open>Uth_Objects\<close>: the effect of each call on a mutex and on a semaphore; well-formed objects as a second
    interpretation of \<open>machine_invariant\<close> (\<open>objects\<close>).
  \<^item> \<open>Uth_Wakeup\<close>: units and takers, the invariant behind the absence of lost wake-ups, a third interpretation (\<open>wake\<close>).
  \<^item> \<open>Uth_Exec\<close>: schedules, lists of moves that the machine can be run on by evaluation; what they compute is reachable.
  \<^item> \<open>Uth_Fair\<close>: scheduling decisions, and that the run queue changes only at its ends.
  \<^item> \<open>Uth_Demo\<close>: a concrete state with eight threads and a concrete run, on which the properties are instantiated.
  \<^item> \<open>Uth_Client\<close>: programs on the library. \<open>cstep\<close> runs a program on the transition system of the library; \<open>astep\<close> is the
    abstract machine, with interleaving threads, mutexes that have a holder, semaphores that have a value, and calls that take
    effect atomically; \<open>uth_join\<close> returns when the thread has ended, and \<open>uth_create\<close> returns the id of the new thread
    unless the program enables preemption (\<open>cooperative\<close>).
  \<^item> \<open>Uth_Refine\<close>, \<open>Uth_Sim\<close>: the coupling of the positions of the threads with the saved call stacks, and the simulation
    of \<open>cstep\<close> by \<open>astep\<close>. The locales \<open>client_invariant\<close> and \<open>client_rules\<close> turn an invariant of a program on the abstract
    machine into one on the library; every program interprets \<open>client_rules\<close>.
  \<^item> \<open>Uth_Resume\<close>: what a thread finds when it continues. Its saved context stays as it is while it is off the processor (\<open>suspended\<close>), the mask that it will return
    with is fixed when it makes a call (\<open>masks_to\<close>), the value of an ended thread stays until it is joined (\<open>outcome\<close>), and \<open>run_open\<close> runs an open frame to its end.
  \<^item> \<open>Uth_Anchor\<close>: in every step a blocked thread stays in its wait queue, or stays the joiner of its target (\<open>anchored\<close>), unless the step
    initialises an object with waiters or is a second join.
  \<^item> \<open>Uth_Deadlock\<close>: the locale \<open>tidy_program\<close> of programs without such steps. When the scheduler of the library idles on a tidy program, every thread that
    is left is in a call that the abstract machine could not complete either, so a deadlock on the library is one on the abstract machine.
  \<^item> \<open>Uth_Terminate\<close>: the locale \<open>terminating_program\<close>. If every abstract step of a program does some of the work that is left and the scheduler never idles,
    the program has no infinite run on the library: steps are ordered by the work, the length of the run queue and the place of control.
  \<^item> \<open>Uth_Clib\<close>: C arithmetic and arrays, sums over threads, and an evaluator for concrete runs of programs.
  \<^item> \<open>Uth_Prodcons\<close>, \<open>Uth_Readwrite\<close>, \<open>Uth_Philosophers\<close>, \<open>Uth_Preempt_Demo\<close>: the examples, function by function; their
    invariants are in \<open>Uth_Prodcons_Inv\<close> (\<open>pc\<close>), \<open>Uth_Readwrite_Inv\<close> (\<open>rw\<close>), \<open>Uth_Philosophers_Inv\<close> (\<open>ph\<close>) and \<open>Uth_Preempt_Demo\<close> (\<open>pd\<close>).
    \<open>Uth_Philosophers_Live\<close> shows that the philosophers are tidy (\<open>ph_tidy\<close>) and do not deadlock, \<open>Uth_Philosophers_End\<close> that they terminate (\<open>ph_end\<close>),
    and \<open>Uth_Philosophers_Fed\<close> how often they eat (\<open>phf\<close>).
  \<^item> \<open>Uth_Bench\<close>, \<open>Uth_Bench_Inv\<close>, \<open>Uth_Bench_Run\<close>: the benchmark in its variant for this library, the invariant of its mutex test (\<open>bm\<close>),
    and a run up to the result of this test, whose loops of 100000 rounds are followed by induction.
  \<^item> \<open>Uth_Props_Thread\<close>, \<open>Uth_Props_Sync\<close>, \<open>Uth_Props_Objects\<close>, \<open>Uth_Props_Client\<close>: the properties of the components and of the programs; this theory
    holds those of the whole library.

  \<^bold>\<open>Suspended calls.\<close> A C call stack is represented by the list of the library frames that are still active; a frame
  holds the locals that are used after the suspension. A function that reaches \<open>swapcontext\<close> saves its frame
  and ends with \<open>Switched\<close>; the rest of its body is a definition of its own (\<open>uth_join_resumed\<close>,
  \<open>mutex_lock_loop\<close>), which \<open>resume_frame\<close> selects. \<open>Remains\<close> ends a stretch of a function that goes on without a switch while \<open>SIGALRM\<close> may arrive: before
  the \<open>return t->tid\<close> of \<open>uth_create\<close>, before and inside every round of the loop of \<open>uth_active_count\<close> (\<open>F_count\<close>, \<open>F_count_at\<close>), between \<open>setitimer\<close> and
  \<open>preempt_enabled = 1\<close>, and after the test in \<open>uth_preempt_disable\<close>.

  \<^bold>\<open>Programs.\<close> A program is a function from program points to the code up to the next library call; a program point holds the local
  variables. A program that never enables preemption runs this code undisturbed, so it is one step; \<open>preempt_demo.c\<close>
  enables it, so there every access to a shared variable is a step of its own. \<open>printf\<close> appends to a log; the answers of \<open>malloc\<close> are chosen by the environment and
  \<open>malloc\<close> succeeds; \<open>uth_create\<close> may fail; \<open>atoi\<close> gives the number of an argument. The increment of the \<open>volatile\<close> counter
  of the benchmark is a load and a store, in two steps.

  \<^bold>\<open>Loops.\<close> The loops over linked lists are \<open>partial_function (option)\<close>; that they end is proved for every
  list that \<open>shape\<close> describes. The spinlock loop outside of a thread has no result, and that is proved.
  The loops over the table are bounded by \<open>tcb_count\<close>. \<open>run_open\<close>, the loop of \<open>uth_active_count\<close> without interruption, is a \<open>partial_function\<close> too, and ends
  in every reachable state. No fuel is used.

  \<^bold>\<open>What the lemmas show.\<close> Every reachable configuration satisfies \<open>cfg_inv\<close>: no queue is corrupted, the
  scheduler never fails, suspended calls continue, a preempted thread goes on where it was interrupted, every call gives its caller the
  signal mask back, also after it was suspended, the value of an ended thread reaches the join that collects it, thread ids stay unique, the scheduler serves the threads in turn, a mutex is released by its owner only, and no wake-up is lost. Each operation is described on every branch, errors included. Three defects are exhibited by schedules: the races in
  \<open>uth_create\<close> and in \<open>uth_active_count\<close>, which read a TCB that may have been freed, and the joiner that is lost when two threads join the same one.
  The library refines the abstract machine, and the examples are correct on it: the bounded buffer is bounded and first-in
  first-out, the readers-writers lock excludes and keeps the shared value stable for those inside it, neighbouring philosophers exclude each other, never deadlock, terminate and have then eaten their meals, preempted
  threads count exactly, and the benchmark of the mutex loses no increment.

  \<^bold>\<open>Not modelled.\<close> The memory behind stacks and the registers in a context; the content of user code in the transition system of the library (any client
  is allowed). \<open>swapcontext\<close> and \<open>setcontext\<close> are atomic with respect to signals, and resuming a context that the signal handler saved restores it exactly. No signal
  arrives inside \<open>uth_self\<close>, inside the initialisation or destruction of an object, in \<open>uth_preempt_enable\<close> before the timer runs, or inside a \<open>printf\<close> of \<open>preempt_demo.c\<close>:
  these are single steps. In \<open>uth_active_count\<close> the test of the loop and the read of \<open>tcb_table[i]\<close> are one step. The variable \<open>live\<close> of the scheduler loop is an unbounded integer; it is only compared with 0, and the C \<open>int\<close> overflows with \<open>2 ^ 31\<close> live threads only.
  The mask that the process starts with is arbitrary. The answers of \<open>mmap\<close>, \<open>realloc\<close>, \<open>calloc\<close>, \<open>malloc\<close>,
  \<open>sigaltstack\<close> and \<open>sigaction\<close> are parameters; \<open>calloc\<close> returns memory that is not in use. \<open>uth_run\<close> is called outside of
  threads only. The times that the benchmark measures, and its variant for \<open>pthread\<close>.
\<close>

section \<open>Progress lemmas\<close>

text \<open>A suspended library function of a thread continues without a fault, unless its object was never initialised.\<close>

lemma cfg_lib:
  assumes "reachable (l, s)"
  obtains rq wq where "lib_inv s rq wq" "cfg_inv (l, s)"
proof -
  have I: "cfg_inv (l, s)" by (rule cfg.reachable_inv [OF assms])
  then have "lib_ok s" by (cases l) simp_all
  with I that show thesis by (auto elim: lib_okE)
qed

lemma top_inv:
  assumes "reachable (SchedTop, s)"
  obtains rq wq where "lib_inv s rq wq" "no_running s" "uth_current s = NULL" "sigmask s" "run_returned s"
  using cfg.reachable_inv [OF assms] by (auto elim: lib_okE)

lemma top_no_tick: "reachable (SchedTop, s) \<Longrightarrow> \<not> tick_pending s"
  by (auto simp: tick_pending_def elim: top_inv)

lemma idle_spins:
  assumes "reachable (SchedTop, s)" and "scheduler_round s = Ok (SchedContinue, s')"
  shows "step (SchedTop, s) c \<longleftrightarrow> c = (SchedTop, s)"
proof -
  have s': "s' = s" by (rule pick_inv(2) [OF cfg.reachable_inv [OF assms(1)] assms(2) refl])
  show ?thesis
  proof
    assume "step (SchedTop, s) c"
    with assms(2) s' top_no_tick [OF assms(1)] show "c = (SchedTop, s)" by (auto elim!: step_topE)
  qed (use do_idle [OF assms(2)] s' in simp)
qed


section \<open>Properties of the running library\<close>

text \<open>
  C1. In every reachable configuration the links describe one run queue and one queue per
  synchronisation object, without sharing: a thread is in the run queue exactly when it is \<open>READY\<close>,
  and a thread in a wait queue is \<open>BLOCKED\<close>, inside the call that waits on this object. So a TCB is in
  at most one queue at a time, whatever the client calls and whenever \<open>SIGALRM\<close> arrives.
\<close>

theorem reachable_queues:
  assumes "reachable (l, s)"
  shows "\<exists>rq wq. shape s rq wq \<and> (\<forall>x t. heap s x = Some t \<longrightarrow> (tcb_state t = UTH_STATE_READY \<longleftrightarrow> x \<in> set rq)) \<and>
     (\<forall>q x. x \<in> set (wq q) \<longrightarrow> (\<exists>t f k. heap s x = Some t \<and> tcb_state t = UTH_STATE_BLOCKED \<and>
       uc_frames (tcb_ctx t) = f # k \<and> waits_on f = Some q))"
proof -
  obtain rq wq where inv: "lib_inv s rq wq" by (rule cfg_lib [OF assms])
  have "\<exists>t f k. heap s x = Some t \<and> tcb_state t = UTH_STATE_BLOCKED \<and> uc_frames (tcb_ctx t) = f # k \<and> waits_on f = Some q"
    if "x \<in> set (wq q)" for q x
    by (rule lib_waitE [OF inv that]) blast
  with lib_ready_iff [OF inv] lib_invD(1) [OF inv] show ?thesis by blast
qed

theorem reachable_queues_witness:
  "\<exists>l s rq wq t f k. reachable (l, s) \<and> shape s rq wq \<and> wq (MutexWaiters 0x600) = [0x200, 0x300] \<and> heap s 0x200 = Some t \<and>
     tcb_state t = UTH_STATE_BLOCKED \<and> uc_frames (tcb_ctx t) = f # k \<and> waits_on f = Some (MutexWaiters 0x600)"
proof -
  have "at_end contended (\<lambda>l s. mutexes s 0x600 \<noteq> None \<and> chain s (MutexWaiters 0x600) [0x200, 0x300])" by code_simp
  then obtain l s where s: "reachable (l, s)" "mutexes s 0x600 \<noteq> None" "chain s (MutexWaiters 0x600) [0x200, 0x300]" by (elim at_endE conjE)
  from reachable_queues [OF s(1)] obtain rq wq where q: "shape s rq wq" and
      w: "\<forall>q x. x \<in> set (wq q) \<longrightarrow> (\<exists>t f k. heap s x = Some t \<and> tcb_state t = UTH_STATE_BLOCKED \<and> uc_frames (tcb_ctx t) = f # k \<and> waits_on f = Some q)" by blast
  have "chain s (MutexWaiters 0x600) (wq (MutexWaiters 0x600))" using q s(2) by (simp add: shape_def wchain_def mapped_waiters)
  from chain_unique [OF this s(3)] have wq: "wq (MutexWaiters 0x600) = [0x200, 0x300]" .
  with w obtain t f k where "heap s 0x200 = Some t" "tcb_state t = UTH_STATE_BLOCKED" "uc_frames (tcb_ctx t) = f # k" "waits_on f = Some (MutexWaiters 0x600)"
    by (metis list.set_intros(1))
  with s(1) q wq show ?thesis by blast
qed

text \<open>
  C2. The scheduler never fails: at the head of its loop \<open>SIGALRM\<close> is blocked, no thread is running, and
  the round ends normally; in particular \<open>assert(next->state == UTH_STATE_READY)\<close> holds.
\<close>

theorem scheduler_never_fails:
  assumes "reachable (SchedTop, s)"
  shows "sigmask s \<and> uth_current s = NULL \<and> no_running s \<and> (\<exists>c s'. scheduler_round s = Ok (c, s'))"
proof -
  obtain rq wq where inv: "lib_inv s rq wq" "no_running s" "uth_current s = NULL" "sigmask s" by (rule top_inv [OF assms])
  then show ?thesis by (cases rule: scheduler_round_cases [OF inv(1,2)]) auto
qed

theorem scheduler_never_fails_witness:
  "sigmask boot_top \<and> uth_current boot_top = NULL \<and> no_running boot_top \<and> (\<exists>c s'. scheduler_round boot_top = Ok (c, s'))"
  by (rule scheduler_never_fails [OF boot_top_inv(3)])

text \<open>
  C4. A thread that is preempted continues where it was interrupted: \<open>uth_preempt_handler\<close> succeeds, puts the running thread at the tail of the run queue
  and switches to the scheduler; and the next time the thread gets the processor, whatever the scheduler and the other threads have done in between, it is in the
  frames in which \<open>SIGALRM\<close> arrived, with \<open>SIGALRM\<close> unblocked again.
\<close>

theorem preempted_thread_continues:
  assumes r: "reachable (User k, s)" and t: "tick_pending s" and x: "uth_current s = x" "x \<noteq> NULL"
    and ucp: "uc_sigmask ucp = sigmask s" "uc_frames ucp = k"
  shows "\<exists>s1. uth_preempt_handler ucp s = Ok (Switched, s1) \<and> (\<exists>rq wq. lib_inv s rq wq \<and> lib_inv s1 (rq @ [x]) wq) \<and>
     (\<forall>c2 c3. steps_off x (SchedBack, s1) c2 \<longrightarrow> step c2 c3 \<longrightarrow> on_cpu x c3 \<longrightarrow> fst c3 = User k \<and> \<not> sigmask (snd c3))"
proof -
  obtain rq wq where inv: "lib_inv s rq wq" and I: "cfg_inv (User k, s)" by (rule cfg_lib [OF r])
  obtain y where y: "runs s x y" using caller_runs [OF user_inv_caller] I x by auto
  have "ctx_ok (erase s) True x (uc_sigmask ucp) (uc_frames ucp)" using I x ucp by (simp add: user_inv_def)
  from handler_preempts [OF inv y this] obtain s1 where h: "uth_preempt_handler ucp s = Ok (Switched, s1)" "lib_inv s1 (rq @ [x]) wq" by blast
  have sus: "suspended x (ucp\<lparr>uc_fpregs := x\<rparr>) s1" by (rule tick_suspends [OF I ucp h(1)]) (use x in simp_all)
  have I1: "cfg_inv (SchedBack, s1)" using tick_inv [OF t ucp(1) _ h(1) I] ucp by simp
  have "fst c3 = User k \<and> \<not> sigmask (snd c3)" if "steps_off x (SchedBack, s1) c2" "step c2 c3" "on_cpu x c3" for c2 c3
  proof -
    have c2: "cfg_inv c2" "suspended x (ucp\<lparr>uc_fpregs := x\<rparr>) (snd c2)" "\<not> on_cpu x c2" using suspended_run [OF that(1) I1] sus x by simp_all
    show ?thesis by (rule suspended_step [OF that(2) c2 x(2)]) (use that(3) ucp t in \<open>auto simp: tick_pending_def\<close>)
  qed
  with h inv show ?thesis by blast
qed

theorem preempted_thread_continues_witness:
  "\<exists>s ucp s1 c2 c3. reachable (User [F_count_at 0 0 0x100], s) \<and> tick_pending s \<and> uth_preempt_handler ucp s = Ok (Switched, s1) \<and>
     steps_off 0x100 (SchedBack, s1) c2 \<and> step c2 c3 \<and> on_cpu 0x100 c3 \<and> fst c3 = User [F_count_at 0 0 0x100] \<and> \<not> sigmask (snd c3)"
proof -
  let ?k = "[F_count_at 0 0 0x100]" and ?off = "\<lambda>c c'. \<not> on_cpu 0x100 c'"
  let ?ucp = "ucontext0\<lparr>uc_sigmask := False, uc_frames := ?k\<rparr>"
  have "at_end scanning (\<lambda>l s. l = User ?k \<and> tick_pending s \<and> \<not> sigmask s \<and> uth_current s = 0x100 \<and>
      (case uth_preempt_handler ?ucp s of
         Ok (d, s1) \<Rightarrow> run_if ?off others_yield (SchedBack, s1) (\<lambda>c2. move_to M_sched c2 (on_cpu 0x100)) | _ \<Rightarrow> False))" by code_simp
  then obtain s d s1 where w: "reachable (User ?k, s)" "tick_pending s" "\<not> sigmask s" "uth_current s = 0x100"
      "uth_preempt_handler ?ucp s = Ok (d, s1)" "run_if ?off others_yield (SchedBack, s1) (\<lambda>c2. move_to M_sched c2 (on_cpu 0x100))"
    by (elim at_endE conjE) (auto split: res.splits)
  from w(6) obtain c2 c3 where run: "steps_off 0x100 (SchedBack, s1) c2" "step c2 c3" "on_cpu 0x100 c3"
    by (auto elim!: run_ifE move_toE simp: steps_off_def)
  from preempted_thread_continues [OF w(1,2,4), of ?ucp] w(3,5) have "uth_preempt_handler ?ucp s = Ok (Switched, s1)"
      "\<forall>c2 c3. steps_off 0x100 (SchedBack, s1) c2 \<longrightarrow> step c2 c3 \<longrightarrow> on_cpu 0x100 c3 \<longrightarrow> fst c3 = User ?k \<and> \<not> sigmask (snd c3)" by auto
  with w(1,2) run show ?thesis by blast
qed

text \<open>
  C23. \<open>uth_run\<close> returns exactly when every thread that is still allocated is a zombie: at the head of
  the scheduler loop control goes back to the caller in this case and in no other, and the caller
  has the signal mask saved in \<open>bootstrap\<close>.
\<close>

theorem run_returns_iff_all_exited:
  assumes "reachable (SchedTop, s)"
  shows "(\<exists>s'. step (SchedTop, s) (User [], s') \<and> uth_current s' = NULL \<and> sigmask s' = uc_sigmask (run_bootstrap s)) \<longleftrightarrow>
     (\<forall>x t. heap s x = Some t \<longrightarrow> tcb_state t = UTH_STATE_ZOMBIE)"
proof -
  obtain rq wq where inv: "lib_inv s rq wq" "no_running s" "uth_current s = NULL" "run_returned s" by (rule top_inv [OF assms])
  show ?thesis
  proof
    assume "\<forall>x t. heap s x = Some t \<longrightarrow> tcb_state t = UTH_STATE_ZOMBIE"
    with scheduler_break [OF inv(1)] have "scheduler_round s = Ok (SchedBreak, s)" by simp
    moreover have "uth_run_linked 0 0 s = (RunReturn, s\<lparr>sigmask := uc_sigmask (run_bootstrap s)\<rparr>)"
      using inv(4) by (simp add: uth_run_linked_def uth_run_body_def)
    ultimately have "step (SchedTop, s) (User [], s\<lparr>sigmask := uc_sigmask (run_bootstrap s)\<rparr>)" by (rule do_finish)
    with inv(3) show "\<exists>s'. step (SchedTop, s) (User [], s') \<and> uth_current s' = NULL \<and> sigmask s' = uc_sigmask (run_bootstrap s)"
      by (intro exI [of _ "s\<lparr>sigmask := uc_sigmask (run_bootstrap s)\<rparr>"]) simp
  next
    assume "\<exists>s'. step (SchedTop, s) (User [], s') \<and> uth_current s' = NULL \<and> sigmask s' = uc_sigmask (run_bootstrap s)"
    then obtain s' where st: "step (SchedTop, s) (User [], s')" and cur: "uth_current s' = NULL" by blast
    show "\<forall>x t. heap s x = Some t \<longrightarrow> tcb_state t = UTH_STATE_ZOMBIE"
    proof (cases rule: scheduler_round_cases [OF inv(1,2)])
      case (3 x rq' t s1 t')
      from st 3(4) runs_not_NULL [OF 3(5,6)] 3(6) cur show ?thesis by (auto elim!: step_topE simp: runs_def split: if_splits)
    qed (use st in \<open>auto elim!: step_topE split: if_splits\<close>)
  qed
qed

theorem run_returns_iff_all_exited_witness:
  "\<exists>s'. step (SchedTop, boot_empty) (User [], s') \<and> uth_current s' = NULL \<and> sigmask s' = uc_sigmask (run_bootstrap boot_empty)"
  using run_returns_iff_all_exited [OF boot_empty_reachable(1)] by (simp add: boot_empty_reachable(2))

text \<open>
  C22. The scheduler is fair, round robin: nobody overtakes a thread in the run queue. If a thread is at position n of the queue in a
  reachable configuration, then after k scheduling decisions with k at most n, whatever the threads did in between, it is at position n - k, and the
  decision after n others picks it.
\<close>

theorem scheduler_round_robin:
  assumes "reachable c" and "chain (snd c) RqHead rq" and "n < length rq"
  shows "(\<forall>k d. decides k c d \<longrightarrow> k \<le> n \<longrightarrow> (\<exists>rq'. chain (snd d) RqHead rq' \<and> n - k < length rq' \<and> rq' ! (n - k) = rq ! n)) \<and>
     (\<forall>d e. decides n c d \<longrightarrow> step d e \<longrightarrow> picks d e \<longrightarrow> uth_current (snd e) = rq ! n)"
proof -
  obtain wq where inv: "lib_inv (snd c) rq wq" by (rule chain_lib [of "fst c" "snd c"]) (use assms in simp_all)
  have "\<exists>rq'. chain (snd d) RqHead rq' \<and> n - k < length rq' \<and> rq' ! (n - k) = rq ! n" if "decides k c d" "k \<le> n" for k d
    using decides_position [OF that(1) assms(1) inv assms(3) that(2)] shapeD(1) [OF lib_invD(1)] by blast
  with decides_picks [OF _ assms(1) inv assms(3)] show ?thesis by blast
qed

theorem scheduler_round_robin_witness:
  "\<exists>c d e. reachable c \<and> chain (snd c) RqHead [0x100, 0x200, 0x300] \<and> decides 2 c d \<and> step d e \<and> picks d e \<and> uth_current (snd e) = 0x300"
proof -
  let ?q = "[0x100, 0x200, 0x300]"
  have "at_end (take 8 three_threads) (\<lambda>l s. chain s RqHead ?q \<and> do_picks two_turns (l, s) = 2 \<and>
      (case do_moves two_turns (l, s) of None \<Rightarrow> False | Some d \<Rightarrow> (case do_move M_sched d of None \<Rightarrow> False | Some e \<Rightarrow> picks d e)))" by code_simp
  then obtain l s where r: "reachable (l, s)" "chain s RqHead ?q" "do_picks two_turns (l, s) = 2"
      "case do_moves two_turns (l, s) of None \<Rightarrow> False | Some d \<Rightarrow> (case do_move M_sched d of None \<Rightarrow> False | Some e \<Rightarrow> picks d e)"
    by (elim at_endE conjE)
  from r(4) obtain d e where m: "do_moves two_turns (l, s) = Some d" "do_move M_sched d = Some e" "picks d e" by (auto split: option.splits)
  have d: "decides 2 (l, s) d" "step d e" using do_moves_decides [OF m(1)] r(3) do_move_step [OF m(2)] by simp_all
  have "chain (snd (l, s)) RqHead ?q" "2 < length ?q" using r(2) by simp_all
  from scheduler_round_robin [OF r(1) this] d m(3) have "uth_current (snd e) = ?q ! 2" by blast
  with r(1,2) m(3) d show ?thesis by (intro exI [of _ "(l, s)"] exI) auto
qed

text \<open>
  C24. A deadlock makes the scheduler spin: when threads are alive but none is ready, its loop repeats
  in an unchanged state, and no other step is possible, so \<open>uth_run\<close> never returns.
\<close>

theorem deadlock_spins:
  assumes r: "reachable (SchedTop, s)" and live: "heap s x = Some t" "tcb_state t \<noteq> UTH_STATE_ZOMBIE"
    and none: "\<forall>y u. heap s y = Some u \<longrightarrow> tcb_state u \<noteq> UTH_STATE_READY"
  shows "step (SchedTop, s) c \<longleftrightarrow> c = (SchedTop, s)"
proof -
  obtain rq wq where inv: "lib_inv s rq wq" "no_running s" by (rule top_inv [OF r])
  have "rq = []"
  proof (cases rq)
    case (Cons y ys)
    with shape_rq_heap [OF lib_invD(1) [OF inv(1)], of y] obtain u where u: "heap s y = Some u" by auto
    from tcb_invD(1) [OF sched_invD(2) [OF lib_invD(2) [OF inv(1)] heap_erase [OF u]]] none u Cons show ?thesis by auto
  qed simp
  with scheduler_idle [of s wq x t] inv live have "scheduler_round s = Ok (SchedContinue, s)" by simp
  from idle_spins [OF r this] show ?thesis .
qed

theorem deadlock_spins_witness:
  "\<forall>c. step (SchedTop, scheduler_swapped boot_joined) c \<longleftrightarrow> c = (SchedTop, scheduler_swapped boot_joined)"
proof -
  obtain t where t: "heap (scheduler_swapped boot_joined) 0x900 = Some t" "tcb_state t = UTH_STATE_BLOCKED"
    using boot_joined_reachable(2) by blast
  with boot_joined_reachable(3) have "\<forall>y u. heap (scheduler_swapped boot_joined) y = Some u \<longrightarrow> tcb_state u \<noteq> UTH_STATE_READY"
    by fastforce
  with t show ?thesis by (intro allI deadlock_spins [OF boot_joined_reachable(1) t(1)]) simp_all
qed

text \<open>
  C39. A second \<open>uth_join\<close> on the same thread strands the first one: \<open>uth_join\<close> overwrites \<open>target->joiner\<close>, so only the later caller is woken. There is
  a schedule of three threads after which the joined thread has ended and has been released, the first joiner is still blocked in its call, and
  the scheduler spins for ever.
\<close>

theorem second_join_strands_first:
  "\<exists>s t. reachable (SchedTop, s) \<and> heap s 0x100 = Some t \<and> tcb_state t = UTH_STATE_BLOCKED \<and> uc_frames (tcb_ctx t) = [F_join 3 False False] \<and>
     tcb_find 3 s = Ok NULL \<and> (\<forall>c. step (SchedTop, s) c \<longleftrightarrow> c = (SchedTop, s))"
proof -
  have "at_end join_twice (\<lambda>l s. l = SchedTop \<and> tcb_find 3 s = Ok NULL \<and>
      (case heap s 0x100 of None \<Rightarrow> False | Some t \<Rightarrow> tcb_state t = UTH_STATE_BLOCKED \<and> uc_frames (tcb_ctx t) = [F_join 3 False False]) \<and>
      (case scheduler_round s of Ok (c, s') \<Rightarrow> c = SchedContinue | _ \<Rightarrow> False))" by code_simp
  then obtain s where s: "reachable (SchedTop, s)" "tcb_find 3 s = Ok NULL"
      "case heap s 0x100 of None \<Rightarrow> False | Some t \<Rightarrow> tcb_state t = UTH_STATE_BLOCKED \<and> uc_frames (tcb_ctx t) = [F_join 3 False False]"
      "case scheduler_round s of Ok (c, s') \<Rightarrow> c = SchedContinue | _ \<Rightarrow> False"
    by (elim at_endE conjE) simp
  from s(4) obtain s' where "scheduler_round s = Ok (SchedContinue, s')" by (auto split: res.splits)
  from idle_spins [OF s(1) this] s(1-3) show ?thesis by (auto split: option.splits)
qed

text \<open>
  At most one thread runs: in every reachable configuration a thread in state \<open>RUNNING\<close> is
  \<open>uth_current\<close> and control is in that thread, not in the scheduler.
\<close>

lemma one_running_thread:
  assumes "reachable (l, s)" and x: "heap s x = Some t" and st: "tcb_state t = UTH_STATE_RUNNING"
  shows "x = uth_current s \<and> (\<exists>k. l = User k)"
proof -
  obtain rq wq where inv: "lib_inv s rq wq" and I: "cfg_inv (l, s)" by (rule cfg_lib [OF assms(1)])
  have "x = uth_current s"
    using tcb_invD(2) [OF sched_invD(2) [OF lib_invD(2) [OF inv] heap_erase [OF x]]] st by simp
  moreover have "\<not> no_running s" using x st by (auto simp: no_running_def)
  ultimately show ?thesis using I by (cases l) auto
qed

text \<open>
  C5. Every call of the interface gives the caller its signal mask back, also when it was suspended in between: when the caller is back in its own code for the
  first time after the call, whatever the scheduler and the other threads have done and however often \<open>SIGALRM\<close> has arrived, its mask is the one it had when it
  made the call. Only \<open>uth_exit\<close> does not return.
\<close>

theorem calls_restore_mask:
  assumes "reachable (User [], s)" and "env_ok a s" and "api_call a s = Ok (d, s1)" and "\<forall>v. a \<noteq> A_exit v"
    and "steps_in_call (uth_current s) (transfer d [], s1) (User [], s2)" and "uth_current s2 = uth_current s"
  shows "sigmask s2 = sigmask s"
proof -
  obtain rq wq where inv: "lib_inv s rq wq" and I: "cfg_inv (User [], s)" by (rule cfg_lib [OF assms(1)])
  have m: "masks_to (uth_current s) (sigmask s) (transfer d [], s1)" by (rule masks_to_call [OF I assms(2,3)]) (use assms(4) in blast)
  have "cfg_inv (transfer d [], s1)" by (rule cfg_inv_step [OF do_call [OF assms(2,3)] I])
  from masks_to_run [OF assms(5) this m] assms(6) show ?thesis by (simp add: masks_to_def)
qed

theorem calls_restore_mask_witness:
  "\<exists>s s1 s2. reachable (User [], s) \<and> api_call A_yield s = Ok (Switched, s1) \<and> sigmask s1 \<and>
     steps_in_call (uth_current s) (SchedBack, s1) (User [], s2) \<and> uth_current s2 = uth_current s \<and> sigmask s2 = sigmask s \<and> \<not> sigmask s"
proof -
  let ?ms = "others_yield @ [M_sched, M_resume]"
  have "at_end three_threads (\<lambda>l s. l = User [] \<and> uth_current s = 0x100 \<and> \<not> sigmask s \<and>
      (case api_call A_yield s of Ok (d, s1) \<Rightarrow> d = Switched \<and> sigmask s1 \<and>
         run_if (\<lambda>c c'. in_call 0x100 c) ?ms (SchedBack, s1) (\<lambda>c. fst c = User [] \<and> uth_current (snd c) = 0x100) | _ \<Rightarrow> False))" by code_simp
  then obtain s s1 where w: "reachable (User [], s)" "uth_current s = 0x100" "\<not> sigmask s" "api_call A_yield s = Ok (Switched, s1)" "sigmask s1"
      "run_if (\<lambda>c c'. in_call 0x100 c) ?ms (SchedBack, s1) (\<lambda>c. fst c = User [] \<and> uth_current (snd c) = 0x100)"
    by (elim at_endE conjE) (auto split: res.splits)
  from w(6) obtain s2 where s2: "steps_in_call 0x100 (SchedBack, s1) (User [], s2)" "uth_current s2 = 0x100"
    by (auto elim!: run_ifE simp: steps_in_call_def)
  then have run: "steps_in_call (uth_current s) (transfer Switched [], s1) (User [], s2)" using w(2) by simp
  have "sigmask s2 = sigmask s" by (rule calls_restore_mask [OF w(1) _ w(4) _ run]) (use w(2) s2(2) in simp_all)
  with w(1-5) s2 run show ?thesis by (intro exI [of _ s] exI [of _ s1] exI [of _ s2]) simp
qed



text \<open>
  C25. Thread ids identify threads for ever: in every reachable configuration no two threads share
  an id, no id is \<open>UTH_TID_INVALID\<close>, every id is below \<open>next_tid\<close>, and \<open>next_tid\<close> has not wrapped.
\<close>

theorem reachable_tids:
  assumes "reachable (l, s)"
  shows "(\<forall>x y t u. heap s x = Some t \<longrightarrow> heap s y = Some u \<longrightarrow> tcb_tid t = tcb_tid u \<longrightarrow> x = y) \<and>
     (\<forall>x t. heap s x = Some t \<longrightarrow> tcb_tid t \<noteq> UTH_TID_INVALID \<and> unat (tcb_tid t) < unat (next_tid s)) \<and>
     unat (next_tid s) = Suc (unat (tcb_count s)) \<and> unat (tcb_count s) \<le> length (tcb_table s)"
proof -
  obtain rq wq where inv: "lib_inv s rq wq" by (rule cfg_lib [OF assms])
  note ok = lib_invD(3) [OF inv]
  note T = tids_okD [OF table_okD(6) [OF ok]] and D = table_okD(1,2,4) [OF ok]
  have "\<forall>x t. heap s x = Some t \<longrightarrow> tcb_tid t \<noteq> UTH_TID_INVALID \<and> unat (tcb_tid t) < unat (next_tid s)"
    using T(2,3) D(3) by (metis less_Suc_eq_le)
  moreover have "\<forall>x y t u. heap s x = Some t \<longrightarrow> heap s y = Some u \<longrightarrow> tcb_tid t = tcb_tid u \<longrightarrow> x = y"
    using tid_unique [OF ok] by blast
  ultimately show ?thesis using D by simp
qed

theorem reachable_tids_witness:
  "\<exists>t. heap boot_thread 0x900 = Some t \<and> tcb_tid t \<noteq> UTH_TID_INVALID \<and> unat (tcb_tid t) < unat (next_tid boot_thread) \<and>
     unat (next_tid boot_thread) = Suc (unat (tcb_count boot_thread)) \<and> unat (tcb_count boot_thread) \<le> length (tcb_table boot_thread)"
proof -
  obtain t where "heap boot_thread 0x900 = Some t" using boot_thread_facts(1) by (auto simp: runs_def)
  with reachable_tids [OF boot_user_reachable(2)] show ?thesis by blast
qed

text \<open>
  C26. The searches through the thread table compute their mathematical counterparts in every reachable configuration: \<open>tcb_find\<close> is the inverse of
  the map from TCBs to their ids, with \<open>NULL\<close> for an id that no thread has; and the loop of \<open>uth_active_count\<close>, when no signal interrupts it, ends and
  returns the number of threads that are not zombies. Only if all of the \<open>2 ^ 31\<close> threads that the table can hold are alive does the \<open>int\<close> overflow. Freed
  slots of the table are skipped and no entry is dangling.
\<close>

theorem table_search_reference:
  assumes "reachable (l, s)"
  shows "(\<forall>tid x. tcb_find tid s = Ok x \<longleftrightarrow>
       (if x = NULL then \<forall>y t. heap s y = Some t \<longrightarrow> tcb_tid t \<noteq> tid else \<exists>t. heap s x = Some t \<and> tcb_tid t = tid)) \<and>
     uth_active_count s = Ok (Remains (F_count 0 0), s) \<and>
     run_open (F_count 0 0) s = (let n = int (card {x. \<exists>t. heap s x = Some t \<and> tcb_state t \<noteq> UTH_STATE_ZOMBIE}) in
       Some (if n = 2 ^ 31 then Fault SignedOverflow else Ok (Return (RetInt n), s)))"
proof -
  let ?n = "int (card {x. \<exists>t. heap s x = Some t \<and> tcb_state t \<noteq> UTH_STATE_ZOMBIE})"
  obtain rq wq where "lib_inv s rq wq" by (rule cfg_lib [OF assms])
  then have ok: "table_ok s" by (rule lib_invD(3))
  have "n \<le> 2 ^ 31 \<Longrightarrow> n \<le> INT_MAX \<longleftrightarrow> n \<noteq> 2 ^ 31" for n by (auto simp: INT_MAX_def)
  from this [OF active_threads_bound [OF ok]] have "?n \<le> INT_MAX \<longleftrightarrow> ?n \<noteq> 2 ^ 31" .
  then have "run_open (F_count 0 0) s = Some (if ?n = 2 ^ 31 then Fault SignedOverflow else Ok (Return (RetInt ?n), s))"
    using run_open_active [OF ok] by (simp add: Let_def)
  with tcb_find_correct [OF ok] show ?thesis by (simp add: uth_active_count_def Let_def)
qed

theorem table_search_reference_witness:
  "\<exists>s. reachable (User [], s) \<and> tcb_find 2 s = Ok 0x200 \<and> tcb_find UTH_TID_INVALID s = Ok NULL \<and>
     run_open (F_count 0 0) s = Some (Ok (Return (RetInt 3), s)) \<and> card {x. \<exists>t. heap s x = Some t \<and> tcb_state t \<noteq> UTH_STATE_ZOMBIE} = 3"
proof -
  have "at_end three_threads (\<lambda>l s. l = User [] \<and> (case heap s 0x200 of None \<Rightarrow> False | Some t \<Rightarrow> tcb_tid t = 2) \<and>
      (case run_open (F_count 0 0) s of Some (Ok (Return (RetInt n), s')) \<Rightarrow> n = 3 | _ \<Rightarrow> False))" by code_simp
  then obtain s t where s: "reachable (User [], s)" "heap s 0x200 = Some t" "tcb_tid t = 2"
      "case run_open (F_count 0 0) s of Some (Ok (Return (RetInt n), s')) \<Rightarrow> n = 3 | _ \<Rightarrow> False"
    by (elim at_endE conjE) (auto split: option.splits)
  obtain rq wq where "lib_inv s rq wq" by (rule cfg_lib [OF s(1)])
  then have none: "\<forall>y u. heap s y = Some u \<longrightarrow> tcb_tid u \<noteq> UTH_TID_INVALID" using tid_bounds(1) by blast
  note R = table_search_reference [OF s(1)]
  from R s(4) have "card {x. \<exists>t. heap s x = Some t \<and> tcb_state t \<noteq> UTH_STATE_ZOMBIE} = 3" by (auto split: if_splits)
  with R s(1-3) none show ?thesis by (intro exI [of _ s]) auto
qed

end
